(* ===== verification/Dyn_Prelude.thy ===== *)
theory Dyn_Prelude
  imports Main "HOL-Library.Word"
begin

text \<open>
  Shared vocabulary of the development: the machine integer types of the C sources, the
  error monad in which the fallible C functions are written, counted loops, and the list
  and word lemmas that several components use.

  A C function that can abort (\<open>longjmp\<close> in the Wasm linker, an early \<open>return false\<close>
  elsewhere) returns \<open>fault + 'a\<close>: \<open>Inl (Fail msg)\<close> is the diagnostic the code prints before
  it gives up, \<open>Inl OutOfBounds\<close> stands for a memory access outside the array the C code
  indexes (undefined behaviour in C), so that a theorem about a successful run also says that
  no such access happened.
\<close>

unbundle bit_operations_syntax

named_theorems bind_simps \<open>inversion rules for the error monad\<close>
named_theorems word_nat \<open>reading word operations as arithmetic on naturals\<close>

type_synonym u8 = "8 word"
type_synonym u16 = "16 word"
type_synonym u32 = "32 word"
type_synonym u64 = "64 word"
type_synonym bytes = "u8 list"

datatype fault = Fail string | OutOfBounds

type_synonym 'a result = "fault + 'a"

subsection \<open>The error monad\<close>

definition bind_r :: "'e + 'a \<Rightarrow> ('a \<Rightarrow> 'e + 'b) \<Rightarrow> 'e + 'b" where
  "bind_r m f = (case m of Inl e \<Rightarrow> Inl e | Inr x \<Rightarrow> f x)"

definition guard_r :: "bool \<Rightarrow> 'e \<Rightarrow> 'e + unit" where
  "guard_r b e = (if b then Inr () else Inl e)"

text \<open>An array read of the C code: outside the array it is a fault.\<close>

definition index_r :: "'a list \<Rightarrow> nat \<Rightarrow> 'a result" where
  "index_r xs i = (if i < length xs then Inr (xs ! i) else Inl OutOfBounds)"

text \<open>An array write of the C code.\<close>

definition update_r :: "'a list \<Rightarrow> nat \<Rightarrow> 'a \<Rightarrow> 'a list result" where
  "update_r xs i x = (if i < length xs then Inr (xs[i := x]) else Inl OutOfBounds)"

lemma bind_r_Inr [simp]: "bind_r (Inr x) f = f x"
  by (simp add: bind_r_def)

lemma bind_r_Inl [simp]: "bind_r (Inl e) f = Inl e"
  by (simp add: bind_r_def)

lemma bind_r_eq_Inr [bind_simps]:
  "bind_r m f = Inr y \<longleftrightarrow> (\<exists>x. m = Inr x \<and> f x = Inr y)"
  by (cases m) auto

lemma bind_r_eq_Inl:
  "bind_r m f = Inl e \<longleftrightarrow> m = Inl e \<or> (\<exists>x. m = Inr x \<and> f x = Inl e)"
  by (cases m) auto

lemma bind_r_assoc: "bind_r (bind_r m f) g = bind_r m (\<lambda>x. bind_r (f x) g)"
  by (cases m) auto

lemma bind_r_cong [fundef_cong]:
  "m = m' \<Longrightarrow> (\<And>x. m' = Inr x \<Longrightarrow> f x = f' x) \<Longrightarrow> bind_r m f = bind_r m' f'"
  by (cases m') auto

lemma guard_r_eq_Inr [bind_simps, simp]: "guard_r b e = Inr u \<longleftrightarrow> b"
  by (simp add: guard_r_def)

lemma guard_r_eq_Inl [simp]: "guard_r b e = Inl e' \<longleftrightarrow> \<not> b \<and> e' = e"
  by (auto simp: guard_r_def)

lemma guard_r_simps [simp]: "guard_r True e = Inr ()" "guard_r False e = Inl e"
  by (simp_all add: guard_r_def)

lemma index_r_eq_Inr [bind_simps, simp]: "index_r xs i = Inr x \<longleftrightarrow> i < length xs \<and> xs ! i = x"
  by (simp add: index_r_def)

lemma update_r_eq_Inr [bind_simps, simp]:
  "update_r xs i x = Inr ys \<longleftrightarrow> i < length xs \<and> ys = xs[i := x]"
  by (auto simp: update_r_def)

subsection \<open>Counted loops\<close>

text \<open>
  \<open>for_r i n body s\<close> is \<open>for (; i < n; ++i) s = body(i, s)\<close> with a body that can fail;
  \<open>many n p c\<close> fills an array of \<open>n\<close> entries, each read by \<open>p\<close> from the cursor \<open>c\<close>.
\<close>

fun for_r :: "nat \<Rightarrow> nat \<Rightarrow> (nat \<Rightarrow> 's \<Rightarrow> 'e + 's) \<Rightarrow> 's \<Rightarrow> 'e + 's" where
  "for_r i 0 body s = Inr s"
| "for_r i (Suc n) body s = bind_r (body i s) (for_r (Suc i) n body)"

fun many :: "nat \<Rightarrow> ('c \<Rightarrow> 'e + ('a \<times> 'c)) \<Rightarrow> 'c \<Rightarrow> 'e + ('a list \<times> 'c)" where
  "many 0 p c = Inr ([], c)"
| "many (Suc n) p c =
     bind_r (p c) (\<lambda>(x, c). bind_r (many n p c) (\<lambda>(xs, c). Inr (x # xs, c)))"

text \<open>A fold over a list whose step can fail.\<close>

fun fold_r :: "('x \<Rightarrow> 's \<Rightarrow> 'e + 's) \<Rightarrow> 'x list \<Rightarrow> 's \<Rightarrow> 'e + 's" where
  "fold_r body [] s = Inr s"
| "fold_r body (x # xs) s = bind_r (body x s) (fold_r body xs)"

text \<open>A function that can fail on every element of an array.\<close>

fun map_r :: "('a \<Rightarrow> 'e + 'b) \<Rightarrow> 'a list \<Rightarrow> 'e + 'b list" where
  "map_r g [] = Inr []"
| "map_r g (x # xs) = bind_r (g x) (\<lambda>y. bind_r (map_r g xs) (\<lambda>ys. Inr (y # ys)))"

lemma map_r_all:
  "map_r g xs = Inr ys \<Longrightarrow> (\<And>x y. g x = Inr y \<Longrightarrow> P y) \<Longrightarrow> \<forall>y \<in> set ys. P y"
  by (induction xs arbitrary: ys) (auto simp: bind_simps)

lemma map_r_length: "map_r g xs = Inr ys \<Longrightarrow> length ys = length xs"
  by (induction xs arbitrary: ys) (auto simp: bind_simps)

lemma for_r_fold: "for_r i n body s = fold_r body [i..<i + n] s"
proof (induction n arbitrary: i s)
  case (Suc n)
  have "[i..<i + Suc n] = i # [Suc i..<Suc i + n]"
    by (simp add: upt_conv_Cons del: upt_Suc)
  moreover have "for_r (Suc i) n body = fold_r body [Suc i..<Suc i + n]"
    by (rule ext) (rule Suc)
  ultimately show ?case by (simp only: for_r.simps fold_r.simps)
qed simp

lemma fold_r_append: "fold_r body (xs @ ys) s = bind_r (fold_r body xs s) (fold_r body ys)"
proof (induction xs arbitrary: s)
  case (Cons x xs)
  then show ?case by (simp add: bind_r_assoc fun_eq_iff cong: bind_r_cong)
qed simp

lemma many_length: "many n p c = Inr (xs, c') \<Longrightarrow> length xs = n"
  by (induction n arbitrary: c xs c') (auto simp: bind_simps split: prod.splits)

text \<open>An invariant of the loop state is kept by the whole loop.\<close>

lemma fold_r_invariant:
  assumes "fold_r body xs s = Inr s'" and "I s"
    and "\<And>x s s'. x \<in> set xs \<Longrightarrow> I s \<Longrightarrow> body x s = Inr s' \<Longrightarrow> I s'"
  shows "I s'"
  using assms by (induction xs arbitrary: s) (auto simp: bind_simps)

text \<open>The same with an invariant that speaks of the loop counter.\<close>

lemma for_r_index:
  assumes "for_r i n body s = Inr s'" and "I i s"
    and "\<And>k s s'. i \<le> k \<Longrightarrow> k < i + n \<Longrightarrow> I k s \<Longrightarrow> body k s = Inr s' \<Longrightarrow> I (Suc k) s'"
  shows "I (i + n) s'"
  using assms
proof (induction n arbitrary: i s)
  case (Suc n)
  then obtain t where t: "body i s = Inr t" and rest: "for_r (Suc i) n body t = Inr s'"
    by (auto simp: bind_simps)
  have "I (Suc i) t" by (rule Suc.prems(3) [OF _ _ Suc.prems(2) t]) simp_all
  moreover have "I (Suc k) s'" if "Suc i \<le> k" "k < Suc i + n" "I k s" "body k s = Inr s'" for k s s'
    by (rule Suc.prems(3) [OF _ _ that(3,4)]) (use that in simp_all)
  ultimately have "I (Suc i + n) s'" by (intro Suc.IH [OF rest])
  then show ?case by simp
qed simp

lemma many_all:
  assumes "many n p c = Inr (xs, c')" and "J c"
    and "\<And>c x c'. J c \<Longrightarrow> p c = Inr (x, c') \<Longrightarrow> P x \<and> J c'"
  shows "list_all P xs \<and> J c'"
  using assms(1,2)
proof (induction n arbitrary: c xs)
  case (Suc n)
  then obtain x c1 ys where step: "p c = Inr (x, c1)"
    and rest: "many n p c1 = Inr (ys, c')" and xs: "xs = x # ys"
    by (auto simp: bind_simps split: prod.splits)
  from assms(3)[OF Suc.prems(2) step] have "P x" and "J c1" by auto
  with Suc.IH[OF rest] xs show ?case by simp
qed simp

subsection \<open>Runs without a memory fault\<close>

text \<open>
  \<open>ok m Q\<close>: the computation may stop with a diagnostic, but it never reads out of bounds, and if
  it returns then its result satisfies \<open>Q\<close>. The rules push \<open>ok\<close> through the monad, the loop
  rules ask for an invariant.
\<close>

definition ok :: "'a result \<Rightarrow> ('a \<Rightarrow> bool) \<Rightarrow> bool" where
  "ok m Q \<longleftrightarrow> (case m of Inl e \<Rightarrow> e \<noteq> OutOfBounds | Inr x \<Rightarrow> Q x)"

lemma ok_simps [simp]:
  "ok (Inr x) Q = Q x" "ok (Inl (Fail s)) Q" "\<not> ok (Inl OutOfBounds) Q"
  "ok (bind_r m f) Q = ok m (\<lambda>x. ok (f x) Q)"
  "ok (index_r xs i) P \<longleftrightarrow> i < length xs \<and> P (xs ! i)"
  "ok (update_r xs i v) R \<longleftrightarrow> i < length xs \<and> R (xs[i := v])"
  by (auto simp: ok_def bind_r_def index_r_def update_r_def split: sum.splits)

lemma ok_mono: "ok m P \<Longrightarrow> (\<And>x. P x \<Longrightarrow> Q x) \<Longrightarrow> ok m Q"
  by (auto simp: ok_def split: sum.splits)

lemma ok_no_fault: "ok m Q \<Longrightarrow> m \<noteq> Inl OutOfBounds"
  by (auto simp: ok_def)

lemma okD: "ok m Q \<Longrightarrow> m = Inr x \<Longrightarrow> Q x"
  by (simp add: ok_def)

lemma ok_fold:
  assumes "I s" and "\<And>x s. x \<in> set xs \<Longrightarrow> I s \<Longrightarrow> ok (body x s) I" and "\<And>s. I s \<Longrightarrow> Q s"
  shows "ok (fold_r body xs s) Q"
  using assms(1,2)
proof (induction xs arbitrary: s)
  case Nil
  from assms(3) [OF Nil(1)] show ?case by simp
next
  case (Cons x xs)
  have "ok (body x s) I" by (rule Cons.prems(2)) (simp_all add: Cons.prems(1))
  then show ?case unfolding fold_r.simps ok_simps
  proof (rule ok_mono)
    fix s' assume I: "I s'"
    show "ok (fold_r body xs s') Q"
      by (rule Cons.IH [OF I], rule Cons.prems(2), simp)
  qed
qed

lemma ok_for:
  assumes "I s" and "\<And>k s. i \<le> k \<Longrightarrow> k < i + n \<Longrightarrow> I s \<Longrightarrow> ok (body k s) I"
    and "\<And>s. I s \<Longrightarrow> Q s"
  shows "ok (for_r i n body s) Q"
  unfolding for_r_fold
proof (rule ok_fold [of I, OF assms(1) _ assms(3)])
  fix k s assume k: "k \<in> set [i..<i + n]" and I: "I s"
  from k have "i \<le> k" "k < i + n" by auto
  then show "ok (body k s) I" by (rule assms(2) [OF _ _ I])
qed

text \<open>The same with an invariant that speaks of the loop counter.\<close>

lemma ok_for_index:
  assumes "I i s" and "\<And>k s. i \<le> k \<Longrightarrow> k < i + n \<Longrightarrow> I k s \<Longrightarrow> ok (body k s) (I (Suc k))"
    and "\<And>s. I (i + n) s \<Longrightarrow> Q s"
  shows "ok (for_r i n body s) Q"
  using assms
proof (induction n arbitrary: i s)
  case (Suc n)
  have "ok (body i s) (I (Suc i))" by (rule Suc.prems(2) [OF _ _ Suc.prems(1)]) simp_all
  then show ?case unfolding for_r.simps ok_simps
  proof (rule ok_mono)
    fix s' assume I: "I (Suc i) s'"
    show "ok (for_r (Suc i) n body s') Q"
    proof (rule Suc.IH [OF I])
      show "ok (body k s) (I (Suc k))" if "Suc i \<le> k" "k < Suc i + n" "I k s" for k s
        by (rule Suc.prems(2) [OF _ _ that(3)]) (use that in simp_all)
      show "Q s" if "I (Suc i + n) s" for s using that Suc.prems(3) by simp
    qed
  qed
qed simp

lemma ok_many:
  assumes "J c" and "\<And>c. J c \<Longrightarrow> ok (p c) (\<lambda>(x, c'). P x \<and> J c')"
    and "\<And>xs c'. length xs = n \<Longrightarrow> list_all P xs \<Longrightarrow> J c' \<Longrightarrow> Q (xs, c')"
  shows "ok (many n p c) Q"
  using assms(1,3)
proof (induction n arbitrary: c Q)
  case 0
  then show ?case by simp
next
  case (Suc n)
  show ?case unfolding many.simps ok_simps
  proof (rule ok_mono [OF assms(2) [OF Suc.prems(1)]], clarify)
    fix x c' assume x: "P x" "J c'"
    show "ok (bind_r (many n p c') (\<lambda>(xs, c). Inr (x # xs, c))) Q"
      unfolding ok_simps
      by (rule Suc.IH [OF x(2)]) (auto intro!: Suc.prems(2) simp: x(1))
  qed
qed

subsection \<open>Strings as bytes\<close>

text \<open>A C string literal as the bytes the program compares.\<close>

definition cstr :: "string \<Rightarrow> bytes" where
  "cstr s = map of_char s"

lemma cstr_simps [simp]: "cstr [] = []" "cstr (c # s) = of_char c # cstr s"
  by (simp_all add: cstr_def)

text \<open>The digits of \<open>%u\<close> in a message.\<close>

fun show_nat :: "nat \<Rightarrow> string" where
  "show_nat n = (if n < 10 then [char_of (48 + n)] else show_nat (n div 10) @ [char_of (48 + n mod 10)])"

declare show_nat.simps [simp del]

definition has_prefix :: "'a list \<Rightarrow> 'a list \<Rightarrow> bool" where
  "has_prefix p xs \<longleftrightarrow> take (length p) xs = p"

subsection \<open>Words\<close>

lemma unat_drop_bit [word_nat]: "unat (drop_bit n (w :: 'a::len word)) = unat w div 2 ^ n"
  by (simp only: unat_drop_bit_eq) (simp only: drop_bit_eq_div)

lemma unat_take_bit [word_nat]: "unat (take_bit n (w :: 'a::len word)) = unat w mod 2 ^ n"
  using unsigned_take_bit_eq [of n w, where 'a = nat] by (simp only: take_bit_eq_mod [of n "unat w"])

lemma unat_and_mask [word_nat]: "unat ((w :: 'a::len word) AND mask n) = unat w mod 2 ^ n"
  by (simp only: take_bit_eq_mask [symmetric] unat_take_bit)

lemma mask_7: "(127 :: 'a::len word) = mask 7"
  by (simp add: mask_eq_exp_minus_1)

lemma unat_drop_bit_less:
  assumes "drop_bit k (w :: 'a::len word) \<noteq> 0" and "0 < k"
  shows "unat (drop_bit k w) < unat w"
proof -
  from assms(1) have "unat w div 2 ^ k \<noteq> 0"
    by (metis unat_drop_bit unat_eq_zero)
  then have "0 < unat w" by (cases "unat w = 0") auto
  then show ?thesis
    using assms(2) one_less_power [of "2 :: nat" k]
    by (simp only: unat_drop_bit) (rule div_less_dividend, simp_all)
qed

text \<open>
  The simplifier reads the bits of a word numeral off the integer numeral; these rules finish
  the job for the masks the encoders use.
\<close>

lemma bit_int_masks [simp]:
  "bit (64 :: int) n \<longleftrightarrow> n = 6"  "bit (128 :: int) n \<longleftrightarrow> n = 7"  "bit (127 :: int) n \<longleftrightarrow> n < 7"
  using bit_exp_iff [of 6 n, where 'a = int] bit_exp_iff [of 7 n, where 'a = int]
    bit_mask_iff [of 7 n, where 'a = int]
  by (auto simp: mask_eq_exp_minus_1 simp del: bit_mask_iff)

lemma bit_int_112 [simp]: "bit (112 :: int) n \<longleftrightarrow> 4 \<le> n \<and> n < 7"
  using bit_push_bit_iff_int [of 4 "mask 3" n] bit_mask_iff [of 3 "n - 4", where 'a = int]
  by (auto simp: mask_eq_exp_minus_1 push_bit_eq_mult simp del: bit_mask_iff)

lemma bit_less_if_unat_less:
  assumes "unat (w :: 'a::len word) < 2 ^ k" and "bit w m"
  shows "m < k"
proof -
  have "w = take_bit k w"
    using assms(1) by (intro word_unat_eq_iff [THEN iffD2]) (simp add: word_nat)
  with assms(2) show ?thesis by (metis bit_take_bit_iff)
qed

lemma and_exp_eq_0_iff:
  "w AND 64 = 0 \<longleftrightarrow> \<not> bit (w :: u8) 6"  "w AND 128 = 0 \<longleftrightarrow> \<not> bit (w :: u8) 7"
  "v AND 64 = 0 \<longleftrightarrow> \<not> bit (v :: u32) 6"
  using and_exp_eq_0_iff_not_bit [of w 6] and_exp_eq_0_iff_not_bit [of w 7]
    and_exp_eq_0_iff_not_bit [of v 6] by simp_all

lemma and_127_or_shift: "(n AND 127) OR push_bit 7 (drop_bit 7 n) = (n :: u32)"
  by (rule bit_word_eqI)
    (auto simp: bit_and_iff bit_or_iff bit_push_bit_iff bit_drop_bit_eq,
      metis le_add_diff_inverse not_less)

lemma or_shift_7:
  "(a OR push_bit k (n AND 127)) OR push_bit (7 + k) (drop_bit 7 n) = a OR push_bit k (n :: u32)"
proof -
  have "push_bit k (n AND 127) OR push_bit (7 + k) (drop_bit 7 n) =
      push_bit k ((n AND 127) OR push_bit 7 (drop_bit 7 n))"
    by (simp only: push_bit_or push_bit_push_bit add.commute)
  then show ?thesis by (simp only: and_127_or_shift or.assoc)
qed

lemma unat_less_64: "unat (x :: u64) < 2 ^ 64"
  using unsigned_less [of x, where 'a = nat] by simp

lemma unat_less_32: "unat (x :: u32) < 2 ^ 32"
  using unsigned_less [of x, where 'a = nat] by simp

text \<open>Widening keeps the value.\<close>

lemma unat_ucast_up:
  assumes "LENGTH('a::len) \<le> LENGTH('b::len)"
  shows "unat (ucast (w :: 'a word) :: 'b word) = unat w"
proof -
  have "unat w < 2 ^ LENGTH('a)" by (rule unsigned_less)
  also have "\<dots> \<le> 2 ^ LENGTH('b)" using assms by simp
  finally show ?thesis by (simp only: unsigned_ucast_eq take_bit_nat_eq_self)
qed

lemma unat_ucast_widen [simp]:
  "unat (ucast (a :: u8) :: u32) = unat a" "unat (ucast (a :: u8) :: u64) = unat a"
  "unat (ucast (b :: u16) :: u32) = unat b" "unat (ucast (b :: u16) :: u64) = unat b"
  "unat (ucast (c :: u32) :: u64) = unat c"
  by (rule unat_ucast_up, simp)+

lemma unat_max: "unat (- 1 :: u64) = 2 ^ 64 - 1" "unat (- 1 :: u32) = 2 ^ 32 - 1"
  by (simp_all add: unsigned_minus_1_eq_mask mask_eq_exp_minus_1)

lemma unat_and_not_mask [word_nat]:
  "unat ((x :: 'a::len word) AND NOT (mask n)) = unat x div 2 ^ n * 2 ^ n"
proof -
  have "x = (x AND NOT (mask n)) + (x AND mask n)"
    by (subst disjunctive_add) (auto simp: bit_simps intro: bit_word_eqI)
  then have split: "x AND NOT (mask n) = x - (x AND mask n)" by (simp add: eq_diff_eq)
  have "x AND mask n \<le> x" by (rule word_and_le2)
  then have "unat (x AND NOT (mask n)) = unat x - unat x mod 2 ^ n"
    by (simp only: split unat_sub unat_and_mask)
  then show ?thesis by (simp add: minus_mod_eq_div_mult)
qed

lemma unat_exp: "n < LENGTH('a) \<Longrightarrow> unat (2 ^ n :: 'a::len word) = 2 ^ n"
  using unat_of_nat [of "2 ^ n", where 'a = 'a] by simp

lemma unat_ucast_down: "unat (ucast (w :: 'a::len word) :: 'b::len word) = unat w mod 2 ^ LENGTH('b)"
  by (simp only: unsigned_ucast_eq take_bit_eq_mod)

subsection \<open>Overflow tests\<close>

text \<open>The ways the C code asks whether a 64-bit operation would wrap, read on naturals.\<close>

lemma unat_complement: "unat (- 1 - x :: u64) = 2 ^ 64 - 1 - unat x"
  by (subst unat_sub) (simp_all add: unat_max)

lemma add_wraps_iff: "- 1 - (b :: u64) < a \<longleftrightarrow> 2 ^ 64 \<le> unat a + unat b"
  using unat_less_64 [of b] by (simp add: word_less_nat_alt unat_complement) linarith

lemma div_less_iff_nat:
  assumes "0 < (l :: nat)"
  shows "n div l < m \<longleftrightarrow> n < m * l"
  using assms by (simp add: div_less_iff_less_mult)

lemma mul_wraps_iff: "a \<noteq> 0 \<and> (- 1) div a < b \<longleftrightarrow> 2 ^ 64 \<le> unat (a :: u64) * unat b"
proof (cases "a = 0")
  case False
  then have "0 < unat a" by (simp add: unat_gt_0)
  then have "unat ((- 1) div a) < unat b \<longleftrightarrow> 2 ^ 64 - 1 < unat b * unat a"
    by (simp only: unat_div unat_max div_less_iff_nat)
  then show ?thesis using False by (simp add: word_less_nat_alt mult.commute) linarith
qed simp

lemma shl_wraps_iff: "drop_bit n (- 1) < a \<longleftrightarrow> 2 ^ 64 \<le> unat (a :: u64) * 2 ^ n"
proof -
  have "unat (drop_bit n (- 1 :: u64)) < unat a \<longleftrightarrow> 2 ^ 64 - 1 < unat a * 2 ^ n"
    by (simp only: unat_drop_bit unat_max div_less_iff_nat [of "2 ^ n"] zero_less_power zero_less_numeral)
  then show ?thesis by (simp add: word_less_nat_alt) linarith
qed

lemma unat_push_bit:
  assumes "unat (a :: u64) * 2 ^ n < 2 ^ 64"
  shows "unat (push_bit n a) = unat a * 2 ^ n"
proof -
  have "push_bit n a = word_of_nat (unat a * 2 ^ n)" by (simp add: push_bit_eq_mult)
  then have "unat (push_bit n a) = unat a * 2 ^ n mod 2 ^ LENGTH(64)" by (simp only: unat_of_nat)
  then show ?thesis using assms by simp
qed

end
