(* ===== verification/Wasm_Leb.thy ===== *)
theory Wasm_Leb
  imports Dyn_Prelude
begin

text \<open>
  The buffers, cursors and LEB128 integers of the built-in WebAssembly linker
  (\<open>src/src/link_wasm.c\<close>, lines 14-202).

  A \<open>Buf\<close> is the list of bytes written so far (its capacity is an allocation detail); a
  \<open>Read\<close> is a cursor \<open>[rd_p, rd_end)\<close> of offsets into the bytes of one file, so a C pointer
  into the file is an offset. Reading past the end of the cursor is the linker's diagnostic
  \<open>truncated object\<close>; reading past the end of the file itself would be a fault.
\<close>

unbundle bit_operations_syntax

subsection \<open>Data\<close>

type_synonym buf = bytes

record read =
  rd_p :: nat
  rd_end :: nat

subsection \<open>Writing\<close>

definition put :: "buf \<Rightarrow> bytes \<Rightarrow> buf" where
  "put b p = b @ p"

definition byte :: "buf \<Rightarrow> u32 \<Rightarrow> buf" where
  "byte b v = put b [ucast v]"

text \<open>\<open>do { c = n & 127; n >>= 7; byte(c | (n ? 128 : 0)); } while (n);\<close>\<close>

function uleb :: "buf \<Rightarrow> u32 \<Rightarrow> buf" where
  "uleb b n =
     (let c = n AND 127; n' = drop_bit 7 n;
          b' = byte b (c OR (if n' \<noteq> 0 then 128 else 0))
      in if n' \<noteq> 0 then uleb b' n' else b')"
  by pat_completeness auto
termination
proof (relation "measure (\<lambda>(b, n). unat n)")
  fix b :: buf and n c n' :: u32 and b'
  assume n': "n' = drop_bit 7 n" and nz: "n' \<noteq> 0"
  then have "unat n' < unat n" using unat_drop_bit_less [of 7 n] by simp
  then show "((b', n'), (b, n)) \<in> measure (\<lambda>(b, n). unat n)" by simp
qed simp

declare uleb.simps [simp del]

text \<open>The signed form: \<open>>>\<close> on an \<open>int32_t\<close> is the arithmetic shift.\<close>

function sleb :: "buf \<Rightarrow> u32 \<Rightarrow> buf" where
  "sleb b n =
     (let c = n AND 127; n' = signed_drop_bit 7 n;
          more = (\<not> ((n' = 0 \<and> c AND 64 = 0) \<or> (n' = - 1 \<and> c AND 64 \<noteq> 0)));
          b' = byte b (c OR (if more then 128 else 0))
      in if more then sleb b' n' else b')"
  by pat_completeness auto
termination
proof (relation "measure (\<lambda>(b, n). nat \<bar>2 * sint n + 1\<bar>)")
  fix b b' :: buf and n c n' :: u32 and more
  assume c: "c = n AND 127" and n': "n' = signed_drop_bit 7 n"
    and more: "more = (\<not> ((n' = 0 \<and> c AND 64 = 0) \<or> (n' = - 1 \<and> c AND 64 \<noteq> 0)))" and "more"
  have s: "sint n' = sint n div 128"
    by (simp add: n' sint_signed_drop_bit_eq drop_bit_eq_div)
  have "sint n \<noteq> 0"
  proof
    assume "sint n = 0"
    then have "n = 0" by (metis signed_0 signed_word_eqI)
    then show False using \<open>more\<close> by (simp add: more n' c)
  qed
  moreover have "sint n \<noteq> - 1"
  proof
    assume "sint n = - 1"
    then have "n = - 1" by (metis signed_minus_1 signed_word_eqI)
    then show False using \<open>more\<close> by (simp add: more n' c)
  qed
  ultimately have "\<bar>2 * sint n' + 1\<bar> < \<bar>2 * sint n + 1\<bar>"
    using div_mult_mod_eq [of "sint n" 128] pos_mod_bound [of 128 "sint n"]
      pos_mod_sign [of 128 "sint n"] unfolding s by (auto simp: abs_if)
  then show "((b', n'), (b, n)) \<in> measure (\<lambda>(b, n). nat \<bar>2 * sint n + 1\<bar>)" by simp
qed simp

declare sleb.simps [simp del]

subsection \<open>Reading\<close>

definition get_w :: "bytes \<Rightarrow> read \<Rightarrow> (u8 \<times> read) result" where
  "get_w f r =
     (if rd_p r = rd_end r then Inl (Fail ''truncated object'')
      else bind_r (index_r f (rd_p r)) (\<lambda>c. Inr (c, r\<lparr>rd_p := rd_p r + 1\<rparr>)))"

function number_loop :: "bytes \<Rightarrow> read \<Rightarrow> nat \<Rightarrow> u32 \<Rightarrow> (u32 \<times> read) result" where
  "number_loop f r i n =
     (if i < 5 then
        bind_r (get_w f r) (\<lambda>(c, r).
          if i = 4 \<and> c AND 0x70 \<noteq> 0 then Inl (Fail ''invalid u32 LEB'')
          else let n = n OR push_bit (7 * i) (ucast (c AND 127)) in
            if c AND 128 = 0 then Inr (n, r) else number_loop f r (Suc i) n)
      else Inl (Fail ''invalid LEB''))"
  by pat_completeness auto
termination by (relation "measure (\<lambda>(f, r, i, n). 5 - i)") auto

declare number_loop.simps [simp del]

definition number :: "bytes \<Rightarrow> read \<Rightarrow> (u32 \<times> read) result" where
  "number f r = number_loop f r 0 0"

function signed_loop :: "bytes \<Rightarrow> read \<Rightarrow> nat \<Rightarrow> u32 \<Rightarrow> (u8 \<times> nat \<times> u32 \<times> read) result" where
  "signed_loop f r shift n =
     (if shift \<ge> 35 then Inl (Fail ''invalid signed LEB'')
      else bind_r (get_w f r) (\<lambda>(c, r).
        let n = n OR push_bit shift (ucast (c AND 127)); shift = shift + 7
        in if c AND 128 \<noteq> 0 then signed_loop f r shift n else Inr (c, shift, n, r)))"
  by pat_completeness auto
termination by (relation "measure (\<lambda>(f, r, shift, n). 35 - shift)") auto

declare signed_loop.simps [simp del]

definition signed_number :: "bytes \<Rightarrow> read \<Rightarrow> (u32 \<times> read) result" where
  "signed_number f r =
     bind_r (signed_loop f r 0 0) (\<lambda>(c, shift, n, r).
       Inr (if shift < 32 \<and> c AND 64 \<noteq> 0 then n OR push_bit shift (- 1) else n, r))"

definition take_w :: "read \<Rightarrow> nat \<Rightarrow> (nat \<times> read) result" where
  "take_w r n =
     (if n > rd_end r - rd_p r then Inl (Fail ''truncated object'')
      else Inr (rd_p r, r\<lparr>rd_p := rd_p r + n\<rparr>))"

text \<open>The bytes a pointer and a length denote.\<close>

definition slice :: "bytes \<Rightarrow> nat \<Rightarrow> nat \<Rightarrow> bytes" where
  "slice f p n = take n (drop p f)"

definition name_w :: "bytes \<Rightarrow> read \<Rightarrow> (bytes \<times> read) result" where
  "name_w f r =
     bind_r (number f r) (\<lambda>(n, r).
     bind_r (take_w r (unat n)) (\<lambda>(p, r).
     let s = slice f p (unat n) in
       if 0 \<in> set s then Inl (Fail ''NUL in symbol name'') else Inr (s, r)))"

subsection \<open>Strings and sections\<close>

definition string_w :: "buf \<Rightarrow> bytes \<Rightarrow> buf result" where
  "string_w b s =
     (if int (length s) > 2 ^ 32 - 1 then Inl (Fail ''name too long'')
      else Inr (put (uleb b (of_nat (length s))) s))"

definition section_w :: "buf \<Rightarrow> u32 \<Rightarrow> buf \<Rightarrow> buf result" where
  "section_w b sid body =
     (if int (length body) > 2 ^ 32 - 1 then Inl (Fail ''section too large'')
      else Inr (put (uleb (byte b sid) (of_nat (length body))) body))"

subsection \<open>Buffers only grow\<close>

lemma byte_append: "byte (a @ b) v = a @ byte b v"
  by (simp add: byte_def put_def)

lemma uleb_append_left: "uleb (a @ b) n = a @ uleb b n"
proof (induction b n rule: uleb.induct)
  case (1 b n)
  then show ?case
    by (subst (1 2) uleb.simps) (simp add: Let_def byte_append)
qed

lemma uleb_append: "uleb b n = b @ uleb [] n"
  using uleb_append_left [of b "[]"] by simp

lemma sleb_append_left: "sleb (a @ b) n = a @ sleb b n"
proof (induction b n rule: sleb.induct)
  case (1 b n)
  then show ?case
    by (subst (1 2) sleb.simps) (simp add: Let_def byte_append)
qed

lemma sleb_append: "sleb b n = b @ sleb [] n"
  using sleb_append_left [of b "[]"] by simp

subsection \<open>Bytes at an offset\<close>

text \<open>\<open>bytes_at f p bs\<close>: the file holds \<open>bs\<close> from offset \<open>p\<close> on.\<close>

fun bytes_at :: "bytes \<Rightarrow> nat \<Rightarrow> bytes \<Rightarrow> bool" where
  "bytes_at f p [] \<longleftrightarrow> True"
| "bytes_at f p (c # bs) \<longleftrightarrow> p < length f \<and> f ! p = c \<and> bytes_at f (Suc p) bs"

lemma bytes_at_slice: "bytes_at f p bs \<longleftrightarrow> slice f p (length bs) = bs"
proof (induction bs arbitrary: p)
  case (Cons c bs)
  have "slice f p (length (c # bs)) = c # bs \<longleftrightarrow>
      p < length f \<and> f ! p = c \<and> slice f (Suc p) (length bs) = bs"
    by (cases "p < length f") (auto simp: slice_def Cons_nth_drop_Suc [symmetric])
  with Cons show ?case by simp
qed (simp add: slice_def)

lemma bytes_at_append:
  "bytes_at f p (xs @ ys) \<longleftrightarrow> bytes_at f p xs \<and> bytes_at f (p + length xs) ys"
  by (induction xs arbitrary: p) auto

lemma bytes_at_here: "bytes_at (pre @ bs @ post) (length pre) bs"
  by (simp add: bytes_at_slice slice_def)

lemma get_w_at:
  "p < length f \<Longrightarrow> p < e \<Longrightarrow>
   get_w f \<lparr>rd_p = p, rd_end = e\<rparr> = Inr (f ! p, \<lparr>rd_p = Suc p, rd_end = e\<rparr>)"
  by (simp add: get_w_def index_r_def)

subsection \<open>Unsigned round trip\<close>

lemma number_loop_uleb:
  assumes "bytes_at f p (uleb [] n)" and "p + length (uleb [] n) \<le> e"
    and "i < 5" and "unat n < 2 ^ (32 - 7 * i)"
  shows "number_loop f \<lparr>rd_p = p, rd_end = e\<rparr> i acc =
    Inr (acc OR push_bit (7 * i) n, \<lparr>rd_p = p + length (uleb [] n), rd_end = e\<rparr>)"
  using assms
proof (induction "unat n" arbitrary: n p i acc rule: less_induct)
  case less
  let ?n' = "drop_bit 7 n :: u32"
  let ?c = "ucast (n AND 127 OR (if ?n' \<noteq> 0 then 128 else 0)) :: u8"
  have low: "ucast (?c AND 127) = n AND 127"
    by (rule bit_word_eqI) (auto simp: bit_simps)
  have high: "?c AND 128 = 0 \<longleftrightarrow> ?n' = 0"
    by (auto simp: and_exp_eq_0_iff bit_simps)
  have bytes: "uleb [] n = ?c # (if ?n' \<noteq> 0 then uleb [] ?n' else [])"
    by (subst uleb.simps) (simp add: Let_def byte_def put_def uleb_append [of "[_]"])
  have small: "?c AND 0x70 = 0" if "i = 4"
  proof -
    have "\<not> bit n m" if "4 \<le> m" for m
      using that \<open>i = 4\<close> less.prems(4) bit_less_if_unat_less [of n 4 m] by fastforce
    then show ?thesis by (intro bit_word_eqI) (auto simp: bit_simps)
  qed
  show ?case
  proof (cases "?n' = 0")
    case True
    have "push_bit 7 ?n' = 0" using True by simp
    then have "n AND 127 = n" using and_127_or_shift [of n] by simp
    with True less.prems bytes small low high show ?thesis
      by (subst number_loop.simps) (simp add: get_w_at Let_def)
  next
    case False
    then have fewer: "unat ?n' < unat n" by (intro unat_drop_bit_less) auto
    have i: "i \<noteq> 4"
    proof
      assume "i = 4"
      with less.prems(4) have "unat ?n' = 0" by (simp add: word_nat)
      with False show False by (simp add: unat_eq_zero)
    qed
    have "unat n < 2 ^ (32 - 7 * Suc i) * 128"
    proof -
      have "32 - 7 * i = (32 - 7 * Suc i) + 7" using less.prems(3) i by auto
      with less.prems(4) show ?thesis by (simp only: power_add) simp
    qed
    then have n': "unat ?n' < 2 ^ (32 - 7 * Suc i)"
      by (simp add: word_nat less_mult_imp_div_less)
    have at: "bytes_at f (Suc p) (uleb [] ?n')" and len: "Suc p + length (uleb [] ?n') \<le> e"
      using less.prems(1,2) bytes False by simp_all
    have "Suc i < 5" using i less.prems(3) by simp
    from less.hyps [OF fewer at len this n'] False less.prems bytes small low high
    show ?thesis
      by (subst number_loop.simps) (simp add: get_w_at Let_def or_shift_7 del: push_bit_and)
  qed
qed

lemma number_uleb:
  assumes "bytes_at f p (uleb [] n)" and "p + length (uleb [] n) \<le> e"
  shows "number f \<lparr>rd_p = p, rd_end = e\<rparr> =
    Inr (n, \<lparr>rd_p = p + length (uleb [] n), rd_end = e\<rparr>)"
  using number_loop_uleb [OF assms, of 0 0] unat_less_32 [of n] by (simp add: number_def)

subsection \<open>Signed round trip\<close>

text \<open>
  \<open>sign_from m k\<close>: from bit \<open>k\<close> on, every bit of \<open>m\<close> is its sign bit. The encoder stops as soon
  as this holds from bit 6, and a 32-bit value loses seven bits per byte, so five bytes are
  always enough.
\<close>

definition sign_from :: "u32 \<Rightarrow> nat \<Rightarrow> bool" where
  "sign_from m k \<longleftrightarrow> (\<forall>j. k \<le> j \<and> j < 32 \<longrightarrow> bit m j = bit m 31)"

lemma sign_fromD: "sign_from m k \<Longrightarrow> k \<le> j \<Longrightarrow> j < 32 \<Longrightarrow> bit m j = bit m 31"
  unfolding sign_from_def by blast

lemma sign_fromI: "(\<And>j. k \<le> j \<Longrightarrow> j < 32 \<Longrightarrow> bit m j = bit m 31) \<Longrightarrow> sign_from m k"
  unfolding sign_from_def by blast

lemma bit_signed_drop_bit_7:
  "k < 32 \<Longrightarrow> bit (signed_drop_bit 7 (m :: u32)) k \<longleftrightarrow> bit m (min 31 (k + 7))"
proof -
  assume "k < 32"
  then have "(if LENGTH(32) - 7 \<le> k \<and> k < LENGTH(32) then LENGTH(32) - 1 else 7 + k) = min 31 (k + 7)"
    by auto
  then show ?thesis by (simp only: bit_signed_drop_bit_iff)
qed

lemma signed_drop_bit_7_eq:
  "signed_drop_bit 7 m = (if b then - 1 else 0) \<longleftrightarrow>
   (\<forall>j. 7 \<le> j \<and> j < 32 \<longrightarrow> bit (m :: u32) j = b)"
proof
  assume eq: "signed_drop_bit 7 m = (if b then - 1 else 0)"
  have "bit m j = b" if "7 \<le> j" "j < 32" for j
  proof -
    have "min 31 (j - 7 + 7) = j" and "j - 7 < 32" using that by auto
    then have "bit m j = bit (signed_drop_bit 7 m) (j - 7)"
      by (simp only: bit_signed_drop_bit_7)
    also have "\<dots> = b"
      unfolding eq using \<open>j - 7 < 32\<close> by (cases b) (simp_all add: bit_minus_1_iff)
    finally show ?thesis .
  qed
  then show "\<forall>j. 7 \<le> j \<and> j < 32 \<longrightarrow> bit m j = b" by blast
next
  assume "\<forall>j. 7 \<le> j \<and> j < 32 \<longrightarrow> bit m j = b"
  then show "signed_drop_bit 7 m = (if b then - 1 else 0)"
    by (intro bit_word_eqI) (auto simp: bit_signed_drop_bit_7)
qed

lemma sleb_stops_iff:
  "(signed_drop_bit 7 m = 0 \<and> (m AND 127) AND 64 = 0) \<or>
   (signed_drop_bit 7 m = - 1 \<and> (m AND 127) AND 64 \<noteq> 0) \<longleftrightarrow> sign_from m 6"
proof -
  have sign: "sign_from m 6 \<longleftrightarrow> (\<forall>j. 7 \<le> j \<and> j < 32 \<longrightarrow> bit m j = bit m 6)"
  proof
    assume 6: "sign_from m 6"
    have "bit m j = bit m 6" if "7 \<le> j" "j < 32" for j
      using sign_fromD [OF 6, of j] sign_fromD [OF 6, of 6] that by simp
    then show "\<forall>j. 7 \<le> j \<and> j < 32 \<longrightarrow> bit m j = bit m 6" by blast
  next
    assume "\<forall>j. 7 \<le> j \<and> j < 32 \<longrightarrow> bit m j = bit m 6"
    then have "bit m j = bit m 31" if "6 \<le> j \<and> j < 32" for j
      using that by (cases "j = 6") auto
    then show "sign_from m 6" unfolding sign_from_def by blast
  qed
  show ?thesis
    unfolding sign signed_drop_bit_7_eq [of m "bit m 6", symmetric]
    by (auto simp: and_exp_eq_0_iff bit_simps)
qed

lemma sleb_bytes:
  "sleb [] m = (if sign_from m 6 then [ucast (m AND 127)]
     else ucast (m AND 127 OR 128) # sleb [] (signed_drop_bit 7 m))"
  using sleb_stops_iff [of m]
  by (subst sleb.simps) (auto simp: Let_def byte_def put_def sleb_append [of "[_]"])

lemma signed_loop_sleb:
  assumes "bytes_at f p (sleb [] m)" and "p + length (sleb [] m) \<le> e"
    and "7 dvd shift" and "shift \<le> 28" and "sign_from m (31 - shift)"
  shows "\<exists>c sh n. signed_loop f \<lparr>rd_p = p, rd_end = e\<rparr> shift acc =
      Inr (c, sh, n, \<lparr>rd_p = p + length (sleb [] m), rd_end = e\<rparr>) \<and>
    (bit c 6 \<longleftrightarrow> bit m 31) \<and> shift + 7 \<le> sh \<and> sign_from m (sh - shift - 1) \<and>
    (\<forall>k < 32. bit n k \<longleftrightarrow> bit acc k \<or> shift \<le> k \<and> k < sh \<and> bit m (k - shift))"
  using assms
proof (induction "35 - shift" arbitrary: m p shift acc rule: less_induct)
  case less
  let ?m' = "signed_drop_bit 7 m" and ?acc' = "acc OR push_bit shift (m AND 127)"
  have acc': "bit ?acc' k \<longleftrightarrow> bit acc k \<or> shift \<le> k \<and> k < shift + 7 \<and> bit m (k - shift)"
    if "k < 32" for k using that by (auto simp: bit_or_iff bit_push_bit_iff bit_and_iff)
  show ?case
  proof (cases "sign_from m 6")
    case True
    let ?c = "ucast (m AND 127) :: u8"
    have high: "?c AND 128 = 0" by (simp add: and_exp_eq_0_iff bit_simps)
    have low: "ucast (?c AND 127) = m AND 127" by (rule bit_word_eqI) (auto simp: bit_simps)
    have bytes: "sleb [] m = [?c]" using True by (simp add: sleb_bytes [of m])
    have loop: "signed_loop f \<lparr>rd_p = p, rd_end = e\<rparr> shift acc =
        Inr (?c, shift + 7, ?acc', \<lparr>rd_p = Suc p, rd_end = e\<rparr>)"
      using less.prems(1,2,4) unfolding bytes
      by (subst signed_loop.simps) (simp add: get_w_at Let_def high low del: push_bit_and)
    have "bit ?c 6 \<longleftrightarrow> bit m 31" using sign_fromD [OF True, of 6] by (simp add: bit_simps)
    with loop acc' True bytes show ?thesis
      by (intro exI [of _ ?c] exI [of _ "shift + 7"] exI [of _ ?acc']) simp
  next
    case False
    let ?c = "ucast (m AND 127 OR 128) :: u8"
    have high: "?c AND 128 \<noteq> 0" by (simp add: and_exp_eq_0_iff bit_simps)
    have low: "ucast (?c AND 127) = m AND 127" by (rule bit_word_eqI) (auto simp: bit_simps)
    have bytes: "sleb [] m = ?c # sleb [] ?m'" using False by (simp add: sleb_bytes [of m])
    have "shift \<noteq> 28"
    proof
      assume "shift = 28"
      then have "sign_from m 6"
        by (intro sign_fromI, intro sign_fromD [OF less.prems(5)]) simp_all
      with False show False ..
    qed
    then have shift: "shift \<le> 21" using less.prems(3,4) by presburger
    have m31: "bit ?m' 31 = bit m 31" by (simp add: bit_signed_drop_bit_7)
    have "sign_from ?m' (31 - (shift + 7))"
    proof (rule sign_fromI)
      fix j assume "31 - (shift + 7) \<le> j" "j < 32"
      then show "bit ?m' j = bit ?m' 31"
        unfolding m31 using shift
        by (simp add: bit_signed_drop_bit_7) (rule sign_fromD [OF less.prems(5)], auto)
    qed
    moreover have "bytes_at f (Suc p) (sleb [] ?m')" "Suc p + length (sleb [] ?m') \<le> e"
      using less.prems(1,2) unfolding bytes by simp_all
    moreover have "35 - (shift + 7) < 35 - shift" "7 dvd shift + 7" "shift + 7 \<le> 28"
      using shift less.prems(3) by simp_all
    ultimately obtain c sh n where rec: "signed_loop f \<lparr>rd_p = Suc p, rd_end = e\<rparr> (shift + 7) ?acc' =
        Inr (c, sh, n, \<lparr>rd_p = Suc p + length (sleb [] ?m'), rd_end = e\<rparr>)"
      and c: "bit c 6 \<longleftrightarrow> bit ?m' 31" and sh: "shift + 7 + 7 \<le> sh"
      and sign: "sign_from ?m' (sh - (shift + 7) - 1)"
      and n: "\<forall>k < 32. bit n k \<longleftrightarrow>
        bit ?acc' k \<or> shift + 7 \<le> k \<and> k < sh \<and> bit ?m' (k - (shift + 7))"
      using less.hyps [of "shift + 7" "Suc p" ?m' ?acc'] by blast
    have "signed_loop f \<lparr>rd_p = p, rd_end = e\<rparr> shift acc =
        Inr (c, sh, n, \<lparr>rd_p = p + length (sleb [] m), rd_end = e\<rparr>)"
      using less.prems(1,2,4) rec unfolding bytes
      by (subst signed_loop.simps) (simp add: get_w_at Let_def high low del: push_bit_and)
    moreover have "sign_from m (sh - shift - 1)"
    proof (rule sign_fromI)
      fix j assume j: "sh - shift - 1 \<le> j" "j < 32"
      then have "min 31 (j - 7 + 7) = j" and "j - 7 < 32" using sh by auto
      then have "bit ?m' (j - 7) = bit m j" by (simp only: bit_signed_drop_bit_7)
      with sign_fromD [OF sign, of "j - 7"] j sh m31 show "bit m j = bit m 31" by simp
    qed
    moreover have "bit n k \<longleftrightarrow> bit acc k \<or> shift \<le> k \<and> k < sh \<and> bit m (k - shift)" if "k < 32" for k
    proof (cases "shift + 7 \<le> k")
      case True
      then have "min 31 (k - (shift + 7) + 7) = k - shift" using that by simp
      with True that n acc' [OF that] show ?thesis by (simp add: bit_signed_drop_bit_7)
    next
      case False
      with that n acc' [OF that] sh show ?thesis by auto
    qed
    ultimately show ?thesis using c m31 sh
      by (intro exI [of _ c] exI [of _ sh] exI [of _ n]) simp
  qed
qed

lemma signed_number_sleb:
  assumes "bytes_at f p (sleb [] m)" and "p + length (sleb [] m) \<le> e"
  shows "signed_number f \<lparr>rd_p = p, rd_end = e\<rparr> =
    Inr (m, \<lparr>rd_p = p + length (sleb [] m), rd_end = e\<rparr>)"
proof -
  have "sign_from m (31 - 0)"
  proof (rule sign_fromI)
    fix j :: nat assume "31 - 0 \<le> j" "j < 32"
    then have "j = 31" by simp
    then show "bit m j = bit m 31" by simp
  qed
  from signed_loop_sleb [OF assms _ _ this, of 0]
  obtain c sh n where loop: "signed_loop f \<lparr>rd_p = p, rd_end = e\<rparr> 0 0 =
      Inr (c, sh, n, \<lparr>rd_p = p + length (sleb [] m), rd_end = e\<rparr>)"
    and c: "bit c 6 \<longleftrightarrow> bit m 31" and sh: "7 \<le> sh" and sign: "sign_from m (sh - 1)"
    and n: "\<forall>k < 32. bit n k \<longleftrightarrow> k < sh \<and> bit m k"
    by auto
  let ?r = "if sh < 32 \<and> c AND 64 \<noteq> 0 then n OR push_bit sh (- 1) else n"
  have "bit ?r k = bit m k" if k: "k < 32" for k
  proof (cases "k < sh")
    case True
    then show ?thesis using n k by (simp add: bit_or_iff bit_not_iff bit_mask_iff)
  next
    case False
    then have "bit m k = bit m 31" using sign_fromD [OF sign, of k] k by simp
    with False n k c show ?thesis
      by (simp add: bit_or_iff bit_not_iff bit_mask_iff and_exp_eq_0_iff)
  qed
  then have "?r = m" by (intro bit_word_eqI) simp
  with loop show ?thesis by (simp add: signed_number_def)
qed

end
