(* ===== verification/Wasm_Object.thy ===== *)
theory Wasm_Object
  imports Wasm_Leb
begin

text \<open>
  The object reader of the built-in WebAssembly linker (\<open>src/src/link_wasm.c\<close>, lines 14-80 and
  200-467): \<open>parse\<close> turns the bytes of one relocatable object into an \<open>Object\<close>, interning its
  function types in the link-wide type table.

  Arrays with a count are lists, so \<open>nt\<close>, \<open>nf\<close>, \<open>ng\<close>, \<open>nd\<close>, \<open>ny\<close>, \<open>ne\<close>, \<open>ni\<close> and \<open>ns\<close> are the
  lengths of the lists; a pointer into the object's bytes is an offset into \<open>file\<close>; the bytes of
  a type or of a global initialiser, which no later step overwrites, are copied. \<open>bodies\<close> is
  \<open>None\<close> for the null pointer. Kinds are read from one byte and kept as one byte.

  The C function \<open>parse\<close> is split at its section cases: one definition per case, composed by
  \<open>parse_section\<close> (the first loop over sections), \<open>parse_custom\<close> (the second one),
  \<open>check_symbol\<close> (the third loop) and \<open>parse\<close> itself.
\<close>

unbundle bit_operations_syntax

subsection \<open>Data\<close>

record section_t =
  sec_id :: u8
  sec_p :: nat
  sec_n :: nat

record import_t =
  im_module :: bytes
  im_name :: bytes
  im_kind :: u8
  im_type :: u32

record symbol =
  sy_name :: "bytes option"
  sy_kind :: u8
  sy_flags :: u32
  sy_index :: u32
  sy_offset :: u32
  sy_size :: u32
  sy_value :: u32
  sy_type :: u32

record segment =
  seg_p :: nat
  seg_n :: u32
  seg_alignment :: u32
  seg_address :: u32

record export_t =
  ex_name :: bytes
  ex_kind :: u8
  ex_index :: u32

record object =
  o_file :: bytes
  o_sections :: "section_t list"
  o_imports :: "import_t list"
  o_nfimp :: u32
  o_ngimp :: u32
  o_types :: "u32 list"
  o_functions :: "u32 list"
  o_fmap :: "u32 list"
  o_gmap :: "u32 list"
  o_globals :: "bytes list"
  o_data :: "segment list"
  o_symbols :: "symbol list"
  o_exports :: "export_t list"
  o_bodies :: "nat list option"
  o_sizes :: "u32 list"

record link =
  l_objects :: "object list"
  l_types :: "bytes list"
  l_imports :: "import_t list"
  l_allowed :: "bytes list"
  l_wasi :: bool
  l_exports :: "export_t list"

text \<open>\<open>Object o = {0}\<close> with the file set, and the zeroed entries of \<open>calloc\<close>.\<close>

definition empty_object :: "bytes \<Rightarrow> object" where
  "empty_object f = \<lparr>o_file = f, o_sections = [], o_imports = [], o_nfimp = 0, o_ngimp = 0,
     o_types = [], o_functions = [], o_fmap = [], o_gmap = [], o_globals = [], o_data = [],
     o_symbols = [], o_exports = [], o_bodies = None, o_sizes = []\<rparr>"

definition empty_symbol :: symbol where
  "empty_symbol = \<lparr>sy_name = None, sy_kind = 0, sy_flags = 0, sy_index = 0, sy_offset = 0,
     sy_size = 0, sy_value = 0, sy_type = 0\<rparr>"

text \<open>The text of a name in a diagnostic (\<open>%s\<close>; the C library prints a null pointer as below).\<close>

definition text_of :: "bytes \<Rightarrow> string" where
  "text_of bs = map (\<lambda>c. char_of (unat c)) bs"

definition text_of_name :: "bytes option \<Rightarrow> string" where
  "text_of_name n = (case n of None \<Rightarrow> ''(null)'' | Some bs \<Rightarrow> text_of bs)"

definition reader :: "section_t \<Rightarrow> read" where
  "reader s = \<lparr>rd_p = sec_p s, rd_end = sec_p s + sec_n s\<rparr>"

subsection \<open>Small readers\<close>

fun import_at_loop :: "import_t list \<Rightarrow> u8 \<Rightarrow> u32 \<Rightarrow> import_t result" where
  "import_at_loop [] kind index = Inl (Fail ''invalid imported symbol index'')"
| "import_at_loop (im # ims) kind index =
     (if im_kind im = kind then
        if index = 0 then Inr im else import_at_loop ims kind (index - 1)
      else import_at_loop ims kind index)"

definition import_at :: "object \<Rightarrow> u8 \<Rightarrow> u32 \<Rightarrow> import_t result" where
  "import_at obj kind index = import_at_loop (o_imports obj) kind index"

definition checked_count :: "bytes \<Rightarrow> read \<Rightarrow> nat \<Rightarrow> (u32 \<times> read) result" where
  "checked_count f r sz =
     bind_r (number f r) (\<lambda>(n, r).
       if unat n > (rd_end r - rd_p r) + 1 \<or> uint n > (2 ^ 64 - 1) div int sz
       then Inl (Fail ''invalid vector count'') else Inr (n, r))"

definition limits :: "bytes \<Rightarrow> read \<Rightarrow> read result" where
  "limits f r =
     bind_r (number f r) (\<lambda>(flags, r).
     if flags > 1 then Inl (Fail ''shared/memory64 limits unsupported'')
     else bind_r (number f r) (\<lambda>(_, r).
       if flags AND 1 \<noteq> 0 then bind_r (number f r) (\<lambda>(_, r). Inr r) else Inr r))"

text \<open>\<open>while (get(l, r) & 128) if (++n > 9) fail(...)\<close>\<close>

function constant_bytes :: "bytes \<Rightarrow> read \<Rightarrow> nat \<Rightarrow> read result" where
  "constant_bytes f r n =
     bind_r (get_w f r) (\<lambda>(c, r).
       if c AND 128 \<noteq> 0 then
         if n + 1 > 9 then Inl (Fail ''invalid constant'') else constant_bytes f r (n + 1)
       else Inr r)"
  by pat_completeness auto
termination by (relation "measure (\<lambda>(f, r, n). 9 - n)") auto

declare constant_bytes.simps [simp del]

definition expression :: "bytes \<Rightarrow> read \<Rightarrow> read result" where
  "expression f r =
     bind_r (get_w f r) (\<lambda>(opc, r).
     bind_r
       (if opc = 0x41 \<or> opc = 0x42 then constant_bytes f r 0
        else if opc = 0x43 then bind_r (take_w r 4) (\<lambda>(_, r). Inr r)
        else if opc = 0x44 then bind_r (take_w r 8) (\<lambda>(_, r). Inr r)
        else Inl (Fail ''unsupported global initializer'')) (\<lambda>r.
     bind_r (get_w f r) (\<lambda>(c, r).
       if c \<noteq> 0xb then Inl (Fail ''unsupported initializer expression'') else Inr r)))"

subsection \<open>Cursors only advance\<close>

text \<open>
  \<open>advances r r'\<close>: the cursor moved forward inside its window; every reader of the linker
  satisfies it, which is what bounds the loops that read until the window is empty.
\<close>

definition advances :: "read \<Rightarrow> read \<Rightarrow> bool" where
  "advances r r' \<longleftrightarrow> rd_end r' = rd_end r \<and> rd_p r \<le> rd_p r' \<and>
     (rd_p r \<le> rd_end r \<longrightarrow> rd_p r' \<le> rd_end r')"

lemma advances_refl [simp, intro]: "advances r r"
  by (simp add: advances_def)

lemma advances_trans [trans]: "advances r s \<Longrightarrow> advances s t \<Longrightarrow> advances r t"
  by (auto simp: advances_def)

named_theorems moves \<open>every reader advances its cursor\<close>

lemma get_w_moves [moves]: "get_w f r = Inr (c, r') \<Longrightarrow> advances r r'"
  by (auto simp: get_w_def advances_def bind_simps split: if_splits)

lemma get_w_progress: "get_w f r = Inr (c, r') \<Longrightarrow> rd_p r' = Suc (rd_p r)"
  by (auto simp: get_w_def bind_simps split: if_splits)

lemma take_w_moves [moves]: "take_w r n = Inr (p, r') \<Longrightarrow> advances r r'"
  by (auto simp: take_w_def advances_def split: if_splits)

lemma number_loop_moves: "number_loop f r i n = Inr (v, r') \<Longrightarrow> advances r r' \<and> rd_p r < rd_p r'"
proof (induction f r i n rule: number_loop.induct)
  case (1 f r i n)
  from "1.prems" obtain c r1 where i: "i < 5" and g: "get_w f r = Inr (c, r1)"
    and ok: "\<not> (i = 4 \<and> c AND 0x70 \<noteq> 0)"
    and rest: "r' = r1 \<or> number_loop f r1 (Suc i) (n OR push_bit (7 * i) (ucast (c AND 127))) = Inr (v, r')"
      "r' = r1 \<or> c AND 128 \<noteq> 0"
    by (subst (asm) number_loop.simps)
      (auto simp: bind_simps Let_def split: if_splits)
  from get_w_moves [OF g] get_w_progress [OF g]
  have step: "advances r r1" "rd_p r < rd_p r1" by auto
  show ?case
  proof (cases "r' = r1")
    case False
    with rest have "advances r1 r' \<and> rd_p r1 < rd_p r'"
      using "1.IH" [OF i g refl] ok by auto
    with step show ?thesis using advances_trans by fastforce
  qed (use step in auto)
qed

lemma number_moves [moves]: "number f r = Inr (v, r') \<Longrightarrow> advances r r'"
  and number_progress: "number f r = Inr (v, r') \<Longrightarrow> rd_p r < rd_p r'"
  using number_loop_moves [of f r 0 0 v r'] by (auto simp: number_def)

lemma signed_loop_moves: "signed_loop f r s n = Inr (c, s', v, r') \<Longrightarrow> advances r r'"
proof (induction f r s n rule: signed_loop.induct)
  case (1 f r s n)
  from "1.prems" obtain d r1 where s: "\<not> 35 \<le> s" and g: "get_w f r = Inr (d, r1)"
    and rest: "r' = r1 \<or> d AND 128 \<noteq> 0 \<and>
      signed_loop f r1 (s + 7) (n OR push_bit s (ucast (d AND 127))) = Inr (c, s', v, r')"
    by (subst (asm) signed_loop.simps) (auto simp: bind_simps Let_def split: if_splits)
  from get_w_moves [OF g] have step: "advances r r1" .
  from rest show ?case
    using "1.IH" [OF s g refl refl refl] step advances_trans by auto
qed

lemma signed_number_moves [moves]: "signed_number f r = Inr (v, r') \<Longrightarrow> advances r r'"
  by (auto simp: signed_number_def bind_simps split: if_splits dest: signed_loop_moves)

lemma name_w_moves [moves]: "name_w f r = Inr (v, r') \<Longrightarrow> advances r r'"
  by (auto simp: name_w_def bind_simps Let_def split: if_splits
      dest!: number_moves take_w_moves intro: advances_trans)

subsection \<open>Sections\<close>

text \<open>
  The first loop of \<open>parse\<close>. \<open>cap\<close> is the capacity of the section array; writing beyond it
  would be out of bounds (it never happens: \<open>read_sections_fits\<close> below).
\<close>

function read_sections :: "bytes \<Rightarrow> nat \<Rightarrow> read \<Rightarrow> section_t list \<Rightarrow> section_t list result" where
  "read_sections f cap r ss =
     (if rd_p r < rd_end r then
        bind_r (get_w f r) (\<lambda>(sid, r).
        bind_r (number f r) (\<lambda>(n, r).
        bind_r (take_w r (unat n)) (\<lambda>(p, r).
          if length ss < cap
          then read_sections f cap r (ss @ [\<lparr>sec_id = sid, sec_p = p, sec_n = unat n\<rparr>])
          else Inl OutOfBounds)))
      else Inr ss)"
  by pat_completeness auto
termination
proof (relation "measure (\<lambda>(f, cap, r, ss). rd_end r - rd_p r)", simp, clarify)
  fix f :: bytes and r c r1 n r2 p r3
  assume "rd_p r < rd_end r" "get_w f r = Inr (c, r1)" "number f r1 = Inr (n, r2)"
    "take_w r2 (unat n) = Inr (p, r3)"
  then have "rd_end r3 - rd_p r3 < rd_end r - rd_p r"
    using get_w_moves [of f r c r1] get_w_progress [of f r c r1] number_moves [of f r1 n r2]
      take_w_moves [of r2 "unat n" p r3]
    by (auto simp: advances_def)
  then show "((f, cap, r3, ss), f, cap, r, ss') \<in> measure (\<lambda>(f, cap, r, ss). rd_end r - rd_p r)"
    for cap ss ss' by simp
qed

declare read_sections.simps [simp del]

subsection \<open>Type section\<close>

text \<open>The index of the first equal type, or the number of types.\<close>

fun find_type :: "bytes list \<Rightarrow> bytes \<Rightarrow> nat" where
  "find_type [] t = 0"
| "find_type (u # us) t = (if u = t then 0 else Suc (find_type us t))"

definition intern_type :: "bytes list \<Rightarrow> bytes \<Rightarrow> nat \<times> bytes list" where
  "intern_type ts t =
     (let at = find_type ts t in (at, if at = length ts then ts @ [t] else ts))"

definition parse_type ::
  "bytes \<Rightarrow> nat \<Rightarrow> bytes list \<times> u32 list \<times> read \<Rightarrow> (bytes list \<times> u32 list \<times> read) result" where
  "parse_type f i = (\<lambda>(ltypes, otypes, r).
     let start = rd_p r in
     bind_r (get_w f r) (\<lambda>(c, r).
     if c \<noteq> 0x60 then Inl (Fail ''unsupported function type'')
     else
       bind_r (number f r) (\<lambda>(k, r).
       bind_r (take_w r (unat k)) (\<lambda>(_, r).
       bind_r (number f r) (\<lambda>(k, r).
       bind_r (take_w r (unat k)) (\<lambda>(_, r).
         let (at, ltypes) = intern_type ltypes (slice f start (rd_p r - start))
         in Inr (ltypes, otypes @ [of_nat at], r)))))))"

definition parse_types :: "u32 \<Rightarrow> read \<Rightarrow> link \<times> object \<Rightarrow> (link \<times> object) result" where
  "parse_types n r = (\<lambda>(l, obj).
     bind_r (for_r 0 (unat n) (parse_type (o_file obj)) (l_types l, [], r)) (\<lambda>(ltypes, otypes, r).
       Inr (l\<lparr>l_types := ltypes\<rparr>, obj\<lparr>o_types := otypes\<rparr>)))"

subsection \<open>Import section\<close>

definition parse_import ::
  "bytes \<Rightarrow> nat \<Rightarrow> import_t list \<times> u32 \<times> u32 \<times> read \<Rightarrow> (import_t list \<times> u32 \<times> u32 \<times> read) result" where
  "parse_import f i = (\<lambda>(ims, nfimp, ngimp, r).
     bind_r (name_w f r) (\<lambda>(m, r).
     bind_r (name_w f r) (\<lambda>(nm, r).
     bind_r (get_w f r) (\<lambda>(kind, r).
     let im = \<lparr>im_module = m, im_name = nm, im_kind = kind, im_type = 0\<rparr> in
     if kind = 0 then
       bind_r (number f r) (\<lambda>(ty, r). Inr (ims @ [im\<lparr>im_type := ty\<rparr>], nfimp + 1, ngimp, r))
     else if kind = 1 then
       bind_r (get_w f r) (\<lambda>(c, r).
       if c \<noteq> 0x70 then Inl (Fail ''unsupported table type'')
       else bind_r (limits f r) (\<lambda>r. Inr (ims @ [im], nfimp, ngimp, r)))
     else if kind = 2 then
       bind_r (limits f r) (\<lambda>r. Inr (ims @ [im], nfimp, ngimp, r))
     else if kind = 3 then
       bind_r (get_w f r) (\<lambda>(ty, r).
       bind_r (get_w f r) (\<lambda>(c, r).
       if c > 1 then Inl (Fail ''invalid global mutability'')
       else Inr (ims @ [im\<lparr>im_type := ucast ty\<rparr>], nfimp, ngimp + 1, r)))
     else Inl (Fail ''unsupported import kind'')))))"

definition parse_imports :: "u32 \<Rightarrow> read \<Rightarrow> link \<times> object \<Rightarrow> (link \<times> object) result" where
  "parse_imports n r = (\<lambda>(l, obj).
     bind_r (for_r 0 (unat n) (parse_import (o_file obj)) ([], o_nfimp obj, o_ngimp obj, r))
       (\<lambda>(ims, nfimp, ngimp, r).
         Inr (l, obj\<lparr>o_imports := ims, o_nfimp := nfimp, o_ngimp := ngimp\<rparr>)))"

subsection \<open>Function, global, export, code and data sections\<close>

definition parse_functions :: "u32 \<Rightarrow> read \<Rightarrow> link \<times> object \<Rightarrow> (link \<times> object) result" where
  "parse_functions n r = (\<lambda>(l, obj).
     bind_r (many (unat n) (number (o_file obj)) r) (\<lambda>(fns, r).
       Inr (l, obj\<lparr>o_functions := fns\<rparr>)))"

definition parse_global :: "bytes \<Rightarrow> read \<Rightarrow> (bytes \<times> read) result" where
  "parse_global f r =
     (let p = rd_p r in
      bind_r (take_w r 2) (\<lambda>(_, r).
      bind_r (expression f r) (\<lambda>r. Inr (slice f p (rd_p r - p), r))))"

definition parse_globals :: "u32 \<Rightarrow> read \<Rightarrow> link \<times> object \<Rightarrow> (link \<times> object) result" where
  "parse_globals n r = (\<lambda>(l, obj).
     bind_r (many (unat n) (parse_global (o_file obj)) r) (\<lambda>(gs, r).
       Inr (l, obj\<lparr>o_globals := gs\<rparr>)))"

definition parse_export :: "bytes \<Rightarrow> read \<Rightarrow> (export_t \<times> read) result" where
  "parse_export f r =
     bind_r (name_w f r) (\<lambda>(nm, r).
     bind_r (get_w f r) (\<lambda>(kind, r).
     bind_r (number f r) (\<lambda>(index, r).
       Inr (\<lparr>ex_name = nm, ex_kind = kind, ex_index = index\<rparr>, r))))"

definition parse_exports :: "u32 \<Rightarrow> read \<Rightarrow> link \<times> object \<Rightarrow> (link \<times> object) result" where
  "parse_exports n r = (\<lambda>(l, obj).
     bind_r (many (unat n) (parse_export (o_file obj)) r) (\<lambda>(es, r).
       Inr (l, obj\<lparr>o_exports := es\<rparr>)))"

definition parse_body :: "bytes \<Rightarrow> read \<Rightarrow> ((u32 \<times> nat) \<times> read) result" where
  "parse_body f r =
     bind_r (number f r) (\<lambda>(sz, r).
     bind_r (take_w r (unat sz)) (\<lambda>(p, r). Inr ((sz, p), r)))"

definition parse_code :: "u32 \<Rightarrow> read \<Rightarrow> link \<times> object \<Rightarrow> (link \<times> object) result" where
  "parse_code n r = (\<lambda>(l, obj).
     if unat n \<noteq> length (o_functions obj) then Inl (Fail ''function/code count mismatch'')
     else bind_r (many (unat n) (parse_body (o_file obj)) r) (\<lambda>(bs, r).
       Inr (l, obj\<lparr>o_bodies := Some (map snd bs), o_sizes := map fst bs\<rparr>)))"

definition parse_segment :: "bytes \<Rightarrow> read \<Rightarrow> (segment \<times> read) result" where
  "parse_segment f r =
     bind_r (number f r) (\<lambda>(flags, r).
     bind_r
       (if flags = 2 then
          bind_r (number f r) (\<lambda>(m, r).
            if m \<noteq> 0 then Inl (Fail ''multiple memories unsupported'') else Inr r)
        else if flags > 1 then Inl (Fail ''invalid data segment'')
        else Inr r) (\<lambda>r.
     bind_r (if flags \<noteq> 1 then expression f r else Inr r) (\<lambda>r.
     bind_r (number f r) (\<lambda>(n, r).
     bind_r (take_w r (unat n)) (\<lambda>(p, r).
       Inr (\<lparr>seg_p = p, seg_n = n, seg_alignment = 0, seg_address = 0\<rparr>, r))))))"

definition parse_data :: "u32 \<Rightarrow> read \<Rightarrow> link \<times> object \<Rightarrow> (link \<times> object) result" where
  "parse_data n r = (\<lambda>(l, obj).
     bind_r (many (unat n) (parse_segment (o_file obj)) r) (\<lambda>(ds, r).
       Inr (l, obj\<lparr>o_data := ds\<rparr>)))"

text \<open>One iteration of the first loop over the sections.\<close>

definition parse_section :: "section_t \<Rightarrow> link \<times> object \<Rightarrow> (link \<times> object) result" where
  "parse_section s = (\<lambda>(l, obj).
     if sec_id s = 0 \<or> sec_id s = 12 then Inr (l, obj)
     else
       bind_r (checked_count (o_file obj) (reader s) 1) (\<lambda>(n, r).
       if sec_id s = 1 then parse_types n r (l, obj)
       else if sec_id s = 2 then parse_imports n r (l, obj)
       else if sec_id s = 3 then parse_functions n r (l, obj)
       else if sec_id s = 6 then parse_globals n r (l, obj)
       else if sec_id s = 7 then parse_exports n r (l, obj)
       else if sec_id s = 10 then parse_code n r (l, obj)
       else if sec_id s = 11 then parse_data n r (l, obj)
       else if sec_id s = 8 \<or> sec_id s = 13
         then Inl (Fail ''start/tag sections unsupported in objects'')
       else Inr (l, obj)))"

subsection \<open>Linking metadata\<close>

text \<open>One entry of the segment information (subsection 5).\<close>

definition parse_segment_info ::
  "bytes \<Rightarrow> nat \<Rightarrow> segment list \<times> read \<Rightarrow> (segment list \<times> read) result" where
  "parse_segment_info f i = (\<lambda>(ds, r).
     bind_r (name_w f r) (\<lambda>(_, r).
     bind_r (number f r) (\<lambda>(al, r).
     bind_r (index_r ds i) (\<lambda>d.
     if al > 30 then Inl (Fail ''invalid segment alignment'')
     else
       bind_r (number f r) (\<lambda>(flags, r).
       if flags AND 2 \<noteq> 0 then Inl (Fail ''TLS unsupported'')
       else Inr (ds[i := d\<lparr>seg_alignment := al\<rparr>], r))))))"

text \<open>One entry of the symbol table (subsection 8).\<close>

definition parse_symbol :: "object \<Rightarrow> read \<Rightarrow> (symbol \<times> read) result" where
  "parse_symbol obj r =
     (let f = o_file obj in
      bind_r (get_w f r) (\<lambda>(kind, r).
      bind_r (number f r) (\<lambda>(flags, r).
      let y = empty_symbol\<lparr>sy_kind := kind, sy_flags := flags\<rparr> in
      if flags AND 3 = 3 \<or> flags AND 0x100 \<noteq> 0
        then Inl (Fail ''common/TLS symbols unsupported'')
      else if kind = 1 then
        bind_r (name_w f r) (\<lambda>(nm, r).
        let y = y\<lparr>sy_name := Some nm\<rparr> in
        if flags AND 16 = 0 then
          bind_r (number f r) (\<lambda>(index, r).
          bind_r (number f r) (\<lambda>(offset, r).
          bind_r (number f r) (\<lambda>(sz, r).
          if unat index \<ge> length (o_data obj) then Inl (Fail ''invalid data symbol'')
          else
            bind_r (index_r (o_data obj) (unat index)) (\<lambda>d.
            if offset > seg_n d \<or> sz > seg_n d - offset then Inl (Fail ''invalid data symbol'')
            else Inr (y\<lparr>sy_index := index, sy_offset := offset, sy_size := sz\<rparr>, r)))))
        else Inr (y, r))
      else if kind = 3 then
        bind_r (number f r) (\<lambda>(index, r). Inr (y\<lparr>sy_index := index\<rparr>, r))
      else if kind = 0 \<or> kind = 2 \<or> kind = 5 then
        bind_r (number f r) (\<lambda>(index, r).
        let y = y\<lparr>sy_index := index\<rparr> in
        if flags AND 16 = 0 \<or> flags AND 64 \<noteq> 0 then
          bind_r (name_w f r) (\<lambda>(nm, r). Inr (y\<lparr>sy_name := Some nm\<rparr>, r))
        else
          bind_r (import_at obj (if kind = 2 then 3 else if kind = 5 then 1 else 0) index) (\<lambda>im.
            Inr (y\<lparr>sy_name := Some (im_name im)\<rparr>, r)))
      else Inl (Fail ''unsupported symbol kind''))))"

definition parse_subsection :: "u8 \<Rightarrow> read \<Rightarrow> object \<Rightarrow> object result" where
  "parse_subsection kind sub obj =
     (let f = o_file obj in
      if kind = 5 then
        bind_r (number f sub) (\<lambda>(count, sub).
        if unat count \<noteq> length (o_data obj) then Inl (Fail ''segment metadata mismatch'')
        else
          bind_r (for_r 0 (unat count) (parse_segment_info f) (o_data obj, sub)) (\<lambda>(ds, sub).
            Inr (obj\<lparr>o_data := ds\<rparr>)))
      else if kind = 8 then
        bind_r (checked_count f sub 40) (\<lambda>(ny, sub).
        bind_r (many (unat ny) (parse_symbol obj) sub) (\<lambda>(ys, sub).
          Inr (obj\<lparr>o_symbols := ys\<rparr>)))
      else if kind = 6 then
        bind_r (number f sub) (\<lambda>(n, sub).
        if n \<noteq> 0
        then Inl (Fail ''object constructor lists unsupported; emit explicit dyn_initialize'')
        else Inr obj)
      else Inr obj)"

text \<open>Subsections never change the bytes of the object, so the cursor stays meaningful.\<close>

function parse_linking :: "read \<Rightarrow> object \<Rightarrow> object result" where
  "parse_linking r obj =
     (if rd_p r < rd_end r then
        bind_r (get_w (o_file obj) r) (\<lambda>(kind, r).
        bind_r (number (o_file obj) r) (\<lambda>(n, r).
        bind_r (take_w r (unat n)) (\<lambda>(p, r).
        bind_r (parse_subsection kind \<lparr>rd_p = p, rd_end = p + unat n\<rparr> obj) (\<lambda>obj.
          parse_linking r obj))))
      else Inr obj)"
  by pat_completeness auto
termination
proof (relation "measure (\<lambda>(r, obj). rd_end r - rd_p r)", simp, clarify)
  fix obj obj' r c r1 n r2 p r3
  assume "rd_p r < rd_end r" "get_w (o_file obj) r = Inr (c, r1)"
    "number (o_file obj) r1 = Inr (n, r2)" "take_w r2 (unat n) = Inr (p, r3)"
  then have "rd_end r3 - rd_p r3 < rd_end r - rd_p r"
    using get_w_moves [of "o_file obj" r c r1] get_w_progress [of "o_file obj" r c r1]
      number_moves [of "o_file obj" r1 n r2] take_w_moves [of r2 "unat n" p r3]
    by (auto simp: advances_def)
  then show "((r3, obj'), r, obj) \<in> measure (\<lambda>(r, obj). rd_end r - rd_p r)" by simp
qed

declare parse_linking.simps [simp del]

text \<open>One iteration of the second loop over the sections; the flag is \<open>linking\<close>.\<close>

definition parse_custom :: "section_t \<Rightarrow> bool \<times> object \<Rightarrow> (bool \<times> object) result" where
  "parse_custom s = (\<lambda>(linking, obj).
     if sec_id s \<noteq> 0 then Inr (linking, obj)
     else
       bind_r (name_w (o_file obj) (reader s)) (\<lambda>(custom, r).
       if custom \<noteq> cstr ''linking'' then Inr (linking, obj)
       else
         bind_r (number (o_file obj) r) (\<lambda>(version, r).
         if version \<noteq> 2 then Inl (Fail ''unsupported linking metadata version'')
         else bind_r (parse_linking r obj) (\<lambda>obj. Inr (True, obj)))))"

subsection \<open>Checking the symbol table\<close>

definition check_symbol :: "object \<Rightarrow> symbol \<Rightarrow> symbol result" where
  "check_symbol obj y =
     (if sy_kind y = 0 \<or> sy_kind y = 2 then
        let imports = (if sy_kind y = 0 then o_nfimp obj else o_ngimp obj);
            total = imports + of_nat (if sy_kind y = 0 then length (o_functions obj)
                                      else length (o_globals obj))
        in if sy_index y \<ge> total \<or> (sy_flags y AND 16 \<noteq> 0) \<noteq> (sy_index y < imports)
           then Inl (Fail (''invalid symbol index: '' @ text_of_name (sy_name y)))
           else if sy_kind y = 0 then
             bind_r
               (if sy_index y < imports
                then bind_r (import_at obj 0 (sy_index y)) (\<lambda>im. Inr (im_type im))
                else index_r (o_functions obj) (unat (sy_index y - imports))) (\<lambda>ty.
             if unat ty \<ge> length (o_types obj) then Inl (Fail ''invalid function type'')
             else bind_r (index_r (o_types obj) (unat ty)) (\<lambda>t. Inr (y\<lparr>sy_type := t\<rparr>)))
           else Inr y
      else Inr y)"

fun check_symbols :: "object \<Rightarrow> symbol list \<Rightarrow> symbol list result" where
  "check_symbols obj [] = Inr []"
| "check_symbols obj (y # ys) =
     bind_r (check_symbol obj y) (\<lambda>y. bind_r (check_symbols obj ys) (\<lambda>ys. Inr (y # ys)))"

subsection \<open>The whole reader\<close>

definition wasm_magic :: bytes where
  "wasm_magic = [0, 0x61, 0x73, 0x6d, 1, 0, 0, 0]"

definition parse :: "link \<Rightarrow> bytes \<Rightarrow> string \<Rightarrow> (link \<times> object) result" where
  "parse l data path =
     (if length data < 8 \<or> take 8 data \<noteq> wasm_magic
      then Inl (Fail (path @ '' is not a wasm32 linking object (bitcode unsupported)''))
      else
        bind_r (read_sections data (length data div 2 + 1)
          \<lparr>rd_p = 8, rd_end = length data\<rparr> []) (\<lambda>ss.
        bind_r (fold_r parse_section ss (l, (empty_object data)\<lparr>o_sections := ss\<rparr>)) (\<lambda>(l, obj).
        bind_r (fold_r parse_custom ss (False, obj)) (\<lambda>(linking, obj).
        if o_functions obj \<noteq> [] \<and> o_bodies obj = None then Inl (Fail ''missing code section'')
        else if \<not> linking then Inl (Fail (path @ '' lacks linking-v2 metadata''))
        else
          bind_r (check_symbols obj (o_symbols obj)) (\<lambda>ys.
            Inr (l, obj\<lparr>o_symbols := ys,
              o_fmap := replicate (unat (o_nfimp obj + of_nat (length (o_functions obj)))) 0,
              o_gmap := replicate (unat (o_ngimp obj + of_nat (length (o_globals obj)))) 0\<rparr>))))))"

end
