(* ===== verification/Wasm_Parse.thy ===== *)
theory Wasm_Parse
  imports Wasm_Object
begin

text \<open>
  Correctness of the object reader: it never reads outside the bytes it is given, whatever they
  are, and an object it accepts satisfies \<open>parsed_object\<close>, the well-formedness the later phases
  of the linker rely on.
\<close>

unbundle bit_operations_syntax

named_theorems reads \<open>safety rules of the readers\<close>

definition inside :: "bytes \<Rightarrow> read \<Rightarrow> bool" where
  "inside f r \<longleftrightarrow> rd_p r \<le> rd_end r \<and> rd_end r \<le> length f"

lemma inside_advances: "inside f r \<Longrightarrow> advances r r' \<Longrightarrow> inside f r'"
  by (auto simp: inside_def advances_def)

subsection \<open>Safety of the readers\<close>

lemma get_w_ok [reads]:
  assumes "inside f r"
    and "\<And>c r'. inside f r' \<Longrightarrow> advances r r' \<Longrightarrow> rd_p r' = Suc (rd_p r) \<Longrightarrow> Q (c, r')"
  shows "ok (get_w f r) Q"
  using assms by (auto simp: get_w_def inside_def advances_def)

lemma take_w_ok [reads]:
  assumes "inside f r"
    and "\<And>r'. inside f r' \<Longrightarrow> advances r r' \<Longrightarrow> rd_p r' = rd_p r + n \<Longrightarrow> Q (rd_p r, r')"
  shows "ok (take_w r n) Q"
  using assms by (auto simp: take_w_def inside_def advances_def)

text \<open>The shape of a reader's contract: no fault, and the cursor moved inside its window.\<close>

definition reading :: "bytes \<Rightarrow> read \<Rightarrow> ('a \<times> read) result \<Rightarrow> bool" where
  "reading f r m \<longleftrightarrow> ok m (\<lambda>(v, r'). inside f r' \<and> advances r r')"

lemma reading_ok:
  "reading f r m \<Longrightarrow> (\<And>v r'. inside f r' \<Longrightarrow> advances r r' \<Longrightarrow> Q (v, r')) \<Longrightarrow> ok m Q"
  unfolding reading_def by (erule ok_mono) auto

lemma reading_step:
  "reading f s m \<Longrightarrow> advances r s \<Longrightarrow> reading f r m"
  unfolding reading_def by (erule ok_mono) (auto intro: advances_trans)

lemma reading_simps [simp]:
  "reading f r (Inr (v, r')) \<longleftrightarrow> inside f r' \<and> advances r r'" "reading f r (Inl (Fail e))"
  "reading f r (bind_r m g) \<longleftrightarrow> ok m (\<lambda>x. reading f r (g x))"
  by (simp_all add: reading_def)

lemma number_loop_reading: "inside f r \<Longrightarrow> reading f r (number_loop f r i n)"
proof (induction "5 - i" arbitrary: r i n rule: less_induct)
  case less
  have "reading f r (number_loop f s (Suc i) v)" if "i < 5" "inside f s" "advances r s" for s v
    by (rule reading_step [OF less.hyps]) (use that in auto)
  with less.prems show ?case
    by (subst number_loop.simps) (simp, intro impI get_w_ok, simp_all add: Let_def)
qed

lemma signed_loop_ok:
  "inside f r \<Longrightarrow> ok (signed_loop f r s n) (\<lambda>(c, s', v, r'). inside f r' \<and> advances r r')"
proof (induction "35 - s" arbitrary: r s n rule: less_induct)
  case less
  have "ok (signed_loop f t (s + 7) v) (\<lambda>(c, s', v, r'). inside f r' \<and> advances r r')"
    if "s < 35" "inside f t" "advances r t" for t v
    by (rule ok_mono [OF less.hyps]) (use that in \<open>auto intro: advances_trans\<close>)
  with less.prems show ?case
    by (subst signed_loop.simps) (simp add: Let_def, intro impI get_w_ok, simp_all)
qed

lemma number_reading [simp]: "inside f r \<Longrightarrow> reading f r (number f r)"
  by (simp add: number_def number_loop_reading)

lemma number_ok [reads]:
  assumes "inside f r"
    and "\<And>v r'. inside f r' \<Longrightarrow> advances r r' \<Longrightarrow> rd_p r < rd_p r' \<Longrightarrow> Q (v, r')"
  shows "ok (number f r) Q"
proof -
  have "ok (number f r) (\<lambda>(v, r'). inside f r' \<and> advances r r')"
    using number_reading [OF assms(1)] by (simp only: reading_def)
  then show ?thesis
    using assms(2) number_progress [of f r] by (cases "number f r") (auto simp: ok_def)
qed

lemma signed_number_ok [reads]:
  assumes "inside f r" and "\<And>v r'. inside f r' \<Longrightarrow> advances r r' \<Longrightarrow> Q (v, r')"
  shows "ok (signed_number f r) Q"
  unfolding signed_number_def ok_simps
  by (rule ok_mono [OF signed_loop_ok [OF assms(1)]]) (auto intro: assms(2))

lemma name_w_ok [reads]:
  assumes "inside f r"
    and "\<And>v r'. 0 \<notin> set v \<Longrightarrow> inside f r' \<Longrightarrow> advances r r' \<Longrightarrow> Q (v, r')"
  shows "ok (name_w f r) Q"
  using assms(1) unfolding name_w_def
  by (auto intro!: reads assms(2) simp: Let_def) (auto simp: advances_def)

lemma checked_count_ok [reads]:
  assumes "inside f r" and "\<And>v r'. inside f r' \<Longrightarrow> advances r r' \<Longrightarrow> Q (v, r')"
  shows "ok (checked_count f r sz) Q"
  using assms(1) unfolding checked_count_def by (auto intro!: reads assms(2))

lemma limits_ok [reads]:
  assumes "inside f r" and "\<And>r'. inside f r' \<Longrightarrow> advances r r' \<Longrightarrow> Q r'"
  shows "ok (limits f r) Q"
  using assms(1) unfolding limits_def by (auto intro!: reads assms(2)) (auto simp: advances_def)

lemma constant_bytes_ok [reads]:
  assumes "inside f r" and "\<And>r'. inside f r' \<Longrightarrow> advances r r' \<Longrightarrow> Q r'"
  shows "ok (constant_bytes f r n) Q"
  using assms
proof (induction "10 - n" arbitrary: r n rule: less_induct)
  case less
  have "ok (constant_bytes f s (Suc n)) Q" if "n < 9" "inside f s" "advances r s" for s
    using that less.hyps [of "Suc n" s] less.prems(2) advances_trans [of r s] by auto
  with less.prems show ?case
    by (subst constant_bytes.simps) (auto intro!: get_w_ok)
qed

lemma expression_ok [reads]:
  assumes "inside f r" and "\<And>r'. inside f r' \<Longrightarrow> advances r r' \<Longrightarrow> Q r'"
  shows "ok (expression f r) Q"
  using assms(1) unfolding expression_def
  by (auto intro!: reads assms(2)) (auto simp: advances_def)

subsection \<open>The section table\<close>

definition section_inside :: "bytes \<Rightarrow> section_t \<Rightarrow> bool" where
  "section_inside f s \<longleftrightarrow> sec_p s + sec_n s \<le> length f"

lemma reader_inside: "section_inside f s \<Longrightarrow> inside f (reader s)"
  by (simp add: section_inside_def inside_def reader_def)

text \<open>
  A section takes at least two bytes, so the array of \<open>length / 2 + 1\<close> entries never overflows.
\<close>

lemma read_sections_ok:
  assumes "inside f r" and "list_all (section_inside f) ss"
    and "2 * length ss + (rd_end r - rd_p r) \<le> 2 * cap - 1"
  shows "ok (read_sections f cap r ss) (list_all (section_inside f))"
  using assms
proof (induction "rd_end r - rd_p r" arbitrary: r ss rule: less_induct)
  case less
  have step: "ok (read_sections f cap t (ss @ [s])) (list_all (section_inside f))"
    if "inside f t" "rd_end t = rd_end r" "rd_p r + 2 \<le> rd_p t" "section_inside f s" for t s
    using that less.prems by (intro less.hyps) (auto simp: inside_def)
  have "ok (read_sections f cap r ss) (list_all (section_inside f))" if "rd_p r < rd_end r"
    using that less.prems(1,3)
    by (subst read_sections.simps, simp)
      (intro get_w_ok, simp_all, intro number_ok, simp_all, intro take_w_ok, simp_all,
        auto intro!: step simp: section_inside_def advances_def inside_def)
  moreover have "ok (read_sections f cap r ss) (list_all (section_inside f))"
    if "\<not> rd_p r < rd_end r"
    using that less.prems(2) by (subst read_sections.simps) simp
  ultimately show ?case by blast
qed

subsection \<open>Type interning\<close>

lemma find_type_le: "find_type ts t \<le> length ts"
  by (induction ts) auto

lemma find_type_absent: "find_type ts t = length ts \<longleftrightarrow> t \<notin> set ts"
  by (induction ts) auto

lemma find_type_nth: "find_type ts t < length ts \<Longrightarrow> ts ! find_type ts t = t"
  by (induction ts) auto

lemma intern_type_spec:
  assumes "intern_type ts t = (at, ts')"
  shows "at < length ts'" and "ts' ! at = t" and "\<exists>us. ts' = ts @ us"
    and "distinct ts \<Longrightarrow> distinct ts'"
  using assms find_type_le [of ts t] find_type_absent [of ts t] find_type_nth [of ts t]
  by (auto simp: intern_type_def Let_def nth_append split: if_splits)

lemma unat_of_nat_less: "n < m \<Longrightarrow> unat (of_nat n :: 'a::len word) < m"
  by (simp add: unat_of_nat order_le_less_trans [OF mod_less_eq_dividend])

subsection \<open>Well-formed objects\<close>

text \<open>\<open>grows l l'\<close>: reading an object only appends to the link's type table.\<close>

definition grows :: "link \<Rightarrow> link \<Rightarrow> bool" where
  "grows l l' \<longleftrightarrow> (\<exists>ts. l' = l\<lparr>l_types := l_types l @ ts\<rparr>)"

lemma grows_refl [simp, intro]: "grows l l"
  unfolding grows_def by (rule exI [of _ "[]"]) simp

lemma grows_trans [trans]: "grows l m \<Longrightarrow> grows m n \<Longrightarrow> grows l n"
  by (auto simp: grows_def)

definition segment_ok :: "bytes \<Rightarrow> segment \<Rightarrow> bool" where
  "segment_ok f d \<longleftrightarrow> seg_p d + unat (seg_n d) \<le> length f \<and> seg_alignment d \<le> 30"

definition bodies_ok :: "object \<Rightarrow> bool" where
  "bodies_ok obj \<longleftrightarrow> (case o_bodies obj of None \<Rightarrow> True
     | Some bs \<Rightarrow> list_all2 (\<lambda>b n. b + unat n \<le> length (o_file obj)) bs (o_sizes obj))"

definition types_ok :: "bytes list \<Rightarrow> u32 list \<Rightarrow> bool" where
  "types_ok ts ns \<longleftrightarrow> list_all (\<lambda>t. unat t < length ts) ns"

definition object_inv :: "link \<Rightarrow> object \<Rightarrow> bool" where
  "object_inv l obj \<longleftrightarrow> distinct (l_types l) \<and> types_ok (l_types l) (o_types obj) \<and>
     list_all (segment_ok (o_file obj)) (o_data obj) \<and> bodies_ok obj \<and>
     list_all (section_inside (o_file obj)) (o_sections obj)"

lemma growsI [simp, intro]: "grows l (l\<lparr>l_types := l_types l @ ts\<rparr>)"
  unfolding grows_def by blast

lemma bodies_ok_frame [simp]:
  "bodies_ok (obj\<lparr>o_types := x1\<rparr>) = bodies_ok obj"
  "bodies_ok (obj\<lparr>o_imports := x2, o_nfimp := x3, o_ngimp := x4\<rparr>) = bodies_ok obj"
  "bodies_ok (obj\<lparr>o_functions := x5\<rparr>) = bodies_ok obj"
  "bodies_ok (obj\<lparr>o_globals := x6\<rparr>) = bodies_ok obj"
  "bodies_ok (obj\<lparr>o_exports := x7\<rparr>) = bodies_ok obj"
  "bodies_ok (obj\<lparr>o_data := x8\<rparr>) = bodies_ok obj"
  "bodies_ok (obj\<lparr>o_symbols := x9\<rparr>) = bodies_ok obj"
  by (simp_all add: bodies_ok_def split: option.split)

lemma types_ok_append: "types_ok ts ns \<Longrightarrow> types_ok (ts @ us) ns"
  by (auto simp: types_ok_def list_all_iff)

text \<open>The frame of one section step.\<close>

definition section_step :: "link \<Rightarrow> object \<Rightarrow> link \<times> object \<Rightarrow> bool" where
  "section_step l obj = (\<lambda>(l', obj'). object_inv l' obj' \<and> grows l l' \<and>
     o_file obj' = o_file obj \<and> o_sections obj' = o_sections obj \<and>
     o_symbols obj' = o_symbols obj)"

lemma parse_type_ok:
  assumes "inside f r" and "distinct lt" and "types_ok lt ot"
  shows "ok (parse_type f i (lt, ot, r)) (\<lambda>(lt', ot', r').
    inside f r' \<and> distinct lt' \<and> types_ok lt' ot' \<and> (\<exists>us. lt' = lt @ us))"
proof -
  have "\<exists>us. ts' = lt @ us" "distinct ts'" "types_ok ts' (ot @ [of_nat at])"
    if "intern_type lt t = (at, ts')" for t at ts'
    using intern_type_spec [OF that] assms(2,3)
    by (auto simp: types_ok_def list_all_iff unat_of_nat_less)
  with assms(1) show ?thesis
    unfolding parse_type_def by (auto simp: Let_def split: prod.splits intro!: reads)
qed

lemma parse_types_ok:
  assumes "object_inv l obj" and "inside (o_file obj) r"
  shows "ok (parse_types n r (l, obj)) (section_step l obj)"
  unfolding parse_types_def prod.case ok_simps
proof (rule ok_for [of "\<lambda>(lt, ot, r). inside (o_file obj) r \<and> distinct lt \<and> types_ok lt ot \<and>
    (\<exists>us. lt = l_types l @ us)"], goal_cases)
  case 1
  then show ?case using assms by (auto simp: object_inv_def types_ok_def)
next
  case (2 k s)
  obtain lt ot r where s: "s = (lt, ot, r)" by (cases s)
  from 2 show ?case unfolding s by (auto intro!: ok_mono [OF parse_type_ok])
next
  case (3 s)
  then show ?case using assms(1)
    by (auto simp: object_inv_def section_step_def)
qed

lemma section_step_frame [simp]:
  "object_inv l obj \<Longrightarrow> section_step l obj (l, obj)"
  "object_inv l obj \<Longrightarrow> section_step l obj (l, obj\<lparr>o_imports := x2, o_nfimp := x3, o_ngimp := x4\<rparr>)"
  "object_inv l obj \<Longrightarrow> section_step l obj (l, obj\<lparr>o_functions := x5\<rparr>)"
  "object_inv l obj \<Longrightarrow> section_step l obj (l, obj\<lparr>o_globals := x6\<rparr>)"
  "object_inv l obj \<Longrightarrow> section_step l obj (l, obj\<lparr>o_exports := x7\<rparr>)"
  by (simp_all add: section_step_def object_inv_def)

lemma parse_import_ok:
  assumes "inside f r"
  shows "ok (parse_import f i (ims, a, b, r)) (\<lambda>(ims', a', b', r'). inside f r')"
  using assms unfolding parse_import_def by (auto simp: Let_def intro!: reads)

lemma parse_imports_ok:
  assumes "object_inv l obj" and "inside (o_file obj) r"
  shows "ok (parse_imports n r (l, obj)) (section_step l obj)"
  unfolding parse_imports_def prod.case ok_simps
  by (rule ok_for [of "\<lambda>(ims, a, b, r). inside (o_file obj) r"])
    (use assms in \<open>auto intro: ok_mono [OF parse_import_ok]\<close>)

text \<open>Vectors: an entry reader that stays inside the window gives a vector reader that does.\<close>

lemma many_inside_ok:
  assumes "inside f r" and "\<And>r. inside f r \<Longrightarrow> ok (p r) (\<lambda>(x, r'). P x \<and> inside f r')"
    and "\<And>xs r'. length xs = n \<Longrightarrow> list_all P xs \<Longrightarrow> Q (xs, r')"
  shows "ok (many n p r) Q"
  using assms by (rule ok_many)

lemma parse_functions_ok:
  assumes "object_inv l obj" and "inside (o_file obj) r"
  shows "ok (parse_functions n r (l, obj)) (section_step l obj)"
  unfolding parse_functions_def prod.case ok_simps
  by (rule many_inside_ok [OF assms(2), where P = "\<lambda>_. True"])
    (use assms in \<open>auto intro!: reads\<close>)

lemma parse_globals_ok:
  assumes "object_inv l obj" and "inside (o_file obj) r"
  shows "ok (parse_globals n r (l, obj)) (section_step l obj)"
  unfolding parse_globals_def prod.case ok_simps
  by (rule many_inside_ok [OF assms(2), where P = "\<lambda>_. True"])
    (use assms in \<open>auto intro!: reads simp: parse_global_def Let_def\<close>)

lemma parse_exports_ok:
  assumes "object_inv l obj" and "inside (o_file obj) r"
  shows "ok (parse_exports n r (l, obj)) (section_step l obj)"
  unfolding parse_exports_def prod.case ok_simps
  by (rule many_inside_ok [OF assms(2), where P = "\<lambda>_. True"])
    (use assms in \<open>auto intro!: reads simp: parse_export_def\<close>)

lemma parse_code_ok:
  assumes "object_inv l obj" and "inside (o_file obj) r"
  shows "ok (parse_code n r (l, obj)) (section_step l obj)"
proof -
  have body: "ok (parse_body f r) (\<lambda>(x, r'). snd x + unat (fst x) \<le> length f \<and> inside f r')"
    if "inside f r" for f r
    using that unfolding parse_body_def by (auto intro!: reads) (auto simp: inside_def)
  have "ok (many (unat n) (parse_body (o_file obj)) r) (\<lambda>(bs, r).
      section_step l obj (l, obj\<lparr>o_bodies := Some (map snd bs), o_sizes := map fst bs\<rparr>))"
    by (rule many_inside_ok [OF assms(2) body])
      (use assms(1) in \<open>auto simp: section_step_def object_inv_def bodies_ok_def
        list_all2_conv_all_nth list_all_length\<close>)
  then show ?thesis by (auto simp: parse_code_def elim!: ok_mono)
qed

lemma parse_segment_ok:
  "inside f r \<Longrightarrow> ok (parse_segment f r) (\<lambda>(d, r'). segment_ok f d \<and> inside f r')"
  unfolding parse_segment_def
  by (auto intro!: reads) (auto simp: segment_ok_def inside_def)

lemma parse_data_ok:
  assumes "object_inv l obj" and "inside (o_file obj) r"
  shows "ok (parse_data n r (l, obj)) (section_step l obj)"
  unfolding parse_data_def prod.case ok_simps
  by (rule many_inside_ok [OF assms(2) parse_segment_ok])
    (use assms in \<open>auto simp: section_step_def object_inv_def\<close>)

lemma parse_section_ok:
  assumes "object_inv l obj" and "section_inside (o_file obj) s"
  shows "ok (parse_section s (l, obj)) (section_step l obj)"
proof -
  have "inside (o_file obj) (reader s)" using assms(2) by (rule reader_inside)
  then show ?thesis unfolding parse_section_def prod.case
    using assms(1)
    by (auto intro!: checked_count_ok parse_types_ok parse_imports_ok parse_functions_ok
        parse_globals_ok parse_exports_ok parse_code_ok parse_data_ok)
qed

subsection \<open>Linking metadata\<close>

text \<open>What the reader of the symbol table guarantees, given the sizes of the data segments.\<close>

definition symbol_shape :: "u32 list \<Rightarrow> symbol \<Rightarrow> bool" where
  "symbol_shape sizes y \<longleftrightarrow> sy_kind y \<in> {0, 1, 2, 3, 5} \<and> (sy_name y = None \<longleftrightarrow> sy_kind y = 3) \<and>
     sy_flags y AND 3 \<noteq> 3 \<and>
     (sy_kind y = 1 \<and> sy_flags y AND 16 = 0 \<longrightarrow> unat (sy_index y) < length sizes \<and>
       unat (sy_offset y) + unat (sy_size y) \<le> unat (sizes ! unat (sy_index y)))"

definition linking_inv :: "link \<Rightarrow> object \<Rightarrow> bool" where
  "linking_inv l obj \<longleftrightarrow> object_inv l obj \<and>
     list_all (symbol_shape (map seg_n (o_data obj))) (o_symbols obj)"

lemma import_at_loop_safe: "ok (import_at_loop ims k i) (\<lambda>_. True)"
  by (induction ims k i rule: import_at_loop.induct) auto

lemma import_at_ok [reads]: "(\<And>im. Q im) \<Longrightarrow> ok (import_at obj k i) Q"
  unfolding import_at_def by (rule ok_mono [OF import_at_loop_safe])

lemma within_segment:
  assumes "\<not> (n :: u32) < offset" and "\<not> n - offset < sz"
  shows "unat offset + unat sz \<le> unat n"
  using assms by (simp add: not_less word_le_nat_alt unat_sub)

lemma parse_symbol_ok:
  assumes "inside (o_file obj) r"
  shows "ok (parse_symbol obj r) (\<lambda>(y, r').
    symbol_shape (map seg_n (o_data obj)) y \<and> inside (o_file obj) r')"
  using assms unfolding parse_symbol_def
  by (auto simp: Let_def intro!: reads)
    (auto simp: symbol_shape_def empty_symbol_def intro: within_segment)

lemma parse_segment_info_ok:
  assumes "inside f r" and "i < length ds" and "list_all (segment_ok f) ds"
  shows "ok (parse_segment_info f i (ds, r)) (\<lambda>(ds', r').
    inside f r' \<and> list_all (segment_ok f) ds' \<and> map seg_n ds' = map seg_n ds)"
  using assms unfolding parse_segment_info_def
  by (auto intro!: reads)
    (auto simp: segment_ok_def list_all_length nth_list_update not_less map_update
      intro: nth_equalityI)

text \<open>The frame of a metadata step: bytes, sections and counts do not change.\<close>

definition linking_step :: "link \<Rightarrow> object \<Rightarrow> object \<Rightarrow> bool" where
  "linking_step l obj obj' \<longleftrightarrow> linking_inv l obj' \<and> o_file obj' = o_file obj \<and>
     o_sections obj' = o_sections obj"

lemma parse_subsection_ok:
  assumes "linking_inv l obj" and "inside (o_file obj) sub"
  shows "ok (parse_subsection kind sub obj) (linking_step l obj)"
proof -
  let ?f = "o_file obj"
  have infos: "ok (for_r 0 (length (o_data obj)) (parse_segment_info ?f) (o_data obj, r))
      (\<lambda>(ds, r). linking_step l obj (obj\<lparr>o_data := ds\<rparr>))" if "inside ?f r" for r
    by (rule ok_for [of "\<lambda>(ds, r). inside ?f r \<and> list_all (segment_ok ?f) ds \<and>
        map seg_n ds = map seg_n (o_data obj)"])
      (use that assms(1) in \<open>auto simp: linking_step_def linking_inv_def object_inv_def
        dest: map_eq_imp_length_eq intro!: ok_mono [OF parse_segment_info_ok]\<close>)
  have symbols: "ok (many n (parse_symbol obj) r)
      (\<lambda>(ys, r). linking_step l obj (obj\<lparr>o_symbols := ys\<rparr>))" if "inside ?f r" for n r
    by (rule many_inside_ok [OF that parse_symbol_ok])
      (use assms(1) in \<open>auto simp: linking_step_def linking_inv_def object_inv_def\<close>)
  show ?thesis
    using assms unfolding parse_subsection_def
    by (auto simp: Let_def linking_step_def [of l obj obj] split_def
        intro!: number_ok checked_count_ok infos [unfolded split_def] symbols [unfolded split_def])
qed

lemma parse_linking_ok:
  assumes "linking_inv l obj" and "inside (o_file obj) r"
  shows "ok (parse_linking r obj) (linking_step l obj)"
  using assms
proof (induction "rd_end r - rd_p r" arbitrary: r obj rule: less_induct)
  case less
  have step: "ok (parse_linking t obj') (linking_step l obj)"
    if "inside (o_file obj) t" "rd_end t = rd_end r" "rd_p r < rd_p t" "linking_step l obj obj'"
    for t obj'
    by (rule ok_mono [OF less.hyps])
      (use that in \<open>auto simp: inside_def linking_step_def\<close>)
  have "ok (parse_linking r obj) (linking_step l obj)" if "rd_p r < rd_end r"
    using that less.prems
    by (subst parse_linking.simps, simp)
      (intro get_w_ok, simp_all, intro number_ok, simp_all, intro take_w_ok, simp_all,
        rule ok_mono [OF parse_subsection_ok], assumption,
        auto intro!: step simp: advances_def inside_def)
  moreover have "ok (parse_linking r obj) (linking_step l obj)" if "\<not> rd_p r < rd_end r"
    using that less.prems by (subst parse_linking.simps) (simp add: linking_step_def)
  ultimately show ?case by blast
qed

lemma parse_custom_ok:
  assumes "linking_inv l obj" and "section_inside (o_file obj) s"
  shows "ok (parse_custom s (b, obj)) (\<lambda>(b', obj'). linking_step l obj obj')"
  using assms reader_inside [OF assms(2)] unfolding parse_custom_def
  by (auto intro!: name_w_ok number_ok ok_mono [OF parse_linking_ok] simp: linking_step_def)

subsection \<open>Symbol indices\<close>

definition symbol_index_ok :: "link \<Rightarrow> object \<Rightarrow> symbol \<Rightarrow> bool" where
  "symbol_index_ok l obj y \<longleftrightarrow>
     (sy_kind y = 0 \<longrightarrow> sy_index y < o_nfimp obj + of_nat (length (o_functions obj)) \<and>
        (sy_flags y AND 16 \<noteq> 0 \<longleftrightarrow> sy_index y < o_nfimp obj) \<and>
        unat (sy_type y) < length (l_types l)) \<and>
     (sy_kind y = 2 \<longrightarrow> sy_index y < o_ngimp obj + of_nat (length (o_globals obj)) \<and>
        (sy_flags y AND 16 \<noteq> 0 \<longleftrightarrow> sy_index y < o_ngimp obj))"

text \<open>
  The local part of an index: even if the 32-bit sum \<open>imports + n\<close> wraps, an index that passes
  the check is below the number of entries.
\<close>

lemma index_minus_imports:
  assumes "(i :: u32) < imports + of_nat n" and "\<not> i < imports"
  shows "unat (i - imports) < n"
proof -
  have "unat (imports + of_nat n) \<le> unat imports + n"
    by (simp add: unat_word_ariths unat_of_nat)
  with assms show ?thesis
    by (simp add: not_less word_le_nat_alt word_less_nat_alt unat_sub)
qed

lemma check_symbol_ok:
  assumes "linking_inv l obj" and "symbol_shape sizes y"
  shows "ok (check_symbol obj y) (\<lambda>y'. symbol_shape sizes y' \<and> symbol_index_ok l obj y')"
proof -
  have types: "unat (o_types obj ! i) < length (l_types l)" if "i < length (o_types obj)" for i
    using assms(1) that by (auto simp: linking_inv_def object_inv_def types_ok_def list_all_length)
  have shape: "symbol_shape sizes (y\<lparr>sy_type := t\<rparr>)" for t
    using assms(2) by (simp add: symbol_shape_def)
  consider "sy_kind y = 0" | "sy_kind y = 2" | "sy_kind y \<noteq> 0" "sy_kind y \<noteq> 2" by blast
  then show ?thesis
  proof cases
    case 1
    show ?thesis
      by (simp add: check_symbol_def 1 Let_def, intro conjI impI import_at_ok)
        (auto simp: symbol_index_ok_def 1 shape types intro: index_minus_imports)
  next
    case 2
    then show ?thesis
      using assms(2) by (simp add: check_symbol_def Let_def symbol_index_ok_def not_le)
  next
    case 3
    then show ?thesis using assms(2) by (simp add: check_symbol_def symbol_index_ok_def)
  qed
qed

lemma check_symbols_ok:
  assumes "linking_inv l obj" and "list_all (symbol_shape sizes) ys"
  shows "ok (check_symbols obj ys)
    (list_all (\<lambda>y. symbol_shape sizes y \<and> symbol_index_ok l obj y))"
  using assms(2)
proof (induction ys)
  case (Cons y ys)
  then have "symbol_shape sizes y" and ys: "list_all (symbol_shape sizes) ys" by simp_all
  from check_symbol_ok [OF assms(1) this(1)] Cons.IH [OF ys] show ?case
    by (auto elim!: ok_mono)
qed simp

subsection \<open>The whole reader\<close>

definition parsed_object :: "link \<Rightarrow> object \<Rightarrow> bool" where
  "parsed_object l obj \<longleftrightarrow> linking_inv l obj \<and> list_all (symbol_index_ok l obj) (o_symbols obj) \<and>
     (o_functions obj = [] \<or> o_bodies obj \<noteq> None) \<and>
     length (o_fmap obj) = unat (o_nfimp obj + of_nat (length (o_functions obj))) \<and>
     length (o_gmap obj) = unat (o_ngimp obj + of_nat (length (o_globals obj)))"

lemma parse_ok:
  assumes "distinct (l_types l)"
  shows "ok (parse l f path) (\<lambda>(l', obj). parsed_object l' obj \<and> grows l l' \<and> o_file obj = f)"
proof -
  let ?start = "\<lambda>ss. (empty_object f)\<lparr>o_sections := ss\<rparr>"
  have sections: "ok (fold_r parse_section ss (l, ?start ss))
      (\<lambda>(l', obj). object_inv l' obj \<and> grows l l' \<and> o_file obj = f \<and> o_sections obj = ss \<and>
        o_symbols obj = [])" if ss: "list_all (section_inside f) ss" for ss
  proof (rule ok_fold [of "section_step l (?start ss)"], goal_cases)
    case 1
    then show ?case using ss assms
      by (simp add: section_step_def object_inv_def empty_object_def types_ok_def bodies_ok_def)
  next
    case (2 s st)
    then show ?case using ss
      by (cases st) (auto simp: section_step_def list_all_iff empty_object_def intro: grows_trans
          intro!: ok_mono [OF parse_section_ok])
  qed (auto simp: section_step_def empty_object_def)
  have customs: "ok (fold_r parse_custom ss (b, obj)) (\<lambda>(b', obj'). linking_step l' obj obj')"
    if "list_all (section_inside (o_file obj)) ss" "linking_inv l' obj" for ss b obj l'
    by (rule ok_fold [of "\<lambda>(b', obj'). linking_step l' obj obj'"])
      (use that in \<open>auto simp: linking_step_def list_all_iff
        intro!: ok_mono [OF parse_custom_ok]\<close>)
  have bodies: "bodies_ok (obj\<lparr>o_symbols := a, o_fmap := b, o_gmap := c\<rparr>) = bodies_ok obj"
    for obj a b c by (simp add: bodies_ok_def split: option.split)
  have final: "ok (check_symbols obj (o_symbols obj)) (\<lambda>ys. parsed_object l' (obj\<lparr>o_symbols := ys,
      o_fmap := replicate (unat (o_nfimp obj + of_nat (length (o_functions obj)))) 0,
      o_gmap := replicate (unat (o_ngimp obj + of_nat (length (o_globals obj)))) 0\<rparr>))"
    if "linking_inv l' obj" "o_functions obj = [] \<or> o_bodies obj \<noteq> None" for l' obj
    using that check_symbols_ok [OF that(1), of "map seg_n (o_data obj)" "o_symbols obj"]
    by (auto simp: parsed_object_def linking_inv_def object_inv_def symbol_index_ok_def
        list_all_iff bodies elim!: ok_mono)
  have "ok (read_sections f (length f div 2 + 1) \<lparr>rd_p = 8, rd_end = length f\<rparr> [])
      (list_all (section_inside f))" if "8 \<le> length f"
    using that by (intro read_sections_ok) (auto simp: inside_def)
  then show ?thesis
    unfolding parse_def
    by (auto elim!: ok_mono intro!: ok_mono [OF sections] ok_mono [OF customs] ok_mono [OF final]
        simp: linking_inv_def linking_step_def)
qed

end
