(* ===== verification/Wasm_Resolve.thy ===== *)
theory Wasm_Resolve
  imports Wasm_Parse
begin

text \<open>
  Symbol resolution and input selection of the built-in WebAssembly linker
  (\<open>src/src/link_wasm.c\<close>, lines 241-258, 468-514 and 606-713): which symbol defines a name, the
  table of host imports, and the archive members that are pulled in.

  A \<open>Symbol *\<close> is a reference \<open>(k, i)\<close>: symbol \<open>i\<close> of object \<open>k\<close>. The file system is the
  parameter \<open>fs\<close> (path to contents), since \<open>read_file\<close> only reads a whole file.
\<close>

unbundle bit_operations_syntax

type_synonym symref = "nat \<times> nat"

subsection \<open>Resolution\<close>

text \<open>All symbols, in the order of the two nested loops.\<close>

definition symbol_refs :: "link \<Rightarrow> symref list" where
  "symbol_refs l = concat (map (\<lambda>k. map (Pair k) [0..<length (o_symbols (l_objects l ! k))])
     [0..<length (l_objects l)])"

definition symbol_at :: "link \<Rightarrow> symref \<Rightarrow> symbol" where
  "symbol_at l v = o_symbols (l_objects l ! fst v) ! snd v"

definition undefined_sym :: "symbol \<Rightarrow> bool" where
  "undefined_sym y \<longleftrightarrow> sy_flags y AND 16 \<noteq> 0"

definition local_sym :: "symbol \<Rightarrow> bool" where
  "local_sym y \<longleftrightarrow> sy_flags y AND 3 = 2"

definition weak_sym :: "symbol \<Rightarrow> bool" where
  "weak_sym y \<longleftrightarrow> sy_flags y AND 1 \<noteq> 0"

text \<open>The loop's \<open>continue\<close> condition, negated: \<open>v\<close> may define the name of \<open>s\<close>.\<close>

definition candidate_for :: "symbol \<Rightarrow> symbol \<Rightarrow> bool" where
  "candidate_for s v \<longleftrightarrow> \<not> (undefined_sym v \<or> local_sym v \<or> sy_name v = None \<or> sy_name s \<noteq> sy_name v)"

definition definition_step ::
  "link \<Rightarrow> symbol \<Rightarrow> symref \<Rightarrow> symref option \<Rightarrow> symref option result" where
  "definition_step l s r best =
     (let v = symbol_at l r in
      if \<not> candidate_for s v then Inr best
      else if sy_kind v \<noteq> sy_kind s
        then Inl (Fail (''symbol kind mismatch: '' @ text_of_name (sy_name s)))
      else if (case best of None \<Rightarrow> False
               | Some b \<Rightarrow> \<not> weak_sym (symbol_at l b) \<and> \<not> weak_sym v \<and> b \<noteq> r)
        then Inl (Fail (''duplicate symbol: '' @ text_of_name (sy_name s)))
      else Inr (if best = None \<or> \<not> weak_sym v then Some r else best))"

definition definition_w :: "link \<Rightarrow> symref \<Rightarrow> symref option result" where
  "definition_w l r =
     (let s = symbol_at l r in
      if sy_name s = None \<or> local_sym s then Inr (Some r)
      else fold_r (definition_step l s) (symbol_refs l) None)"

definition mapped_type :: "object \<Rightarrow> u32 \<Rightarrow> u32 result" where
  "mapped_type obj i =
     (if unat i \<ge> length (o_types obj) then Inl (Fail ''invalid type index'')
      else index_r (o_types obj) (unat i))"

text \<open>The position of the import with this module and name, if the table has one.\<close>

fun find_import :: "import_t list \<Rightarrow> import_t \<Rightarrow> nat option" where
  "find_import [] im = None"
| "find_import (jm # ims) im =
     (if im_module im = im_module jm \<and> im_name im = im_name jm then Some 0
      else map_option Suc (find_import ims im))"

definition imported :: "link \<Rightarrow> object \<Rightarrow> symbol \<Rightarrow> (link \<times> u32) result" where
  "imported l obj y =
     bind_r (import_at obj 0 (sy_index y)) (\<lambda>im.
     if \<not> list_ex (\<lambda>a. Some a = sy_name y) (l_allowed l)
     then Inl (Fail (''undefined symbol: '' @ text_of_name (sy_name y)))
     else
       bind_r (mapped_type obj (im_type im)) (\<lambda>ty.
       case find_import (l_imports l) im of
         Some i \<Rightarrow>
           bind_r (index_r (l_imports l) i) (\<lambda>jm.
           if ty \<noteq> im_type jm
           then Inl (Fail (''import type mismatch: '' @ text_of_name (sy_name y)))
           else Inr (l, of_nat i))
       | None \<Rightarrow> Inr (l\<lparr>l_imports := l_imports l @ [im\<lparr>im_type := ty\<rparr>]\<rparr>,
                    of_nat (length (l_imports l)))))"

subsection \<open>Archives\<close>

text \<open>
  \<open>decimal\<close>: digits, then only spaces. \<open>value\<close> is a \<open>size_t\<close>; the guard before the
  multiplication is the code's.
\<close>

fun decimal_loop :: "bytes \<Rightarrow> u64 \<Rightarrow> bool \<Rightarrow> u64 result" where
  "decimal_loop [] v seen = (if seen then Inr v else Inl (Fail ''invalid archive size''))"
| "decimal_loop (c # cs) v seen =
     (if c = 32 then
        if list_ex (\<lambda>d. d \<noteq> 32) cs then Inl (Fail ''invalid archive size'')
        else if seen then Inr v else Inl (Fail ''invalid archive size'')
      else if c < 48 \<or> c > 57 \<or> v > (- 1 - (ucast c - 48)) div 10
        then Inl (Fail ''invalid archive size'')
      else decimal_loop cs (v * 10 + (ucast c - 48)) True)"

definition decimal :: "bytes \<Rightarrow> u64 result" where
  "decimal p = decimal_loop p 0 False"

definition append_object :: "link \<Rightarrow> object \<Rightarrow> link result" where
  "append_object l obj =
     (if int (length (l_objects l)) = (2 ^ 64 - 1) div 176
      then Inl (Fail ''too many input objects'')
      else Inr (l\<lparr>l_objects := l_objects l @ [obj]\<rparr>))"

text \<open>An archive member waiting to be selected.\<close>

record candidate =
  c_object :: object
  c_selected :: bool

definition read_file :: "(string \<Rightarrow> bytes option) \<Rightarrow> string \<Rightarrow> bytes result" where
  "read_file fs path =
     (case fs path of None \<Rightarrow> Inl (Fail (''cannot read '' @ path))
      | Some data \<Rightarrow> if length data < 8 then Inl (Fail (''invalid object '' @ path)) else Inr data)"

text \<open>Symbol indexes and long-name tables: metadata, never objects.\<close>

definition archive_metadata :: "bytes \<Rightarrow> bool" where
  "archive_metadata header \<longleftrightarrow>
     (slice header 0 1 = cstr ''/'' \<and> (slice header 1 1 = cstr '' '' \<or> slice header 1 1 = cstr ''/'')) \<or>
     slice header 0 9 = cstr ''__.SYMDEF'' \<or> slice header 0 7 = cstr ''/SYM64/''"

text \<open>One member: whether it is metadata, its object bytes, and the offset after its contents.\<close>

definition archive_member ::
  "bytes \<Rightarrow> string \<Rightarrow> nat \<Rightarrow> (bool \<times> bytes \<times> nat) result" where
  "archive_member data path offset =
     (if length data - offset < 60 \<or> slice data (offset + 58) 2 \<noteq> [96, 10]
      then Inl (Fail (''invalid archive member in '' @ path))
      else
        let header = drop offset data in
        bind_r (decimal (slice header 48 10)) (\<lambda>size.
        let bytes = unat size; offset = offset + 60 in
        if bytes > length data - offset then Inl (Fail (''truncated archive '' @ path))
        else
          let member = slice data offset bytes; metadata = archive_metadata header in
          bind_r
            (if slice header 0 3 = cstr ''#1/'' then
               bind_r (decimal (slice header 3 13)) (\<lambda>namesize.
               if unat namesize > bytes then Inl (Fail ''invalid BSD archive name'')
               else Inr (metadata \<or> (unat namesize \<ge> 9 \<and> slice member 0 9 = cstr ''__.SYMDEF''),
                         drop (unat namesize) member))
             else Inr (metadata, member)) (\<lambda>(metadata, member).
          Inr (metadata, member, offset + bytes))))"

text \<open>\<open>if (offset & 1) { if (offset >= length) fail(...); offset++; }\<close>\<close>

definition archive_padding :: "bytes \<Rightarrow> nat \<Rightarrow> nat result" where
  "archive_padding data offset =
     (if odd offset then
        if offset \<ge> length data then Inl (Fail ''missing archive padding'') else Inr (offset + 1)
      else Inr offset)"

lemma archive_member_progress:
  "archive_member data path offset = Inr (m, bs, offset') \<Longrightarrow>
   offset + 60 \<le> offset' \<and> offset' \<le> length data"
  by (auto simp: archive_member_def Let_def bind_simps split: if_splits)

lemma archive_padding_progress:
  "archive_padding data offset = Inr offset' \<Longrightarrow> offset \<le> offset'"
  by (auto simp: archive_padding_def split: if_splits)

function read_archive ::
  "bytes \<Rightarrow> string \<Rightarrow> nat \<Rightarrow> link \<Rightarrow> candidate list \<Rightarrow> (link \<times> candidate list) result" where
  "read_archive data path offset l cs =
     (if offset < length data then
        bind_r (archive_member data path offset) (\<lambda>(metadata, member, offset).
        bind_r
          (if metadata then Inr (l, cs)
           else bind_r (parse l member path) (\<lambda>(l, obj).
             Inr (l, cs @ [\<lparr>c_object = obj, c_selected = False\<rparr>]))) (\<lambda>(l, cs).
        bind_r (archive_padding data offset) (\<lambda>offset.
          read_archive data path offset l cs)))
      else Inr (l, cs))"
  by pat_completeness auto
termination
proof (relation "measure (\<lambda>(data, path, offset, l, cs). length data - offset)", simp, clarify)
  fix data path offset m bs offset1 offset2 and l :: link and cs l' cs'
  assume "offset < length data" "archive_member data path offset = Inr (m, bs, offset1)"
    "archive_padding data offset1 = Inr offset2"
  then have "length data - offset2 < length data - offset"
    using archive_member_progress [of data path offset m bs offset1]
      archive_padding_progress [of data offset1 offset2] by linarith
  then show "((data, path, offset2, l', cs'), data, path, offset, l, cs)
      \<in> measure (\<lambda>(data, path, offset, l, cs). length data - offset)" by simp
qed

declare read_archive.simps [simp del]

definition read_input ::
  "(string \<Rightarrow> bytes option) \<Rightarrow> string \<Rightarrow> link \<times> candidate list \<Rightarrow> (link \<times> candidate list) result" where
  "read_input fs path = (\<lambda>(l, cs).
     bind_r (read_file fs path) (\<lambda>data.
     if take 8 data \<noteq> cstr ''!<arch>'' @ [10] then
       bind_r (parse l data path) (\<lambda>(l, obj).
       bind_r (append_object l obj) (\<lambda>l. Inr (l, cs)))
     else read_archive data path 8 l cs))"

subsection \<open>Selecting archive members\<close>

text \<open>Does the member define the name of \<open>y\<close>?\<close>

definition member_defines :: "object \<Rightarrow> symbol \<Rightarrow> bool" where
  "member_defines obj y \<longleftrightarrow> list_ex (\<lambda>d. \<not> undefined_sym d \<and> \<not> local_sym d \<and>
     sy_name d \<noteq> None \<and> sy_name y = sy_name d) (o_symbols obj)"

text \<open>The two loops with the condition \<open>&& !needed\<close>: once needed, nothing more is evaluated.\<close>

definition needed_step :: "link \<Rightarrow> object \<Rightarrow> symref \<Rightarrow> bool \<Rightarrow> bool result" where
  "needed_step l obj r needed =
     (if needed then Inr True
      else
        let y = symbol_at l r in
        if \<not> undefined_sym y \<or> sy_name y = None then Inr False
        else
          bind_r (definition_w l r) (\<lambda>d.
          Inr (d = None \<and> member_defines obj y)))"

definition member_needed :: "link \<Rightarrow> object \<Rightarrow> bool result" where
  "member_needed l obj = fold_r (needed_step l obj) (symbol_refs l) False"

text \<open>One pass of the selection loop; the flag is \<open>changed\<close>.\<close>

fun select_pass :: "link \<Rightarrow> candidate list \<Rightarrow> (bool \<times> link \<times> candidate list) result" where
  "select_pass l [] = Inr (False, l, [])"
| "select_pass l (c # cs) =
     (if c_selected c then
        bind_r (select_pass l cs) (\<lambda>(changed, l, cs). Inr (changed, l, c # cs))
      else
        bind_r (member_needed l (c_object c)) (\<lambda>needed.
        if needed then
          bind_r (append_object l (c_object c)) (\<lambda>l.
          bind_r (select_pass l cs) (\<lambda>(_, l, cs).
            Inr (True, l, c\<lparr>c_selected := True\<rparr> # cs)))
        else
          bind_r (select_pass l cs) (\<lambda>(changed, l, cs). Inr (changed, l, c # cs))))"

definition unselected :: "candidate list \<Rightarrow> nat" where
  "unselected cs = length (filter (\<lambda>c. \<not> c_selected c) cs)"

lemma select_pass_unselected:
  "select_pass l cs = Inr (changed, l', cs') \<Longrightarrow>
   unselected cs' \<le> unselected cs \<and> (changed \<longrightarrow> unselected cs' < unselected cs)"
proof (induction cs arbitrary: l changed l' cs')
  case (Cons c cs)
  then show ?case
    by (fastforce simp: unselected_def bind_simps split: if_splits)
qed (simp add: unselected_def)

function select_members :: "link \<Rightarrow> candidate list \<Rightarrow> (link \<times> candidate list) result" where
  "select_members l cs =
     bind_r (select_pass l cs) (\<lambda>(changed, l, cs).
       if changed then select_members l cs else Inr (l, cs))"
  by pat_completeness auto
termination
  by (relation "measure (\<lambda>(l, cs). unselected cs)") (auto dest: select_pass_unselected)

declare select_members.simps [simp del]

definition inputs :: "(string \<Rightarrow> bytes option) \<Rightarrow> string list \<Rightarrow> link \<Rightarrow> link result" where
  "inputs fs paths l =
     bind_r (fold_r (read_input fs) paths (l, [])) (\<lambda>(l, cs).
     bind_r (select_members l cs) (\<lambda>(l, cs). Inr l))"

subsection \<open>Resolution is: the strong definition, or the first weak one\<close>

lemma symbol_refs_iff:
  "(k, i) \<in> set (symbol_refs l) \<longleftrightarrow>
   k < length (l_objects l) \<and> i < length (o_symbols (l_objects l ! k))"
  by (force simp: symbol_refs_def)

lemma distinct_symbol_refs [simp]: "distinct (symbol_refs l)"
proof -
  have "distinct (concat (map (\<lambda>k. map (Pair k) [0..<g k]) [0..<n]))" for g :: "nat \<Rightarrow> nat" and n
    by (induction n) (auto simp: distinct_map inj_on_def)
  then show ?thesis unfolding symbol_refs_def .
qed

definition strong_ref :: "link \<Rightarrow> symref \<Rightarrow> bool" where
  "strong_ref l r \<longleftrightarrow> \<not> weak_sym (symbol_at l r)"

definition candidates :: "link \<Rightarrow> symbol \<Rightarrow> symref list" where
  "candidates l s = filter (\<lambda>r. candidate_for s (symbol_at l r)) (symbol_refs l)"

text \<open>The reference definition: the first strong candidate, otherwise the first candidate.\<close>

definition best_of :: "link \<Rightarrow> symref list \<Rightarrow> symref option" where
  "best_of l cs = (case filter (strong_ref l) cs of r # _ \<Rightarrow> Some r
     | [] \<Rightarrow> (case cs of [] \<Rightarrow> None | r # _ \<Rightarrow> Some r))"

definition resolvable :: "link \<Rightarrow> symbol \<Rightarrow> symref list \<Rightarrow> bool" where
  "resolvable l s cs \<longleftrightarrow> (\<forall>c \<in> set cs. sy_kind (symbol_at l c) = sy_kind s) \<and>
     length (filter (strong_ref l) cs) \<le> 1"

lemma best_of_snoc:
  "best_of l (cs @ [c]) =
   (if best_of l cs = None \<or> filter (strong_ref l) cs = [] \<and> strong_ref l c then Some c else best_of l cs)"
  by (auto simp: best_of_def split: list.splits)

lemma best_of_single [simp]: "best_of l [c] = Some c"
  by (simp add: best_of_def)

lemma best_of_None: "best_of l cs = None \<longleftrightarrow> cs = []"
  by (auto simp: best_of_def split: list.splits)

lemma best_of_in: "best_of l cs = Some b \<Longrightarrow> b \<in> set cs"
  by (auto simp: best_of_def split: list.splits dest: filter_eq_ConsD)

lemma best_of_strong: "best_of l cs = Some b \<Longrightarrow> strong_ref l b \<longleftrightarrow> filter (strong_ref l) cs \<noteq> []"
  by (auto simp: best_of_def split: list.splits dest: filter_eq_ConsD)

lemma definition_step_skip:
  "fold_r (definition_step l s) rs best =
   fold_r (definition_step l s) (filter (\<lambda>r. candidate_for s (symbol_at l r)) rs) best"
  by (induction rs arbitrary: best) (auto simp: definition_step_def Let_def)

lemma definition_step_candidate:
  assumes "candidate_for s (symbol_at l r)"
  shows "definition_step l s r best = Inr d \<longleftrightarrow> sy_kind (symbol_at l r) = sy_kind s \<and>
    \<not> (\<exists>b. best = Some b \<and> strong_ref l b \<and> strong_ref l r \<and> b \<noteq> r) \<and>
    d = (if best = None \<or> strong_ref l r then Some r else best)"
  using assms by (auto simp: definition_step_def Let_def strong_ref_def split: option.splits)

lemma definition_fold:
  assumes "distinct cs" and "\<forall>c \<in> set cs. candidate_for s (symbol_at l c)"
  shows "fold_r (definition_step l s) cs None = Inr d \<longleftrightarrow> resolvable l s cs \<and> d = best_of l cs"
  using assms
proof (induction cs arbitrary: d rule: rev_induct)
  case Nil
  then show ?case by (auto simp: resolvable_def best_of_def)
next
  case (snoc c cs)
  have cand: "candidate_for s (symbol_at l c)" using snoc.prems by simp
  have "fold_r (definition_step l s) (cs @ [c]) None = Inr d \<longleftrightarrow>
      resolvable l s cs \<and> definition_step l s c (best_of l cs) = Inr d"
    using snoc by (auto simp: fold_r_append bind_simps)
  moreover have "b \<noteq> c" if "best_of l cs = Some b" for b
    using best_of_in [OF that] snoc.prems(1) by auto
  ultimately show ?case
    using best_of_strong [of l cs] best_of_None [of l cs]
    by (cases "best_of l cs")
      (auto simp: definition_step_candidate [OF cand] best_of_snoc resolvable_def)
qed

lemma definition_w_iff:
  assumes "sy_name (symbol_at l r) \<noteq> None" and "\<not> local_sym (symbol_at l r)"
  shows "definition_w l r = Inr d \<longleftrightarrow>
    resolvable l (symbol_at l r) (candidates l (symbol_at l r)) \<and>
    d = best_of l (candidates l (symbol_at l r))"
proof -
  have "definition_w l r =
      fold_r (definition_step l (symbol_at l r)) (candidates l (symbol_at l r)) None"
    using assms definition_step_skip [of l "symbol_at l r" "symbol_refs l" None]
    by (auto simp: definition_w_def Let_def candidates_def)
  moreover have "distinct (candidates l (symbol_at l r))"
    "\<forall>c \<in> set (candidates l (symbol_at l r)). candidate_for (symbol_at l r) (symbol_at l c)"
    by (simp_all add: candidates_def)
  ultimately show ?thesis by (simp only: definition_fold)
qed

subsection \<open>Decimal sizes\<close>

text \<open>The number a string of decimal digits denotes, without any bound.\<close>

definition digits_value :: "nat \<Rightarrow> bytes \<Rightarrow> nat" where
  "digits_value v ds = fold (\<lambda>c v. v * 10 + (unat c - 48)) ds v"

lemma digits_value_simps [simp]:
  "digits_value v [] = v" "digits_value v (c # ds) = digits_value (v * 10 + (unat c - 48)) ds"
  by (simp_all add: digits_value_def)

lemma digit_step:
  assumes "\<not> c < (48 :: u8)" and "\<not> c > 57" and "\<not> v > (- 1 - (ucast c - 48)) div (10 :: u64)"
  shows "unat (v * 10 + (ucast c - 48)) = unat v * 10 + (unat c - 48)"
proof -
  let ?d = "ucast c - 48 :: u64"
  have c: "48 \<le> unat c" "unat c \<le> 57"
    using assms(1,2) by (simp_all add: not_less word_le_nat_alt)
  have d: "unat ?d = unat c - 48"
    using c by (subst unat_sub) (simp_all add: word_le_nat_alt)
  have "unat v \<le> unat ((- 1 - ?d) div 10)" using assms(3) by (simp add: not_less word_le_nat_alt)
  also have "\<dots> = (2 ^ 64 - 1 - unat ?d) div 10"
    by (simp only: unat_div) (subst unat_sub, simp_all add: unat_max)
  finally have "unat v * 10 \<le> 2 ^ 64 - 1 - unat ?d"
    by (simp only: less_eq_div_iff_mult_less_eq [of 10])
  then have bound: "unat v * 10 + unat ?d < 2 ^ 64" using d c by simp
  then show ?thesis using d by (simp add: unat_word_ariths)
qed

lemma decimal_loop_value:
  assumes "decimal_loop p v seen = Inr w"
  shows "\<exists>ds sp. p = ds @ sp \<and> (\<forall>c \<in> set ds. 48 \<le> c \<and> c \<le> 57) \<and> (\<forall>c \<in> set sp. c = 32) \<and>
    (seen \<or> ds \<noteq> []) \<and> unat w = digits_value (unat v) ds"
  using assms
proof (induction p v seen rule: decimal_loop.induct)
  case (1 v seen)
  then show ?case by (auto split: if_splits)
next
  case (2 c cs v seen)
  show ?case
  proof (cases "c = 32")
    case True
    with 2(2) show ?thesis
      by (intro exI [of _ "[]"] exI [of _ "c # cs"]) (auto split: if_splits simp: list_ex_iff)
  next
    case False
    with 2(2) have ok: "\<not> c < 48" "\<not> c > 57" "\<not> v > (- 1 - (ucast c - 48)) div 10"
      and rest: "decimal_loop cs (v * 10 + (ucast c - 48)) True = Inr w"
      by (auto split: if_splits)
    from 2(1) [OF False _ rest] ok obtain ds sp where "cs = ds @ sp"
      "\<forall>c \<in> set ds. 48 \<le> c \<and> c \<le> 57" "\<forall>c \<in> set sp. c = 32"
      "unat w = digits_value (unat (v * 10 + (ucast c - 48))) ds" by auto
    then show ?thesis
      using ok digit_step [OF ok] by (intro exI [of _ "c # ds"] exI [of _ sp]) auto
  qed
qed

subsection \<open>Archive selection reaches a fixed point\<close>

lemma select_pass_unchanged:
  assumes "select_pass l cs = Inr (False, l', cs')"
  shows "l' = l \<and> cs' = cs \<and> (\<forall>c \<in> set cs. c_selected c \<or> member_needed l (c_object c) = Inr False)"
  using assms by (induction cs arbitrary: l' cs') (auto simp: bind_simps split: if_splits)

lemma select_members_fixpoint:
  assumes "select_members l cs = Inr (l', cs')"
  shows "\<forall>c \<in> set cs'. c_selected c \<or> member_needed l' (c_object c) = Inr False"
  using assms
proof (induction l cs rule: select_members.induct)
  case (1 l cs)
  from "1.prems" obtain changed l1 cs1 where pass: "select_pass l cs = Inr (changed, l1, cs1)"
    and rest: "if changed then select_members l1 cs1 = Inr (l', cs') else l' = l1 \<and> cs' = cs1"
    by (subst (asm) select_members.simps) (auto simp: bind_simps split: if_splits)
  show ?case
  proof (cases changed)
    case True
    with rest "1.IH" [OF pass refl refl] show ?thesis by simp
  next
    case False
    with pass rest select_pass_unchanged [of l cs l1 cs1] show ?thesis by auto
  qed
qed

text \<open>The members that were pulled in, in order; every candidate stays where it was.\<close>

lemma select_pass_objects:
  assumes "select_pass l cs = Inr (changed, l', cs')"
  shows "map c_object cs' = map c_object cs \<and>
    (\<exists>ms. l' = l\<lparr>l_objects := l_objects l @ ms\<rparr> \<and> set ms \<subseteq> c_object ` {c \<in> set cs. \<not> c_selected c})"
  using assms
proof (induction cs arbitrary: l changed l' cs')
  case Nil
  then show ?case by (auto intro: exI [of _ "[]"])
next
  case (Cons c cs)
  show ?case
  proof (cases "\<not> c_selected c \<and> member_needed l (c_object c) = Inr True")
    case True
    with Cons.prems obtain ch l1 cs1 where step: "append_object l (c_object c) = Inr l1"
      and rec: "select_pass l1 cs = Inr (ch, l', cs1)" and cs': "cs' = c\<lparr>c_selected := True\<rparr> # cs1"
      by (auto simp: bind_simps)
    from Cons.IH [OF rec] obtain ms where "map c_object cs1 = map c_object cs"
      "l' = l1\<lparr>l_objects := l_objects l1 @ ms\<rparr>"
      "set ms \<subseteq> c_object ` {c \<in> set cs. \<not> c_selected c}" by blast
    moreover have "l1 = l\<lparr>l_objects := l_objects l @ [c_object c]\<rparr>"
      using step by (auto simp: append_object_def split: if_splits)
    ultimately show ?thesis using True cs'
      by (simp, intro exI [of _ "c_object c # ms"]) auto
  next
    case False
    with Cons.prems obtain cs1 where rec: "select_pass l cs = Inr (changed, l', cs1)"
      and "cs' = c # cs1" by (auto simp: bind_simps split: if_splits)
    with Cons.IH [OF rec] show ?thesis by auto
  qed
qed

lemma member_needed_False:
  assumes "member_needed l obj = Inr False" and "r \<in> set (symbol_refs l)"
    and "undefined_sym (symbol_at l r)" and "sy_name (symbol_at l r) \<noteq> None"
    and "definition_w l r = Inr None"
  shows "\<not> member_defines obj (symbol_at l r)"
proof -
  have sticky: "fold_r (needed_step l obj) rs True = Inr True" for rs
    by (induction rs) (simp_all add: needed_step_def)
  have "\<not> member_defines obj (symbol_at l r)"
    if "fold_r (needed_step l obj) rs False = Inr False" "r \<in> set rs" for rs
    using that
  proof (induction rs)
    case (Cons q rs)
    then obtain b where b: "needed_step l obj q False = Inr b"
      and rest: "fold_r (needed_step l obj) rs b = Inr False" by (auto simp: bind_simps)
    have "\<not> b" using rest sticky [of rs] by (cases b) auto
    with Cons b rest assms(3-5) show ?case by (auto simp: needed_step_def)
  qed simp
  with assms(1,2) show ?thesis by (simp add: member_needed_def)
qed

subsection \<open>The import table\<close>

definition import_key :: "import_t \<Rightarrow> bytes \<times> bytes" where
  "import_key im = (im_module im, im_name im)"

lemma find_import_None: "find_import ims im = None \<longleftrightarrow> import_key im \<notin> set (map import_key ims)"
  by (induction ims) (auto simp: import_key_def)

lemma find_import_Some:
  "find_import ims im = Some i \<Longrightarrow> i < length ims \<and> import_key (ims ! i) = import_key im"
  by (induction ims arbitrary: i) (auto simp: import_key_def split: if_splits)

text \<open>
  A successful \<open>imported\<close> returns the position of an entry with the module, name and type of the
  import, the symbol was allowed, and the keys of the table stay distinct.
\<close>

lemma imported_spec:
  assumes "imported l obj y = Inr (l', v)"
  shows "\<exists>im ty i. import_at obj 0 (sy_index y) = Inr im \<and> mapped_type obj (im_type im) = Inr ty \<and>
      v = of_nat i \<and> i < length (l_imports l') \<and> import_key (l_imports l' ! i) = import_key im \<and>
      im_type (l_imports l' ! i) = ty"
    and "\<exists>a \<in> set (l_allowed l). sy_name y = Some a"
    and "\<exists>ims. l' = l\<lparr>l_imports := l_imports l @ ims\<rparr>"
    and "distinct (map import_key (l_imports l)) \<Longrightarrow> distinct (map import_key (l_imports l'))"
proof -
  from assms obtain im ty where im: "import_at obj 0 (sy_index y) = Inr im"
    and ty: "mapped_type obj (im_type im) = Inr ty"
    and allowed: "list_ex (\<lambda>a. Some a = sy_name y) (l_allowed l)"
    by (auto simp: imported_def bind_simps split: if_splits)
  from allowed show "\<exists>a \<in> set (l_allowed l). sy_name y = Some a"
    by (auto simp: list_ex_iff intro: sym)
  have key: "import_key (im\<lparr>im_type := t\<rparr>) = import_key im" for t by (simp add: import_key_def)
  consider (old) i where "find_import (l_imports l) im = Some i" "l' = l" "v = of_nat i"
      "im_type (l_imports l ! i) = ty" "i < length (l_imports l)"
    | (new) "find_import (l_imports l) im = None" "v = of_nat (length (l_imports l))"
      "l' = l\<lparr>l_imports := l_imports l @ [im\<lparr>im_type := ty\<rparr>]\<rparr>"
    using assms im ty allowed
    by (auto simp: imported_def bind_simps split: if_splits option.splits)
  note c = this
  from c show "\<exists>im ty i. import_at obj 0 (sy_index y) = Inr im \<and>
      mapped_type obj (im_type im) = Inr ty \<and> v = of_nat i \<and> i < length (l_imports l') \<and>
      import_key (l_imports l' ! i) = import_key im \<and> im_type (l_imports l' ! i) = ty"
  proof cases
    case (old i)
    then show ?thesis using im ty find_import_Some [OF old(1)] by auto
  next
    case new
    then show ?thesis using im ty key
      by (intro exI [of _ im] exI [of _ ty] exI [of _ "length (l_imports l)"]) simp
  qed
  from c show "\<exists>ims. l' = l\<lparr>l_imports := l_imports l @ ims\<rparr>"
    by cases (auto intro: exI [of _ "[]"])
  from c show "distinct (map import_key (l_imports l'))"
    if "distinct (map import_key (l_imports l))"
    using that by cases (auto simp: find_import_None key)
qed

end
