(* ===== verification/Wasm_Link.thy ===== *)
theory Wasm_Link
  imports Wasm_Resolve
begin

text \<open>
  The linking phases of the built-in WebAssembly linker (\<open>src/src/link_wasm.c\<close>, lines 515-605 and
  714-968): relocation, memory layout, index spaces, and the emission of the output module.

  \<open>dyn_link_wasm_objects\<close> is split at its loops: \<open>layout\<close> (addresses, data symbol values and host
  imports), \<open>assign_maps\<close> (function and global index spaces), \<open>resolve_values\<close> with \<open>relocate\<close>,
  and one \<open>emit_\<close> definition per output section. The published bytes are the result; writing
  them to disk (\<open>backend_write_object\<close>) is outside the model.
\<close>

unbundle bit_operations_syntax

subsection \<open>Relocation\<close>

definition raw_kind :: "u8 \<Rightarrow> bool" where
  "raw_kind kind \<longleftrightarrow> kind = 2 \<or> kind = 5 \<or> kind = 13 \<or> kind = 26"

text \<open>The four or five bytes \<open>patch\<close> stores.\<close>

definition patch_bytes :: "u8 \<Rightarrow> u32 \<Rightarrow> bytes" where
  "patch_bytes kind value =
     (if raw_kind kind then map (\<lambda>i. ucast (drop_bit (8 * i) value)) [0..<4]
      else
        map (\<lambda>i. ucast ((drop_bit (7 * i) value AND 127) OR 128)) [0..<4] @
        [let top = ucast (drop_bit 28 value AND 15) in
           if (kind = 1 \<or> kind = 4) \<and> top AND 8 \<noteq> 0 then top OR 0x70 else top])"

fun write_bytes :: "bytes \<Rightarrow> nat \<Rightarrow> bytes \<Rightarrow> bytes result" where
  "write_bytes f p [] = Inr f"
| "write_bytes f p (c # cs) = bind_r (update_r f p c) (\<lambda>f. write_bytes f (Suc p) cs)"

definition patch :: "bytes \<Rightarrow> section_t \<Rightarrow> u32 \<Rightarrow> u8 \<Rightarrow> u32 \<Rightarrow> bytes result" where
  "patch f s off kind value =
     (let n = (if raw_kind kind then 4 else 5) in
      if unat off > sec_n s \<or> n > sec_n s - unat off
      then Inl (Fail ''relocation outside section'')
      else write_bytes f (sec_p s + unat off) (patch_bytes kind value))"

text \<open>The value a relocation stores, before its addend.\<close>

definition relocation_value :: "object \<Rightarrow> u8 \<Rightarrow> u32 \<Rightarrow> u32 result" where
  "relocation_value obj kind index =
     (if kind = 6 then mapped_type obj index
      else if unat index \<ge> length (o_symbols obj) then Inl (Fail ''invalid relocation symbol'')
      else
        bind_r (index_r (o_symbols obj) (unat index)) (\<lambda>y.
        if (kind = 0 \<or> kind = 26) \<and> sy_kind y \<noteq> 0 then Inl (Fail ''invalid function relocation'')
        else if (kind = 3 \<or> kind = 4 \<or> kind = 5) \<and> sy_kind y \<noteq> 1
          then Inl (Fail ''invalid memory relocation'')
        else if (kind = 7 \<or> kind = 13) \<and> sy_kind y \<noteq> 2
          then Inl (Fail ''invalid global relocation'')
        else if kind = 20 \<and> sy_kind y \<noteq> 5
          then Inl (Fail ''invalid table number relocation'')
        else if kind = 1 \<or> kind = 2 then
          if sy_kind y \<noteq> 0 then Inl (Fail ''invalid table relocation'') else Inr (sy_value y + 1)
        else if kind \<noteq> 0 \<and> kind \<noteq> 3 \<and> kind \<noteq> 4 \<and> kind \<noteq> 5 \<and> kind \<noteq> 7 \<and> kind \<noteq> 13 \<and>
            kind \<noteq> 20 \<and> kind \<noteq> 26
          then Inl (Fail (''unsupported relocation type '' @ show_nat (unat kind)))
        else Inr (sy_value y)))"

text \<open>
  The containment loop: pointer differences are \<open>size_t\<close>, so a payload of another section gives
  a huge \<open>begin\<close>. The first argument is the number of entries still to try.
\<close>

definition payload :: "object \<Rightarrow> section_t \<Rightarrow> nat \<Rightarrow> (nat \<times> u32) result" where
  "payload obj dst j =
     (if sec_id dst = 10 then
        bind_r (index_r (case o_bodies obj of None \<Rightarrow> [] | Some bs \<Rightarrow> bs) j) (\<lambda>start.
        bind_r (index_r (o_sizes obj) j) (\<lambda>n. Inr (start, n)))
      else bind_r (index_r (o_data obj) j) (\<lambda>d. Inr (seg_p d, seg_n d)))"

fun contained :: "nat \<Rightarrow> nat \<Rightarrow> object \<Rightarrow> section_t \<Rightarrow> u32 \<Rightarrow> u64 \<Rightarrow> bool result" where
  "contained 0 j obj dst off width = Inr False"
| "contained (Suc n) j obj dst off width =
     bind_r (payload obj dst j) (\<lambda>(start, size).
     let begin = of_nat start - of_nat (sec_p dst); at = ucast off - begin :: u64 in
     if ucast off \<ge> begin \<and> at \<le> ucast size \<and> width \<le> ucast size - at then Inr True
     else contained n (Suc j) obj dst off width)"

definition relocate_entry ::
  "section_t \<Rightarrow> nat \<Rightarrow> object \<times> read \<Rightarrow> (object \<times> read) result" where
  "relocate_entry dst i = (\<lambda>(obj, r).
     let f = o_file obj in
     bind_r (get_w f r) (\<lambda>(kind, r).
     bind_r (number f r) (\<lambda>(off, r).
     bind_r (number f r) (\<lambda>(index, r).
     bind_r (if kind = 3 \<or> kind = 4 \<or> kind = 5 \<or> kind = 8 \<or> kind = 9
             then signed_number f r else Inr (0, r)) (\<lambda>(add, r).
     bind_r (relocation_value obj kind index) (\<lambda>value.
     bind_r (contained (if sec_id dst = 10 then length (o_functions obj) else length (o_data obj))
       0 obj dst off (if raw_kind kind then 4 else 5)) (\<lambda>inside.
     if \<not> inside then Inl (Fail ''relocation outside function/data payload'')
     else bind_r (patch f dst off kind (value + add)) (\<lambda>f. Inr (obj\<lparr>o_file := f\<rparr>, r)))))))))"

definition relocate_section :: "section_t \<Rightarrow> object \<Rightarrow> object result" where
  "relocate_section s obj =
     (if sec_id s \<noteq> 0 then Inr obj
      else
        bind_r (name_w (o_file obj) (reader s)) (\<lambda>(custom, r).
        if take 6 custom \<noteq> cstr ''reloc.'' then Inr obj
        else
          bind_r (number (o_file obj) r) (\<lambda>(target, r).
          bind_r (number (o_file obj) r) (\<lambda>(n, r).
          if unat target \<ge> length (o_sections obj) then Inl (Fail ''invalid relocation section'')
          else
            bind_r (index_r (o_sections obj) (unat target)) (\<lambda>dst.
            if sec_id dst = 0 then Inr obj
            else if sec_id dst \<noteq> 10 \<and> sec_id dst \<noteq> 11
              then Inl (Fail ''unsupported relocation target'')
            else bind_r (for_r 0 (unat n) (relocate_entry dst) (obj, r)) (\<lambda>(obj, r). Inr obj))))))"

definition relocate :: "object \<Rightarrow> object result" where
  "relocate obj = fold_r relocate_section (o_sections obj) obj"

subsection \<open>Memory layout\<close>

definition align_up :: "u32 \<Rightarrow> u32 \<Rightarrow> u64" where
  "align_up address alignment =
     (let align = push_bit (unat alignment) 1 :: u32
      in (ucast address + ucast align - 1) AND NOT (ucast align - 1))"

text \<open>Placing one segment after \<open>address\<close>: the segment with its address, and the next address.\<close>

definition place_segment :: "segment \<Rightarrow> u32 \<Rightarrow> (segment \<times> u32) result" where
  "place_segment d address =
     (let a = align_up address (seg_alignment d) in
      if a + ucast (seg_n d) > ucast (- 1 - 1048592 :: u32)
      then Inl (Fail ''linear memory overflow'')
      else Inr (d\<lparr>seg_address := ucast a\<rparr>, ucast a + seg_n d))"

fun place_segments :: "segment list \<Rightarrow> u32 \<Rightarrow> (segment list \<times> u32) result" where
  "place_segments [] address = Inr ([], address)"
| "place_segments (d # ds) address =
     bind_r (place_segment d address) (\<lambda>(d, address).
     bind_r (place_segments ds address) (\<lambda>(ds, address). Inr (d # ds, address)))"

text \<open>Writing through \<open>Object *o\<close> and \<open>Symbol *y\<close>.\<close>

definition set_object :: "link \<Rightarrow> nat \<Rightarrow> object \<Rightarrow> link" where
  "set_object l k obj = l\<lparr>l_objects := (l_objects l)[k := obj]\<rparr>"

definition set_value :: "link \<Rightarrow> symref \<Rightarrow> u32 \<Rightarrow> link" where
  "set_value l r v =
     (let obj = l_objects l ! fst r in
      set_object l (fst r) (obj\<lparr>o_symbols :=
        (o_symbols obj)[snd r := (o_symbols obj ! snd r)\<lparr>sy_value := v\<rparr>]\<rparr>))"

definition layout_symbol :: "nat \<Rightarrow> nat \<Rightarrow> link \<Rightarrow> link result" where
  "layout_symbol k i l =
     (let y = symbol_at l (k, i) in
      bind_r (definition_w l (k, i)) (\<lambda>d.
      if \<not> undefined_sym y then
        if sy_kind y = 1 then
          bind_r (index_r (o_data (l_objects l ! k)) (unat (sy_index y))) (\<lambda>s.
            Inr (set_value l (k, i) (seg_address s + sy_offset y)))
        else Inr l
      else if d = None \<and> sy_kind y = 0 then
        bind_r (imported l (l_objects l ! k) y) (\<lambda>(l, v). Inr (set_value l (k, i) v))
      else Inr l))"

record layout =
  lay_link :: link
  lay_address :: u32
  lay_nf :: u32
  lay_ng :: u32
  lay_nd :: u32

definition layout_object :: "nat \<Rightarrow> layout \<Rightarrow> layout result" where
  "layout_object k s =
     (let obj = l_objects (lay_link s) ! k in
      bind_r (place_segments (o_data obj) (lay_address s)) (\<lambda>(ds, address).
      bind_r (for_r 0 (length (o_symbols obj)) (layout_symbol k)
        (set_object (lay_link s) k (obj\<lparr>o_data := ds\<rparr>))) (\<lambda>l.
      Inr \<lparr>lay_link = l, lay_address = address,
        lay_nf = lay_nf s + of_nat (length (o_functions obj)),
        lay_ng = lay_ng s + of_nat (length (o_globals obj)),
        lay_nd = lay_nd s + of_nat (length (o_data obj))\<rparr>)))"

definition layout_all :: "link \<Rightarrow> layout result" where
  "layout_all l = for_r 0 (length (l_objects l)) layout_object
     \<lparr>lay_link = l, lay_address = 1024, lay_nf = 0, lay_ng = 1, lay_nd = 0\<rparr>"

definition stack_low_of :: "u32 \<Rightarrow> u32" where
  "stack_low_of address = (address + 15) AND NOT 15"

definition heap_of :: "u32 \<Rightarrow> u32" where
  "heap_of stack_low = stack_low + 1048576"

subsection \<open>Index spaces\<close>

text \<open>\<open>for (i < n) map[base + i] = next++\<close>\<close>

fun number_from :: "nat \<Rightarrow> u32 \<Rightarrow> u32 \<Rightarrow> u32 list \<Rightarrow> (u32 list \<times> u32) result" where
  "number_from 0 base next m = Inr (m, next)"
| "number_from (Suc n) base next m =
     bind_r (update_r m (unat base) next) (number_from n (base + 1) (next + 1))"

definition assign_value :: "object \<Rightarrow> symbol \<Rightarrow> symbol result" where
  "assign_value obj y =
     (if undefined_sym y then Inr y
      else if sy_kind y = 0 then
        if sy_index y \<ge> o_nfimp obj + of_nat (length (o_functions obj))
        then Inl (Fail ''invalid function symbol'')
        else bind_r (index_r (o_fmap obj) (unat (sy_index y))) (\<lambda>v. Inr (y\<lparr>sy_value := v\<rparr>))
      else if sy_kind y = 2 then
        if sy_index y \<ge> o_ngimp obj + of_nat (length (o_globals obj))
        then Inl (Fail ''invalid global symbol'')
        else bind_r (index_r (o_gmap obj) (unat (sy_index y))) (\<lambda>v. Inr (y\<lparr>sy_value := v\<rparr>))
      else Inr y)"

definition assign_object :: "object \<Rightarrow> u32 \<times> u32 \<Rightarrow> (object \<times> u32 \<times> u32) result" where
  "assign_object obj = (\<lambda>(fn, gn).
     bind_r (number_from (length (o_functions obj)) (o_nfimp obj) fn (o_fmap obj)) (\<lambda>(fmap, fn).
     bind_r (number_from (length (o_globals obj)) (o_ngimp obj) gn (o_gmap obj)) (\<lambda>(gmap, gn).
     let obj = obj\<lparr>o_fmap := fmap, o_gmap := gmap\<rparr> in
     bind_r (map_r (assign_value obj) (o_symbols obj)) (\<lambda>ys.
       Inr (obj\<lparr>o_symbols := ys\<rparr>, fn, gn)))))"

fun assign_maps :: "object list \<Rightarrow> u32 \<times> u32 \<Rightarrow> (object list \<times> u32 \<times> u32) result" where
  "assign_maps [] c = Inr ([], c)"
| "assign_maps (obj # objs) c =
     bind_r (assign_object obj c) (\<lambda>(obj, c).
     bind_r (assign_maps objs c) (\<lambda>(objs, c). Inr (obj # objs, c)))"

subsection \<open>Final symbol values\<close>

definition resolve_symbol :: "u32 \<Rightarrow> u32 \<Rightarrow> nat \<Rightarrow> nat \<Rightarrow> link \<Rightarrow> link result" where
  "resolve_symbol stack_low heap k i l =
     (let y = symbol_at l (k, i) in
      if sy_name y = None then Inr l
      else
        bind_r (definition_w l (k, i)) (\<lambda>d.
        bind_r
          (case d of
             Some r \<Rightarrow>
               if sy_kind y = 0 \<and> sy_type y \<noteq> sy_type (symbol_at l r)
               then Inl (Fail (''function type mismatch: '' @ text_of_name (sy_name y)))
               else Inr (sy_value (symbol_at l r))
           | None \<Rightarrow>
               if sy_kind y = 2 \<and> sy_name y = Some (cstr ''__stack_pointer'') then Inr 0
               else if sy_kind y = 1 \<and> sy_name y = Some (cstr ''__stack_low'') then Inr stack_low
               else if sy_kind y = 1 \<and> sy_name y = Some (cstr ''__heap_base'') then Inr heap
               else if sy_kind y = 5 \<and> sy_name y = Some (cstr ''__indirect_function_table'')
                 then Inr 0
               else if sy_kind y \<noteq> 0
                 then Inl (Fail (''undefined symbol: '' @ text_of_name (sy_name y)))
               else Inr (sy_value y)) (\<lambda>v.
        let l = set_value l (k, i) v; obj = l_objects l ! k in
        if sy_kind y = 0 then
          bind_r (update_r (o_fmap obj) (unat (sy_index y)) v) (\<lambda>m.
            Inr (set_object l k (obj\<lparr>o_fmap := m\<rparr>)))
        else if sy_kind y = 2 then
          bind_r (update_r (o_gmap obj) (unat (sy_index y)) v) (\<lambda>m.
            Inr (set_object l k (obj\<lparr>o_gmap := m\<rparr>)))
        else Inr l)))"

definition resolve_object :: "u32 \<Rightarrow> u32 \<Rightarrow> nat \<Rightarrow> link \<Rightarrow> link result" where
  "resolve_object stack_low heap k l =
     bind_r (for_r 0 (length (o_symbols (l_objects l ! k))) (resolve_symbol stack_low heap k) l) (\<lambda>l.
     bind_r (relocate (l_objects l ! k)) (\<lambda>obj. Inr (set_object l k obj)))"

definition resolve_values :: "u32 \<Rightarrow> u32 \<Rightarrow> link \<Rightarrow> link result" where
  "resolve_values stack_low heap l =
     for_r 0 (length (l_objects l)) (resolve_object stack_low heap) l"

subsection \<open>Emission\<close>

definition emit_types :: "link \<Rightarrow> buf \<Rightarrow> buf result" where
  "emit_types l out =
     section_w out 1 (fold (\<lambda>t b. put b t) (l_types l) (uleb [] (of_nat (length (l_types l)))))"

definition emit_import :: "import_t \<Rightarrow> buf \<Rightarrow> buf result" where
  "emit_import im b =
     bind_r (string_w b (im_module im)) (\<lambda>b.
     bind_r (string_w b (im_name im)) (\<lambda>b. Inr (uleb (byte b 0) (im_type im))))"

definition emit_imports :: "link \<Rightarrow> buf \<Rightarrow> buf result" where
  "emit_imports l out =
     (if l_imports l = [] then Inr out
      else
        bind_r (fold_r emit_import (l_imports l) (uleb [] (of_nat (length (l_imports l))))) (\<lambda>b.
          section_w out 2 b))"

definition emit_function_types :: "object \<Rightarrow> buf \<Rightarrow> buf result" where
  "emit_function_types obj b =
     fold_r (\<lambda>t b. bind_r (mapped_type obj t) (\<lambda>m. Inr (uleb b m))) (o_functions obj) b"

definition emit_functions :: "link \<Rightarrow> u32 \<Rightarrow> buf \<Rightarrow> buf result" where
  "emit_functions l nf out =
     bind_r (fold_r emit_function_types (l_objects l) (uleb [] nf)) (\<lambda>b. section_w out 3 b)"

definition emit_table :: "u32 \<Rightarrow> buf \<Rightarrow> buf result" where
  "emit_table fn out = section_w out 4 (uleb (byte (byte (uleb [] 1) 0x70) 0) (fn + 1))"

definition pages_of :: "u32 \<Rightarrow> u32" where
  "pages_of heap = ucast ((ucast heap + 65535 :: u64) div 65536)"

definition emit_memory :: "u32 \<Rightarrow> u32 \<Rightarrow> buf \<Rightarrow> buf result" where
  "emit_memory pages max_memory out =
     (if max_memory \<noteq> 0 \<and>
         ((ucast pages * 65536 :: u64) > ucast max_memory \<or> max_memory mod 65536 \<noteq> 0)
      then Inl (Fail ''maximum memory smaller than static data/stack or not page aligned'')
      else
        let b = uleb (byte (uleb [] 1) (if max_memory \<noteq> 0 then 1 else 0)) pages;
            b = (if max_memory \<noteq> 0 then uleb b (max_memory div 65536) else b)
        in section_w out 5 b)"

definition emit_globals :: "link \<Rightarrow> u32 \<Rightarrow> u32 \<Rightarrow> buf \<Rightarrow> buf result" where
  "emit_globals l ng heap out =
     section_w out 6 (fold (\<lambda>obj b. fold (\<lambda>g b. put b g) (o_globals obj) b) (l_objects l)
       (byte (sleb (byte (byte (byte (uleb [] ng) 0x7f) 1) 0x41) heap) 0xb))"

text \<open>
  \<open>export_one\<close>: the export table, the section body and the count \<open>ne\<close> grow together; an equal
  entry is skipped, the same name for something else is an error.
\<close>

definition export_one ::
  "bytes \<Rightarrow> u8 \<Rightarrow> u32 \<Rightarrow> export_t list \<times> buf \<Rightarrow> (bool \<times> export_t list \<times> buf) result" where
  "export_one nm kind index = (\<lambda>(es, b).
     case find (\<lambda>e. ex_name e = nm) es of
       Some e \<Rightarrow>
         if ex_kind e \<noteq> kind \<or> ex_index e \<noteq> index
         then Inl (Fail (''duplicate export: '' @ text_of nm)) else Inr (False, es, b)
     | None \<Rightarrow>
         bind_r (string_w b nm) (\<lambda>b.
           Inr (True, es @ [\<lparr>ex_name = nm, ex_kind = kind, ex_index = index\<rparr>],
             uleb (byte b (ucast kind)) index)))"

text \<open>\<open>ne += export_one(...)\<close>\<close>

definition export_count ::
  "bytes \<Rightarrow> u8 \<Rightarrow> u32 \<Rightarrow> export_t list \<times> buf \<times> u32 \<Rightarrow> (export_t list \<times> buf \<times> u32) result" where
  "export_count nm kind index = (\<lambda>(es, b, ne).
     bind_r (export_one nm kind index (es, b)) (\<lambda>(added, es, b).
       Inr (es, b, ne + (if added then 1 else 0))))"

definition emit_export ::
  "object \<Rightarrow> export_t \<Rightarrow> export_t list \<times> buf \<times> u32 \<Rightarrow> (export_t list \<times> buf \<times> u32) result" where
  "emit_export obj e s =
     (if ex_kind e = 2 \<and> ex_name e = cstr ''memory'' then Inr s
      else if ex_kind e \<noteq> 0 \<and> ex_kind e \<noteq> 3 then Inl (Fail ''unsupported object export'')
      else
        let limit = (if ex_kind e = 0 then o_nfimp obj + of_nat (length (o_functions obj))
                     else o_ngimp obj + of_nat (length (o_globals obj))) in
        if ex_index e \<ge> limit then Inl (Fail ''invalid export'')
        else
          bind_r (index_r (if ex_kind e = 0 then o_fmap obj else o_gmap obj) (unat (ex_index e)))
            (\<lambda>v. export_count (ex_name e) (ex_kind e) v s))"

text \<open>
  Symbols flagged for export (flag 32). A function symbol always has a name (\<open>symbol_shape\<close>).
\<close>

definition emit_symbol_export ::
  "object \<Rightarrow> symbol \<Rightarrow> export_t list \<times> buf \<times> u32 \<Rightarrow> (export_t list \<times> buf \<times> u32) result" where
  "emit_symbol_export obj y s =
     (if sy_flags y AND 32 = 0 \<or> sy_kind y \<noteq> 0 then Inr s
      else if list_ex (\<lambda>e. Some (ex_name e) = sy_name y) (o_exports obj) then Inr s
      else case sy_name y of None \<Rightarrow> Inl OutOfBounds
           | Some nm \<Rightarrow> export_count nm 0 (sy_value y) s)"

definition emit_object_exports ::
  "object \<Rightarrow> export_t list \<times> buf \<times> u32 \<Rightarrow> (export_t list \<times> buf \<times> u32) result" where
  "emit_object_exports obj s =
     bind_r (fold_r (emit_export obj) (o_exports obj) s) (fold_r (emit_symbol_export obj) (o_symbols obj))"

definition emit_exports :: "link \<Rightarrow> buf \<Rightarrow> (link \<times> buf) result" where
  "emit_exports l out =
     bind_r (export_one (cstr ''memory'') 2 0 (l_exports l, [])) (\<lambda>(_, es, b).
     bind_r (fold_r emit_object_exports (l_objects l) (es, b, 1)) (\<lambda>(es, ex, ne).
     bind_r (section_w out 7 (put (uleb [] ne) ex)) (\<lambda>out.
       Inr (l\<lparr>l_exports := es\<rparr>, out))))"

definition emit_elements :: "u32 \<Rightarrow> buf \<Rightarrow> buf result" where
  "emit_elements fn out =
     (if fn = 0 then Inr out
      else section_w out 9 (fold (\<lambda>i b. uleb b (of_nat i)) [0..<unat fn]
        (uleb (byte (byte (byte (byte (uleb [] 1) 0) 0x41) 1) 0xb) fn)))"

definition emit_body :: "object \<Rightarrow> nat \<Rightarrow> buf \<Rightarrow> buf result" where
  "emit_body obj i b =
     bind_r (index_r (o_sizes obj) i) (\<lambda>n.
     bind_r (index_r (case o_bodies obj of None \<Rightarrow> [] | Some bs \<Rightarrow> bs) i) (\<lambda>p.
       Inr (put (uleb b n) (slice (o_file obj) p (unat n)))))"

definition emit_bodies :: "object \<Rightarrow> buf \<Rightarrow> buf result" where
  "emit_bodies obj b = for_r 0 (length (o_functions obj)) (emit_body obj) b"

definition emit_code :: "link \<Rightarrow> u32 \<Rightarrow> buf \<Rightarrow> buf result" where
  "emit_code l nf out =
     bind_r (fold_r emit_bodies (l_objects l) (uleb [] nf)) (\<lambda>b. section_w out 10 b)"

definition emit_segment :: "object \<Rightarrow> segment \<Rightarrow> buf \<Rightarrow> buf" where
  "emit_segment obj d b =
     put (uleb (byte (sleb (byte (byte b 0) 0x41) (seg_address d)) 0xb) (seg_n d))
       (slice (o_file obj) (seg_p d) (unat (seg_n d)))"

definition emit_data :: "link \<Rightarrow> u32 \<Rightarrow> buf \<Rightarrow> buf result" where
  "emit_data l nd out =
     (if nd = 0 then Inr out
      else section_w out 11 (fold (\<lambda>obj b. fold (emit_segment obj) (o_data obj) b) (l_objects l)
        (uleb [] nd)))"

subsection \<open>The linker\<close>

definition emit_module ::
  "link \<Rightarrow> layout \<Rightarrow> u32 \<Rightarrow> u32 \<Rightarrow> u32 \<Rightarrow> bytes result" where
  "emit_module l lay fn heap max_memory =
     bind_r (emit_types l (put [] wasm_magic)) (\<lambda>out.
     bind_r (emit_imports l out) (\<lambda>out.
     bind_r (emit_functions l (lay_nf lay) out) (\<lambda>out.
     bind_r (emit_table fn out) (\<lambda>out.
     bind_r (emit_memory (pages_of heap) max_memory out) (\<lambda>out.
     bind_r (emit_globals l (lay_ng lay) heap out) (\<lambda>out.
     bind_r (emit_exports l out) (\<lambda>(l, out).
     bind_r (emit_elements fn out) (\<lambda>out.
     bind_r (emit_code l (lay_nf lay) out) (\<lambda>out.
     emit_data l (lay_nd lay) out)))))))))"

definition initial_link :: "bytes list \<Rightarrow> bool \<Rightarrow> link" where
  "initial_link allowed wasi = \<lparr>l_objects = [], l_types = [], l_imports = [],
     l_allowed = allowed, l_wasi = wasi, l_exports = []\<rparr>"

definition dyn_link_wasm_objects ::
  "(string \<Rightarrow> bytes option) \<Rightarrow> string list \<Rightarrow> bytes list \<Rightarrow> bool \<Rightarrow> u32 \<Rightarrow> bytes result" where
  "dyn_link_wasm_objects fs paths allowed_imports wasi max_memory =
     bind_r (inputs fs paths (initial_link allowed_imports wasi)) (\<lambda>l.
     bind_r (layout_all l) (\<lambda>lay.
     let l = lay_link lay; stack_low = stack_low_of (lay_address lay); heap = heap_of stack_low in
     bind_r (assign_maps (l_objects l) (of_nat (length (l_imports l)), 1)) (\<lambda>(objs, fn, gn).
     bind_r (resolve_values stack_low heap (l\<lparr>l_objects := objs\<rparr>)) (\<lambda>l.
       emit_module l lay fn heap max_memory))))"

end
