(* ===== verification/Wasm_Codec.thy ===== *)
theory Wasm_Codec
  imports Wasm_Link
begin

text \<open>
  What the linker writes, the linker reads back. The locale \<open>codec\<close> is the contract between a
  writer of the emission phase and the reader of the same construct; it is interpreted for
  unsigned and signed LEB128, names, import and export entries, and its lemmas carry the
  contract to vectors.
\<close>

unbundle bit_operations_syntax

locale codec =
  fixes enc :: "'a \<Rightarrow> bytes"
    and dec :: "bytes \<Rightarrow> read \<Rightarrow> ('a \<times> read) result"
    and valid :: "'a \<Rightarrow> bool"
  assumes dec_enc:
    "valid x \<Longrightarrow> bytes_at f p (enc x) \<Longrightarrow> p + length (enc x) \<le> e \<Longrightarrow>
     dec f \<lparr>rd_p = p, rd_end = e\<rparr> = Inr (x, \<lparr>rd_p = p + length (enc x), rd_end = e\<rparr>)"
begin

lemma roundtrip:
  assumes "valid x"
  shows "dec (pre @ enc x @ post) \<lparr>rd_p = length pre, rd_end = length (pre @ enc x @ post)\<rparr> =
    Inr (x, \<lparr>rd_p = length (pre @ enc x), rd_end = length (pre @ enc x @ post)\<rparr>)"
  using dec_enc [OF assms bytes_at_here] by simp

lemma many_enc:
  assumes "list_all valid xs" and "bytes_at f p (concat (map enc xs))"
    and "p + length (concat (map enc xs)) \<le> e"
  shows "many (length xs) (dec f) \<lparr>rd_p = p, rd_end = e\<rparr> =
    Inr (xs, \<lparr>rd_p = p + length (concat (map enc xs)), rd_end = e\<rparr>)"
  using assms by (induction xs arbitrary: p) (auto simp: bytes_at_append dec_enc add.assoc)

text \<open>No encoding is a prefix of another one.\<close>

lemma enc_prefix_free:
  assumes "valid x" and "valid y" and "enc x @ r = enc y @ s"
  shows "x = y \<and> r = s"
proof -
  have "bytes_at (enc x @ r) 0 (enc x)" and "bytes_at (enc x @ r) 0 (enc y)"
    using bytes_at_here [of "[]" "enc x" r] bytes_at_here [of "[]" "enc y" s] assms(3) by simp_all
  from dec_enc [OF assms(1) this(1), of "length (enc x @ r)"]
    dec_enc [OF assms(2) this(2), of "length (enc x @ r)"]
  have "x = y" using assms(3) by (metis Inr_inject add_0 append.assoc length_append le_add1 prod.inject)
  with assms(3) show ?thesis by simp
qed

end

interpretation leb: codec "uleb []" number "\<lambda>_. True"
  by unfold_locales (rule number_uleb)

interpretation leb_s: codec "sleb []" signed_number "\<lambda>_. True"
  by unfold_locales (rule signed_number_sleb)

subsection \<open>Names\<close>

definition name_bytes :: "bytes \<Rightarrow> bytes" where
  "name_bytes s = uleb [] (of_nat (length s)) @ s"

definition name_valid :: "bytes \<Rightarrow> bool" where
  "name_valid s \<longleftrightarrow> length s < 2 ^ 32 \<and> 0 \<notin> set s"

lemma string_w_bytes: "string_w b s = Inr b' \<Longrightarrow> b' = b @ name_bytes s \<and> length s < 2 ^ 32"
  by (auto simp: string_w_def name_bytes_def put_def uleb_append [of b] split: if_splits)

lemma name_w_bytes:
  assumes "name_valid s" and "bytes_at f p (name_bytes s)" and "p + length (name_bytes s) \<le> e"
  shows "name_w f \<lparr>rd_p = p, rd_end = e\<rparr> =
    Inr (s, \<lparr>rd_p = p + length (name_bytes s), rd_end = e\<rparr>)"
proof -
  let ?n = "of_nat (length s) :: u32"
  have len: "unat ?n = length s"
    using assms(1) by (simp add: name_valid_def unat_of_nat)
  have "bytes_at f p (uleb [] ?n)" and at: "bytes_at f (p + length (uleb [] ?n)) s"
    using assms(2) by (simp_all add: name_bytes_def bytes_at_append)
  with assms(3) have "number f \<lparr>rd_p = p, rd_end = e\<rparr> =
      Inr (?n, \<lparr>rd_p = p + length (uleb [] ?n), rd_end = e\<rparr>)"
    by (intro number_uleb) (simp_all add: name_bytes_def)
  moreover have "slice f (p + length (uleb [] ?n)) (length s) = s"
    using at by (simp add: bytes_at_slice)
  ultimately show ?thesis
    using assms(1,3) len by (simp add: name_w_def take_w_def name_bytes_def name_valid_def)
qed

interpretation nam: codec name_bytes name_w name_valid
  by unfold_locales (rule name_w_bytes)

subsection \<open>Export entries\<close>

definition export_bytes :: "export_t \<Rightarrow> bytes" where
  "export_bytes e = name_bytes (ex_name e) @ [ex_kind e] @ uleb [] (ex_index e)"

definition export_valid :: "export_t \<Rightarrow> bool" where
  "export_valid e \<longleftrightarrow> name_valid (ex_name e)"

lemma parse_export_bytes:
  assumes "export_valid x" and "bytes_at f p (export_bytes x)" and "p + length (export_bytes x) \<le> e"
  shows "parse_export f \<lparr>rd_p = p, rd_end = e\<rparr> =
    Inr (x, \<lparr>rd_p = p + length (export_bytes x), rd_end = e\<rparr>)"
proof -
  let ?q = "p + length (name_bytes (ex_name x))"
  have at: "bytes_at f p (name_bytes (ex_name x))" "?q < length f" "f ! ?q = ex_kind x"
    "bytes_at f (Suc ?q) (uleb [] (ex_index x))"
    using assms(2) by (simp_all add: export_bytes_def bytes_at_append)
  have "Suc ?q + length (uleb [] (ex_index x)) \<le> e" "?q < e" "?q \<le> e"
    using assms(3) by (simp_all add: export_bytes_def)
  then show ?thesis
    using nam.dec_enc [OF _ at(1), of e] leb.dec_enc [OF _ at(4), of e] at(2,3) assms(1)
    by (simp add: parse_export_def get_w_at export_valid_def export_bytes_def)
qed

interpretation exp: codec export_bytes parse_export export_valid
  by unfold_locales (rule parse_export_bytes)

subsection \<open>Sections\<close>

definition section_bytes :: "u8 \<times> bytes \<Rightarrow> bytes" where
  "section_bytes s = [fst s] @ uleb [] (of_nat (length (snd s))) @ snd s"

lemma section_w_bytes:
  "section_w out sid body = Inr out' \<Longrightarrow>
   out' = out @ section_bytes (ucast sid, body) \<and> length body < 2 ^ 32"
  by (auto simp: section_w_def section_bytes_def put_def byte_def uleb_append [of "out @ _"]
      split: if_splits)

text \<open>The section loop of the reader on a sequence of written sections.\<close>

lemma read_sections_bytes:
  assumes "bytes_at f p (concat (map section_bytes bs))"
    and "p + length (concat (map section_bytes bs)) = e" and "length ss + length bs \<le> cap"
    and "\<forall>b \<in> set bs. length (snd b) < 2 ^ 32"
  shows "\<exists>ss'. read_sections f cap \<lparr>rd_p = p, rd_end = e\<rparr> ss = Inr (ss @ ss') \<and>
    map (\<lambda>s. (sec_id s, slice f (sec_p s) (sec_n s))) ss' = bs"
  using assms
proof (induction bs arbitrary: p ss)
  case Nil
  then show ?case by (subst read_sections.simps) simp
next
  case (Cons b bs)
  obtain sid body where b: "b = (sid, body)" by (cases b)
  let ?n = "of_nat (length body) :: u32"
  let ?q = "Suc p + length (uleb [] ?n)" and ?rest = "concat (map section_bytes bs)"
  let ?s = "\<lparr>sec_id = sid, sec_p = ?q, sec_n = length body\<rparr>"
  have len: "unat ?n = length body"
    using Cons.prems(4) by (simp add: b unat_of_nat)
  have at: "p < length f" "f ! p = sid" "bytes_at f (Suc p) (uleb [] ?n)" "bytes_at f ?q body"
    "bytes_at f (?q + length body) ?rest"
    using Cons.prems(1) by (simp_all add: section_bytes_def [of "(sid, body)"] b bytes_at_append)
  have e: "e = ?q + length body + length ?rest"
    using Cons.prems(2) by (simp add: section_bytes_def [of "(sid, body)"] b)
  from Cons.IH [OF at(5), of "ss @ [?s]"] Cons.prems e
  obtain ss' where rec: "read_sections f cap \<lparr>rd_p = ?q + length body, rd_end = e\<rparr> (ss @ [?s]) =
      Inr (ss @ ?s # ss')"
    and ss': "map (\<lambda>s. (sec_id s, slice f (sec_p s) (sec_n s))) ss' = bs"
    by auto
  have "read_sections f cap \<lparr>rd_p = p, rd_end = e\<rparr> ss = Inr (ss @ ?s # ss')"
    using rec at(1,2) leb.dec_enc [OF _ at(3), of e] Cons.prems(3) e len
    by (subst read_sections.simps) (simp add: get_w_at take_w_def)
  moreover have "slice f ?q (length body) = body" using at(4) by (simp add: bytes_at_slice)
  ultimately show ?case using ss' b by (intro exI [of _ "?s # ss'"]) simp
qed

end
