(* ===== verification/Wasm_Emit.thy ===== *)
theory Wasm_Emit
  imports Wasm_Codec
begin

text \<open>
  What the emission phase writes: the module is the magic number followed by the sections of the
  WebAssembly specification in increasing order, which the linker's own section reader accepts;
  the export section lists the export table, whose names are distinct.
\<close>

unbundle bit_operations_syntax

subsection \<open>The sequence of sections\<close>

definition emits :: "buf \<Rightarrow> buf \<Rightarrow> u8 list \<Rightarrow> bool" where
  "emits out out' ids \<longleftrightarrow> (\<exists>bs. out' = out @ concat (map section_bytes bs) \<and> map fst bs = ids \<and>
     (\<forall>b \<in> set bs. length (snd b) < 2 ^ 32))"

lemma emits_refl [simp]: "emits out out []"
  by (simp add: emits_def)

lemma emits_trans: "emits a b xs \<Longrightarrow> emits b c ys \<Longrightarrow> emits a c (xs @ ys)"
  unfolding emits_def
proof (elim exE conjE)
  fix bs cs
  assume "b = a @ concat (map section_bytes bs)" "c = b @ concat (map section_bytes cs)"
    "map fst bs = xs" "map fst cs = ys"
    "\<forall>b\<in>set bs. length (snd b) < 2 ^ 32" "\<forall>b\<in>set cs. length (snd b) < 2 ^ 32"
  then show "\<exists>bs. c = a @ concat (map section_bytes bs) \<and> map fst bs = xs @ ys \<and>
      (\<forall>b\<in>set bs. length (snd b) < 2 ^ 32)"
    by (intro exI [of _ "bs @ cs"]) auto
qed

lemma section_w_emits: "section_w out sid body = Inr out' \<Longrightarrow> emits out out' [ucast sid]"
  using section_w_bytes [of out sid body out'] unfolding emits_def
  by (intro exI [of _ "[(ucast sid, body)]"]) auto

lemmas emit_defs = emit_types_def emit_imports_def emit_functions_def emit_table_def
  emit_memory_def emit_globals_def emit_exports_def emit_elements_def emit_code_def emit_data_def

definition module_sections :: "link \<Rightarrow> layout \<Rightarrow> u32 \<Rightarrow> u8 list" where
  "module_sections l lay fn =
     [1] @ (if l_imports l = [] then [] else [2]) @ [3, 4, 5, 6, 7] @
     (if fn = 0 then [] else [9]) @ [10] @ (if lay_nd lay = 0 then [] else [11])"

lemma emit_steps:
  "emit_types l out = Inr out' \<Longrightarrow> emits out out' [1]"
  "emit_imports l out = Inr out' \<Longrightarrow> emits out out' (if l_imports l = [] then [] else [2])"
  "emit_functions l nf out = Inr out' \<Longrightarrow> emits out out' [3]"
  "emit_table fn out = Inr out' \<Longrightarrow> emits out out' [4]"
  "emit_memory pages m out = Inr out' \<Longrightarrow> emits out out' [5]"
  "emit_globals l ng heap out = Inr out' \<Longrightarrow> emits out out' [6]"
  "emit_exports l out = Inr (l', out') \<Longrightarrow> emits out out' [7]"
  "emit_elements fn out = Inr out' \<Longrightarrow> emits out out' (if fn = 0 then [] else [9])"
  "emit_code l nf out = Inr out' \<Longrightarrow> emits out out' [10]"
  "emit_data l nd out = Inr out' \<Longrightarrow> emits out out' (if nd = 0 then [] else [11])"
  by (auto simp: emit_defs bind_simps Let_def split: if_splits dest: section_w_emits)

lemma emit_module_emits:
  assumes "emit_module l lay fn heap m = Inr out"
  shows "emits wasm_magic out (module_sections l lay fn)"
proof -
  from assms obtain o1 o2 o3 o4 o5 o6 o7 o8 o9 l'
    where e: "emit_types l wasm_magic = Inr o1" "emit_imports l o1 = Inr o2"
      "emit_functions l (lay_nf lay) o2 = Inr o3" "emit_table fn o3 = Inr o4"
      "emit_memory (pages_of heap) m o4 = Inr o5" "emit_globals l (lay_ng lay) heap o5 = Inr o6"
      "emit_exports l o6 = Inr (l', o7)" "emit_elements fn o7 = Inr o8"
      "emit_code l' (lay_nf lay) o8 = Inr o9" "emit_data l' (lay_nd lay) o9 = Inr out"
    by (auto simp: emit_module_def put_def bind_simps)
  note t = emits_trans [OF emits_trans [OF emits_trans [OF emits_trans [OF emits_trans [OF
    emits_trans [OF emits_trans [OF emits_trans [OF emits_trans [OF
      emit_steps(1) [OF e(1)] emit_steps(2) [OF e(2)]] emit_steps(3) [OF e(3)]]
      emit_steps(4) [OF e(4)]] emit_steps(5) [OF e(5)]] emit_steps(6) [OF e(6)]]
      emit_steps(7) [OF e(7)]] emit_steps(8) [OF e(8)]] emit_steps(9) [OF e(9)]]
      emit_steps(10) [OF e(10)]]
  then show ?thesis by (simp add: module_sections_def)
qed

text \<open>A sequence of sections is read back by the section loop of \<open>parse\<close>.\<close>

lemma emits_readable:
  assumes "emits wasm_magic out ids"
  shows "\<exists>ss. read_sections out (length out div 2 + 1) \<lparr>rd_p = 8, rd_end = length out\<rparr> [] = Inr ss \<and>
    map sec_id ss = ids"
proof -
  from assms obtain bs where out: "out = wasm_magic @ concat (map section_bytes bs)"
    and ids: "map fst bs = ids" and small: "\<forall>b \<in> set bs. length (snd b) < 2 ^ 32"
    by (auto simp: emits_def)
  have two: "2 * length bs \<le> length (concat (map section_bytes bs))"
  proof (induction bs)
    case (Cons b bs)
    have "uleb [] n \<noteq> []" for n
      by (subst uleb.simps) (simp add: Let_def byte_def put_def uleb_append [of "[_]"])
    then have "2 \<le> length (section_bytes b)"
      by (cases "uleb [] (of_nat (length (snd b)))") (auto simp: section_bytes_def)
    with Cons show ?case by simp
  qed simp
  have "length wasm_magic = 8" by (simp add: wasm_magic_def)
  then have at: "bytes_at out 8 (concat (map section_bytes bs))"
    using bytes_at_here [of wasm_magic "concat (map section_bytes bs)" "[]"] by (simp add: out)
  have len: "8 + length (concat (map section_bytes bs)) = length out"
    by (simp add: out wasm_magic_def)
  with two have "length [] + length bs \<le> length out div 2 + 1" by simp
  from read_sections_bytes [OF at len this small] obtain ss
    where "read_sections out (length out div 2 + 1) \<lparr>rd_p = 8, rd_end = length out\<rparr> [] = Inr ss"
      and ss: "map (\<lambda>s. (sec_id s, slice out (sec_p s) (sec_n s))) ss = bs"
    by auto
  moreover have "map sec_id ss = ids" using arg_cong [OF ss, of "map fst"] ids by (simp add: comp_def)
  ultimately show ?thesis by blast
qed

subsection \<open>The export section\<close>

text \<open>
  The invariant of the export table \<open>es\<close>, the section body \<open>b\<close> and the counter \<open>ne\<close>: the body
  is the encoding of the table, and no name occurs twice.
\<close>

definition exports_inv :: "export_t list \<times> buf \<times> u32 \<Rightarrow> bool" where
  "exports_inv = (\<lambda>(es, b, ne). b = concat (map export_bytes es) \<and> ne = of_nat (length es) \<and>
     distinct (map ex_name es))"

lemma export_one_inv:
  assumes "exports_inv (es, b, ne)" and "export_one nm kind index (es, b) = Inr (added, es', b')"
  shows "exports_inv (es', b', ne + (if added then 1 else 0)) \<and>
    \<lparr>ex_name = nm, ex_kind = kind, ex_index = index\<rparr> \<in> set es' \<and> set es \<subseteq> set es'"
proof (cases "find (\<lambda>e. ex_name e = nm) es")
  case None
  then have "nm \<notin> set (map ex_name es)" by (auto simp: find_None_iff)
  moreover have "ucast (ucast kind :: u32) = kind" by (simp add: ucast_up_ucast_id is_up)
  ultimately show ?thesis using None assms
    by (auto simp: exports_inv_def export_one_def bind_simps export_bytes_def byte_def put_def
        uleb_append [of "_ @ _"] dest!: string_w_bytes)
next
  case (Some e)
  then have e: "e \<in> set es" "ex_name e = nm" by (auto simp: find_Some_iff)
  have "\<lparr>ex_name = nm, ex_kind = kind, ex_index = index\<rparr> \<in> set es"
    if "ex_kind e = kind" "ex_index e = index"
  proof -
    have "\<lparr>ex_name = nm, ex_kind = kind, ex_index = index\<rparr> = e"
      using that e(2) by (intro export_t.equality) simp_all
    with e(1) show ?thesis by simp
  qed
  with e(1) Some assms show ?thesis
    by (simp add: export_one_def split: if_splits)
qed

lemma export_count_inv:
  "exports_inv s \<Longrightarrow> export_count nm kind index s = Inr s' \<Longrightarrow> exports_inv s'"
  by (cases s) (auto simp: export_count_def bind_simps dest: export_one_inv)

lemma emit_object_exports_inv:
  assumes "exports_inv s" and "emit_object_exports obj s = Inr s'"
  shows "exports_inv s'"
proof -
  from assms(2) obtain t where t: "fold_r (emit_export obj) (o_exports obj) s = Inr t"
    and s': "fold_r (emit_symbol_export obj) (o_symbols obj) t = Inr s'"
    by (auto simp: emit_object_exports_def bind_simps)
  have "exports_inv t"
    by (rule fold_r_invariant [of _ _ _ _ exports_inv, OF t assms(1)])
      (auto simp: emit_export_def Let_def bind_simps split: if_splits intro: export_count_inv)
  then show ?thesis
    by (rule fold_r_invariant [of _ _ _ _ exports_inv, OF s'])
      (auto simp: emit_symbol_export_def split: if_splits option.splits intro: export_count_inv)
qed

lemma emit_exports_spec:
  assumes "emit_exports l out = Inr (l', out')" and "l_exports l = []"
  shows "distinct (map ex_name (l_exports l'))" and
    "out' = out @ section_bytes (7, uleb [] (of_nat (length (l_exports l'))) @
       concat (map export_bytes (l_exports l')))"
proof -
  from assms obtain added es b es' ex ne
    where one: "export_one (cstr ''memory'') 2 0 ([], []) = Inr (added, es, b)"
      and rest: "fold_r emit_object_exports (l_objects l) (es, b, 1) = Inr (es', ex, ne)"
      and out: "section_w out 7 (put (uleb [] ne) ex) = Inr out'" and l': "l_exports l' = es'"
    by (auto simp: emit_exports_def bind_simps)
  have "added" using one by (auto simp: export_one_def bind_simps)
  with export_one_inv [OF _ one, of 0] have "exports_inv (es, b, 1)" by (simp add: exports_inv_def)
  then have "exports_inv (es', ex, ne)"
    by (rule fold_r_invariant [of _ _ _ _ exports_inv, OF rest]) (rule emit_object_exports_inv)
  then show "distinct (map ex_name (l_exports l'))" and
    "out' = out @ section_bytes (7, uleb [] (of_nat (length (l_exports l'))) @
       concat (map export_bytes (l_exports l')))"
    using section_w_bytes [OF out] l' by (auto simp: exports_inv_def put_def)
qed

end
