(* ===== verification/Wasm_Layout.thy ===== *)
theory Wasm_Layout
  imports Wasm_Emit
begin

text \<open>
  The memory layout: data segments are placed one after the other from address 1024 on, aligned
  and disjoint, below the stack, and the stack and the heap base fit in 32 bits.
\<close>

unbundle bit_operations_syntax

text \<open>\<open>placed lo ds hi\<close>: the segments lie in order between \<open>lo\<close> and \<open>hi\<close>, each one aligned.\<close>

fun placed :: "nat \<Rightarrow> segment list \<Rightarrow> nat \<Rightarrow> bool" where
  "placed lo [] hi \<longleftrightarrow> lo = hi"
| "placed lo (d # ds) hi \<longleftrightarrow> lo \<le> unat (seg_address d) \<and>
     2 ^ unat (seg_alignment d) dvd unat (seg_address d) \<and>
     placed (unat (seg_address d) + unat (seg_n d)) ds hi"

lemma placed_append: "placed lo (ds @ es) hi \<longleftrightarrow> (\<exists>mid. placed lo ds mid \<and> placed mid es hi)"
  by (induction ds arbitrary: lo) auto

lemma placed_le: "placed lo ds hi \<Longrightarrow> lo \<le> hi"
  by (induction ds arbitrary: lo) (auto dest!: add_leD1 intro: order_trans)

lemma placed_nth:
  assumes "placed lo ds hi" and "i < length ds"
  shows "lo \<le> unat (seg_address (ds ! i))"
    and "unat (seg_address (ds ! i)) + unat (seg_n (ds ! i)) \<le> hi"
    and "2 ^ unat (seg_alignment (ds ! i)) dvd unat (seg_address (ds ! i))"
proof -
  have "placed lo (take i ds @ ds ! i # drop (Suc i) ds) hi"
    using assms by (simp add: id_take_nth_drop [symmetric])
  then show "lo \<le> unat (seg_address (ds ! i))"
    and "unat (seg_address (ds ! i)) + unat (seg_n (ds ! i)) \<le> hi"
    and "2 ^ unat (seg_alignment (ds ! i)) dvd unat (seg_address (ds ! i))"
    by (auto simp: placed_append dest!: placed_le)
qed

lemma placed_disjoint:
  assumes "placed lo ds hi" and "i < j" and "j < length ds"
  shows "unat (seg_address (ds ! i)) + unat (seg_n (ds ! i)) \<le> unat (seg_address (ds ! j))"
proof -
  have "placed lo (take j ds @ drop j ds) hi" using assms(1) by simp
  then obtain mid where left: "placed lo (take j ds) mid" and right: "placed mid (drop j ds) hi"
    unfolding placed_append by blast
  have "unat (seg_address (ds ! i)) + unat (seg_n (ds ! i)) \<le> mid"
    using placed_nth(2) [OF left, of i] assms by simp
  also have "mid \<le> unat (seg_address (ds ! j))"
    using placed_nth(1) [OF right, of 0] assms by simp
  finally show ?thesis .
qed

subsection \<open>Placing one segment\<close>

text \<open>\<open>UINT32_MAX - 1048592\<close>: room for the stack and its alignment.\<close>

abbreviation memory_limit :: nat where
  "memory_limit \<equiv> 4293918703"

lemma align_up_spec:
  assumes "al \<le> 30"
  shows "unat (align_up address al) =
    (unat address + 2 ^ unat al - 1) div 2 ^ unat al * 2 ^ unat al"
proof -
  let ?n = "unat al"
  have n: "?n \<le> 30" using assms by (simp add: word_le_nat_alt)
  let ?a = "ucast (push_bit ?n 1 :: u32) :: u64"
  have a: "unat ?a = 2 ^ ?n" using n by (simp add: unat_exp push_bit_of_1)
  have "?a - 1 = mask ?n"
  proof (rule word_unat_eq_iff [THEN iffD2])
    have "unat (mask ?n :: u64) = 2 ^ ?n - 1"
      using n unat_exp [of ?n, where 'a = 64]
      by (simp add: mask_eq_exp_minus_1) (subst unat_sub, simp_all add: word_le_nat_alt)
    then show "unat (?a - 1) = unat (mask ?n :: u64)"
      using a by (subst unat_sub) (simp_all add: word_le_nat_alt)
  qed
  moreover have "unat (ucast address + ?a - 1) = unat address + 2 ^ ?n - 1"
  proof -
    have "(2 :: nat) ^ ?n \<le> 2 ^ 30" using n by (intro power_increasing) simp_all
    then have "unat (ucast address + ?a) = unat address + 2 ^ ?n"
      using a unat_less_32 [of address] by (simp add: unat_word_ariths)
    moreover have "Suc 0 \<le> unat address + 2 ^ ?n" by (simp add: Suc_le_eq)
    ultimately show ?thesis by (subst unat_sub) (simp_all add: word_le_nat_alt)
  qed
  ultimately show ?thesis
    by (simp only: align_up_def Let_def unat_and_not_mask)
qed

lemma round_up:
  fixes k n :: nat
  assumes "0 < k"
  shows "n \<le> (n + k - 1) div k * k" and "k dvd (n + k - 1) div k * k"
    and "(n + k - 1) div k * k < n + k"
proof -
  have "(n + k - 1) div k * k + (n + k - 1) mod k = n + k - 1" by simp
  moreover have "(n + k - 1) mod k < k" using assms by simp
  ultimately show "n \<le> (n + k - 1) div k * k" and "(n + k - 1) div k * k < n + k"
    using assms by linarith+
qed simp

lemma place_segment_spec:
  assumes "place_segment d address = Inr (d', address')" and "seg_alignment d \<le> 30"
  shows "d' = d\<lparr>seg_address := seg_address d'\<rparr>" and "unat address \<le> unat (seg_address d')"
    and "2 ^ unat (seg_alignment d) dvd unat (seg_address d')"
    and "unat address' = unat (seg_address d') + unat (seg_n d)" and "unat address' \<le> memory_limit"
proof -
  let ?a = "align_up address (seg_alignment d)"
  have d': "d' = d\<lparr>seg_address := ucast ?a\<rparr>" and address': "address' = ucast ?a + seg_n d"
    and fits: "\<not> ?a + ucast (seg_n d) > ucast (- 1 - 1048592 :: u32)"
    using assms(1) by (auto simp: place_segment_def Let_def split: if_splits)
  have k: "(0 :: nat) < 2 ^ unat (seg_alignment d)" by simp
  note up = round_up [OF k, of "unat address"]
  have "(2 :: nat) ^ unat (seg_alignment d) \<le> 2 ^ 30"
    using assms(2) by (intro power_increasing) (simp_all add: word_le_nat_alt)
  then have small: "unat ?a < 2 ^ 33"
    using up(3) unat_less_32 [of address] by (simp add: align_up_spec [OF assms(2)])
  have "unat (?a + ucast (seg_n d)) = unat ?a + unat (seg_n d)"
    using small unat_less_32 [of "seg_n d"] by (simp add: unat_word_ariths)
  then have sum: "unat ?a + unat (seg_n d) \<le> memory_limit"
    using fits by (simp add: not_less word_le_nat_alt)
  have seg: "unat (ucast ?a :: u32) = unat ?a"
    using sum by (simp add: unat_ucast_down)
  show "d' = d\<lparr>seg_address := seg_address d'\<rparr>" by (simp add: d')
  show "unat address \<le> unat (seg_address d')"
    and "2 ^ unat (seg_alignment d) dvd unat (seg_address d')"
    using up(1,2) by (simp_all add: d' seg align_up_spec [OF assms(2)])
  show "unat address' = unat (seg_address d') + unat (seg_n d)"
    using sum seg by (simp add: d' address' unat_word_ariths)
  then show "unat address' \<le> memory_limit" using sum seg by (simp add: d')
qed

lemma place_segments_spec:
  assumes "place_segments ds address = Inr (ds', address')"
    and "list_all (\<lambda>d. seg_alignment d \<le> 30) ds" and "unat address \<le> memory_limit"
  shows "placed (unat address) ds' (unat address') \<and> unat address' \<le> memory_limit \<and>
    map (\<lambda>d. d\<lparr>seg_address := 0\<rparr>) ds' = map (\<lambda>d. d\<lparr>seg_address := 0\<rparr>) ds"
  using assms
proof (induction ds arbitrary: address ds')
  case (Cons d ds)
  then obtain d1 a1 ds1 where one: "place_segment d address = Inr (d1, a1)"
    and rest: "place_segments ds a1 = Inr (ds1, address')" and ds': "ds' = d1 # ds1"
    by (auto simp: bind_simps)
  have al: "seg_alignment d \<le> 30" using Cons.prems(2) by simp
  note spec = place_segment_spec [OF one al]
  have "seg_alignment d1 = seg_alignment d" "seg_n d1 = seg_n d" "d1\<lparr>seg_address := 0\<rparr> = d\<lparr>seg_address := 0\<rparr>"
    by (subst spec(1), simp)+
  with spec Cons.IH [OF rest] Cons.prems(2) ds' show ?case by simp
qed simp

subsection \<open>The whole layout\<close>

lemma set_value_data [simp]:
  assumes "fst r < length (l_objects l)"
  shows "map o_data (l_objects (set_value l r v)) = map o_data (l_objects l)"
  using assms by (simp add: set_value_def set_object_def map_update Let_def)
    (metis list_update_id nth_map)

lemma set_value_length [simp]: "length (l_objects (set_value l r v)) = length (l_objects l)"
  by (simp add: set_value_def set_object_def Let_def)

lemma layout_symbol_data:
  assumes "layout_symbol k i l = Inr l'" and "k < length (l_objects l)"
  shows "map o_data (l_objects l') = map o_data (l_objects l)"
  using assms
  by (auto simp: layout_symbol_def Let_def bind_simps split: if_splits dest!: imported_spec(3))

lemma layout_object_data:
  assumes "layout_object k s = Inr s'" and k: "k < length (l_objects (lay_link s))"
  shows "\<exists>ds. place_segments (o_data (l_objects (lay_link s) ! k)) (lay_address s) =
      Inr (ds, lay_address s') \<and>
    map o_data (l_objects (lay_link s')) = (map o_data (l_objects (lay_link s)))[k := ds]"
proof -
  let ?obj = "l_objects (lay_link s) ! k"
  from assms(1) obtain ds l where place: "place_segments (o_data ?obj) (lay_address s) =
      Inr (ds, lay_address s')"
    and loop: "for_r 0 (length (o_symbols ?obj)) (layout_symbol k)
      (set_object (lay_link s) k (?obj\<lparr>o_data := ds\<rparr>)) = Inr l" and l: "lay_link s' = l"
    by (auto simp: layout_object_def Let_def bind_simps)
  have "map o_data (l_objects l) =
      map o_data (l_objects (set_object (lay_link s) k (?obj\<lparr>o_data := ds\<rparr>)))"
    by (rule for_r_index [where I = "\<lambda>_ l. map o_data (l_objects l) =
        map o_data (l_objects (set_object (lay_link s) k (?obj\<lparr>o_data := ds\<rparr>)))", OF loop])
      (use k in \<open>auto simp: set_object_def dest!: layout_symbol_data dest: map_eq_imp_length_eq\<close>)
  with place l show ?thesis by (auto simp: set_object_def map_update)
qed

text \<open>Aligned segments everywhere; \<open>parse\<close> establishes it.\<close>

definition alignments_ok :: "link \<Rightarrow> bool" where
  "alignments_ok l \<longleftrightarrow> (\<forall>obj \<in> set (l_objects l). list_all (\<lambda>d. seg_alignment d \<le> 30) (o_data obj))"

definition layout_inv :: "segment list list \<Rightarrow> nat \<Rightarrow> layout \<Rightarrow> bool" where
  "layout_inv D k s \<longleftrightarrow>
     (let E = map o_data (l_objects (lay_link s)) in
      length E = length D \<and> drop k E = drop k D \<and>
      placed 1024 (concat (take k E)) (unat (lay_address s)) \<and> unat (lay_address s) \<le> memory_limit)"

lemma layout_inv_step:
  assumes "layout_inv D k s" and "layout_object k s = Inr s'" and "k < length D"
    and "\<forall>ds \<in> set D. list_all (\<lambda>d. seg_alignment d \<le> 30) ds"
  shows "layout_inv D (Suc k) s'"
proof -
  let ?E = "map o_data (l_objects (lay_link s))" and ?E' = "map o_data (l_objects (lay_link s'))"
  from assms(1) have len: "length ?E = length D" and drop: "drop k ?E = drop k D"
    and placed: "placed 1024 (concat (take k ?E)) (unat (lay_address s))"
    and lim: "unat (lay_address s) \<le> memory_limit"
    by (simp_all add: layout_inv_def Let_def)
  have k: "k < length (l_objects (lay_link s))" using len assms(3) by simp
  from layout_object_data [OF assms(2) k] obtain ds where
    place: "place_segments (o_data (l_objects (lay_link s) ! k)) (lay_address s) =
      Inr (ds, lay_address s')" and E': "?E' = ?E[k := ds]" by blast
  have "o_data (l_objects (lay_link s) ! k) = D ! k"
    using drop k assms(3) len by (metis Cons_nth_drop_Suc list.inject nth_map)
  then have "list_all (\<lambda>d. seg_alignment d \<le> 30) (o_data (l_objects (lay_link s) ! k))"
    using assms(3,4) nth_mem by metis
  from place_segments_spec [OF place this lim] placed
  have "placed 1024 (concat (take k ?E) @ ds) (unat (lay_address s'))"
    "unat (lay_address s') \<le> memory_limit"
    by (auto simp: placed_append)
  moreover have "take (Suc k) ?E' = take k ?E @ [ds]"
    using k by (simp add: E' take_Suc_conv_app_nth)
  moreover have "drop (Suc k) ?E' = drop (Suc k) D"
    using arg_cong [OF drop, of "drop 1"] by (simp add: E' drop_update_cancel)
  ultimately show ?thesis using len by (simp add: layout_inv_def Let_def E')
qed

lemma layout_all_inv:
  assumes "layout_all l = Inr s" and "alignments_ok l"
  shows "placed 1024 (concat (map o_data (l_objects (lay_link s)))) (unat (lay_address s)) \<and>
    unat (lay_address s) \<le> memory_limit"
proof -
  let ?D = "map o_data (l_objects l)"
  have "layout_inv ?D (0 + length (l_objects l)) s"
    by (rule for_r_index [OF assms(1) [unfolded layout_all_def]])
      (use assms(2) in \<open>auto simp: alignments_ok_def layout_inv_def [of _ 0] elim!: layout_inv_step\<close>)
  then show ?thesis by (auto simp: layout_inv_def Let_def dest: map_eq_imp_length_eq)
qed

subsection \<open>Stack and heap\<close>

lemma stack_heap:
  assumes "unat address \<le> memory_limit"
  shows "unat address \<le> unat (stack_low_of address)"
    and "16 dvd unat (stack_low_of address)"
    and "unat (stack_low_of address) < unat address + 16"
    and "unat (heap_of (stack_low_of address)) = unat (stack_low_of address) + 1048576"
    and "unat (heap_of (stack_low_of address)) \<le> 4294967280"
proof -
  have mask: "(15 :: u32) = mask 4" by (simp add: mask_eq_exp_minus_1)
  have sum: "unat (address + 15) = unat address + 15"
    using assms by (simp add: unat_word_ariths)
  have low: "unat (stack_low_of address) = (unat address + 16 - 1) div 16 * 16"
    using unat_and_not_mask [of "address + 15" 4, folded mask] sum by (simp add: stack_low_of_def)
  note up = round_up [of 16 "unat address"]
  show le: "unat address \<le> unat (stack_low_of address)" and "16 dvd unat (stack_low_of address)"
    and lt: "unat (stack_low_of address) < unat address + 16"
    using up by (simp_all add: low)
  have "(unat address + 16 - 1) div 16 \<le> 268369919" using assms by linarith
  then have "unat (stack_low_of address) \<le> 4293918704" by (simp add: low)
  then show "unat (heap_of (stack_low_of address)) = unat (stack_low_of address) + 1048576"
    and "unat (heap_of (stack_low_of address)) \<le> 4294967280"
    by (simp_all add: heap_of_def unat_word_ariths)
qed

lemma pages_of_spec:
  "unat heap \<le> unat (pages_of heap) * 65536" "unat (pages_of heap) \<le> 65536"
  "unat (pages_of heap) * 65536 < unat heap + 65536"
proof -
  have "unat (ucast heap + 65535 :: u64) = unat heap + 65535"
    using unat_less_32 [of heap] by (simp add: unat_word_ariths)
  then have p: "unat (pages_of heap) = (unat heap + 65536 - 1) div 65536"
    using unat_less_32 [of heap] by (simp add: pages_of_def unat_ucast_down unat_div)
  show "unat heap \<le> unat (pages_of heap) * 65536" "unat (pages_of heap) \<le> 65536"
    "unat (pages_of heap) * 65536 < unat heap + 65536"
    using round_up [of 65536 "unat heap"] unat_less_32 [of heap] by (simp_all add: p)
qed

end
