(* ===== verification/Wasm_Patch.thy ===== *)
theory Wasm_Patch
  imports Wasm_Layout
begin

text \<open>
  Relocation: \<open>patch\<close> overwrites exactly the bytes of its field, and reading the field back (as
  the fixed-width LEB128 or the little-endian word it is) gives the relocated value.
\<close>

unbundle bit_operations_syntax

subsection \<open>Writing bytes\<close>

lemma write_bytes_spec:
  assumes "write_bytes f p bs = Inr f'"
  shows "length f' = length f" and "bs \<noteq> [] \<Longrightarrow> p + length bs \<le> length f" and "bytes_at f' p bs"
    and "\<And>i. i < p \<or> p + length bs \<le> i \<Longrightarrow> f' ! i = f ! i"
proof -
  have "length f' = length f \<and> (bs \<noteq> [] \<longrightarrow> p + length bs \<le> length f) \<and>
      (\<forall>i. i < p \<or> p + length bs \<le> i \<longrightarrow> f' ! i = f ! i) \<and> bytes_at f' p bs"
    using assms
  proof (induction bs arbitrary: f p)
    case (Cons c bs)
    then have p: "p < length f" and rest: "write_bytes (f[p := c]) (Suc p) bs = Inr f'"
      by (auto simp: bind_simps)
    note IH = Cons.IH [OF rest]
    then have "f' ! p = c" using p by simp
    with IH p show ?case by (cases bs) auto
  qed simp
  then show "length f' = length f" and "bs \<noteq> [] \<Longrightarrow> p + length bs \<le> length f" and "bytes_at f' p bs"
    and "\<And>i. i < p \<or> p + length bs \<le> i \<Longrightarrow> f' ! i = f ! i" by blast+
qed

subsection \<open>Fixed-width LEB128\<close>

text \<open>Four bytes with the continuation bit, then the last byte \<open>t\<close>.\<close>

fun padded :: "nat \<Rightarrow> u32 \<Rightarrow> u8 \<Rightarrow> bytes" where
  "padded 0 n t = [t]"
| "padded (Suc j) n t = ucast ((n AND 127) OR 128) # padded j (drop_bit 7 n) t"

lemma length_padded [simp]: "length (padded j n t) = Suc j"
  by (induction j n t rule: padded.induct) simp_all

lemma low_high:
  "ucast ((ucast ((n AND 127) OR 128) :: u8) AND 127) = (n AND 127 :: u32)"
  "(ucast ((n AND 127 :: u32) OR 128) :: u8) AND 128 \<noteq> 0"
  by (rule bit_word_eqI, auto simp: bit_simps) (simp add: and_exp_eq_0_iff bit_simps)

lemma number_loop_padded:
  assumes "bytes_at f p (padded j n t)" and "p + Suc j \<le> e" and "i + j = 4"
    and "t AND 0x70 = 0" and "t AND 128 = 0"
    and "push_bit 28 (ucast (t AND 127)) = push_bit 28 (drop_bit (7 * j) n)"
  shows "number_loop f \<lparr>rd_p = p, rd_end = e\<rparr> i acc =
    Inr (acc OR push_bit (7 * i) n, \<lparr>rd_p = p + Suc j, rd_end = e\<rparr>)"
  using assms
proof (induction j arbitrary: p i n acc)
  case 0
  then show ?case by (subst number_loop.simps) (simp add: get_w_at Let_def del: push_bit_and)
next
  case (Suc j)
  have "number_loop f \<lparr>rd_p = Suc p, rd_end = e\<rparr> (Suc i) (acc OR push_bit (7 * i) (n AND 127)) =
      Inr ((acc OR push_bit (7 * i) (n AND 127)) OR push_bit (7 * Suc i) (drop_bit 7 n),
        \<lparr>rd_p = Suc p + Suc j, rd_end = e\<rparr>)"
    using Suc.prems by (intro Suc.IH) (simp_all add: add.commute)
  with Suc.prems show ?case
    by (subst number_loop.simps) (simp add: get_w_at Let_def low_high or_shift_7 del: push_bit_and)
qed

lemma signed_loop_padded:
  assumes "bytes_at f p (padded j n t)" and "p + Suc j \<le> e" and "i + j = 4" and "t AND 128 = 0"
    and "push_bit 28 (ucast (t AND 127)) = push_bit 28 (drop_bit (7 * j) n)"
  shows "signed_loop f \<lparr>rd_p = p, rd_end = e\<rparr> (7 * i) acc =
    Inr (t, 35, acc OR push_bit (7 * i) n, \<lparr>rd_p = p + Suc j, rd_end = e\<rparr>)"
  using assms
proof (induction j arbitrary: p i n acc)
  case 0
  then show ?case by (subst signed_loop.simps) (simp add: get_w_at Let_def del: push_bit_and)
next
  case (Suc j)
  have "signed_loop f \<lparr>rd_p = Suc p, rd_end = e\<rparr> (7 * Suc i) (acc OR push_bit (7 * i) (n AND 127)) =
      Inr (t, 35, (acc OR push_bit (7 * i) (n AND 127)) OR push_bit (7 * Suc i) (drop_bit 7 n),
        \<lparr>rd_p = Suc p + Suc j, rd_end = e\<rparr>)"
    using Suc.prems by (intro Suc.IH) (simp_all add: add.commute)
  with Suc.prems show ?case
    by (subst signed_loop.simps)
      (simp add: get_w_at Let_def low_high or_shift_7 add.commute del: push_bit_and)
qed

subsection \<open>The bytes of a patch\<close>

definition signed_kind :: "u8 \<Rightarrow> bool" where
  "signed_kind kind \<longleftrightarrow> kind = 1 \<or> kind = 4"

definition patch_top :: "u8 \<Rightarrow> u32 \<Rightarrow> u8" where
  "patch_top kind value =
     (let top = ucast (drop_bit 28 value AND 15) in
      if signed_kind kind \<and> top AND 8 \<noteq> 0 then top OR 0x70 else top)"

lemma patch_bytes_padded:
  assumes "\<not> raw_kind kind"
  shows "patch_bytes kind value = padded 4 value (patch_top kind value)"
  using assms
  by (simp add: patch_bytes_def patch_top_def signed_kind_def Let_def numeral_eq_Suc upt_rec
      drop_bit_drop_bit)

lemma bit_15 [simp]: "bit (15 :: int) n \<longleftrightarrow> n < 4"
  using bit_mask_iff [of 4 n, where 'a = int] by (simp add: mask_eq_exp_minus_1 del: bit_mask_iff)

lemma patch_top_bits:
  "patch_top kind value AND 128 = 0"
  "push_bit 28 (ucast (patch_top kind value AND 127)) = push_bit 28 (drop_bit 28 value :: u32)"
  "\<not> signed_kind kind \<Longrightarrow> patch_top kind value AND 0x70 = 0"
proof -
  let ?top = "ucast (drop_bit 28 value AND 15) :: u8"
  have top: "patch_top kind value = (if signed_kind kind \<and> ?top AND 8 \<noteq> 0 then ?top OR 0x70 else ?top)"
    by (simp add: patch_top_def Let_def)
  have bits: "bit (patch_top kind value) k \<longleftrightarrow>
      (if k < 4 then bit value (28 + k) else signed_kind kind \<and> ?top AND 8 \<noteq> 0 \<and> k < 7)" if "k < 8" for k
    using that by (auto simp: top bit_simps)
  show "patch_top kind value AND 128 = 0" by (simp add: and_exp_eq_0_iff bits)
  show "push_bit 28 (ucast (patch_top kind value AND 127)) = push_bit 28 (drop_bit 28 value :: u32)"
  proof (rule bit_word_eqI)
    fix k assume k: "k < LENGTH(32)"
    show "bit (push_bit 28 (ucast (patch_top kind value AND 127)) :: u32) k =
        bit (push_bit 28 (drop_bit 28 value)) k"
      using k bits [of "k - 28"] diff_less_mono [of k 32 28]
      by (auto simp add: bit_push_bit_iff bit_ucast_iff bit_and_iff bit_drop_bit_eq)
  qed
  show "patch_top kind value AND 0x70 = 0" if "\<not> signed_kind kind"
    using that by (intro bit_word_eqI) (auto simp: bit_and_iff bits)
qed

lemma patch_spec:
  assumes "patch f s off kind value = Inr f'"
  shows "length f' = length f"
    and "bytes_at f' (sec_p s + unat off) (patch_bytes kind value)"
    and "unat off + length (patch_bytes kind value) \<le> sec_n s"
    and "i < sec_p s + unat off \<or> sec_p s + unat off + length (patch_bytes kind value) \<le> i \<Longrightarrow>
      f' ! i = f ! i"
proof -
  have n: "length (patch_bytes kind value) = (if raw_kind kind then 4 else 5)"
    by (simp add: patch_bytes_def)
  from assms have w: "write_bytes f (sec_p s + unat off) (patch_bytes kind value) = Inr f'"
    and fits: "\<not> (unat off > sec_n s \<or> (if raw_kind kind then 4 else 5) > sec_n s - unat off)"
    by (auto simp: patch_def Let_def split: if_splits)
  show "length f' = length f" "bytes_at f' (sec_p s + unat off) (patch_bytes kind value)"
    "i < sec_p s + unat off \<or> sec_p s + unat off + length (patch_bytes kind value) \<le> i \<Longrightarrow>
      f' ! i = f ! i"
    by (rule write_bytes_spec(1,3,4) [OF w], assumption?)+
  show "unat off + length (patch_bytes kind value) \<le> sec_n s" using fits n by auto
qed

text \<open>The little-endian word at an offset.\<close>

definition word_at :: "bytes \<Rightarrow> nat \<Rightarrow> u32" where
  "word_at f p = ucast (f ! p) OR push_bit 8 (ucast (f ! (p + 1))) OR
     push_bit 16 (ucast (f ! (p + 2))) OR push_bit 24 (ucast (f ! (p + 3)))"

lemma word_at_raw:
  assumes "raw_kind kind" and "bytes_at f p (patch_bytes kind value)"
  shows "word_at f p = value"
proof -
  have b: "f ! (p + i) = ucast (drop_bit (8 * i) value)" if "i < 4" for i
  proof -
    have "slice f p 4 = map (\<lambda>i. ucast (drop_bit (8 * i) value)) [0..<4]"
      using assms by (simp add: bytes_at_slice patch_bytes_def)
    then have "slice f p 4 ! i = ucast (drop_bit (8 * i) value)" and "length (slice f p 4) = 4"
      using that by simp_all
    then show ?thesis using that by (simp add: slice_def)
  qed
  have "bit (word_at f p) k = bit value k" if "k < 32" for k
  proof -
    consider "k < 8" | "8 \<le> k" "k < 16" | "16 \<le> k" "k < 24" | "24 \<le> k" by linarith
    then show ?thesis
      using that b [of 0] b [of 1] b [of 2] b [of 3]
      by cases (auto simp: word_at_def bit_simps)
  qed
  then show ?thesis by (intro bit_word_eqI) simp
qed

lemma patch_readable:
  assumes "patch f s off kind value = Inr f'"
  defines "p \<equiv> sec_p s + unat off"
  shows "raw_kind kind \<Longrightarrow> word_at f' p = value"
    and "\<not> raw_kind kind \<Longrightarrow> \<not> signed_kind kind \<Longrightarrow>
      number f' \<lparr>rd_p = p, rd_end = p + 5\<rparr> = Inr (value, \<lparr>rd_p = p + 5, rd_end = p + 5\<rparr>)"
    and "signed_kind kind \<Longrightarrow>
      signed_number f' \<lparr>rd_p = p, rd_end = p + 5\<rparr> = Inr (value, \<lparr>rd_p = p + 5, rd_end = p + 5\<rparr>)"
proof -
  have here: "bytes_at f' p (patch_bytes kind value)"
    unfolding p_def by (rule patch_spec(2) [OF assms(1)])
  show "word_at f' p = value" if "raw_kind kind" using that here by (rule word_at_raw)
  have pad: "bytes_at f' p (padded 4 value (patch_top kind value))" if "\<not> raw_kind kind"
    using here patch_bytes_padded [OF that] by simp
  show "number f' \<lparr>rd_p = p, rd_end = p + 5\<rparr> = Inr (value, \<lparr>rd_p = p + 5, rd_end = p + 5\<rparr>)"
    if "\<not> raw_kind kind" "\<not> signed_kind kind"
  proof -
    have "bytes_at f' p (padded 4 value (patch_top kind value))" by (rule pad) (rule that(1))
    then have "number_loop f' \<lparr>rd_p = p, rd_end = p + 5\<rparr> 0 0 =
        Inr (0 OR push_bit (7 * 0) value, \<lparr>rd_p = p + Suc 4, rd_end = p + 5\<rparr>)"
      using patch_top_bits [of kind "value"] that(2) by (intro number_loop_padded) simp_all
    then show ?thesis by (simp add: number_def)
  qed
  show "signed_number f' \<lparr>rd_p = p, rd_end = p + 5\<rparr> = Inr (value, \<lparr>rd_p = p + 5, rd_end = p + 5\<rparr>)"
    if "signed_kind kind"
  proof -
    have "\<not> raw_kind kind" using that by (auto simp: raw_kind_def signed_kind_def)
    then have "signed_loop f' \<lparr>rd_p = p, rd_end = p + 5\<rparr> (7 * 0) 0 =
        Inr (patch_top kind value, 35, 0 OR push_bit (7 * 0) value,
          \<lparr>rd_p = p + Suc 4, rd_end = p + 5\<rparr>)"
      using patch_top_bits [of kind "value"] pad by (intro signed_loop_padded) simp_all
    then show ?thesis by (simp add: signed_number_def)
  qed
qed

end
