(* ===== verification/Wasm_Maps.thy ===== *)
theory Wasm_Maps
  imports Wasm_Patch
begin

text \<open>
  The function and global index spaces of the output: imports first, then the functions of every
  object in the order in which the function and code sections list them, without gaps.
\<close>

unbundle bit_operations_syntax

lemma number_from_spec:
  assumes "number_from n base next m = Inr (m', next')" and "length m < 2 ^ 32"
  shows "next' = next + of_nat n \<and> length m' = length m \<and> (n \<noteq> 0 \<longrightarrow> unat base + n \<le> length m) \<and>
    (\<forall>i < n. m' ! (unat base + i) = next + of_nat i) \<and>
    (\<forall>j. j < unat base \<or> unat base + n \<le> j \<longrightarrow> m' ! j = m ! j)"
  using assms
proof (induction n arbitrary: base "next" m)
  case (Suc n)
  then have b: "unat base < length m"
    and rest: "number_from n (base + 1) (next + 1) (m[unat base := next]) = Inr (m', next')"
    by (auto simp: bind_simps)
  have b1: "unat (base + 1) = Suc (unat base)"
    using b Suc.prems(2) by (simp add: unat_word_ariths)
  note IH = Suc.IH [OF rest]
  have "m' ! (unat base + i) = next + of_nat i" if "i < Suc n" for i
  proof (cases i)
    case 0
    then show ?thesis using IH b b1 Suc.prems(2) by simp
  next
    case (Suc j)
    have "m' ! (unat (base + 1) + j) = next + 1 + of_nat j"
      using IH Suc that Suc.prems(2) by simp
    then show ?thesis using Suc b1 by (simp add: algebra_simps)
  qed
  with IH b b1 Suc.prems(2) show ?case by (auto simp: algebra_simps)
qed simp

text \<open>The part of an index map that belongs to the object's own definitions.\<close>

definition own_functions :: "object \<Rightarrow> u32 list" where
  "own_functions obj = drop (unat (o_nfimp obj)) (o_fmap obj)"

definition own_globals :: "object \<Rightarrow> u32 list" where
  "own_globals obj = drop (unat (o_ngimp obj)) (o_gmap obj)"

text \<open>The maps have the sizes \<open>parse\<close> allocates (part of \<open>parsed_object\<close>).\<close>

definition maps_allocated :: "object \<Rightarrow> bool" where
  "maps_allocated obj \<longleftrightarrow>
     length (o_fmap obj) = unat (o_nfimp obj + of_nat (length (o_functions obj))) \<and>
     length (o_gmap obj) = unat (o_ngimp obj + of_nat (length (o_globals obj)))"

definition consecutive :: "u32 \<Rightarrow> nat \<Rightarrow> u32 list" where
  "consecutive start n = map (\<lambda>i. start + of_nat i) [0..<n]"

lemma consecutive_append:
  "consecutive start (m + n) = consecutive start m @ consecutive (start + of_nat m) n"
proof -
  have "map (\<lambda>i. start + of_nat i) [m..<m + n] =
      map (\<lambda>i. start + of_nat m + (of_nat i :: u32)) [0..<n]"
    by (rule nth_equalityI) (simp_all add: add.assoc)
  moreover have "[0..<m + n] = [0..<m] @ [m..<m + n]" by (rule upt_add_eq_append) simp
  ultimately show ?thesis by (simp only: consecutive_def map_append)
qed

lemma number_from_own:
  assumes "number_from n base next m = Inr (m', next')" and "length m = unat (base + of_nat n)"
  shows "drop (unat base) m' = consecutive next n" and "next' = next + of_nat n"
proof -
  have "length m < 2 ^ 32" using assms(2) unat_less_32 by simp
  note spec = number_from_spec [OF assms(1) this]
  have "unat (base + of_nat n) \<le> unat base + n"
    by (simp add: unat_word_ariths unat_of_nat)
  with spec assms(2) have "length m' = unat base + n" by (cases n) auto
  then show "drop (unat base) m' = consecutive next n"
    using spec by (intro nth_equalityI) (simp_all add: consecutive_def)
  show "next' = next + of_nat n" using spec by simp
qed

lemma assign_object_spec:
  assumes "assign_object obj (fn, gn) = Inr (obj', fn', gn')" and "maps_allocated obj"
  shows "own_functions obj' = consecutive fn (length (o_functions obj))"
    and "own_globals obj' = consecutive gn (length (o_globals obj))"
    and "fn' = fn + of_nat (length (o_functions obj))"
    and "gn' = gn + of_nat (length (o_globals obj))"
    and "\<forall>y \<in> set (o_symbols obj'). \<not> undefined_sym y \<longrightarrow>
      (sy_kind y = 0 \<longrightarrow> sy_value y = o_fmap obj' ! unat (sy_index y)) \<and>
      (sy_kind y = 2 \<longrightarrow> sy_value y = o_gmap obj' ! unat (sy_index y))"
proof -
  from assms(1) obtain fmap gmap ys
    where f: "number_from (length (o_functions obj)) (o_nfimp obj) fn (o_fmap obj) = Inr (fmap, fn')"
      and g: "number_from (length (o_globals obj)) (o_ngimp obj) gn (o_gmap obj) = Inr (gmap, gn')"
      and ys: "map_r (assign_value (obj\<lparr>o_fmap := fmap, o_gmap := gmap\<rparr>)) (o_symbols obj) = Inr ys"
      and obj': "obj' = obj\<lparr>o_fmap := fmap, o_gmap := gmap, o_symbols := ys\<rparr>"
    by (auto simp: assign_object_def Let_def bind_simps)
  have own: "drop (unat (o_nfimp obj)) fmap = consecutive fn (length (o_functions obj))"
    "drop (unat (o_ngimp obj)) gmap = consecutive gn (length (o_globals obj))"
    using number_from_own(1) [OF f] number_from_own(1) [OF g] assms(2)
    by (simp_all add: maps_allocated_def)
  show "fn' = fn + of_nat (length (o_functions obj))" "gn' = gn + of_nat (length (o_globals obj))"
    using number_from_own(2) [OF f] number_from_own(2) [OF g] assms(2)
    by (simp_all add: maps_allocated_def)
  show "own_functions obj' = consecutive fn (length (o_functions obj))"
    "own_globals obj' = consecutive gn (length (o_globals obj))"
    using own by (simp_all add: obj' own_functions_def own_globals_def)
  have "\<forall>y \<in> set ys. \<not> undefined_sym y \<longrightarrow>
      (sy_kind y = 0 \<longrightarrow> sy_value y = fmap ! unat (sy_index y)) \<and>
      (sy_kind y = 2 \<longrightarrow> sy_value y = gmap ! unat (sy_index y))"
    by (rule map_r_all [OF ys])
      (auto simp: assign_value_def bind_simps undefined_sym_def split: if_splits)
  then show "\<forall>y \<in> set (o_symbols obj'). \<not> undefined_sym y \<longrightarrow>
      (sy_kind y = 0 \<longrightarrow> sy_value y = o_fmap obj' ! unat (sy_index y)) \<and>
      (sy_kind y = 2 \<longrightarrow> sy_value y = o_gmap obj' ! unat (sy_index y))"
    by (simp add: obj')
qed

definition total_functions :: "object list \<Rightarrow> nat" where
  "total_functions objs = sum_list (map (length \<circ> o_functions) objs)"

definition total_globals :: "object list \<Rightarrow> nat" where
  "total_globals objs = sum_list (map (length \<circ> o_globals) objs)"

lemma total_simps [simp]:
  "total_functions [] = 0" "total_functions (obj # objs) = length (o_functions obj) + total_functions objs"
  "total_globals [] = 0" "total_globals (obj # objs) = length (o_globals obj) + total_globals objs"
  by (simp_all add: total_functions_def total_globals_def)

lemma assign_maps_spec:
  assumes "assign_maps objs (fn, gn) = Inr (objs', fn', gn')" and "list_all maps_allocated objs"
  shows "concat (map own_functions objs') = consecutive fn (total_functions objs) \<and>
    concat (map own_globals objs') = consecutive gn (total_globals objs) \<and>
    fn' = fn + of_nat (total_functions objs) \<and> gn' = gn + of_nat (total_globals objs)"
  using assms
proof (induction objs arbitrary: fn gn objs')
  case Nil
  then show ?case by (simp add: consecutive_def)
next
  case (Cons obj objs)
  then obtain obj1 f1 g1 objs1 where one: "assign_object obj (fn, gn) = Inr (obj1, f1, g1)"
    and rest: "assign_maps objs (f1, g1) = Inr (objs1, fn', gn')" and objs': "objs' = obj1 # objs1"
    by (auto simp: bind_simps)
  from Cons.prems(2) have "maps_allocated obj" by simp
  note spec = assign_object_spec [OF one this]
  with Cons.IH [OF rest] Cons.prems(2) objs' show ?case
    by (simp add: consecutive_append add.assoc)
qed

end
