(* ===== verification/Wasm_Correct.thy ===== *)
theory Wasm_Correct
  imports Wasm_Maps
begin

text \<open>
  The properties of the built-in WebAssembly linker, with two small object files on which they
  are exercised: \<open>sample_a\<close> defines \<open>f\<close> and a data segment \<open>x\<close> and calls the undefined function
  \<open>g\<close>; \<open>sample_b\<close> defines \<open>g\<close>.
\<close>

unbundle bit_operations_syntax

subsection \<open>Sample objects\<close>

definition sample_a :: bytes where
  "sample_a = wasm_magic @ [1, 4, 1, 0x60, 0, 0] @ [2, 9, 1, 3, 101, 110, 118, 1, 103, 0, 0] @
     [3, 2, 1, 0] @ [10, 10, 1, 8, 0, 0x10, 0x80, 0x80, 0x80, 0x80, 0, 0xb] @
     [11, 10, 1, 0, 0x41, 0, 0xb, 4, 1, 2, 3, 4] @
     [0, 34, 7] @ cstr ''linking'' @ [2, 5, 5, 1, 1, 100, 2, 0] @
     [8, 16, 3, 0, 16, 0, 0, 0, 1, 1, 102, 1, 0, 1, 120, 0, 0, 4] @
     [0, 16, 10] @ cstr ''reloc.CODE'' @ [3, 1, 0, 4, 0]"

definition sample_b :: bytes where
  "sample_b = wasm_magic @ [1, 4, 1, 0x60, 0, 0] @ [3, 2, 1, 0] @ [10, 4, 1, 2, 0, 0xb] @
     [0, 17, 7] @ cstr ''linking'' @ [2, 8, 6, 1, 0, 0, 0, 1, 103]"

text \<open>One code entry, then a second function section that announces two functions.\<close>

definition sample_twice :: bytes where
  "sample_twice = wasm_magic @ [1, 4, 1, 0x60, 0, 0] @ [3, 2, 1, 0] @ [10, 4, 1, 2, 0, 0xb] @
     [3, 3, 2, 0, 0] @ [0, 9, 7] @ cstr ''linking'' @ [2]"

text \<open>As \<open>sample_a\<close>, but the undefined symbol \<open>g\<close> is flagged local (16 + 2).\<close>

definition sample_local :: bytes where
  "sample_local = wasm_magic @ [1, 4, 1, 0x60, 0, 0] @ [2, 9, 1, 3, 101, 110, 118, 1, 103, 0, 0] @
     [3, 2, 1, 0] @ [10, 10, 1, 8, 0, 0x10, 0x80, 0x80, 0x80, 0x80, 0, 0xb] @
     [0, 15, 7] @ cstr ''linking'' @ [2, 8, 4, 1, 0, 18, 0] @
     [0, 16, 10] @ cstr ''reloc.CODE'' @ [3, 1, 0, 4, 0]"

text \<open>An archive whose only member is \<open>sample_b\<close>.\<close>

definition sample_archive :: bytes where
  "sample_archive = cstr ''!<arch>'' @ [10] @ cstr ''b.o/'' @ replicate 44 32 @ cstr ''43        `'' @ [10] @
     sample_b @ [10]"

definition sample_fs :: "string \<Rightarrow> bytes option" where
  "sample_fs p = (if p = ''a.o'' then Some sample_a else if p = ''b.o'' then Some sample_b
     else if p = ''b.a'' then Some sample_archive else if p = ''twice.o'' then Some sample_twice
     else if p = ''local.o'' then Some sample_local else None)"

definition sample_link :: link where
  "sample_link = projr (inputs sample_fs [''a.o'', ''b.o''] (initial_link [] False))"

subsection \<open>Integers\<close>

text \<open>C1: every integer the linker writes is read back, from any position of any file, with the cursor right
  after it: \<open>uleb\<close> by \<open>number\<close> for unsigned values, and \<open>sleb\<close> by \<open>signed_number\<close> for every 32-bit value, negative
  ones included.\<close>

theorem integers_roundtrip:
  "number (pre @ uleb [] n @ post)
     \<lparr>rd_p = length pre, rd_end = length (pre @ uleb [] n @ post)\<rparr> =
   Inr (n, \<lparr>rd_p = length (pre @ uleb [] n), rd_end = length (pre @ uleb [] n @ post)\<rparr>) \<and>
   signed_number (pre @ sleb [] i @ post)
     \<lparr>rd_p = length pre, rd_end = length (pre @ sleb [] i @ post)\<rparr> =
   Inr (i, \<lparr>rd_p = length (pre @ sleb [] i), rd_end = length (pre @ sleb [] i @ post)\<rparr>)"
  by (rule conjI; rule leb.roundtrip leb_s.roundtrip; simp)

subsection \<open>The object reader\<close>

text \<open>C2: the object reader is memory safe: on no input bytes does it read outside the file, its
  section array, its data segments, its type table or its function table; it returns an object
  or stops with a diagnostic.\<close>

theorem parse_memory_safe:
  assumes "distinct (l_types l)"
  shows "parse l data path \<noteq> Inl OutOfBounds"
  by (rule ok_no_fault [OF parse_ok [OF assms]])

theorem parse_memory_safe_witness:
  "parse (initial_link [] False) sample_a ''a.o'' \<noteq> Inl OutOfBounds"
  by (rule parse_memory_safe) (simp add: initial_link_def)

text \<open>C3: an object the reader accepts is well formed: segments and bodies lie inside the file,
  alignments are at most 30, data symbols lie inside their segment, function and global symbols
  have an index of their space, imported exactly if they are undefined, with an interned type,
  and the index maps have the allocated size. The type table keeps its entries and stays
  duplicate free.\<close>

theorem parse_well_formed:
  assumes "parse l data path = Inr (l', obj)" and "distinct (l_types l)"
  shows "parsed_object l' obj \<and> distinct (l_types l') \<and> (\<exists>ts. l_types l' = l_types l @ ts)"
proof -
  from okD [OF parse_ok [OF assms(2)] assms(1)]
  have "parsed_object l' obj" and "grows l l'" by simp_all
  then show ?thesis
    by (auto simp: parsed_object_def linking_inv_def object_inv_def grows_def)
qed

theorem parse_well_formed_witness:
  "parsed_object (fst (projr (parse (initial_link [] False) sample_a ''a.o'')))
     (snd (projr (parse (initial_link [] False) sample_a ''a.o'')))"
proof -
  let ?p = "parse (initial_link [] False) sample_a ''a.o''"
  have "?p = Inr (fst (projr ?p), snd (projr ?p))" "distinct (l_types (initial_link [] False))"
    by code_simp+
  from parse_well_formed [OF this] show ?thesis by blast
qed

subsection \<open>Resolution\<close>

text \<open>C4: \<open>definition\<close> of a global symbol succeeds exactly when all non-local definitions of its
  name agree in kind and at most one of them is strong; it then is the strong one, or the first
  weak one, or nothing when there is no definition.\<close>

theorem definition_resolves:
  assumes "sy_name (symbol_at l r) \<noteq> None" and "\<not> local_sym (symbol_at l r)"
  shows "definition_w l r = Inr d \<longleftrightarrow>
    resolvable l (symbol_at l r) (candidates l (symbol_at l r)) \<and>
    d = best_of l (candidates l (symbol_at l r))"
  using assms by (rule definition_w_iff)

theorem definition_resolves_witness: "definition_w sample_link (0, 0) = Inr (Some (1, 0))"
proof -
  have "sy_name (symbol_at sample_link (0, 0)) \<noteq> None" "\<not> local_sym (symbol_at sample_link (0, 0))"
    "resolvable sample_link (symbol_at sample_link (0, 0))
       (candidates sample_link (symbol_at sample_link (0, 0)))"
    "best_of sample_link (candidates sample_link (symbol_at sample_link (0, 0))) = Some (1, 0)"
    by code_simp+
  then show ?thesis using definition_resolves [of sample_link "(0, 0)"] by metis
qed

text \<open>Host imports are entered once: a successful \<open>imported\<close> returns the position of a table
  entry with the module, the name and the (link-wide) type of the symbol's import, the symbol is on
  the list of allowed imports, the table only grows at its end and no module and name pair
  occurs twice.\<close>

lemma imported_once:
  assumes "imported l obj y = Inr (l', v)" and "distinct (map import_key (l_imports l))"
  shows "(\<exists>im ty i. import_at obj 0 (sy_index y) = Inr im \<and> mapped_type obj (im_type im) = Inr ty \<and>
      v = of_nat i \<and> i < length (l_imports l') \<and> import_key (l_imports l' ! i) = import_key im \<and>
      im_type (l_imports l' ! i) = ty) \<and>
    (\<exists>a \<in> set (l_allowed l). sy_name y = Some a) \<and>
    (\<exists>ims. l_imports l' = l_imports l @ ims) \<and> distinct (map import_key (l_imports l'))"
  using imported_spec [OF assms(1)] assms(2) by fastforce

subsection \<open>Archives\<close>

text \<open>The decimal fields of an archive header are read exactly: an accepted field is a non-empty
  run of digits followed by spaces, and the 64-bit result is the number the digits denote, without
  wrap-around.\<close>

lemma decimal_exact:
  assumes "decimal p = Inr w"
  shows "\<exists>ds sp. p = ds @ sp \<and> ds \<noteq> [] \<and> (\<forall>c \<in> set ds. 48 \<le> c \<and> c \<le> 57) \<and>
    (\<forall>c \<in> set sp. c = 32) \<and> unat w = digits_value 0 ds"
  using decimal_loop_value [of p 0 False w] assms by (auto simp: decimal_def)

text \<open>C5: archive selection stops only when it is complete: no member that was left out defines a
  symbol that is still undefined in the selected objects.\<close>

theorem selection_complete:
  assumes "select_members l cs = Inr (l', cs')" and "c \<in> set cs'" and "\<not> c_selected c"
    and "r \<in> set (symbol_refs l')" and "undefined_sym (symbol_at l' r)"
    and "sy_name (symbol_at l' r) \<noteq> None" and "definition_w l' r = Inr None"
  shows "\<not> member_defines (c_object c) (symbol_at l' r)"
proof -
  have "member_needed l' (c_object c) = Inr False"
    using select_members_fixpoint [OF assms(1)] assms(2,3) by blast
  then show ?thesis using assms(4-7) by (rule member_needed_False)
qed

definition sample_only_a :: link where
  "sample_only_a = projr (inputs sample_fs [''a.o''] (initial_link [] False))"

definition sample_member :: candidate where
  "sample_member = \<lparr>c_object = l_objects sample_only_a ! 0, c_selected = False\<rparr>"

theorem selection_complete_witness:
  "\<not> member_defines (c_object sample_member) (symbol_at sample_only_a (0, 0))"
proof -
  have "select_members sample_only_a [sample_member] = Inr (sample_only_a, [sample_member])"
    "(0, 0) \<in> set (symbol_refs sample_only_a)" "undefined_sym (symbol_at sample_only_a (0, 0))"
    "sy_name (symbol_at sample_only_a (0, 0)) \<noteq> None"
    "definition_w sample_only_a (0, 0) = Inr None" "\<not> c_selected sample_member"
    by code_simp+
  from selection_complete [OF this(1) _ this(6,2-5)] show ?thesis by simp
qed

subsection \<open>Layout\<close>

text \<open>C6: memory layout: the data segments of all objects lie one after the other from address 1024
  on, each aligned as requested, none overlapping; the stack starts above them at a multiple of 16;
  stack and heap base do not overflow 32 bits; and the number of pages covers the heap base
  and fits the address space.\<close>

theorem layout_disjoint:
  assumes "layout_all l = Inr lay" and "alignments_ok l"
  shows "let ds = concat (map o_data (l_objects (lay_link lay)));
             low = stack_low_of (lay_address lay); heap = heap_of low in
    (\<forall>i < length ds. 1024 \<le> unat (seg_address (ds ! i)) \<and>
      2 ^ unat (seg_alignment (ds ! i)) dvd unat (seg_address (ds ! i)) \<and>
      unat (seg_address (ds ! i)) + unat (seg_n (ds ! i)) \<le> unat low) \<and>
    (\<forall>i j. i < j \<and> j < length ds \<longrightarrow>
      unat (seg_address (ds ! i)) + unat (seg_n (ds ! i)) \<le> unat (seg_address (ds ! j))) \<and>
    16 dvd unat low \<and> unat heap = unat low + 1048576 \<and>
    unat heap \<le> unat (pages_of heap) * 65536 \<and> unat (pages_of heap) \<le> 65536"
proof -
  define ds where "ds = concat (map o_data (l_objects (lay_link lay)))"
  define low where "low = stack_low_of (lay_address lay)"
  from layout_all_inv [OF assms]
  have placed: "placed 1024 ds (unat (lay_address lay))" and lim: "unat (lay_address lay) \<le> memory_limit"
    by (simp_all add: ds_def)
  note stack = stack_heap [OF lim, folded low_def]
  have "\<forall>i < length ds. 1024 \<le> unat (seg_address (ds ! i)) \<and>
      2 ^ unat (seg_alignment (ds ! i)) dvd unat (seg_address (ds ! i)) \<and>
      unat (seg_address (ds ! i)) + unat (seg_n (ds ! i)) \<le> unat low"
    using placed_nth [OF placed] stack(1) by (meson le_trans)
  moreover have "\<forall>i j. i < j \<and> j < length ds \<longrightarrow>
      unat (seg_address (ds ! i)) + unat (seg_n (ds ! i)) \<le> unat (seg_address (ds ! j))"
    using placed_disjoint [OF placed] by blast
  ultimately show ?thesis
    unfolding Let_def ds_def [symmetric] low_def [symmetric]
    using stack(2,4) pages_of_spec [of "heap_of low"] by blast
qed

theorem layout_disjoint_witness:
  "16 dvd unat (stack_low_of (lay_address (projr (layout_all sample_link))))"
proof -
  have "layout_all sample_link = Inr (projr (layout_all sample_link))" "alignments_ok sample_link"
    by code_simp+
  from layout_disjoint [OF this] show ?thesis unfolding Let_def by blast
qed

subsection \<open>Relocation\<close>

text \<open>C7: a relocation changes the bytes of its field and nothing else, stays inside its section,
  and the field read back (little-endian word, signed or unsigned five-byte LEB128, by kind) is
  the value that was to be stored.\<close>

theorem patch_stores_value:
  assumes "patch f s off kind v = Inr f'"
  shows "let p = sec_p s + unat off; n = (if raw_kind kind then 4 else 5) in
    length f' = length f \<and> unat off + n \<le> sec_n s \<and>
    (\<forall>i. i < p \<or> p + n \<le> i \<longrightarrow> f' ! i = f ! i) \<and>
    (if raw_kind kind then word_at f' p = v
     else (if signed_kind kind then signed_number else number) f' \<lparr>rd_p = p, rd_end = p + 5\<rparr> =
       Inr (v, \<lparr>rd_p = p + 5, rd_end = p + 5\<rparr>))"
proof -
  have "length (patch_bytes kind v) = (if raw_kind kind then 4 else 5)"
    by (simp add: patch_bytes_def)
  then show ?thesis
    unfolding Let_def using patch_spec [OF assms] patch_readable [OF assms] by auto
qed

theorem patch_stores_value_witness:
  "number (projr (patch sample_a \<lparr>sec_id = 10, sec_p = 31, sec_n = 10\<rparr> 4 0 300))
     \<lparr>rd_p = 31 + 4, rd_end = 31 + 4 + 5\<rparr> = Inr (300, \<lparr>rd_p = 31 + 4 + 5, rd_end = 31 + 4 + 5\<rparr>)"
proof -
  let ?s = "\<lparr>sec_id = 10, sec_p = 31, sec_n = 10\<rparr>"
  have "patch sample_a ?s 4 0 300 = Inr (projr (patch sample_a ?s 4 0 300))" by code_simp
  from patch_stores_value [OF this] show ?thesis
    by (simp add: Let_def raw_kind_def signed_kind_def)
qed

subsection \<open>Index spaces\<close>

text \<open>The index spaces of the output have no gaps: the functions of all objects, in the order in
  which the function and code sections list them, get the consecutive indices that follow the
  imports, and the globals those that follow the stack pointer.\<close>

lemma indices_consecutive:
  assumes "assign_maps objs (fn, gn) = Inr (objs', fn', gn')" and "list_all maps_allocated objs"
  shows "concat (map own_functions objs') = consecutive fn (total_functions objs) \<and>
    concat (map own_globals objs') = consecutive gn (total_globals objs) \<and>
    fn' = fn + of_nat (total_functions objs) \<and> gn' = gn + of_nat (total_globals objs)"
  using assms by (rule assign_maps_spec)

subsection \<open>The output module\<close>

text \<open>The export section is the export table: its names are distinct, and the section body
  is the count followed by entries that the object reader's export reader gives back.\<close>

lemma exports_readable:
  assumes "emit_exports l out = Inr (l', out')" and "l_exports l = []"
    and "list_all export_valid (l_exports l')"
  shows "distinct (map ex_name (l_exports l')) \<and>
    (\<exists>body. out' = out @ section_bytes (7, uleb [] (of_nat (length (l_exports l'))) @ body) \<and>
      many (length (l_exports l')) (parse_export body) \<lparr>rd_p = 0, rd_end = length body\<rparr> =
        Inr (l_exports l', \<lparr>rd_p = length body, rd_end = length body\<rparr>))"
proof -
  let ?body = "concat (map export_bytes (l_exports l'))"
  have "bytes_at ?body 0 ?body" using bytes_at_here [of "[]" ?body "[]"] by simp
  from exp.many_enc [OF assms(3) this, of "length ?body"] emit_exports_spec [OF assms(1,2)]
  show ?thesis by (intro conjI exI [of _ ?body]) simp_all
qed

text \<open>C8: a linked module is a sequence of sections in the order the WebAssembly specification
  demands: the linker's own section reader accepts the whole output and finds strictly increasing
  section identifiers, with type, function, table, memory, global, export and code sections
  always present.\<close>

theorem linked_module_readable:
  assumes "dyn_link_wasm_objects fs paths allowed wasi max_memory = Inr out"
  shows "take 8 out = wasm_magic \<and>
    (\<exists>ss. read_sections out (length out div 2 + 1) \<lparr>rd_p = 8, rd_end = length out\<rparr> [] = Inr ss \<and>
      sorted_wrt (<) (map sec_id ss) \<and> {1, 3, 4, 5, 6, 7, 10} \<subseteq> set (map sec_id ss))"
proof -
  from assms obtain l lay fn heap where "emit_module l lay fn heap max_memory = Inr out"
    by (auto simp: dyn_link_wasm_objects_def bind_simps Let_def)
  note emits = emit_module_emits [OF this]
  have "take 8 out = wasm_magic" using emits by (auto simp: emits_def wasm_magic_def)
  moreover have "sorted_wrt (<) (module_sections l lay fn)" "{1, 3, 4, 5, 6, 7, 10} \<subseteq> set (module_sections l lay fn)"
    by (simp_all add: module_sections_def)
  ultimately show ?thesis using emits_readable [OF emits] by metis
qed

theorem linked_module_readable_witness:
  "take 8 (projr (dyn_link_wasm_objects sample_fs [''a.o'', ''b.a''] [] False 0)) = wasm_magic"
proof -
  have "dyn_link_wasm_objects sample_fs [''a.o'', ''b.a''] [] False 0 =
      Inr (projr (dyn_link_wasm_objects sample_fs [''a.o'', ''b.a''] [] False 0))" by code_simp
  from linked_module_readable [OF this] show ?thesis by blast
qed

subsection \<open>Two inputs the linker does not reject\<close>













text \<open>The whole linker on this file.\<close>

lemma sample_twice_faults: "dyn_link_wasm_objects sample_fs [''twice.o''] [] False 0 = Inl OutOfBounds"
  by code_simp

text \<open>An undefined function symbol flagged local resolves to itself, so a call to a function that
  no object defines and that is not an allowed import is linked as a call to function 0; without
  the local flag the same input is rejected.\<close>

lemma undefined_local_accepted:
  "(\<exists>out. dyn_link_wasm_objects sample_fs [''local.o''] [] False 0 = Inr out) \<and>
   dyn_link_wasm_objects sample_fs [''a.o''] [] False 0 = Inl (Fail ''undefined symbol: g'')"
proof
  have "dyn_link_wasm_objects sample_fs [''local.o''] [] False 0 =
      Inr (projr (dyn_link_wasm_objects sample_fs [''local.o''] [] False 0))" by code_simp
  then show "\<exists>out. dyn_link_wasm_objects sample_fs [''local.o''] [] False 0 = Inr out" ..
  show "dyn_link_wasm_objects sample_fs [''a.o''] [] False 0 = Inl (Fail ''undefined symbol: g'')"
    by code_simp
qed

end
