(* ===== verification/Bisect.thy ===== *)
theory Bisect
  imports Dyn_Prelude
begin

text \<open>
  The binary search loop that several components repeat
  (\<open>while (first < end) { mid = first + (end - first) / 2; ... }\<close>), and the interface of an index
  that is searched with it: the entries that come before a key form a prefix.
\<close>

function bisect :: "(nat \<Rightarrow> bool) \<Rightarrow> nat \<Rightarrow> nat \<Rightarrow> nat" where
  "bisect before first e =
     (if first < e then
        let mid = first + (e - first) div 2 in
        if before mid then bisect before (mid + 1) e else bisect before first mid
      else first)"
  by pat_completeness auto
termination by (relation "measure (\<lambda>(before, first, e). e - first)") auto

declare bisect.simps [simp del]

lemma bisect_boundary:
  assumes "first \<le> m" and "m \<le> e" and "\<And>i. first \<le> i \<Longrightarrow> i < m \<Longrightarrow> before i"
    and "\<And>i. m \<le> i \<Longrightarrow> i < e \<Longrightarrow> \<not> before i"
  shows "bisect before first e = m"
  using assms
proof (induction before first e rule: bisect.induct)
  case (1 before first e)
  show ?case
  proof (cases "first < e")
    case True
    let ?mid = "first + (e - first) div 2"
    have mid: "first \<le> ?mid" "?mid < e" using True by auto
    show ?thesis
    proof (cases "before ?mid")
      case b: True
      then have "\<not> m \<le> ?mid" using 1(6) [of ?mid] mid by blast
      then have "?mid + 1 \<le> m" by simp
      with True b 1 mid show ?thesis by (subst bisect.simps) simp
    next
      case b: False
      then have "\<not> ?mid < m" using 1(5) [of ?mid] mid by blast
      then have "m \<le> ?mid" by simp
      with True b 1 mid show ?thesis by (subst bisect.simps) simp
    qed
  next
    case False
    with 1 show ?thesis by (subst bisect.simps) simp
  qed
qed

locale ordered_index =
  fixes before :: "'ix \<Rightarrow> 'key \<Rightarrow> nat \<Rightarrow> bool"
    and entries :: "'ix \<Rightarrow> nat"
    and ordered :: "'ix \<Rightarrow> bool"
  assumes prefix: "ordered ix \<Longrightarrow> i \<le> j \<Longrightarrow> j < entries ix \<Longrightarrow> before ix key j \<Longrightarrow> before ix key i"
begin

text \<open>The boundary the loop finds: how many entries come before the key.\<close>

definition boundary :: "'ix \<Rightarrow> 'key \<Rightarrow> nat" where
  "boundary ix key = length (filter (before ix key) [0..<entries ix])"

lemma boundary_prefix:
  assumes "ordered ix"
  shows "\<And>i. i < boundary ix key \<Longrightarrow> before ix key i"
    and "\<And>i. boundary ix key \<le> i \<Longrightarrow> i < entries ix \<Longrightarrow> \<not> before ix key i"
    and "boundary ix key \<le> entries ix"
proof -
  have split: "\<exists>m \<le> n. filter (before ix key) [0..<n] = [0..<m] \<and> (\<forall>i < n. before ix key i \<longleftrightarrow> i < m)"
    if "n \<le> entries ix" for n
    using that
  proof (induction n)
    case (Suc n)
    then obtain m where m: "m \<le> n" "filter (before ix key) [0..<n] = [0..<m]"
      "\<forall>i < n. before ix key i \<longleftrightarrow> i < m" by auto
    show ?case
    proof (cases "before ix key n")
      case True
      have "before ix key i" if "i < n" for i using prefix [OF assms _ _ True, of i] Suc.prems that by simp
      then have "m = n" using m by (metis le_neq_implies_less less_irrefl)
      then show ?thesis using m True by (intro exI [of _ "Suc n"]) (auto simp: less_Suc_eq)
    next
      case False
      then show ?thesis using m by (intro exI [of _ m]) (auto simp: less_Suc_eq)
    qed
  qed simp
  from split [of "entries ix"] obtain m where "m \<le> entries ix"
    "filter (before ix key) [0..<entries ix] = [0..<m]" "\<forall>i < entries ix. before ix key i \<longleftrightarrow> i < m"
    by auto
  then show "\<And>i. i < boundary ix key \<Longrightarrow> before ix key i"
    and "\<And>i. boundary ix key \<le> i \<Longrightarrow> i < entries ix \<Longrightarrow> \<not> before ix key i"
    and "boundary ix key \<le> entries ix"
    by (auto simp: boundary_def)
qed

lemma search:
  assumes "ordered ix"
  shows "bisect (before ix key) 0 (entries ix) = boundary ix key"
  by (rule bisect_boundary) (use boundary_prefix [OF assms] in auto)

lemma search_prefix:
  assumes "ordered ix"
  shows "bisect (before ix key) 0 (entries ix) \<le> entries ix \<and>
    (\<forall>i < bisect (before ix key) 0 (entries ix). before ix key i) \<and>
    (\<forall>i. bisect (before ix key) 0 (entries ix) \<le> i \<and> i < entries ix \<longrightarrow> \<not> before ix key i)"
  using boundary_prefix [OF assms] by (simp add: search [OF assms])

text \<open>Any other description of the boundary gives the same position.\<close>

lemma search_eq:
  assumes "m \<le> entries ix" and "\<And>i. i < m \<Longrightarrow> before ix key i"
    and "\<And>i. m \<le> i \<Longrightarrow> i < entries ix \<Longrightarrow> \<not> before ix key i"
  shows "bisect (before ix key) 0 (entries ix) = m"
  by (rule bisect_boundary) (use assms in auto)

end

end
