(* ===== verification/Source_Map.thy ===== *)
theory Source_Map
  imports Bisect
begin

text \<open>
  Source positions: generated text back to original text (\<open>src/src/source.c\<close>, \<open>source_span_offset\<close>,
  \<open>dyn_source_position\<close>, \<open>dyn_source_location\<close>) and the precomputed line tables of one code
  generation pass (\<open>src/src/dyn_location.h\<close>).

  A source is its own text plus, when it is a merge of several files, one map per file. The C code
  identifies an original text by its pointer; here it is the number of the table entry it fills in
  the location index: 0 for the source's own text, \<open>i + 1\<close> for the text of map \<open>i\<close>. Byte offsets
  are naturals; the product that scales an offset inside a span is a \<open>size_t\<close> product, so it is
  reduced modulo \<open>2 ^ 64\<close>, and lines and columns are stored as \<open>unsigned\<close>.
\<close>

subsection \<open>Data\<close>

record source_span =
  generated_start :: nat
  generated_end :: nat
  original_start :: nat
  original_end :: nat

record source_map =
  map_path :: string
  map_start :: nat
  map_end :: nat
  map_original_text :: bytes
  map_spans :: "source_span list"

record source =
  src_path :: string
  src_text :: bytes
  src_original_text :: "bytes option"
  src_spans :: "source_span list"
  src_maps :: "source_map list"

record position =
  pos_path :: string
  pos_text :: nat
  pos_length :: nat
  pos_offset :: nat

text \<open>The text with a given number: the arguments of \<open>dyn_location_build\<close>'s loop body.\<close>

definition source_text_of :: "source \<Rightarrow> nat \<Rightarrow> bytes" where
  "source_text_of s i =
     (case i of 0 \<Rightarrow> (case src_original_text s of None \<Rightarrow> src_text s | Some t \<Rightarrow> t)
      | Suc m \<Rightarrow> map_original_text (src_maps s ! m))"

subsection \<open>Positions\<close>

definition span_before :: "source_span list \<Rightarrow> nat \<Rightarrow> nat \<Rightarrow> bool" where
  "span_before spans local mid \<longleftrightarrow> generated_end (spans ! mid) < local"

definition source_span_offset :: "source_span list \<Rightarrow> nat \<Rightarrow> nat option" where
  "source_span_offset spans local =
     (let lo = bisect (span_before spans local) 0 (length spans) in
      if lo = length spans \<or> local < generated_start (spans ! lo) then None
      else
        let p = spans ! lo; gn = generated_end p - generated_start p;
            on = original_end p - original_start p
        in Some (original_start p +
             (if gn \<noteq> 0 then (local - generated_start p) * on mod 2 ^ 64 div gn else 0)))"

definition map_before :: "source_map list \<Rightarrow> nat \<Rightarrow> nat \<Rightarrow> bool" where
  "map_before maps byte mid \<longleftrightarrow> map_end (maps ! mid) < byte"

text \<open>An output parameter that the callee leaves alone keeps the caller's value.\<close>

definition dyn_source_position :: "source \<Rightarrow> nat \<Rightarrow> position" where
  "dyn_source_position s byte =
     (let n = length (src_maps s);
          lo = bisect (map_before (src_maps s) byte) 0 n;
          p = (if lo < n \<and> byte \<ge> map_start (src_maps s ! lo) then
                 let m = src_maps s ! lo; local = byte - map_start m in
                 \<lparr>pos_path = map_path m, pos_text = Suc lo,
                  pos_length = length (map_original_text m),
                  pos_offset = (case source_span_offset (map_spans m) local of None \<Rightarrow> local | Some x \<Rightarrow> x)\<rparr>
               else
                 \<lparr>pos_path = src_path s, pos_text = 0, pos_length = length (source_text_of s 0),
                  pos_offset = byte\<rparr>)
      in if n = 0 \<and> src_spans s \<noteq> []
         then p\<lparr>pos_offset := (case source_span_offset (src_spans s) byte of
                 None \<Rightarrow> pos_offset p | Some x \<Rightarrow> x)\<rparr>
         else p)"

text \<open>\<open>memchr(start, '\n', end - start)\<close>, as an offset.\<close>

definition find_newline :: "bytes \<Rightarrow> nat \<Rightarrow> nat \<Rightarrow> nat option" where
  "find_newline t start e = find (\<lambda>j. t ! j = 10) [start..<e]"

lemma find_newline_Some: "find_newline t start e = Some j \<Longrightarrow> start \<le> j \<and> j < e \<and> t ! j = 10"
  by (auto simp: find_newline_def find_Some_iff)

function count_lines :: "bytes \<Rightarrow> nat \<Rightarrow> nat \<Rightarrow> nat \<Rightarrow> nat \<times> nat" where
  "count_lines t start e lines =
     (case if start < e then find_newline t start e else None of
        None \<Rightarrow> (lines, start)
      | Some j \<Rightarrow> count_lines t (j + 1) e (lines + 1))"
  by pat_completeness auto
termination
  by (relation "measure (\<lambda>(t, start, e, lines). e - start)")
    (auto dest!: find_newline_Some split: if_splits)

declare count_lines.simps [simp del]

definition dyn_source_location :: "source \<Rightarrow> nat \<Rightarrow> string \<times> u32 \<times> u32" where
  "dyn_source_location s byte =
     (let p = dyn_source_position s byte;
          offset = (if pos_offset p > pos_length p then pos_length p else pos_offset p);
          (lines, start) = count_lines (source_text_of s (pos_text p)) 0 offset 1
      in (pos_path p, of_nat lines, of_nat (offset - start) + 1))"

subsection \<open>The location index\<close>

record location_file =
  loc_text :: nat
  loc_lines :: "nat list"

definition line_starts :: "bytes \<Rightarrow> nat list" where
  "line_starts t = 0 # map Suc (filter (\<lambda>j. t ! j = 10) [0..<length t])"

text \<open>One file of \<open>dyn_location_build\<close>: \<open>None\<close> when the table would not fit the address space.\<close>

definition location_file_build :: "source \<Rightarrow> nat \<Rightarrow> location_file option" where
  "location_file_build s i =
     (let lines = line_starts (source_text_of s i) in
      if int (length lines) > (2 ^ 64 - 1) div 8 then None
      else Some \<lparr>loc_text = i, loc_lines = lines\<rparr>)"

definition dyn_location_build :: "source \<Rightarrow> location_file list option" where
  "dyn_location_build s =
     those (map (location_file_build s) [0..<length (src_maps s) + 1])"

definition line_before :: "nat list \<Rightarrow> nat \<Rightarrow> nat \<Rightarrow> bool" where
  "line_before lines offset mid \<longleftrightarrow> lines ! mid \<le> offset"

definition dyn_location_get :: "location_file list \<Rightarrow> source \<Rightarrow> nat \<Rightarrow> string \<times> u32 \<times> u32" where
  "dyn_location_get index s byte =
     (let p = dyn_source_position s byte;
          offset = (if pos_offset p > pos_length p then pos_length p else pos_offset p)
      in case find (\<lambda>file. loc_text file = pos_text p) index of
           None \<Rightarrow> dyn_source_location s byte
         | Some file \<Rightarrow>
             let first = bisect (line_before (loc_lines file) offset) 0 (length (loc_lines file))
             in (pos_path p, of_nat first, of_nat (offset - loc_lines file ! (first - 1) + 1)))"

subsection \<open>Ordered tables\<close>

definition spans_ordered :: "source_span list \<Rightarrow> bool" where
  "spans_ordered spans \<longleftrightarrow> sorted (map generated_end spans)"

definition maps_ordered :: "source_map list \<Rightarrow> bool" where
  "maps_ordered maps \<longleftrightarrow> sorted (map map_end maps)"

interpretation span_index: ordered_index span_before length spans_ordered
  by unfold_locales
    (auto simp: span_before_def spans_ordered_def sorted_iff_nth_mono intro: le_less_trans)

interpretation map_index: ordered_index map_before length maps_ordered
  by unfold_locales
    (auto simp: map_before_def maps_ordered_def sorted_iff_nth_mono intro: le_less_trans)

interpretation line_index: ordered_index line_before length "sorted :: nat list \<Rightarrow> bool"
  by unfold_locales (auto simp: line_before_def sorted_iff_nth_mono intro: le_trans)

subsection \<open>The line table agrees with the scan\<close>

definition newlines :: "bytes \<Rightarrow> nat \<Rightarrow> nat \<Rightarrow> nat list" where
  "newlines t a b = filter (\<lambda>j. t ! j = 10) [a..<b]"

lemma newlines_split: "a \<le> b \<Longrightarrow> b \<le> c \<Longrightarrow> newlines t a c = newlines t a b @ newlines t b c"
  by (metis newlines_def filter_append upt_add_eq_append le_add_diff_inverse)

lemma newlines_step:
  "newlines t a b = (case find_newline t a b of None \<Rightarrow> [] | Some j \<Rightarrow> j # newlines t (Suc j) b)"
proof (induction "b - a" arbitrary: a)
  case 0
  then show ?case by (simp add: newlines_def find_newline_def)
next
  case (Suc n)
  then have "[a..<b] = a # [Suc a..<b]" by (simp add: upt_conv_Cons)
  moreover have "newlines t (Suc a) b =
      (case find_newline t (Suc a) b of None \<Rightarrow> [] | Some j \<Rightarrow> j # newlines t (Suc j) b)"
    using Suc by (intro Suc.hyps) simp
  ultimately show ?case by (simp add: newlines_def find_newline_def)
qed

lemma count_lines_newlines:
  "count_lines t start e lines =
   (lines + length (newlines t start e), last (start # map Suc (newlines t start e)))"
proof (induction t start e lines rule: count_lines.induct)
  case (1 t start e lines)
  have none: "find_newline t start e = None" if "\<not> start < e"
    using that by (simp add: find_newline_def)
  show ?case
  proof (cases "find_newline t start e")
    case None
    then show ?thesis
      by (subst count_lines.simps) (simp add: newlines_step [of t start e])
  next
    case (Some j)
    then have lt: "start < e" using none by fastforce
    with Some have "count_lines t start e lines = count_lines t (j + 1) e (lines + 1)"
      by (subst count_lines.simps) simp
    also have "\<dots> = (lines + 1 + length (newlines t (Suc j) e),
        last (Suc j # map Suc (newlines t (Suc j) e)))"
      using 1 Some lt by simp
    finally show ?thesis using Some by (simp add: newlines_step [of t start e])
  qed
qed

lemma line_starts_sorted: "sorted (line_starts t)"
  unfolding line_starts_def
  by (simp add: sorted_map sorted_wrt_filter sorted_wrt_mono_rel [OF _ sorted_upt])

text \<open>The binary search returns the number of the line, and the entry before it is its start.\<close>

lemma line_search:
  assumes "offset \<le> length t"
  shows "bisect (line_before (line_starts t) offset) 0 (length (line_starts t)) =
      Suc (length (newlines t 0 offset))"
    and "line_starts t ! length (newlines t 0 offset) = last (0 # map Suc (newlines t 0 offset))"
proof -
  let ?A = "newlines t 0 offset" and ?B = "newlines t offset (length t)"
  have starts: "line_starts t = (0 # map Suc ?A) @ map Suc ?B"
    using newlines_split [of 0 offset "length t" t] assms by (simp add: line_starts_def newlines_def)
  have A: "j < offset" if "j \<in> set ?A" for j using that by (auto simp: newlines_def)
  have B: "offset \<le> j" if "j \<in> set ?B" for j using that by (auto simp: newlines_def)
  have "line_starts t ! i \<le> offset" if "i < Suc (length ?A)" for i
    using that A [of "?A ! (i - 1)"] by (cases i) (auto simp: starts nth_append Suc_le_eq)
  moreover have "\<not> line_starts t ! i \<le> offset" if "Suc (length ?A) \<le> i" "i < length (line_starts t)" for i
  proof -
    have "i - Suc (length ?A) < length ?B" using that by (auto simp: starts)
    then have "offset \<le> ?B ! (i - Suc (length ?A))" using B nth_mem by blast
    moreover have "line_starts t ! i = Suc (?B ! (i - Suc (length ?A)))"
      using that nth_append [of "0 # map Suc ?A" "map Suc ?B" i] \<open>i - _ < length ?B\<close>
      by (simp add: starts)
    ultimately show ?thesis by simp
  qed
  ultimately show "bisect (line_before (line_starts t) offset) 0 (length (line_starts t)) = Suc (length ?A)"
    by (intro line_index.search_eq) (auto simp: line_before_def starts)
  show "line_starts t ! length ?A = last (0 # map Suc ?A)"
    by (simp add: starts nth_append last_conv_nth nth_Cons')
qed

lemma location_index_lookup:
  assumes "dyn_location_build s = Some index" and "i \<le> length (src_maps s)"
  shows "find (\<lambda>file. loc_text file = i) index =
    Some \<lparr>loc_text = i, loc_lines = line_starts (source_text_of s i)\<rparr>"
proof -
  let ?entry = "\<lambda>i. \<lparr>loc_text = i, loc_lines = line_starts (source_text_of s i)\<rparr>"
  have those: "those (map (location_file_build s) xs) = Some ys \<Longrightarrow> ys = map ?entry xs" for xs ys
    by (induction xs arbitrary: ys) (auto simp: location_file_build_def Let_def split: if_splits)
  have "index = map ?entry [0..<length (src_maps s) + 1]"
    using assms(1) those by (simp only: dyn_location_build_def)
  moreover have "find (\<lambda>file. loc_text file = i) (map ?entry [a..<b]) = Some (?entry i)"
    if "a \<le> i" "i < b" for a b
    using that
  proof (induction "b - a" arbitrary: a)
    case (Suc n)
    then have "[a..<b] = a # [Suc a..<b]" by (simp add: upt_conv_Cons)
    with Suc show ?case by (cases "a = i") simp_all
  qed simp
  ultimately show ?thesis using assms(2) by (simp del: upt_Suc)
qed

lemma position_text: "pos_text (dyn_source_position s byte) \<le> length (src_maps s)"
  by (simp add: dyn_source_position_def Let_def)

lemma position_length:
  "pos_length (dyn_source_position s byte) = length (source_text_of s (pos_text (dyn_source_position s byte)))"
  by (simp add: dyn_source_position_def Let_def source_text_of_def)

subsection \<open>Properties\<close>

text \<open>C10: the precomputed line tables answer exactly what the scan of the original text answers: file,
  line and column, for every byte of every source.\<close>

theorem location_index_agrees:
  assumes "dyn_location_build s = Some index"
  shows "dyn_location_get index s byte = dyn_source_location s byte"
proof -
  define p where "p = dyn_source_position s byte"
  define t where "t = source_text_of s (pos_text p)"
  define offset where "offset = (if pos_offset p > pos_length p then pos_length p else pos_offset p)"
  have "find (\<lambda>file. loc_text file = pos_text p) index = Some \<lparr>loc_text = pos_text p, loc_lines = line_starts t\<rparr>"
    unfolding t_def p_def by (rule location_index_lookup [OF assms position_text])
  moreover have "offset \<le> length t"
    using position_length [of s byte] by (simp add: offset_def t_def p_def)
  note line_search [OF this]
  moreover have "last (0 # map Suc (newlines t 0 offset)) \<le> offset"
    by (auto simp: last_map newlines_def dest!: last_in_set)
  ultimately show ?thesis
    unfolding dyn_location_get_def dyn_source_location_def Let_def
      p_def [symmetric] t_def [symmetric] offset_def [symmetric]
    by (simp add: count_lines_newlines)
qed

definition sample_source :: source where
  "sample_source = \<lparr>src_path = ''m'', src_text = [97, 10, 98, 10, 99], src_original_text = None,
     src_spans = [], src_maps = [\<lparr>map_path = ''a'', map_start = 0, map_end = 2,
       map_original_text = [97, 10], map_spans = []\<rparr>, \<lparr>map_path = ''b'', map_start = 2, map_end = 5,
       map_original_text = [98, 10, 99], map_spans = []\<rparr>]\<rparr>"

theorem location_index_agrees_witness:
  "dyn_location_get (the (dyn_location_build sample_source)) sample_source 4 =
   dyn_source_location sample_source 4"
  by (rule location_index_agrees) code_simp

text \<open>The maps of a merged source ascend and meet only at their ends.\<close>

definition maps_ok :: "source_map list \<Rightarrow> bool" where
  "maps_ok maps \<longleftrightarrow> (\<forall>i < length maps. map_start (maps ! i) \<le> map_end (maps ! i)) \<and>
     (\<forall>j < length maps. \<forall>i < j. map_end (maps ! i) \<le> map_start (maps ! j))"

lemma maps_ok_ordered: "maps_ok maps \<Longrightarrow> maps_ordered maps"
  unfolding maps_ordered_def sorted_iff_nth_mono_less
proof (intro allI impI)
  fix i j assume ok: "maps_ok maps" and ij: "i < j" "j < length (map map_end maps)"
  then have "map_end (maps ! i) \<le> map_start (maps ! j)" "map_start (maps ! j) \<le> map_end (maps ! j)"
    by (auto simp: maps_ok_def)
  with ij show "map map_end maps ! i \<le> map map_end maps ! j" by simp
qed

text \<open>A byte of a merged source is attributed to the first map whose range contains it, as a
  linear search would, and to the source itself when there is none.\<close>

lemma position_first_map:
  assumes "maps_ok (src_maps s)"
  shows "pos_text (dyn_source_position s byte) =
    (case find (\<lambda>i. map_start (src_maps s ! i) \<le> byte \<and> byte \<le> map_end (src_maps s ! i))
       [0..<length (src_maps s)] of None \<Rightarrow> 0 | Some i \<Rightarrow> Suc i)"
proof -
  let ?maps = "src_maps s"
  define lo where "lo = bisect (map_before ?maps byte) 0 (length ?maps)"
  let ?in = "\<lambda>i. map_start (?maps ! i) \<le> byte \<and> byte \<le> map_end (?maps ! i)"
  note b = map_index.search_prefix [OF maps_ok_ordered [OF assms], of byte, folded lo_def]
  have below: "map_end (?maps ! i) < byte" if "i < lo" for i
    using b that by (simp add: map_before_def)
  have above: "byte \<le> map_end (?maps ! i)" if "lo \<le> i" "i < length ?maps" for i
    using b that by (simp add: map_before_def not_less)
  have found: "find ?in [0..<length ?maps] = Some lo"
    if "lo < length ?maps" "map_start (?maps ! lo) \<le> byte"
    unfolding find_Some_iff
    by (rule exI [of _ lo]) (use that above below in \<open>force simp: not_le\<close>)
  have missed: "find ?in [0..<length ?maps] = None"
    if no: "\<not> (lo < length ?maps \<and> map_start (?maps ! lo) \<le> byte)"
  proof -
    have "\<not> ?in i" if i: "i < length ?maps" for i
    proof
      assume in_i: "?in i"
      then have "\<not> i < lo" using below [of i] by auto
      moreover have "map_start (?maps ! lo) \<le> byte" if "lo < i"
      proof -
        have "map_start (?maps ! lo) \<le> map_end (?maps ! lo)" "map_end (?maps ! lo) \<le> map_start (?maps ! i)"
          using assms that i by (auto simp: maps_ok_def)
        with in_i show ?thesis by linarith
      qed
      ultimately show False using no i in_i by (cases "i = lo") auto
    qed
    then show ?thesis by (auto simp: find_None_iff)
  qed
  have "pos_text (dyn_source_position s byte) =
      (if lo < length ?maps \<and> map_start (?maps ! lo) \<le> byte then Suc lo else 0)"
    by (simp add: dyn_source_position_def Let_def lo_def)
  with found missed show ?thesis by (auto split: if_splits)
qed

text \<open>An offset inside a rewritten span maps into the original range of that span, provided the
  scaled product fits 64 bits; a span that was deleted maps to the start of its range.\<close>

lemma span_offset_bounds:
  assumes "source_span_offset spans local = Some x" and "spans_ordered spans"
    and "\<forall>p \<in> set spans. original_start p \<le> original_end p \<and>
      (generated_end p - generated_start p) * (original_end p - original_start p) < 2 ^ 64"
  shows "\<exists>p \<in> set spans. generated_start p \<le> local \<and> local \<le> generated_end p \<and>
    original_start p \<le> x \<and> x \<le> original_end p"
proof -
  define lo where "lo = bisect (span_before spans local) 0 (length spans)"
  define p where "p = spans ! lo"
  let ?gn = "generated_end p - generated_start p" and ?on = "original_end p - original_start p"
  note b = span_index.search_prefix [OF assms(2), of local, folded lo_def]
  from assms(1) have lt: "lo < length spans" and start: "generated_start p \<le> local"
    and x: "x = original_start p +
      (if ?gn \<noteq> 0 then (local - generated_start p) * ?on mod 2 ^ 64 div ?gn else 0)"
    using b by (auto simp: source_span_offset_def Let_def lo_def [symmetric] p_def [symmetric]
        split: if_splits)
  have stop: "local \<le> generated_end p" using b lt by (auto simp: span_before_def p_def)
  have p: "p \<in> set spans" using lt by (simp add: p_def)
  have le: "(local - generated_start p) * ?on \<le> ?gn * ?on"
    using stop by (intro mult_right_mono) simp_all
  moreover have "?gn * ?on < 2 ^ 64" using assms(3) p by blast
  ultimately have "(local - generated_start p) * ?on mod 2 ^ 64 = (local - generated_start p) * ?on"
    by (intro mod_less) (rule le_less_trans)
  moreover have "(local - generated_start p) * ?on div ?gn \<le> ?on" if "?gn \<noteq> 0"
    using div_le_mono [OF le, of ?gn] that by simp
  ultimately have "x \<le> original_start p + ?on" unfolding x by (cases "?gn = 0") simp_all
  moreover have "original_start p \<le> original_end p" using assms(3) p by blast
  ultimately have "original_start p \<le> x" "x \<le> original_end p" using x by auto
  with p start stop show ?thesis by blast
qed

end
