(* ===== verification/Syntax_Tree.thy ===== *)
theory Syntax_Tree
  imports Dyn_Prelude
begin

text \<open>
  The flat syntax tree of the parser (\<open>parser.h\<close>, \<open>snapshot.h\<close>) and the functions that navigate it (\<open>syntax_tree.h\<close>,
  \<open>dyn_compact.h\<close>, \<open>syntax_depth.h\<close>). A node is an index into an array, linked to its parent, its first child and its next
  sibling; \<open>UINT32_MAX\<close> is the null index. \<open>flat\<close> says that an array holds a given ordered tree, and the functions are
  specified on ordered trees. Loops that follow links are \<open>partial_function\<close>s, which are proved to return on flat trees.
\<close>

record exp_node =
  en_start :: u32
  en_end :: u32
  en_first :: u32
  en_next :: u32
  en_operator_start :: u32
  en_parent :: u32
  en_kind :: u16
  en_operator_length :: u16
  en_flags :: u16
  en_field :: u16

record exp_snapshot_tree =
  st_nodes :: "exp_node list"
  st_count :: u32
  st_root :: u32

definition no_node :: u32 where
  "no_node = 0xFFFFFFFF"

text \<open>The kinds and flags these functions look at.\<close>

definition EXP_NAME :: u16 where "EXP_NAME = 0"
definition SRC_FILE :: u16 where "SRC_FILE = 1000"
definition SRC_DECLARATION :: u16 where "SRC_DECLARATION = 1001"
definition SRC_VARIABLE :: u16 where "SRC_VARIABLE = 1007"
definition SRC_CONST :: u16 where "SRC_CONST = 1008"
definition SRC_ALIAS :: u16 where "SRC_ALIAS = 1009"
definition SRC_STRUCT :: u16 where "SRC_STRUCT = 1010"
definition SRC_ENUM :: u16 where "SRC_ENUM = 1012"
definition SRC_FN :: u16 where "SRC_FN = 1014"
definition SRC_EXTERN_FN :: u16 where "SRC_EXTERN_FN = 1015"
definition SRC_EXTERN_VARIABLE :: u16 where "SRC_EXTERN_VARIABLE = 1016"
definition SRC_FN_PARAM :: u16 where "SRC_FN_PARAM = 1017"
definition SRC_VARIADIC_PARAM :: u16 where "SRC_VARIADIC_PARAM = 1018"
definition SRC_BLOCK :: u16 where "SRC_BLOCK = 1020"
definition SRC_CASE_ARM :: u16 where "SRC_CASE_ARM = 1027"
definition SRC_TYPE_PATTERN :: u16 where "SRC_TYPE_PATTERN = 1029"
definition SRC_FOR :: u16 where "SRC_FOR = 1030"
definition SRC_FOR_CONDITION :: u16 where "SRC_FOR_CONDITION = 1031"
definition EXP_PUBLIC :: u16 where "EXP_PUBLIC = 2"
definition EXP_ITERATION :: u16 where "EXP_ITERATION = 64"
definition EXP_PRIMARY :: u16 where "EXP_PRIMARY = 128"

lemmas kind_defs = EXP_NAME_def SRC_FILE_def SRC_DECLARATION_def SRC_VARIABLE_def SRC_CONST_def SRC_ALIAS_def SRC_STRUCT_def
  SRC_ENUM_def SRC_FN_def SRC_EXTERN_FN_def SRC_EXTERN_VARIABLE_def SRC_FN_PARAM_def SRC_VARIADIC_PARAM_def SRC_BLOCK_def
  SRC_CASE_ARM_def SRC_TYPE_PATTERN_def SRC_FOR_def SRC_FOR_CONDITION_def

abbreviation node_at :: "exp_snapshot_tree \<Rightarrow> u32 \<Rightarrow> exp_node" where
  "node_at tree i \<equiv> st_nodes tree ! unat i"

text \<open>\<open>each_sibling\<close> is the loop \<open>for (c = i; c != UINT32_MAX; c = nodes[c].next)\<close>, with a body that may leave the loop
  with a result.\<close>

partial_function (option) each_sibling ::
  "exp_snapshot_tree \<Rightarrow> (u32 \<Rightarrow> 's \<Rightarrow> ('r + 's) option) \<Rightarrow> u32 \<Rightarrow> 's \<Rightarrow> ('r + 's) option" where
  "each_sibling tree body i s =
     (if i = no_node then Some (Inr s)
      else Option.bind (body i s) (\<lambda>o'. case o' of Inl r \<Rightarrow> Some (Inl r) | Inr s \<Rightarrow> each_sibling tree body (en_next (node_at tree i)) s))"

subsection \<open>Compact access\<close>

partial_function (option) find_child :: "exp_snapshot_tree \<Rightarrow> (exp_node \<Rightarrow> bool) \<Rightarrow> u32 \<Rightarrow> u32 option" where
  "find_child tree test child =
     (if child = no_node then Some no_node
      else if test (node_at tree child) then Some child
      else find_child tree test (en_next (node_at tree child)))"

definition dyn_compact_field :: "exp_snapshot_tree \<Rightarrow> u32 \<Rightarrow> u16 \<Rightarrow> u32 option" where
  "dyn_compact_field tree node field = find_child tree (\<lambda>n. en_field n = field) (en_first (node_at tree node))"

definition dyn_compact_name :: "exp_snapshot_tree \<Rightarrow> u32 \<Rightarrow> u32 option" where
  "dyn_compact_name tree wrapper =
     (if en_kind (node_at tree wrapper) \<noteq> SRC_DECLARATION then Some no_node
      else
        let node = en_first (node_at tree wrapper) in
        if node = no_node then Some node
        else
          let kind = en_kind (node_at tree node) in
          if kind = SRC_CONST then
            find_child tree (\<lambda>n. en_kind n = EXP_NAME) (en_first (node_at tree (en_first (node_at tree node))))
          else if kind \<in> {SRC_FN, SRC_EXTERN_FN, SRC_EXTERN_VARIABLE, SRC_STRUCT, SRC_ENUM, SRC_ALIAS, SRC_VARIABLE} then
            find_child tree (\<lambda>n. en_kind n = EXP_NAME) (en_first (node_at tree node))
          else Some no_node)"

subsection \<open>Nodes of the editor\<close>

record dyn_node =
  dn_tree :: "exp_snapshot_tree option"
  dn_id :: u32

record dyn_point =
  dp_row :: u32
  dp_column :: u32

datatype declaration_kind =
  DYN_DECL_FUNCTION | DYN_DECL_STRUCT | DYN_DECL_ENUM | DYN_DECL_ALIAS | DYN_DECL_CONSTANT | DYN_DECL_VARIABLE

record dyn_declaration =
  dd_node :: dyn_node
  dd_name :: dyn_node
  dd_kind :: declaration_kind
  dd_is_public :: bool

definition node_of :: "exp_snapshot_tree option \<Rightarrow> u32 \<Rightarrow> dyn_node" where
  "node_of tree i =
     \<lparr>dn_tree = tree, dn_id = (case tree of None \<Rightarrow> no_node | Some t \<Rightarrow> if i < st_count t then i else no_node)\<rparr>"

definition dyn_node_root :: "exp_snapshot_tree option \<Rightarrow> dyn_node" where
  "dyn_node_root tree = node_of tree (case tree of None \<Rightarrow> no_node | Some t \<Rightarrow> st_root t)"

definition dyn_node_null :: "dyn_node \<Rightarrow> bool" where
  "dyn_node_null n \<longleftrightarrow> dn_tree n = None \<or> dn_id n = no_node"

definition dyn_node_data :: "dyn_node \<Rightarrow> exp_node" where
  "dyn_node_data n = node_at (the (dn_tree n)) (dn_id n)"

definition dyn_node_kind :: "dyn_node \<Rightarrow> u16" where
  "dyn_node_kind n = (if dyn_node_null n then 0 else en_kind (dyn_node_data n))"

definition dyn_node_is :: "dyn_node \<Rightarrow> u16 \<Rightarrow> bool" where
  "dyn_node_is n kind \<longleftrightarrow> \<not> dyn_node_null n \<and> en_kind (dyn_node_data n) = kind"

definition dyn_node_start :: "dyn_node \<Rightarrow> u32" where
  "dyn_node_start n = (if dyn_node_null n then 0 else en_start (dyn_node_data n))"

definition dyn_node_end :: "dyn_node \<Rightarrow> u32" where
  "dyn_node_end n = (if dyn_node_null n then 0 else en_end (dyn_node_data n))"

definition dyn_node_flags :: "dyn_node \<Rightarrow> u16" where
  "dyn_node_flags n = (if dyn_node_null n then 0 else en_flags (dyn_node_data n))"

definition dyn_node_first :: "dyn_node \<Rightarrow> dyn_node" where
  "dyn_node_first n = (if dyn_node_null n then n else node_of (dn_tree n) (en_first (dyn_node_data n)))"

definition dyn_node_next :: "dyn_node \<Rightarrow> dyn_node" where
  "dyn_node_next n = (if dyn_node_null n then n else node_of (dn_tree n) (en_next (dyn_node_data n)))"

definition dyn_node_parent :: "dyn_node \<Rightarrow> dyn_node" where
  "dyn_node_parent n = (if dyn_node_null n then n else node_of (dn_tree n) (en_parent (dyn_node_data n)))"

text \<open>\<open>each_node\<close> is the loop \<open>for (c = n; !dyn_node_null(c); c = dyn_node_next(c))\<close>.\<close>

partial_function (option) each_node :: "(dyn_node \<Rightarrow> 's \<Rightarrow> 'r + 's) \<Rightarrow> dyn_node \<Rightarrow> 's \<Rightarrow> ('r + 's) option" where
  "each_node body c s =
     (if dyn_node_null c then Some (Inr s)
      else case body c s of Inl r \<Rightarrow> Some (Inl r) | Inr s \<Rightarrow> each_node body (dyn_node_next c) s)"

definition dyn_node_child_count :: "dyn_node \<Rightarrow> u32 option" where
  "dyn_node_child_count n = map_option (case_sum id id) (each_node (\<lambda>c count. Inr (count + 1)) (dyn_node_first n) 0)"

definition dyn_node_child :: "dyn_node \<Rightarrow> u32 \<Rightarrow> dyn_node" where
  "dyn_node_child n index = ((\<lambda>c. if dyn_node_null c then c else dyn_node_next c) ^^ unat index) (dyn_node_first n)"

definition dyn_node_last :: "dyn_node \<Rightarrow> dyn_node option" where
  "dyn_node_last n =
     map_option (case_sum id id) (each_node (\<lambda>c l. Inr c) (dyn_node_first n) \<lparr>dn_tree = dn_tree n, dn_id = no_node\<rparr>)"

definition child_where :: "(exp_node \<Rightarrow> bool) \<Rightarrow> dyn_node \<Rightarrow> dyn_node option" where
  "child_where test n =
     map_option (case_sum id id) (each_node (\<lambda>c r. if test (dyn_node_data c) then Inl c else Inr r) (dyn_node_first n)
       \<lparr>dn_tree = dn_tree n, dn_id = no_node\<rparr>)"

definition dyn_node_field :: "dyn_node \<Rightarrow> u16 \<Rightarrow> dyn_node option" where
  "dyn_node_field n field = child_where (\<lambda>d. en_field d = field) n"

definition dyn_node_child_kind :: "dyn_node \<Rightarrow> u16 \<Rightarrow> dyn_node option" where
  "dyn_node_child_kind n kind = child_where (\<lambda>d. en_kind d = kind) n"

partial_function (option) ancestor_loop :: "u16 \<Rightarrow> dyn_node \<Rightarrow> dyn_node option" where
  "ancestor_loop kind n =
     (if dyn_node_null n \<or> en_kind (dyn_node_data n) = kind then Some n else ancestor_loop kind (dyn_node_parent n))"

definition dyn_node_ancestor :: "dyn_node \<Rightarrow> u16 \<Rightarrow> dyn_node option" where
  "dyn_node_ancestor n kind = ancestor_loop kind (dyn_node_parent n)"

partial_function (option) preorder_climb :: "dyn_node \<Rightarrow> dyn_node \<Rightarrow> dyn_node option" where
  "preorder_climb n root =
     (if dyn_node_null n \<or> dn_id n = dn_id root then Some \<lparr>dn_tree = dn_tree root, dn_id = no_node\<rparr>
      else if \<not> dyn_node_null (dyn_node_next n) then Some (dyn_node_next n)
      else preorder_climb (dyn_node_parent n) root)"

definition dyn_node_preorder :: "dyn_node \<Rightarrow> dyn_node \<Rightarrow> dyn_node option" where
  "dyn_node_preorder n root =
     (let child = dyn_node_first n in if \<not> dyn_node_null child then Some child else preorder_climb n root)"

partial_function (option) at_loop :: "u32 \<Rightarrow> u32 \<Rightarrow> dyn_node \<Rightarrow> dyn_node option" where
  "at_loop start stop n =
     Option.bind (each_node (\<lambda>c found. if dyn_node_start c \<le> start \<and> stop \<le> dyn_node_end c then Inr c else (Inr found :: unit + dyn_node))
         (dyn_node_first n) \<lparr>dn_tree = dn_tree n, dn_id = no_node\<rparr>)
       (\<lambda>o'. case o' of Inl _ \<Rightarrow> None | Inr found \<Rightarrow> if dyn_node_null found then Some n else at_loop start stop found)"

definition dyn_node_at :: "exp_snapshot_tree option \<Rightarrow> u32 \<Rightarrow> u32 \<Rightarrow> dyn_node option" where
  "dyn_node_at tree start stop =
     (let n = dyn_node_root tree in if dyn_node_null n then Some n else at_loop start stop n)"

definition dyn_node_text_is :: "dyn_node \<Rightarrow> bytes \<Rightarrow> bytes \<Rightarrow> bool" where
  "dyn_node_text_is n txt word \<longleftrightarrow> \<not> dyn_node_null n \<and> unat (dyn_node_end n - dyn_node_start n) = length word \<and>
     take (length word) (drop (unat (dyn_node_start n)) txt) = word"

unbundle bit_operations_syntax

definition declared_kind :: "u16 \<Rightarrow> declaration_kind option" where
  "declared_kind k =
     (if k = SRC_FN \<or> k = SRC_EXTERN_FN then Some DYN_DECL_FUNCTION
      else if k = SRC_STRUCT then Some DYN_DECL_STRUCT
      else if k = SRC_ENUM then Some DYN_DECL_ENUM
      else if k = SRC_ALIAS then Some DYN_DECL_ALIAS
      else if k = SRC_CONST then Some DYN_DECL_CONSTANT
      else if k = SRC_VARIABLE \<or> k = SRC_EXTERN_VARIABLE then Some DYN_DECL_VARIABLE
      else None)"

definition dyn_node_declaration :: "dyn_node \<Rightarrow> dyn_declaration option option" where
  "dyn_node_declaration wrapper =
     (if \<not> dyn_node_is wrapper SRC_DECLARATION then Some None
      else
        let node = dyn_node_first wrapper in
        case declared_kind (dyn_node_kind node) of
          None \<Rightarrow> Some None
        | Some kind \<Rightarrow>
            let v = (if kind = DYN_DECL_CONSTANT then dyn_node_first node else node) in
            map_option (\<lambda>name. if dyn_node_null name then None
                else Some \<lparr>dd_node = node, dd_name = name, dd_kind = kind, dd_is_public = (dyn_node_flags wrapper AND EXP_PUBLIC \<noteq> 0)\<rparr>)
              (dyn_node_child_kind v EXP_NAME))"

definition point_step :: "u8 \<Rightarrow> dyn_point \<Rightarrow> dyn_point" where
  "point_step c point =
     (if c = 0x0A then point\<lparr>dp_row := dp_row point + 1, dp_column := 0\<rparr> else point\<lparr>dp_column := dp_column point + 1\<rparr>)"

definition dyn_text_advance :: "dyn_point \<Rightarrow> bytes \<Rightarrow> nat \<Rightarrow> dyn_point" where
  "dyn_text_advance point txt len = fold point_step (take len txt) point"

definition dyn_text_point :: "bytes \<Rightarrow> u32 \<Rightarrow> dyn_point" where
  "dyn_text_point txt offset = fold point_step (takeWhile (\<lambda>c. c \<noteq> 0) (take (unat offset) txt)) \<lparr>dp_row = 0, dp_column = 0\<rparr>"

subsection \<open>The depth limit\<close>

definition edge_cost :: "exp_snapshot_tree \<Rightarrow> u32 \<Rightarrow> u32" where
  "edge_cost tree i = 1 + (if en_flags (node_at tree i) AND EXP_PRIMARY \<noteq> 0 then 1 else 0)"

text \<open>The inner loop: \<open>Inl\<close> is a return, \<open>Inr\<close> the break with the next node and its depth.\<close>

partial_function (option) depth_climb :: "exp_snapshot_tree \<Rightarrow> u32 \<Rightarrow> u32 \<Rightarrow> (bool + u32 \<times> u32) option" where
  "depth_climb tree i depth =
     (if i = st_root tree then Some (Inl True)
      else
        let depth = depth - edge_cost tree i; next' = en_next (node_at tree i) in
        if next' \<noteq> no_node then
          if next' \<ge> st_count tree then Some (Inl False) else Some (Inr (next', depth + edge_cost tree next'))
        else
          let i = en_parent (node_at tree i) in if i \<ge> st_count tree then Some (Inl False) else depth_climb tree i depth)"

partial_function (option) depth_loop :: "exp_snapshot_tree \<Rightarrow> u32 \<Rightarrow> u32 \<Rightarrow> u32 \<Rightarrow> u32 \<Rightarrow> bool option" where
  "depth_loop tree limit i depth visited =
     (let visited = visited + 1 in
      if visited > st_count tree \<or> depth \<ge> limit then Some False
      else
        let child = en_first (node_at tree i) in
        if child \<noteq> no_node then
          if child \<ge> st_count tree then Some False else depth_loop tree limit child (depth + edge_cost tree child) visited
        else Option.bind (depth_climb tree i depth)
          (\<lambda>o'. case o' of Inl r \<Rightarrow> Some r | Inr (i, depth) \<Rightarrow> depth_loop tree limit i depth visited))"

definition exp_depth_certified :: "exp_snapshot_tree option \<Rightarrow> u32 \<Rightarrow> bool option" where
  "exp_depth_certified tree limit =
     (case tree of None \<Rightarrow> Some False
      | Some t \<Rightarrow> if st_root t \<ge> st_count t then Some False else depth_loop t limit (st_root t) 0 0)"

subsection \<open>Ordered trees\<close>

datatype stree = STree (tree_id: u32) (kids: "stree list")

primrec head_id :: "stree list \<Rightarrow> u32" where
  "head_id [] = no_node"
| "head_id (t # ts) = tree_id t"

fun flat_tree :: "exp_snapshot_tree \<Rightarrow> u32 \<Rightarrow> stree \<Rightarrow> bool"
  and flat_list :: "exp_snapshot_tree \<Rightarrow> u32 \<Rightarrow> stree list \<Rightarrow> bool" where
  "flat_tree tree p (STree i ts) \<longleftrightarrow>
     i < st_count tree \<and> en_parent (node_at tree i) = p \<and> en_first (node_at tree i) = head_id ts \<and> flat_list tree i ts"
| "flat_list tree p [] \<longleftrightarrow> True"
| "flat_list tree p (t # ts) \<longleftrightarrow> flat_tree tree p t \<and> en_next (node_at tree (tree_id t)) = head_id ts \<and> flat_list tree p ts"

fun preorder :: "stree \<Rightarrow> u32 list" and preorder_list :: "stree list \<Rightarrow> u32 list" where
  "preorder (STree i ts) = i # preorder_list ts"
| "preorder_list [] = []"
| "preorder_list (t # ts) = preorder t @ preorder_list ts"

text \<open>\<open>flat tree t\<close>: the array holds the tree \<open>t\<close>, from its root.\<close>

definition flat :: "exp_snapshot_tree \<Rightarrow> stree \<Rightarrow> bool" where
  "flat tree t \<longleftrightarrow> length (st_nodes tree) = unat (st_count tree) \<and> tree_id t = st_root tree \<and>
     en_next (node_at tree (st_root tree)) = no_node \<and> flat_tree tree no_node t \<and> distinct (preorder t)"

lemma below_no_node: "i < (c :: u32) \<Longrightarrow> i \<noteq> no_node"
proof
  assume "i < c" "i = no_node"
  moreover have "c \<le> no_node" unfolding no_node_def by (simp add: word_le_nat_alt) (use unsigned_less [of c, where 'a = nat] in simp)
  ultimately show False by simp
qed

abbreviation nd :: "exp_snapshot_tree \<Rightarrow> u32 \<Rightarrow> dyn_node" where
  "nd tree i \<equiv> \<lparr>dn_tree = Some tree, dn_id = i\<rparr>"

lemma flat_tree_id: "flat_tree tree p t \<Longrightarrow> tree_id t < st_count tree"
  by (cases t) simp

lemma flat_tree_not_null: "flat_tree tree p t \<Longrightarrow> tree_id t \<noteq> no_node"
  using below_no_node [OF flat_tree_id] .

lemma flat_tree_unfold:
  assumes "flat_tree tree p t"
  shows "en_parent (node_at tree (tree_id t)) = p" "en_first (node_at tree (tree_id t)) = head_id (kids t)" "flat_list tree (tree_id t) (kids t)"
  using assms by (cases t; simp)+

lemma head_id_cases: "flat_list tree p ts \<Longrightarrow> head_id ts = no_node \<longleftrightarrow> ts = []"
  by (cases ts) (auto dest: flat_tree_not_null)

lemma node_of_head: "flat_list tree p ts \<Longrightarrow> node_of (Some tree) (head_id ts) = nd tree (head_id ts)"
  by (cases ts) (auto simp: node_of_def no_node_def dest: flat_tree_id)

lemma nd_null [simp]: "dyn_node_null (nd tree i) \<longleftrightarrow> i = no_node"
  by (simp add: dyn_node_null_def)

lemma nd_data [simp]: "dyn_node_data (nd tree i) = node_at tree i"
  by (simp add: dyn_node_data_def)

lemma nd_first: "flat_tree tree p t \<Longrightarrow> dyn_node_first (nd tree (tree_id t)) = nd tree (head_id (kids t))"
  using flat_tree_unfold [of tree p t] node_of_head flat_tree_not_null [of tree p t] by (simp add: dyn_node_first_def)

lemma nd_next:
  "flat_list tree p (t # ts) \<Longrightarrow> dyn_node_next (nd tree (tree_id t)) = nd tree (head_id ts)"
  using node_of_head [of tree p ts] flat_tree_not_null [of tree p t] by (simp add: dyn_node_next_def)

lemma nd_parent:
  assumes "flat_tree tree p t" and "p < st_count tree"
  shows "dyn_node_parent (nd tree (tree_id t)) = nd tree p"
  using assms flat_tree_unfold(1) [OF assms(1)] flat_tree_not_null [OF assms(1)] by (simp add: dyn_node_parent_def node_of_def)

text \<open>Loops over the children are runs over a list.\<close>

fun run_list :: "('a \<Rightarrow> 's \<Rightarrow> 'r + 's) \<Rightarrow> 'a list \<Rightarrow> 's \<Rightarrow> 'r + 's" where
  "run_list f [] s = Inr s"
| "run_list f (x # xs) s = (case f x s of Inl r \<Rightarrow> Inl r | Inr s \<Rightarrow> run_list f xs s)"

lemma each_node_list:
  "flat_list tree p ts \<Longrightarrow> each_node body (nd tree (head_id ts)) s = Some (run_list (\<lambda>t. body (nd tree (tree_id t))) ts s)"
proof (induction ts arbitrary: s)
  case Nil
  then show ?case by (subst each_node.simps) simp
next
  case (Cons t ts)
  then show ?case using nd_next [OF Cons.prems] flat_tree_not_null [of tree p t] by (subst each_node.simps) (auto split: sum.split)
qed

lemma find_child_list:
  "flat_list tree p ts \<Longrightarrow>
   find_child tree test (head_id ts) = Some (case find (\<lambda>t. test (node_at tree (tree_id t))) ts of None \<Rightarrow> no_node | Some t \<Rightarrow> tree_id t)"
proof (induction ts)
  case Nil
  then show ?case by (subst find_child.simps) simp
next
  case (Cons t ts)
  then show ?case using flat_tree_not_null [of tree p t] by (subst find_child.simps) simp
qed

subsection \<open>Preorder\<close>

lemma tree_id_preorder: "tree_id t \<in> set (preorder t)"
  by (cases t) simp

lemma flat_list_ids: "flat_list tree p ts \<Longrightarrow> t \<in> set ts \<Longrightarrow> flat_tree tree p t"
  by (induction ts) auto

lemma preorder_climb_step:
  assumes "flat_list tree p (t # ts)" and "p < st_count tree" and "tree_id t \<noteq> dn_id root"
  shows "preorder_climb (nd tree (tree_id t)) root = (if ts = [] then preorder_climb (nd tree p) root else Some (nd tree (head_id ts)))"
  using assms nd_next [OF assms(1)] nd_parent [of tree p t] head_id_cases [of tree p ts] flat_tree_not_null [of tree p t] by (subst preorder_climb.simps) auto

text \<open>\<open>chain k xs\<close>: the successors of the nodes \<open>xs\<close> are the nodes of \<open>xs\<close> in order, and then \<open>k\<close>.\<close>

fun chain :: "exp_snapshot_tree \<Rightarrow> dyn_node \<Rightarrow> dyn_node \<Rightarrow> u32 list \<Rightarrow> bool" where
  "chain tree root k [] \<longleftrightarrow> True"
| "chain tree root k (x # xs) \<longleftrightarrow>
     dyn_node_preorder (nd tree x) root = Some (case xs of [] \<Rightarrow> k | y # _ \<Rightarrow> nd tree y) \<and> chain tree root k xs"

lemma chain_append:
  "chain tree root (nd tree y) xs \<Longrightarrow> chain tree root k (y # ys) \<Longrightarrow> chain tree root k (xs @ y # ys)"
  by (induction xs) (auto split: list.splits)

lemma preorder_list_head: "preorder_list (t # ts) = tree_id t # preorder_list (kids t) @ preorder_list ts"
  by (cases t) simp

lemma preorder_chain:
  "flat_tree tree p t \<Longrightarrow> dn_id root \<notin> set (preorder_list (kids t)) \<Longrightarrow> preorder_climb (nd tree (tree_id t)) root = Some k \<Longrightarrow>
     chain tree root k (preorder t)"
  "flat_list tree p ts \<Longrightarrow> p < st_count tree \<Longrightarrow> ts \<noteq> [] \<Longrightarrow> dn_id root \<notin> set (preorder_list ts) \<Longrightarrow>
     preorder_climb (nd tree p) root = Some k \<Longrightarrow> chain tree root k (preorder_list ts)"
proof (induction tree p t and tree p ts arbitrary: k and k rule: flat_tree_flat_list.induct)
  case (1 tree p i ts)
  show ?case
  proof (cases ts)
    case Nil
    then have "dyn_node_first (nd tree i) = nd tree no_node" using nd_first [OF 1(2)] by simp
    then show ?thesis using Nil 1(4) by (simp add: dyn_node_preorder_def Let_def)
  next
    case (Cons t ts')
    have "dyn_node_preorder (nd tree i) root = Some (nd tree (tree_id t))"
      using nd_first [OF 1(2)] Cons 1(2) flat_tree_not_null [of tree i t] by (simp add: dyn_node_preorder_def Let_def)
    moreover have "chain tree root k (preorder_list ts)" using 1 Cons by (intro 1(1)) simp_all
    ultimately show ?thesis using Cons preorder_list_head [of t ts'] by (simp del: preorder_list.simps)
  qed
next
  case (3 tree p t ts)
  have r: "dn_id root \<notin> set (preorder t)" "dn_id root \<notin> set (preorder_list ts)" "tree_id t \<noteq> dn_id root"
    using 3(6) tree_id_preorder [of t] by auto
  have kt: "dn_id root \<notin> set (preorder_list (kids t))" using r(1) by (cases t) simp
  note cl = preorder_climb_step [OF 3(3,4) r(3)]
  show ?case
  proof (cases ts)
    case Nil
    then show ?thesis using 3(1) [of k] 3(3,7) kt cl by simp
  next
    case (Cons u us)
    have "chain tree root (nd tree (tree_id u)) (preorder t)" using 3(1) [of "nd tree (tree_id u)"] 3(3) kt cl Cons by simp
    moreover have "chain tree root k (preorder_list ts)" using 3(2) [of k] 3(3,4,7) r(2) Cons by simp
    ultimately show ?thesis using Cons preorder_list_head [of u us] chain_append by simp
  qed
qed simp

lemma chain_nth:
  "chain tree root k xs \<Longrightarrow> j < length xs \<Longrightarrow>
   dyn_node_preorder (nd tree (xs ! j)) root = Some (if j + 1 < length xs then nd tree (xs ! (j + 1)) else k)"
  by (induction xs arbitrary: j) (auto simp: nth_Cons split: nat.splits list.splits)

text \<open>The tree of \<open>fn f(a) { x := 1; use(x, a) }\<close>, without its expressions.\<close>

definition sample_node :: "u16 \<Rightarrow> u32 \<Rightarrow> u32 \<Rightarrow> u32 \<Rightarrow> u32 \<Rightarrow> u32 \<Rightarrow> exp_node" where
  "sample_node kind start stop first' next' parent =
     \<lparr>en_start = start, en_end = stop, en_first = first', en_next = next', en_operator_start = 0, en_parent = parent,
      en_kind = kind, en_operator_length = 0, en_flags = 0, en_field = 0\<rparr>"

definition sample_tree :: exp_snapshot_tree where
  "sample_tree = \<lparr>st_nodes =
     [sample_node SRC_FILE 0 29 1 no_node no_node, sample_node SRC_DECLARATION 0 29 2 no_node 0, sample_node SRC_FN 0 29 3 no_node 1,
      sample_node EXP_NAME 3 4 no_node 4 2, sample_node SRC_FN_PARAM 5 6 5 6 2, sample_node EXP_NAME 5 6 no_node no_node 4,
      sample_node SRC_BLOCK 8 29 7 no_node 2, sample_node SRC_VARIABLE 10 16 8 no_node 6, sample_node EXP_NAME 10 11 no_node no_node 7],
     st_count = 9, st_root = 0\<rparr>"

definition sample_stree :: stree where
  "sample_stree = STree 0 [STree 1 [STree 2 [STree 3 [], STree 4 [STree 5 []], STree 6 [STree 7 [STree 8 []]]]]]"

lemma sample_flat: "flat sample_tree sample_stree" "flat_tree sample_tree no_node sample_stree" "distinct (preorder sample_stree)"
  by code_simp+

text \<open>C12: iterating \<open>dyn_node_preorder\<close> from any node visits the nodes of its subtree exactly once, parents before
  children and siblings in source order, and then ends: the successor of each node of the subtree in preorder is the
  next one, and that of the last node is null.\<close>

theorem preorder_enumerates:
  assumes "flat_tree tree p t" and "distinct (preorder t)" and "j < length (preorder t)"
  shows "dyn_node_preorder (nd tree (preorder t ! j)) (nd tree (tree_id t)) =
    Some (nd tree (if j + 1 < length (preorder t) then preorder t ! (j + 1) else no_node))"
proof -
  have "preorder_climb (nd tree (tree_id t)) (nd tree (tree_id t)) = Some (nd tree no_node)" by (subst preorder_climb.simps) simp
  moreover have "tree_id t \<notin> set (preorder_list (kids t))" using assms(2) by (cases t) simp
  ultimately have "chain tree (nd tree (tree_id t)) (nd tree no_node) (preorder t)"
    by (intro preorder_chain(1) [OF assms(1)]) simp_all
  then show ?thesis using chain_nth [OF _ assms(3)] by simp
qed

theorem preorder_enumerates_witness:
  "dyn_node_preorder (nd sample_tree 5) (nd sample_tree 0) = Some (nd sample_tree 6)"
  using preorder_enumerates [OF sample_flat(2,3), of 5] by (simp add: sample_stree_def)

subsection \<open>The node at a span\<close>

fun subtrees :: "stree \<Rightarrow> stree set" where
  "subtrees (STree i ts) = insert (STree i ts) (\<Union>t\<in>set ts. subtrees t)"

definition covers :: "exp_snapshot_tree \<Rightarrow> u32 \<Rightarrow> u32 \<Rightarrow> stree \<Rightarrow> bool" where
  "covers tree start stop t \<longleftrightarrow> en_start (node_at tree (tree_id t)) \<le> start \<and> stop \<le> en_end (node_at tree (tree_id t))"

lemma run_last:
  "run_list (\<lambda>t found. if P t then Inr (f t) else (Inr found :: unit + 'b)) ts d =
    Inr (case filter P ts of [] \<Rightarrow> d | us \<Rightarrow> f (last us))"
  by (induction ts arbitrary: d) (auto split: list.split)

lemma at_loop_covers:
  assumes "flat_tree tree p t"
  shows "\<exists>u\<in>subtrees t. at_loop start stop (nd tree (tree_id t)) = Some (nd tree (tree_id u)) \<and>
    (u = t \<or> covers tree start stop u) \<and> (\<forall>c\<in>set (kids u). \<not> covers tree start stop c)"
  using assms
proof (induction t arbitrary: p)
  case (STree i ts)
  have l: "flat_list tree i ts" using STree.prems by simp
  let ?us = "filter (covers tree start stop) ts"
  have nn: "dyn_node_start (nd tree (tree_id u)) \<le> start \<and> stop \<le> dyn_node_end (nd tree (tree_id u)) \<longleftrightarrow> covers tree start stop u" if "u \<in> set ts" for u
    using flat_tree_not_null [OF flat_list_ids [OF l that]] by (simp add: covers_def dyn_node_start_def dyn_node_end_def)
  have r: "run_list (\<lambda>u found. if dyn_node_start (nd tree (tree_id u)) \<le> start \<and> stop \<le> dyn_node_end (nd tree (tree_id u)) then Inr (nd tree (tree_id u)) else (Inr found :: unit + dyn_node)) ts (nd tree no_node)
      = Inr (case ?us of [] \<Rightarrow> nd tree no_node | us \<Rightarrow> nd tree (tree_id (last us)))"
    unfolding run_last using nn by (simp cong: filter_cong)
  have step: "at_loop start stop (nd tree i) = (case ?us of [] \<Rightarrow> Some (nd tree i) | us \<Rightarrow> at_loop start stop (nd tree (tree_id (last us))))"
  proof (cases ?us)
    case Nil
    then show ?thesis using nd_first [OF STree.prems] r by (subst at_loop.simps) (simp add: each_node_list [OF l])
  next
    case (Cons u us)
    have "last (u # us) \<in> set ts" using Cons last_in_set [of "u # us"] by (metis filter_is_subset list.distinct(1) subset_eq)
    then have "tree_id (last (u # us)) \<noteq> no_node" using flat_tree_not_null [OF flat_list_ids [OF l]] by blast
    then show ?thesis using Cons nd_first [OF STree.prems] r by (subst at_loop.simps) (simp add: each_node_list [OF l])
  qed
  show ?case
  proof (cases ?us)
    case Nil
    then show ?thesis using step by (intro bexI [of _ "STree i ts"]) (auto simp: filter_empty_conv)
  next
    case (Cons u us)
    define v where "v = last (u # us)"
    have "v \<in> set ?us" using Cons unfolding v_def by (metis last_in_set list.distinct(1))
    then have v: "v \<in> set ts" "covers tree start stop v" by simp_all
    obtain w where w: "w \<in> subtrees v" "at_loop start stop (nd tree (tree_id v)) = Some (nd tree (tree_id w))" "w = v \<or> covers tree start stop w"
      "\<forall>c\<in>set (kids w). \<not> covers tree start stop c" using STree.IH [OF v(1) flat_list_ids [OF l v(1)]] by blast
    then show ?thesis using step Cons v unfolding v_def by (intro bexI [of _ w]) auto
  qed
qed

text \<open>\<open>dyn_node_at\<close> returns the deepest node whose span contains the given one: the result is a node of the tree
  that covers the span, or the root when nothing does, and no child of the result covers it.\<close>

lemma node_at_deepest:
  assumes "flat tree t"
  shows "\<exists>u\<in>subtrees t. dyn_node_at (Some tree) start stop = Some (nd tree (tree_id u)) \<and>
    (u = t \<or> covers tree start stop u) \<and> (\<forall>c\<in>set (kids u). \<not> covers tree start stop c)"
proof -
  have t: "flat_tree tree no_node t" "tree_id t = st_root tree" using assms by (simp_all add: flat_def)
  then have "dyn_node_root (Some tree) = nd tree (tree_id t)" using flat_tree_id [OF t(1)] by (simp add: dyn_node_root_def node_of_def)
  then have "dyn_node_at (Some tree) start stop = at_loop start stop (nd tree (tree_id t))"
    using flat_tree_not_null [OF t(1)] by (simp add: dyn_node_at_def Let_def)
  then show ?thesis using at_loop_covers [OF t(1)] by simp
qed

subsection \<open>Depth\<close>

definition cost :: "exp_snapshot_tree \<Rightarrow> stree \<Rightarrow> nat" where
  "cost tree t = (if en_flags (node_at tree (tree_id t)) AND EXP_PRIMARY \<noteq> 0 then 2 else 1)"

fun shallow :: "exp_snapshot_tree \<Rightarrow> nat \<Rightarrow> nat \<Rightarrow> stree \<Rightarrow> bool" where
  "shallow tree limit d (STree i ts) \<longleftrightarrow> d < limit \<and> list_all (\<lambda>t. shallow tree limit (d + cost tree t) t) ts"

definition depth_next :: "exp_snapshot_tree \<Rightarrow> u32 \<Rightarrow> u32 \<Rightarrow> nat \<Rightarrow> nat \<Rightarrow> bool option" where
  "depth_next tree limit i d v = Option.bind (depth_climb tree i (of_nat d))
     (\<lambda>o'. case o' of Inl r \<Rightarrow> Some r | Inr (i, depth) \<Rightarrow> depth_loop tree limit i depth (of_nat v))"

lemma edge_cost_nat: "edge_cost tree (tree_id t) = of_nat (cost tree t)"
  by (simp add: edge_cost_def cost_def)

lemma depth_next_step:
  assumes "flat_list tree p (t # ts)" and "p < st_count tree" and "tree_id t \<noteq> st_root tree"
  shows "depth_next tree limit (tree_id t) (d + cost tree t) v =
    (case ts of [] \<Rightarrow> depth_next tree limit p d v | u # _ \<Rightarrow> depth_loop tree limit (tree_id u) (of_nat (d + cost tree u)) (of_nat v))"
proof -
  have f: "flat_tree tree p t" "en_next (node_at tree (tree_id t)) = head_id ts" "flat_list tree p ts" using assms(1) by simp_all
  show ?thesis
  proof (cases ts)
    case Nil
    then show ?thesis using assms(2,3) f flat_tree_unfold(1) [OF f(1)]
      by (subst depth_next_def, subst depth_climb.simps) (simp add: Let_def edge_cost_nat not_le [symmetric] depth_next_def)
  next
    case (Cons u us)
    then have "flat_tree tree p u" using f(3) by simp
    then show ?thesis using Cons assms(3) f flat_tree_id [of tree p u] flat_tree_not_null [of tree p u]
      by (subst depth_next_def, subst depth_climb.simps) (simp add: Let_def edge_cost_nat not_le [symmetric])
  qed
qed

lemma depth_loop_walk:
  assumes "unat limit \<le> 0xFFFFFFFE"
  shows "flat_tree tree p t \<Longrightarrow> st_root tree \<notin> set (preorder_list (kids t)) \<Longrightarrow> v + length (preorder t) \<le> unat (st_count tree) \<Longrightarrow>
      d \<le> unat limit + 1 \<Longrightarrow>
      depth_loop tree limit (tree_id t) (of_nat d) (of_nat v) =
        (if shallow tree (unat limit) d t then depth_next tree limit (tree_id t) d (v + length (preorder t)) else Some False)"
    and "flat_list tree p ts \<Longrightarrow> p < st_count tree \<Longrightarrow> ts \<noteq> [] \<Longrightarrow> st_root tree \<notin> set (preorder_list ts) \<Longrightarrow>
      v + length (preorder_list ts) \<le> unat (st_count tree) \<Longrightarrow> d < unat limit \<Longrightarrow>
      depth_loop tree limit (head_id ts) (of_nat (d + cost tree (hd ts))) (of_nat v) =
        (if list_all (\<lambda>t. shallow tree (unat limit) (d + cost tree t) t) ts
         then depth_next tree limit p d (v + length (preorder_list ts)) else Some False)"
proof (induction tree p t and tree p ts arbitrary: d v and d v rule: flat_tree_flat_list.induct)
  case (1 tree p i ts)
  have c: "unat (st_count tree) < 4294967296" using unsigned_less [of "st_count tree", where 'a = nat] by simp
  have "unat (of_nat (v + 1) :: u32) = v + 1" using c 1(4) unfolding unat_of_nat by simp
  then have v: "unat (of_nat v + 1 :: u32) = v + 1" by (simp add: add.commute)
  have d: "unat (of_nat d :: u32) = d" using 1(5) assms by (simp add: unat_of_nat)
  have vis: "\<not> (of_nat v + 1 > st_count tree)" using v 1(4) by (simp add: word_less_nat_alt)
  have dl: "of_nat d \<ge> limit \<longleftrightarrow> \<not> d < unat limit" using d by (auto simp: word_le_nat_alt)
  show ?case
  proof (cases "d < unat limit")
    case False
    then show ?thesis using dl by (subst depth_loop.simps) (simp add: Let_def)
  next
    case True
    show ?thesis
    proof (cases ts)
      case Nil
      have n: "v + length (preorder (STree i ts)) = v + 1" "(of_nat (v + 1) :: u32) = of_nat v + 1" using Nil by simp_all
      show ?thesis unfolding n depth_next_def using Nil True vis dl 1(2) by (subst depth_loop.simps) (simp add: Let_def)
    next
      case (Cons t ts')
      have t: "flat_tree tree i t" using 1(2) Cons by simp
      have "depth_loop tree limit (tree_id (STree i ts)) (of_nat d) (of_nat v) = depth_loop tree limit (head_id ts) (of_nat (d + cost tree (hd ts))) (of_nat (v + 1))"
        using True vis dl 1(2) Cons flat_tree_id [OF t] flat_tree_not_null [OF t]
        by (subst depth_loop.simps) (simp add: Let_def edge_cost_nat not_le [symmetric] add.commute)
      also have "\<dots> = (if list_all (\<lambda>t. shallow tree (unat limit) (d + cost tree t) t) ts
         then depth_next tree limit i d (v + 1 + length (preorder_list ts)) else Some False)"
        using 1 True Cons by (intro 1(1)) simp_all
      finally show ?thesis using True by simp
    qed
  qed
next
  case (3 tree p t ts)
  have r: "st_root tree \<notin> set (preorder_list (kids t))" "st_root tree \<notin> set (preorder_list ts)" "tree_id t \<noteq> st_root tree"
    using 3(6) tree_id_preorder [of t] by (cases t; auto)+
  have cl: "cost tree t \<le> 2" by (simp add: cost_def)
  have 1: "depth_loop tree limit (tree_id t) (of_nat (d + cost tree t)) (of_nat v) =
      (if shallow tree (unat limit) (d + cost tree t) t then depth_next tree limit (tree_id t) (d + cost tree t) (v + length (preorder t)) else Some False)"
    using 3 r cl by (intro 3(1)) simp_all
  note st = depth_next_step [OF 3(3,4) r(3)]
  show ?case
  proof (cases ts)
    case Nil
    then show ?thesis using 1 st by simp
  next
    case (Cons u us)
    have 2: "depth_loop tree limit (head_id ts) (of_nat (d + cost tree (hd ts))) (of_nat (v + length (preorder t))) =
        (if list_all (\<lambda>t. shallow tree (unat limit) (d + cost tree t) t) ts
         then depth_next tree limit p d (v + length (preorder t) + length (preorder_list ts)) else Some False)"
      using 3 r Cons by (intro 3(2)) simp_all
    then show ?thesis using 1 st Cons by (simp add: add.assoc)
  qed
qed simp

lemma flat_size: "flat tree t \<Longrightarrow> length (preorder t) \<le> unat (st_count tree)"
proof -
  have ids: "flat_tree tree p t \<Longrightarrow> i \<in> set (preorder t) \<Longrightarrow> i < st_count tree"
    "flat_list tree p ts \<Longrightarrow> i \<in> set (preorder_list ts) \<Longrightarrow> i < st_count tree" for tree p t ts i
    by (induction tree p t and tree p ts rule: flat_tree_flat_list.induct) auto
  assume "flat tree t"
  then have "unat ` set (preorder t) \<subseteq> {..<unat (st_count tree)}" and d: "distinct (preorder t)"
    using ids(1) [of tree no_node t] by (auto simp: flat_def word_less_nat_alt)
  then have "card (unat ` set (preorder t)) \<le> unat (st_count tree)" by (metis card_lessThan card_mono finite_lessThan)
  moreover have "inj_on unat (set (preorder t))" by (simp add: inj_on_def word_unat_eq_iff)
  ultimately show ?thesis using d by (simp add: card_image distinct_card)
qed

text \<open>C13: the depth check returns on every tree and accepts it exactly when no node is as deep as the limit, where
  an edge to a node that stands for a removed level of the grammar counts twice. The limit may be any number that leaves
  room for one more edge in 32 bits; the compiler passes 1024.\<close>

theorem depth_certified_exact:
  assumes "flat tree t" and "unat limit \<le> 0xFFFFFFFE"
  shows "exp_depth_certified (Some tree) limit = Some (shallow tree (unat limit) 0 t)"
proof -
  have t: "flat_tree tree no_node t" "tree_id t = st_root tree" "distinct (preorder t)" using assms(1) by (simp_all add: flat_def)
  have r: "st_root tree \<notin> set (preorder_list (kids t))" using t(2,3) by (cases t) auto
  have "depth_next tree limit (tree_id t) 0 v = Some True" for v
    unfolding depth_next_def t(2) by (subst depth_climb.simps) simp
  then have "depth_loop tree limit (tree_id t) (of_nat 0) (of_nat 0) = Some (shallow tree (unat limit) 0 t)"
    using depth_loop_walk(1) [OF assms(2) t(1) r, of 0 0] flat_size [OF assms(1)] by simp
  then show ?thesis using flat_tree_id [OF t(1)] t(2) by (simp add: exp_depth_certified_def not_le [symmetric])
qed

theorem depth_certified_exact_witness:
  "exp_depth_certified (Some sample_tree) 1024 = Some True \<and> exp_depth_certified (Some sample_tree) 5 = Some False"
proof -
  have "shallow sample_tree 1024 0 sample_stree" "\<not> shallow sample_tree 5 0 sample_stree"
    by (simp_all add: sample_stree_def sample_tree_def sample_node_def cost_def)
  then show ?thesis using depth_certified_exact [OF sample_flat(1), of 1024] depth_certified_exact [OF sample_flat(1), of 5] by simp
qed

subsection \<open>Declarations\<close>

lemma child_where_list:
  assumes "flat_list tree p ts" and "dyn_node_first n = nd tree (head_id ts)" and "dn_tree n = Some tree"
  shows "child_where test n = Some (nd tree (case find (\<lambda>t. test (node_at tree (tree_id t))) ts of None \<Rightarrow> no_node | Some t \<Rightarrow> tree_id t))"
proof -
  have "case_sum id id (run_list (\<lambda>t r. if test (node_at tree (tree_id t)) then Inl (nd tree (tree_id t)) else Inr r) ts d) =
      (case find (\<lambda>t. test (node_at tree (tree_id t))) ts of None \<Rightarrow> d | Some t \<Rightarrow> nd tree (tree_id t))" for d
    by (induction ts) auto
  then show ?thesis using assms(2,3) by (simp add: child_where_def each_node_list [OF assms(1)] split: option.split)
qed

text \<open>The module loader and the editor read declarations with different functions; they agree on the declared name.\<close>

lemma declared_kinds:
  "declared_kind k = None \<longleftrightarrow> k \<notin> {SRC_CONST, SRC_FN, SRC_EXTERN_FN, SRC_EXTERN_VARIABLE, SRC_STRUCT, SRC_ENUM, SRC_ALIAS, SRC_VARIABLE}"
  "declared_kind k = Some DYN_DECL_CONSTANT \<longleftrightarrow> k = SRC_CONST"
  by (auto simp: declared_kind_def kind_defs)

lemma declaration_name_agrees:
  assumes "flat_tree tree p t" and "kids t = c # cs" and "en_kind (node_at tree (tree_id c)) = SRC_CONST \<longrightarrow> kids c \<noteq> []"
  shows "\<exists>d. dyn_node_declaration (nd tree (tree_id t)) = Some d \<and>
    dyn_compact_name tree (tree_id t) = Some (case d of None \<Rightarrow> no_node | Some x \<Rightarrow> dn_id (dd_name x))"
proof (cases "en_kind (node_at tree (tree_id t)) = SRC_DECLARATION")
  case False
  then show ?thesis using flat_tree_not_null [OF assms(1)] by (simp add: dyn_node_declaration_def dyn_compact_name_def dyn_node_is_def)
next
  case True
  have c: "flat_tree tree (tree_id t) c" using flat_tree_unfold(3) [OF assms(1)] assms(2) by simp
  let ?nc = "nd tree (tree_id c)"
  note nn = flat_tree_not_null [OF assms(1)] flat_tree_not_null [OF c]
  have first: "dyn_node_first (nd tree (tree_id t)) = ?nc" "en_first (node_at tree (tree_id t)) = tree_id c"
    using nd_first [OF assms(1)] flat_tree_unfold(2) [OF assms(1)] assms(2) by simp_all
  have named: "\<exists>i. dyn_node_child_kind (nd tree (tree_id u)) EXP_NAME = Some (nd tree i) \<and>
      find_child tree (\<lambda>n. en_kind n = EXP_NAME) (en_first (node_at tree (tree_id u))) = Some i" if "flat_tree tree q u" for q u
    using child_where_list [OF flat_tree_unfold(3) [OF that] nd_first [OF that], of "\<lambda>n. en_kind n = EXP_NAME"]
      find_child_list [OF flat_tree_unfold(3) [OF that], of "\<lambda>n. en_kind n = EXP_NAME"] flat_tree_unfold(2) [OF that]
    by (simp add: dyn_node_child_kind_def)
  let ?k = "en_kind (node_at tree (tree_id c))"
  note unfolds = dyn_node_declaration_def dyn_compact_name_def dyn_node_is_def dyn_node_kind_def Let_def
  show ?thesis
  proof (cases "?k = SRC_CONST")
    case const: True
    then obtain e es where e: "kids c = e # es" using assms(3) by (cases "kids c") auto
    then have fe: "flat_tree tree (tree_id c) e" using flat_tree_unfold(3) [OF c] by simp
    have "dyn_node_first ?nc = nd tree (tree_id e)" "en_first (node_at tree (tree_id c)) = tree_id e"
      using nd_first [OF c] flat_tree_unfold(2) [OF c] e by simp_all
    moreover obtain i where i: "dyn_node_child_kind (nd tree (tree_id e)) EXP_NAME = Some (nd tree i)"
      "find_child tree (\<lambda>n. en_kind n = EXP_NAME) (en_first (node_at tree (tree_id e))) = Some i" using named [OF fe] by blast
    moreover have "declared_kind ?k = Some DYN_DECL_CONSTANT" using const declared_kinds(2) by blast
    ultimately show ?thesis using True const nn first by (cases "i = no_node") (simp_all add: unfolds i)
  next
    case False
    obtain i where i: "dyn_node_child_kind ?nc EXP_NAME = Some (nd tree i)"
      "find_child tree (\<lambda>n. en_kind n = EXP_NAME) (en_first (node_at tree (tree_id c))) = Some i" using named [OF c] by blast
    show ?thesis
    proof (cases "declared_kind ?k")
      case None
      then show ?thesis using True False nn first declared_kinds(1) [of ?k] by (simp add: unfolds)
    next
      case (Some kind)
      then have k: "kind \<noteq> DYN_DECL_CONSTANT" "?k \<in> {SRC_FN, SRC_EXTERN_FN, SRC_EXTERN_VARIABLE, SRC_STRUCT, SRC_ENUM, SRC_ALIAS, SRC_VARIABLE}"
        using False declared_kinds [of ?k] by auto
      have "dyn_compact_name tree (tree_id t) = Some i"
        unfolding dyn_compact_name_def Let_def first(2) using True False nn k(2) i(2) by (simp only: if_False if_True simp_thms)
      moreover have "dyn_node_declaration (nd tree (tree_id t)) = Some (if i = no_node then None else
          Some \<lparr>dd_node = ?nc, dd_name = nd tree i, dd_kind = kind, dd_is_public = (dyn_node_flags (nd tree (tree_id t)) AND EXP_PUBLIC \<noteq> 0)\<rparr>)"
        using True nn first Some k(1) i(1) by (simp add: dyn_node_declaration_def dyn_node_is_def dyn_node_kind_def)
      ultimately show ?thesis by (cases "i = no_node") simp_all
    qed
  qed
qed

text \<open>\<open>dyn_text_point\<close> is \<open>dyn_text_advance\<close> from the start, up to a NUL; advancing composes.\<close>

lemma text_point_advance:
  assumes "0 \<notin> set (take (unat offset) txt)"
  shows "dyn_text_point txt offset = dyn_text_advance \<lparr>dp_row = 0, dp_column = 0\<rparr> txt (unat offset)"
proof -
  have "takeWhile (\<lambda>c. c \<noteq> 0) (take (unat offset) txt) = take (unat offset) txt" using assms by (subst takeWhile_eq_all_conv) metis
  then show ?thesis by (simp only: dyn_text_point_def dyn_text_advance_def)
qed

lemma text_advance_append: "dyn_text_advance (dyn_text_advance p a (length a)) b n = dyn_text_advance p (a @ b) (length a + n)"
  by (simp add: dyn_text_advance_def)

end
