(* ===== verification/Scope_Index.thy ===== *)
theory Scope_Index
  imports Syntax_Tree Bisect "HOL-Library.Multiset"
begin

text \<open>
  The index of local names (\<open>src/src/dyn_scope.h\<close>), with which the module loader tells uses of locals from uses of
  declarations. \<open>dyn_scope_build\<close> walks the syntax tree, collects for each local the interval of bytes in which it is
  visible, sorts the intervals and adds to each the furthest end among the intervals of the same name before it;
  \<open>dyn_scope_local_at\<close> answers with one binary search. \<open>qsort\<close> is a parameter, with the locale \<open>sorter\<close> for what the C
  standard says of it. The answers of \<open>dyn_work_step\<close> are the parameter \<open>work\<close>, numbered as in \<open>Global_Init\<close>; a state is the
  index and the number of steps. Allocation failure is not modelled.
\<close>

record scope_binding =
  sb_name :: bytes
  sb_start :: u32
  sb_end :: u32
  sb_prefix_end :: u32

type_synonym scope_index = "scope_binding list"
type_synonym scope_state = "scope_index \<times> nat"

fun memcmp :: "nat \<Rightarrow> bytes \<Rightarrow> bytes \<Rightarrow> int" where
  "memcmp (Suc n) (x # xs) (y # ys) = (if x = y then memcmp n xs ys else if x < y then -1 else 1)"
| "memcmp n xs ys = 0"

definition scope_name_compare :: "bytes \<Rightarrow> bytes \<Rightarrow> int" where
  "scope_name_compare a b =
     (let order = memcmp (min (length a) (length b)) a b in
      if order \<noteq> 0 then order else of_bool (length a > length b) - of_bool (length a < length b))"

definition dyn_scope_compare :: "scope_binding \<Rightarrow> scope_binding \<Rightarrow> int" where
  "dyn_scope_compare a b =
     (let order = scope_name_compare (sb_name a) (sb_name b) in
      if order \<noteq> 0 then order else of_bool (sb_start a > sb_start b) - of_bool (sb_start a < sb_start b))"

definition dyn_scope_add_text :: "scope_index \<Rightarrow> bytes \<Rightarrow> u32 \<Rightarrow> u32 \<Rightarrow> scope_index" where
  "dyn_scope_add_text index txt start stop =
     (if start \<ge> stop then index else index @ [\<lparr>sb_name = txt, sb_start = start, sb_end = stop, sb_prefix_end = stop\<rparr>])"

definition node_text :: "exp_snapshot_tree \<Rightarrow> bytes \<Rightarrow> u32 \<Rightarrow> bytes" where
  "node_text tree txt i = take (unat (en_end (node_at tree i) - en_start (node_at tree i))) (drop (unat (en_start (node_at tree i))) txt)"

definition dyn_scope_compact_add :: "exp_snapshot_tree \<Rightarrow> bytes \<Rightarrow> scope_index \<Rightarrow> u32 \<Rightarrow> u32 \<Rightarrow> u32 \<Rightarrow> scope_index" where
  "dyn_scope_compact_add tree txt index name start stop =
     (if name = no_node \<or> en_kind (node_at tree name) \<noteq> EXP_NAME then index
      else dyn_scope_add_text index (node_text tree txt name) start stop)"

partial_function (option) skip_const :: "exp_snapshot_tree \<Rightarrow> u32 \<Rightarrow> u32 option" where
  "skip_const tree node =
     (if node \<noteq> no_node \<and> en_kind (node_at tree node) = SRC_CONST then skip_const tree (en_first (node_at tree node)) else Some node)"

partial_function (option) last_pattern :: "(nat \<Rightarrow> bool) \<Rightarrow> exp_snapshot_tree \<Rightarrow> u32 \<Rightarrow> nat \<Rightarrow> (unit + u32 \<times> nat) option" where
  "last_pattern work tree node n =
     (if node \<noteq> no_node \<and> en_next (node_at tree node) \<noteq> no_node then
        if \<not> work n then Some (Inl ()) else last_pattern work tree (en_next (node_at tree node)) (n + 1)
      else Some (Inr (node, n)))"

unbundle bit_operations_syntax

text \<open>The body of the loop of \<open>dyn_scope_compact_collect\<close> over the children of a scope; \<open>Inl\<close> is \<open>return false\<close>.\<close>

definition collect_child ::
  "(nat \<Rightarrow> bool) \<Rightarrow> exp_snapshot_tree \<Rightarrow> bytes \<Rightarrow> u16 \<Rightarrow> u32 \<Rightarrow> u32 \<Rightarrow> u32 \<Rightarrow> scope_state \<Rightarrow> (unit + scope_state) option" where
  "collect_child work tree txt scope start stop child s =
     (let (index, n) = s in
      if \<not> work n then Some (Inl ())
      else
        let n = n + 1; kind = en_kind (node_at tree child) in
        if scope = SRC_BLOCK then
          Option.bind (skip_const tree child) (\<lambda>node.
            if node \<noteq> no_node \<and> en_kind (node_at tree node) = SRC_VARIABLE
            then Some (Inr (dyn_scope_compact_add tree txt index (en_first (node_at tree node)) (en_end (node_at tree child)) stop, n))
            else Some (Inr (index, n)))
        else if scope = SRC_FN then
          if kind \<noteq> SRC_FN_PARAM \<and> kind \<noteq> SRC_VARIADIC_PARAM then Some (Inr (index, n))
          else each_sibling tree
            (\<lambda>name (index, n). if \<not> work n then Some (Inl ()) else Some (Inr (dyn_scope_compact_add tree txt index name start stop, n + 1)))
            (en_first (node_at tree child)) (index, n)
        else if scope = SRC_FOR then
          Some (Inr (if kind = SRC_FOR_CONDITION \<and> en_flags (node_at tree child) AND EXP_ITERATION \<noteq> 0
            then dyn_scope_compact_add tree txt index (en_first (node_at tree child)) start stop else index, n))
        else
          Option.bind (if kind = SRC_TYPE_PATTERN then last_pattern work tree (en_first (node_at tree child)) n else Some (Inr (child, n)))
            (\<lambda>o'. case o' of Inl _ \<Rightarrow> Some (Inl ())
              | Inr (node, n) \<Rightarrow> Some (Inr (dyn_scope_compact_add tree txt index node start stop, n))))"

text \<open>The search for the body of a loop or a case arm: \<open>Inl None\<close> is \<open>return false\<close>, \<open>Inl (Some b)\<close> the break.\<close>

definition scope_body :: "(nat \<Rightarrow> bool) \<Rightarrow> exp_snapshot_tree \<Rightarrow> u32 \<Rightarrow> nat \<Rightarrow> ((u32 \<times> nat) option + nat) option" where
  "scope_body work tree first' n =
     each_sibling tree (\<lambda>body n. if \<not> work n then Some (Inl None)
       else if en_kind (node_at tree body) = SRC_BLOCK then Some (Inl (Some (body, n + 1))) else Some (Inr (n + 1))) first' n"

definition dyn_scope_compact_collect ::
  "(nat \<Rightarrow> bool) \<Rightarrow> exp_snapshot_tree \<Rightarrow> bytes \<Rightarrow> u32 \<Rightarrow> scope_state \<Rightarrow> (unit + scope_state) option" where
  "dyn_scope_compact_collect work tree txt i s =
     (let scope = node_at tree i; kind = en_kind scope; (index, n) = s in
      if kind \<notin> {SRC_BLOCK, SRC_FN, SRC_FOR, SRC_CASE_ARM} then Some (Inr s)
      else if kind = SRC_FOR \<or> kind = SRC_CASE_ARM then
        Option.bind (scope_body work tree (en_first scope) n) (\<lambda>o'. case o' of
            Inl None \<Rightarrow> Some (Inl ())
          | Inr n \<Rightarrow> Some (Inr (index, n))
          | Inl (Some (body, n)) \<Rightarrow>
              each_sibling tree (collect_child work tree txt kind (en_start (node_at tree body)) (en_end (node_at tree body))) (en_first scope) (index, n))
      else each_sibling tree (collect_child work tree txt kind (en_start scope) (en_end scope)) (en_first scope) s)"

partial_function (option) scope_climb :: "exp_snapshot_tree \<Rightarrow> u32 \<Rightarrow> u32 option" where
  "scope_climb tree node =
     (if node = no_node then Some no_node
      else if en_next (node_at tree node) = no_node then scope_climb tree (en_parent (node_at tree node))
      else Some (en_next (node_at tree node)))"

partial_function (option) scope_walk ::
  "(nat \<Rightarrow> bool) \<Rightarrow> exp_snapshot_tree \<Rightarrow> bytes \<Rightarrow> u32 \<Rightarrow> scope_state \<Rightarrow> (unit + scope_state) option" where
  "scope_walk work tree txt node s =
     (if node = no_node then Some (Inr s)
      else if \<not> work (snd s) then Some (Inl ())
      else Option.bind (dyn_scope_compact_collect work tree txt node (fst s, snd s + 1)) (\<lambda>o'. case o' of
          Inl r \<Rightarrow> Some (Inl r)
        | Inr s \<Rightarrow>
            if en_kind (node_at tree node) \<ge> SRC_FILE \<and> en_first (node_at tree node) \<noteq> no_node
            then scope_walk work tree txt (en_first (node_at tree node)) s
            else Option.bind (scope_climb tree node) (\<lambda>node. scope_walk work tree txt node s)))"

definition dyn_scope_compact_build ::
  "(nat \<Rightarrow> bool) \<Rightarrow> exp_snapshot_tree \<Rightarrow> bytes \<Rightarrow> scope_state \<Rightarrow> (unit + scope_state) option" where
  "dyn_scope_compact_build work tree txt s = scope_walk work tree txt (st_root tree) s"

primrec prefix_ends :: "scope_binding \<Rightarrow> scope_index \<Rightarrow> scope_index" where
  "prefix_ends p [] = []"
| "prefix_ends p (b # bs) =
     (let b = (if scope_name_compare (sb_name p) (sb_name b) = 0 \<and> sb_prefix_end p > sb_prefix_end b
               then b\<lparr>sb_prefix_end := sb_prefix_end p\<rparr> else b)
      in b # prefix_ends b bs)"

definition dyn_scope_finish ::
  "((scope_binding \<Rightarrow> scope_binding \<Rightarrow> int) \<Rightarrow> scope_index \<Rightarrow> scope_index) \<Rightarrow> scope_index \<Rightarrow> scope_index" where
  "dyn_scope_finish qsort index =
     (case (if index \<noteq> [] then qsort dyn_scope_compare index else index) of [] \<Rightarrow> [] | b # bs \<Rightarrow> b # prefix_ends b bs)"

text \<open>The result is \<open>None\<close> when \<open>dyn_scope_build\<close> returns false. A source without a tree has none to walk.\<close>

definition dyn_scope_build ::
  "((scope_binding \<Rightarrow> scope_binding \<Rightarrow> int) \<Rightarrow> scope_index \<Rightarrow> scope_index) \<Rightarrow> (nat \<Rightarrow> bool) \<Rightarrow> exp_snapshot_tree option \<Rightarrow> bytes
    \<Rightarrow> scope_index option option" where
  "dyn_scope_build qsort work tree txt =
     (case tree of None \<Rightarrow> Some None
      | Some t \<Rightarrow> map_option (\<lambda>o'. case o' of Inl _ \<Rightarrow> None | Inr (index, n) \<Rightarrow> Some (dyn_scope_finish qsort index))
          (dyn_scope_compact_build work t txt ([], 0)))"

definition scope_before :: "scope_index \<Rightarrow> u32 \<times> bytes \<Rightarrow> nat \<Rightarrow> bool" where
  "scope_before index key middle \<longleftrightarrow>
     (let order = scope_name_compare (sb_name (index ! middle)) (snd key) in
      order < 0 \<or> order = 0 \<and> sb_start (index ! middle) \<le> fst key)"

definition dyn_scope_local_at :: "scope_index \<Rightarrow> u32 \<Rightarrow> bytes \<Rightarrow> bool" where
  "dyn_scope_local_at index byte name \<longleftrightarrow>
     (let first' = bisect (scope_before index (byte, name)) 0 (length index) in
      first' \<noteq> 0 \<and> scope_name_compare (sb_name (index ! (first' - 1))) name = 0 \<and> byte < sb_prefix_end (index ! (first' - 1)))"

subsection \<open>The order of names\<close>

lemma name_compare_simps [simp]:
  "scope_name_compare [] [] = 0" "scope_name_compare [] (y # ys) = -1" "scope_name_compare (x # xs) [] = 1"
  "scope_name_compare (x # xs) (y # ys) = (if x = y then scope_name_compare xs ys else if x < y then -1 else 1)"
  by (simp_all add: scope_name_compare_def)

lemma name_compare_zero [simp]: "scope_name_compare a b = 0 \<longleftrightarrow> a = b"
proof (induction a arbitrary: b)
  case Nil
  show ?case by (cases b) simp_all
next
  case (Cons x a)
  then show ?case by (cases b) simp_all
qed

lemma name_compare_refl [simp]: "scope_name_compare a a = 0"
  by simp

lemma name_compare_total: "scope_name_compare a b \<le> 0 \<or> scope_name_compare b a \<le> 0"
proof (induction a arbitrary: b)
  case Nil
  show ?case by (cases b) simp_all
next
  case (Cons x a)
  then show ?case by (cases b) auto
qed

lemma name_compare_antisym: "scope_name_compare a b \<le> 0 \<Longrightarrow> scope_name_compare b a \<le> 0 \<Longrightarrow> a = b"
proof (induction a arbitrary: b)
  case Nil
  then show ?case by (cases b) simp_all
next
  case (Cons x a)
  then show ?case by (cases b) (auto split: if_splits)
qed

lemma name_compare_trans: "scope_name_compare a b \<le> 0 \<Longrightarrow> scope_name_compare b c \<le> 0 \<Longrightarrow> scope_name_compare a c \<le> 0"
proof (induction a arbitrary: b c)
  case Nil
  then show ?case by (cases c) simp_all
next
  case (Cons x a)
  then show ?case by (cases b; cases c) (auto split: if_splits)
qed

lemma compare_le:
  "dyn_scope_compare a b \<le> 0 \<longleftrightarrow>
   scope_name_compare (sb_name a) (sb_name b) < 0 \<or> sb_name a = sb_name b \<and> sb_start a \<le> sb_start b"
  using name_compare_zero [of "sb_name a" "sb_name b"]
  by (cases "sb_name a = sb_name b") (auto simp: dyn_scope_compare_def Let_def simp del: name_compare_zero)

lemma compare_total: "dyn_scope_compare a b \<le> 0 \<or> dyn_scope_compare b a \<le> 0"
  using name_compare_total [of "sb_name a" "sb_name b"] name_compare_zero [of "sb_name a" "sb_name b"] name_compare_zero [of "sb_name b" "sb_name a"]
  unfolding compare_le by (auto simp: le_less)

lemma name_less_trans: "scope_name_compare a b \<le> 0 \<Longrightarrow> scope_name_compare b c < 0 \<Longrightarrow> scope_name_compare a c < 0"
  using name_compare_trans [of a b c] name_compare_antisym [of a b] name_compare_antisym [of b c] name_compare_zero [of a c] by (auto simp: le_less)

lemma compare_trans: "dyn_scope_compare a b \<le> 0 \<Longrightarrow> dyn_scope_compare b c \<le> 0 \<Longrightarrow> dyn_scope_compare a c \<le> 0"
  unfolding compare_le using name_less_trans [of "sb_name a" "sb_name b" "sb_name c"] by auto

text \<open>What the C standard promises of \<open>qsort\<close>: a permutation, in order when the comparison is an order.\<close>

locale sorter =
  fixes qsort :: "('a \<Rightarrow> 'a \<Rightarrow> int) \<Rightarrow> 'a list \<Rightarrow> 'a list"
  assumes permutes: "mset (qsort cmp xs) = mset xs"
    and orders: "(\<And>a b. cmp a b \<le> 0 \<or> cmp b a \<le> 0) \<Longrightarrow> (\<And>a b c. cmp a b \<le> 0 \<Longrightarrow> cmp b c \<le> 0 \<Longrightarrow> cmp a c \<le> 0) \<Longrightarrow>
      sorted_wrt (\<lambda>a b. cmp a b \<le> 0) (qsort cmp xs)"
begin

lemma same_elements: "set (qsort cmp xs) = set xs"
  by (rule mset_eq_setD) (rule permutes)

end

primrec insert_by :: "('a \<Rightarrow> 'a \<Rightarrow> int) \<Rightarrow> 'a \<Rightarrow> 'a list \<Rightarrow> 'a list" where
  "insert_by cmp x [] = [x]"
| "insert_by cmp x (y # ys) = (if cmp x y \<le> 0 then x # y # ys else y # insert_by cmp x ys)"

definition insertion_sort :: "('a \<Rightarrow> 'a \<Rightarrow> int) \<Rightarrow> 'a list \<Rightarrow> 'a list" where
  "insertion_sort cmp xs = foldr (insert_by cmp) xs []"

lemma insert_by_mset: "mset (insert_by cmp x xs) = add_mset x (mset xs)"
  by (induction xs) auto

lemma insert_by_sorted:
  assumes "\<And>a b. cmp a b \<le> 0 \<or> cmp b a \<le> 0" and "\<And>a b c. cmp a b \<le> 0 \<Longrightarrow> cmp b c \<le> 0 \<Longrightarrow> cmp a c \<le> 0"
  shows "sorted_wrt (\<lambda>a b. cmp a b \<le> 0) xs \<Longrightarrow> sorted_wrt (\<lambda>a b. cmp a b \<le> 0) (insert_by cmp x xs)"
proof (induction xs)
  case (Cons y ys)
  have "set (insert_by cmp x ys) = insert x (set ys)" using arg_cong [OF insert_by_mset [of cmp x ys], of set_mset] by simp
  then show ?case using Cons assms(1) [of x y] assms(2) [of x y] by auto
qed simp

interpretation insertion: sorter insertion_sort
proof
  fix cmp :: "'a \<Rightarrow> 'a \<Rightarrow> int" and xs
  show "mset (insertion_sort cmp xs) = mset xs" by (induction xs) (simp_all add: insertion_sort_def insert_by_mset)
  assume "\<And>a b. cmp a b \<le> 0 \<or> cmp b a \<le> 0" "\<And>a b c. cmp a b \<le> 0 \<Longrightarrow> cmp b c \<le> 0 \<Longrightarrow> cmp a c \<le> 0"
  then show "sorted_wrt (\<lambda>a b. cmp a b \<le> 0) (insertion_sort cmp xs)"
    by (induction xs) (simp_all add: insertion_sort_def insert_by_sorted)
qed

subsection \<open>Lookup\<close>

lemma prefix_ends_nth:
  "Suc i < length (p # bs) \<Longrightarrow>
   (p # prefix_ends p bs) ! Suc i =
     (let q = (p # prefix_ends p bs) ! i; b = (p # bs) ! Suc i in
      if sb_name q = sb_name b \<and> sb_prefix_end q > sb_prefix_end b then b\<lparr>sb_prefix_end := sb_prefix_end q\<rparr> else b)"
proof (induction bs arbitrary: p i)
  case (Cons b bs)
  define b' where "b' = (if sb_name p = sb_name b \<and> sb_prefix_end p > sb_prefix_end b then b\<lparr>sb_prefix_end := sb_prefix_end p\<rparr> else b)"
  have e: "prefix_ends p (b # bs) = b' # prefix_ends b' bs" by (simp add: b'_def Let_def)
  show ?case
  proof (cases i)
    case 0
    then show ?thesis by (simp add: e del: prefix_ends.simps) (simp add: b'_def Let_def)
  next
    case (Suc j)
    then show ?thesis using Cons.IH [of j b'] Cons.prems by (simp add: e del: prefix_ends.simps)
  qed
qed simp

lemma prefix_ends_length [simp]: "length (prefix_ends p bs) = length bs"
  by (induction bs arbitrary: p) (simp_all add: Let_def)

text \<open>\<open>prefix_end\<close> is the furthest end among the intervals of the same name up to there.\<close>

lemma prefix_ends_max:
  assumes "sorted_wrt (\<lambda>a b. dyn_scope_compare a b \<le> 0) (p # bs)" and "list_all (\<lambda>b. sb_prefix_end b = sb_end b) (p # bs)"
    and "j < length (p # bs)"
  shows "sb_name ((p # prefix_ends p bs) ! j) = sb_name ((p # bs) ! j) \<and> sb_start ((p # prefix_ends p bs) ! j) = sb_start ((p # bs) ! j) \<and>
    (\<forall>i\<le>j. sb_name ((p # bs) ! i) = sb_name ((p # bs) ! j) \<longrightarrow> sb_end ((p # bs) ! i) \<le> sb_prefix_end ((p # prefix_ends p bs) ! j)) \<and>
    (\<exists>i\<le>j. sb_name ((p # bs) ! i) = sb_name ((p # bs) ! j) \<and> sb_prefix_end ((p # prefix_ends p bs) ! j) = sb_end ((p # bs) ! i))"
  using assms(3)
proof (induction j)
  case 0
  then show ?case using assms(2) by simp
next
  case (Suc j)
  let ?xs = "p # bs" and ?ys = "p # prefix_ends p bs"
  have IH: "sb_name (?ys ! j) = sb_name (?xs ! j)" "\<And>i. i \<le> j \<Longrightarrow> sb_name (?xs ! i) = sb_name (?xs ! j) \<Longrightarrow> sb_end (?xs ! i) \<le> sb_prefix_end (?ys ! j)"
    "\<exists>i\<le>j. sb_name (?xs ! i) = sb_name (?xs ! j) \<and> sb_prefix_end (?ys ! j) = sb_end (?xs ! i)" using Suc by auto
  have pe: "sb_prefix_end (?xs ! Suc j) = sb_end (?xs ! Suc j)" using assms(2) Suc.prems by (simp add: list_all_iff)
  have near: "sb_name (?xs ! i) = sb_name (?xs ! j)" if "i \<le> j" "sb_name (?xs ! i) = sb_name (?xs ! Suc j)" for i
  proof (cases "i = j")
    case False
    then have "dyn_scope_compare (?xs ! i) (?xs ! j) \<le> 0" "dyn_scope_compare (?xs ! j) (?xs ! Suc j) \<le> 0"
      using assms(1) that(1) Suc.prems sorted_wrt_nth_less [OF assms(1)] by (metis Suc_lessD le_neq_implies_less, metis lessI)
    then show ?thesis using that(2) name_compare_antisym [of "sb_name (?xs ! i)" "sb_name (?xs ! j)"] unfolding compare_le by auto
  qed simp
  note step = prefix_ends_nth [OF Suc.prems, unfolded Let_def]
  show ?case
  proof (cases "sb_name (?xs ! j) = sb_name (?xs ! Suc j)")
    case True
    then have m: "sb_prefix_end (?ys ! Suc j) = max (sb_prefix_end (?ys ! j)) (sb_end (?xs ! Suc j))" using step IH(1) pe by (auto simp: max_def)
    have "sb_end (?xs ! i) \<le> sb_prefix_end (?ys ! Suc j)" if "i \<le> Suc j" "sb_name (?xs ! i) = sb_name (?xs ! Suc j)" for i
      using that IH(2) [of i] True unfolding m by (cases "i = Suc j") (auto simp: le_max_iff_disj)
    moreover have "\<exists>i\<le>Suc j. sb_name (?xs ! i) = sb_name (?xs ! Suc j) \<and> sb_prefix_end (?ys ! Suc j) = sb_end (?xs ! i)"
      using IH(3) True unfolding m max_def by (metis le_Suc_eq)
    ultimately show ?thesis using step by auto
  next
    case False
    then have e: "?ys ! Suc j = ?xs ! Suc j" using step IH(1) by simp
    have only: "i = Suc j" if "i \<le> Suc j" "sb_name (?xs ! i) = sb_name (?xs ! Suc j)" for i
      using that near [of i] False by (metis le_Suc_eq)
    show ?thesis unfolding e pe
    proof (intro conjI allI impI)
      show "sb_end (?xs ! i) \<le> sb_end (?xs ! Suc j)" if "i \<le> Suc j" "sb_name (?xs ! i) = sb_name (?xs ! Suc j)" for i
        using only [OF that] by blast
    qed blast+
  qed
qed

definition index_sorted :: "scope_index \<Rightarrow> bool" where
  "index_sorted ix \<longleftrightarrow> (\<forall>i j. i < j \<longrightarrow> j < length ix \<longrightarrow> dyn_scope_compare (ix ! i) (ix ! j) \<le> 0)"

interpretation scopes: ordered_index scope_before length index_sorted
proof
  fix ix :: scope_index and i j :: nat and key
  assume "index_sorted ix" "i \<le> j" "j < length ix" and b: "scope_before ix key j"
  then have "i = j \<or> dyn_scope_compare (ix ! i) (ix ! j) \<le> 0" by (auto simp: index_sorted_def le_less)
  then show "scope_before ix key i"
    using b name_less_trans [of "sb_name (ix ! i)" "sb_name (ix ! j)" "snd key"] by (auto simp: scope_before_def Let_def compare_le)
qed

lemma local_at_sorted:
  assumes "sorted_wrt (\<lambda>a b. dyn_scope_compare a b \<le> 0) (p # bs)" and "list_all (\<lambda>b. sb_prefix_end b = sb_end b) (p # bs)"
  shows "dyn_scope_local_at (p # prefix_ends p bs) byte name \<longleftrightarrow> (\<exists>b\<in>set (p # bs). sb_name b = name \<and> sb_start b \<le> byte \<and> byte < sb_end b)"
proof -
  define xs ys where xs: "xs = p # bs" and ys: "ys = p # prefix_ends p bs"
  have len: "length ys = length xs" by (simp add: xs ys)
  note mx = prefix_ends_max [OF assms, folded xs ys]
  have le: "dyn_scope_compare (xs ! i) (xs ! j) \<le> 0" if "i < j" "j < length xs" for i j
    using sorted_wrt_nth_less [OF assms(1)] that unfolding xs by blast
  have "index_sorted ys" unfolding index_sorted_def compare_le
    using mx le len by (metis (no_types, lifting) compare_le less_trans)
  note search = scopes.search_prefix [OF this, of "(byte, name)"]
  define m where "m = bisect (scope_before ys (byte, name)) 0 (length ys)"
  have m: "m \<le> length xs" "\<And>i. i < m \<Longrightarrow> scope_before ys (byte, name) i" "\<And>i. m \<le> i \<Longrightarrow> i < length xs \<Longrightarrow> \<not> scope_before ys (byte, name) i"
    using search len unfolding m_def by auto
  have before: "scope_before ys (byte, name) i \<longleftrightarrow> scope_name_compare (sb_name (xs ! i)) name < 0 \<or> sb_name (xs ! i) = name \<and> sb_start (xs ! i) \<le> byte"
    if "i < length xs" for i using mx [OF that] by (simp add: scope_before_def Let_def)
  have lookup: "dyn_scope_local_at ys byte name \<longleftrightarrow> m \<noteq> 0 \<and> sb_name (xs ! (m - 1)) = name \<and> byte < sb_prefix_end (ys ! (m - 1))"
  proof (cases "m = 0")
    case False
    then have "m - 1 < length xs" using m(1) by simp
    then show ?thesis using mx [of "m - 1"] by (simp add: dyn_scope_local_at_def Let_def flip: m_def)
  qed (simp add: dyn_scope_local_at_def Let_def flip: m_def)
  show ?thesis unfolding xs [symmetric] ys [symmetric]
  proof
    assume "dyn_scope_local_at ys byte name"
    then have l: "m \<noteq> 0" "sb_name (xs ! (m - 1)) = name" "byte < sb_prefix_end (ys ! (m - 1))" using lookup by simp_all
    then have j: "m - 1 < length xs" "sb_start (xs ! (m - 1)) \<le> byte" using m(1) m(2) [of "m - 1"] before [of "m - 1"] by auto
    obtain i where i: "i \<le> m - 1" "sb_name (xs ! i) = name" "sb_prefix_end (ys ! (m - 1)) = sb_end (xs ! i)" using mx [OF j(1)] l(2) by auto
    have "sb_start (xs ! i) \<le> byte"
      using le [of i "m - 1"] i(1,2) j l(2) by (cases "i = m - 1") (auto simp: compare_le)
    then show "\<exists>b\<in>set xs. sb_name b = name \<and> sb_start b \<le> byte \<and> byte < sb_end b"
      using i l(3) j(1) by (intro bexI [of _ "xs ! i"]) auto
  next
    assume "\<exists>b\<in>set xs. sb_name b = name \<and> sb_start b \<le> byte \<and> byte < sb_end b"
    then obtain i where i: "i < length xs" "sb_name (xs ! i) = name" "sb_start (xs ! i) \<le> byte" "byte < sb_end (xs ! i)"
      by (metis in_set_conv_nth)
    have im: "i < m" using m(3) [of i] before [OF i(1)] i by (cases "m \<le> i") auto
    then have j: "m - 1 < length xs" "i \<le> m - 1" using m(1) by auto
    have n: "sb_name (xs ! (m - 1)) = name"
    proof (cases "i = m - 1")
      case False
      then have "scope_name_compare name (sb_name (xs ! (m - 1))) \<le> 0" using le [of i "m - 1"] j i(2) by (auto simp: compare_le)
      moreover have "scope_name_compare (sb_name (xs ! (m - 1))) name \<le> 0" using m(2) [of "m - 1"] before [OF j(1)] im by auto
      ultimately show ?thesis using name_compare_antisym by blast
    qed (use i in simp)
    then have "byte < sb_prefix_end (ys ! (m - 1))" using mx [OF j(1)] j(2) i(2,4) by (metis order.strict_trans2)
    then show "dyn_scope_local_at ys byte name" using lookup im n by simp
  qed
qed

lemma local_at_exact:
  assumes "sorter qsort" and "list_all (\<lambda>b. sb_prefix_end b = sb_end b) index"
  shows "dyn_scope_local_at (dyn_scope_finish qsort index) byte name \<longleftrightarrow> (\<exists>b\<in>set index. sb_name b = name \<and> sb_start b \<le> byte \<and> byte < sb_end b)"
proof (cases "index = []")
  case True
  then show ?thesis by (simp add: dyn_scope_finish_def dyn_scope_local_at_def bisect.simps)
next
  case False
  let ?xs = "qsort dyn_scope_compare index"
  have s: "set ?xs = set index" by (rule sorter.same_elements [OF assms(1)])
  have o: "sorted_wrt (\<lambda>a b. dyn_scope_compare a b \<le> 0) ?xs" by (rule sorter.orders [OF assms(1) compare_total]) (rule compare_trans)
  obtain p bs where xs: "?xs = p # bs" using s False by (cases ?xs) auto
  have "dyn_scope_finish qsort index = p # prefix_ends p bs" using False xs by (simp add: dyn_scope_finish_def)
  moreover have "list_all (\<lambda>b. sb_prefix_end b = sb_end b) (p # bs)" using assms(2) s unfolding xs list_all_iff by metis
  moreover have "set index = set (p # bs)" using s xs by simp
  ultimately show ?thesis using local_at_sorted [OF o [unfolded xs], of byte name] by (simp only:)
qed

subsection \<open>The locals of a tree\<close>

text \<open>The intervals a node introduces, on ordered trees: variables of a block from behind their declaration, parameters in
  the whole function, the loop variable and the names of a case arm in the body.\<close>

definition tree_kind :: "exp_snapshot_tree \<Rightarrow> stree \<Rightarrow> u16" where
  "tree_kind tree t = en_kind (node_at tree (tree_id t))"

definition local_name :: "exp_snapshot_tree \<Rightarrow> bytes \<Rightarrow> u32 \<Rightarrow> u32 \<Rightarrow> stree \<Rightarrow> scope_binding list" where
  "local_name tree txt start stop t =
     (if tree_kind tree t = EXP_NAME \<and> start < stop
      then [\<lparr>sb_name = node_text tree txt (tree_id t), sb_start = start, sb_end = stop, sb_prefix_end = stop\<rparr>] else [])"

definition first_local :: "exp_snapshot_tree \<Rightarrow> bytes \<Rightarrow> u32 \<Rightarrow> u32 \<Rightarrow> stree list \<Rightarrow> scope_binding list" where
  "first_local tree txt start stop ts = (case ts of [] \<Rightarrow> [] | t # _ \<Rightarrow> local_name tree txt start stop t)"

fun under_const :: "exp_snapshot_tree \<Rightarrow> stree \<Rightarrow> stree option" where
  "under_const tree (STree i ts) =
     (if en_kind (node_at tree i) = SRC_CONST then case ts of [] \<Rightarrow> None | t # _ \<Rightarrow> under_const tree t else Some (STree i ts))"

definition child_locals :: "exp_snapshot_tree \<Rightarrow> bytes \<Rightarrow> u16 \<Rightarrow> u32 \<Rightarrow> u32 \<Rightarrow> stree \<Rightarrow> scope_binding list" where
  "child_locals tree txt scope start stop c =
     (if scope = SRC_BLOCK then
        case under_const tree c of None \<Rightarrow> []
        | Some v \<Rightarrow> if tree_kind tree v = SRC_VARIABLE then first_local tree txt (en_end (node_at tree (tree_id c))) stop (kids v) else []
      else if scope = SRC_FN then
        if tree_kind tree c = SRC_FN_PARAM \<or> tree_kind tree c = SRC_VARIADIC_PARAM
        then concat (map (local_name tree txt start stop) (kids c)) else []
      else if scope = SRC_FOR then
        if tree_kind tree c = SRC_FOR_CONDITION \<and> en_flags (node_at tree (tree_id c)) AND EXP_ITERATION \<noteq> 0
        then first_local tree txt start stop (kids c) else []
      else if tree_kind tree c = SRC_TYPE_PATTERN
        then if kids c = [] then [] else local_name tree txt start stop (last (kids c))
      else local_name tree txt start stop c)"

definition node_locals :: "exp_snapshot_tree \<Rightarrow> bytes \<Rightarrow> stree \<Rightarrow> scope_binding list" where
  "node_locals tree txt t =
     (let kind = tree_kind tree t; n = node_at tree (tree_id t) in
      if kind = SRC_BLOCK \<or> kind = SRC_FN then concat (map (child_locals tree txt kind (en_start n) (en_end n)) (kids t))
      else if kind = SRC_FOR \<or> kind = SRC_CASE_ARM then
        case find (\<lambda>c. tree_kind tree c = SRC_BLOCK) (kids t) of None \<Rightarrow> []
        | Some b \<Rightarrow> concat (map (child_locals tree txt kind (en_start (node_at tree (tree_id b))) (en_end (node_at tree (tree_id b)))) (kids t))
      else [])"

text \<open>All locals; expressions and types introduce none.\<close>

fun tree_locals :: "exp_snapshot_tree \<Rightarrow> bytes \<Rightarrow> stree \<Rightarrow> scope_binding list"
  and list_locals :: "exp_snapshot_tree \<Rightarrow> bytes \<Rightarrow> stree list \<Rightarrow> scope_binding list" where
  "tree_locals tree txt (STree i ts) =
     node_locals tree txt (STree i ts) @ (if en_kind (node_at tree i) \<ge> SRC_FILE then list_locals tree txt ts else [])"
| "list_locals tree txt [] = []"
| "list_locals tree txt (t # ts) = tree_locals tree txt t @ list_locals tree txt ts"

text \<open>A loop over siblings in which each round adds what \<open>f\<close> says of its tree.\<close>

lemma each_sibling_adds:
  assumes "\<And>t index n. t \<in> set ts \<Longrightarrow> \<exists>m. body (tree_id t) (index, n) = Some (Inr (index @ f t, m))"
  shows "flat_list tree p ts \<Longrightarrow> \<exists>m. each_sibling tree body (head_id ts) (index, n) = Some (Inr (index @ concat (map f ts), m :: nat))"
  using assms
proof (induction ts arbitrary: index n)
  case Nil
  then show ?case by (subst each_sibling.simps) simp
next
  case (Cons t ts)
  obtain m where m: "body (tree_id t) (index, n) = Some (Inr (index @ f t, m))" using Cons.prems(2) [of t index n] by auto
  obtain m' where "each_sibling tree body (head_id ts) (index @ f t, m) = Some (Inr ((index @ f t) @ concat (map f ts), m'))"
    using Cons.IH [of "index @ f t" m] Cons.prems by auto
  then show ?case using m Cons.prems(1) flat_tree_not_null [of tree p t] by (subst each_sibling.simps) simp
qed

lemma compact_add_local:
  "i \<noteq> no_node \<Longrightarrow> i = tree_id t \<Longrightarrow> dyn_scope_compact_add tree txt index i start stop = index @ local_name tree txt start stop t"
  by (auto simp: dyn_scope_compact_add_def dyn_scope_add_text_def local_name_def tree_kind_def not_le)

lemma compact_add_first:
  "flat_list tree p ts \<Longrightarrow> dyn_scope_compact_add tree txt index (head_id ts) start stop = index @ first_local tree txt start stop ts"
proof (cases ts)
  case (Cons t us)
  moreover assume "flat_list tree p ts"
  ultimately show ?thesis using flat_tree_not_null [of tree p t] compact_add_local [of "tree_id t" t] by (simp add: first_local_def)
qed (simp add: dyn_scope_compact_add_def first_local_def)

lemma skip_const_under:
  "flat_tree tree p t \<Longrightarrow> skip_const tree (tree_id t) = Some (case under_const tree t of None \<Rightarrow> no_node | Some v \<Rightarrow> tree_id v) \<and>
     (\<forall>v. under_const tree t = Some v \<longrightarrow> (\<exists>q. flat_tree tree q v))"
proof (induction t arbitrary: p)
  case (STree i ts)
  have nn: "i \<noteq> no_node" using flat_tree_not_null [OF STree.prems] by simp
  show ?case
  proof (cases "en_kind (node_at tree i) = SRC_CONST")
    case False
    then show ?thesis using STree.prems nn by (subst skip_const.simps) auto
  next
    case True
    show ?thesis
    proof (cases ts)
      case Nil
      then have "skip_const tree (en_first (node_at tree i)) = Some no_node" using STree.prems by (subst skip_const.simps) simp
      then show ?thesis using True Nil nn by (subst skip_const.simps) simp
    next
      case (Cons u us)
      then show ?thesis using STree.IH [of u i] STree.prems True nn by (subst skip_const.simps) simp
    qed
  qed
qed

lemma last_pattern_last:
  "flat_list tree p ts \<Longrightarrow> ts \<noteq> [] \<Longrightarrow> \<exists>m. last_pattern (\<lambda>_. True) tree (head_id ts) n = Some (Inr (tree_id (last ts), m))"
proof (induction ts arbitrary: n)
  case (Cons t ts)
  have t: "tree_id t \<noteq> no_node" "en_next (node_at tree (tree_id t)) = head_id ts" using Cons.prems flat_tree_not_null [of tree p t] by auto
  show ?case
  proof (cases ts)
    case Nil
    then show ?thesis using t by (subst last_pattern.simps) simp
  next
    case (Cons u us)
    then have "head_id ts \<noteq> no_node" using Cons.prems head_id_cases [of tree p ts] by simp
    then show ?thesis using Cons Cons.IH [of "n + 1"] Cons.prems t by (subst last_pattern.simps) simp
  qed
qed simp

lemma collect_child_locals:
  assumes "flat_tree tree p c"
  shows "\<exists>m. collect_child (\<lambda>_. True) tree txt scope start stop (tree_id c) (index, n) = Some (Inr (index @ child_locals tree txt scope start stop c, m))"
proof -
  note c = flat_tree_unfold [OF assms] flat_tree_not_null [OF assms]
  let ?k = "tree_kind tree c"
  consider (block) "scope = SRC_BLOCK" | (fn) "scope = SRC_FN" | (loop) "scope = SRC_FOR" | (arm) "scope \<notin> {SRC_BLOCK, SRC_FN, SRC_FOR}" by blast
  then show ?thesis
  proof cases
    case block
    show ?thesis
    proof (cases "under_const tree c")
      case None
      then show ?thesis using block skip_const_under [OF assms] by (simp add: collect_child_def child_locals_def)
    next
      case (Some v)
      then obtain q where v: "flat_tree tree q v" using skip_const_under [OF assms] by blast
      show ?thesis
        using block Some skip_const_under [OF assms] flat_tree_not_null [OF v] flat_tree_unfold(2) [OF v] compact_add_first [OF flat_tree_unfold(3) [OF v]]
        by (simp add: collect_child_def child_locals_def tree_kind_def)
    qed
  next
    case fn
    have "\<exists>m. each_sibling tree (\<lambda>name (index, n). if \<not> True then Some (Inl ()) else Some (Inr (dyn_scope_compact_add tree txt index name start stop, n + 1)))
        (head_id (kids c)) (index, n + 1) = Some (Inr (index @ concat (map (local_name tree txt start stop) (kids c)), m))"
    proof (rule each_sibling_adds [OF _ c(3)])
      fix t index n
      assume "t \<in> set (kids c)"
      then have "tree_id t \<noteq> no_node" using flat_tree_not_null [OF flat_list_ids [OF c(3)]] by blast
      then show "\<exists>m. (case (index, n) of (index, n) \<Rightarrow> if \<not> True then Some (Inl ()) else Some (Inr (dyn_scope_compact_add tree txt index (tree_id t) start stop, n + 1))) = Some (Inr (index @ local_name tree txt start stop t, m))"
        using compact_add_local [of "tree_id t" t] by simp
    qed
    then show ?thesis using fn c(2) by (auto simp: collect_child_def child_locals_def tree_kind_def kind_defs)
  next
    case loop
    then show ?thesis using c(2) compact_add_first [OF c(3)] by (auto simp: collect_child_def child_locals_def tree_kind_def kind_defs)
  next
    case arm
    show ?thesis
    proof (cases "?k = SRC_TYPE_PATTERN")
      case False
      then show ?thesis using arm c(4) compact_add_local [of "tree_id c" c] by (simp add: collect_child_def child_locals_def tree_kind_def)
    next
      case pattern: True
      show ?thesis
      proof (cases "kids c = []")
        case True
        have "last_pattern (\<lambda>_. True) tree no_node (n + 1) = Some (Inr (no_node, n + 1))" by (subst last_pattern.simps) simp
        then show ?thesis using True pattern arm c(2) by (simp add: collect_child_def child_locals_def tree_kind_def dyn_scope_compact_add_def)
      next
        case False
        obtain m where m: "last_pattern (\<lambda>_. True) tree (head_id (kids c)) (n + 1) = Some (Inr (tree_id (last (kids c)), m))"
          using last_pattern_last [OF c(3) False] by blast
        have "tree_id (last (kids c)) \<noteq> no_node" using flat_tree_not_null [OF flat_list_ids [OF c(3) last_in_set [OF False]]] .
        then show ?thesis using False m pattern arm c(2) compact_add_local [of "tree_id (last (kids c))" "last (kids c)"]
          by (simp add: collect_child_def child_locals_def tree_kind_def)
      qed
    qed
  qed
qed

lemma scope_body_find:
  "flat_list tree p ts \<Longrightarrow> \<exists>m. scope_body (\<lambda>_. True) tree (head_id ts) n =
    Some (case find (\<lambda>c. tree_kind tree c = SRC_BLOCK) ts of None \<Rightarrow> Inr m | Some b \<Rightarrow> Inl (Some (tree_id b, m)))"
proof (induction ts arbitrary: n)
  case Nil
  then show ?case unfolding scope_body_def by (subst each_sibling.simps) simp
next
  case (Cons t ts)
  obtain m where "scope_body (\<lambda>_. True) tree (head_id ts) (n + 1) =
    Some (case find (\<lambda>c. tree_kind tree c = SRC_BLOCK) ts of None \<Rightarrow> Inr m | Some b \<Rightarrow> Inl (Some (tree_id b, m)))" using Cons by fastforce
  then show ?case using Cons.prems flat_tree_not_null [of tree p t]
    unfolding scope_body_def by (subst each_sibling.simps) (auto simp: tree_kind_def)
qed

lemma collect_locals:
  assumes "flat_tree tree p t"
  shows "\<exists>m. dyn_scope_compact_collect (\<lambda>_. True) tree txt (tree_id t) (index, n) = Some (Inr (index @ node_locals tree txt t, m))"
proof -
  note t = flat_tree_unfold [OF assms]
  have each: "\<exists>m. each_sibling tree (collect_child (\<lambda>_. True) tree txt kind start stop) (head_id (kids t)) (index, n) =
      Some (Inr (index @ concat (map (child_locals tree txt kind start stop) (kids t)), m))" for kind start stop n
    using collect_child_locals [OF flat_list_ids [OF t(3)]] by (intro each_sibling_adds [OF _ t(3)]) blast
  let ?k = "tree_kind tree t"
  consider "?k = SRC_BLOCK \<or> ?k = SRC_FN" | "?k = SRC_FOR \<or> ?k = SRC_CASE_ARM" "?k \<noteq> SRC_BLOCK" "?k \<noteq> SRC_FN" | "?k \<notin> {SRC_BLOCK, SRC_FN, SRC_FOR, SRC_CASE_ARM}" by blast
  then show ?thesis
  proof cases
    case 1
    then have k: "?k \<noteq> SRC_FOR" "?k \<noteq> SRC_CASE_ARM" by (auto simp: kind_defs)
    have "dyn_scope_compact_collect (\<lambda>_. True) tree txt (tree_id t) (index, n) =
        each_sibling tree (collect_child (\<lambda>_. True) tree txt ?k (en_start (node_at tree (tree_id t))) (en_end (node_at tree (tree_id t)))) (head_id (kids t)) (index, n)"
      using 1 k t(2) by (auto simp: dyn_scope_compact_collect_def tree_kind_def Let_def)
    then show ?thesis using each 1 by (simp add: node_locals_def Let_def)
  next
    case 2
    obtain m where m: "scope_body (\<lambda>_. True) tree (head_id (kids t)) n =
      Some (case find (\<lambda>c. tree_kind tree c = SRC_BLOCK) (kids t) of None \<Rightarrow> Inr m | Some b \<Rightarrow> Inl (Some (tree_id b, m)))"
      using scope_body_find [OF t(3)] by blast
    show ?thesis
    proof (cases "find (\<lambda>c. tree_kind tree c = SRC_BLOCK) (kids t)")
      case None
      then show ?thesis using 2 m t(2) by (auto simp: dyn_scope_compact_collect_def node_locals_def tree_kind_def Let_def)
    next
      case (Some b)
      have "dyn_scope_compact_collect (\<lambda>_. True) tree txt (tree_id t) (index, n) =
          each_sibling tree (collect_child (\<lambda>_. True) tree txt ?k (en_start (node_at tree (tree_id b))) (en_end (node_at tree (tree_id b)))) (head_id (kids t)) (index, m)"
        using 2 m Some t(2) by (auto simp: dyn_scope_compact_collect_def tree_kind_def Let_def)
      then show ?thesis using each Some 2 by (simp add: node_locals_def Let_def)
    qed
  next
    case 3
    then show ?thesis by (simp add: dyn_scope_compact_collect_def node_locals_def tree_kind_def Let_def)
  qed
qed

lemma scope_walk_locals:
  "flat_tree tree p t \<Longrightarrow> \<exists>m. scope_walk (\<lambda>_. True) tree txt (tree_id t) (index, n) =
     Option.bind (scope_climb tree (tree_id t)) (\<lambda>k. scope_walk (\<lambda>_. True) tree txt k (index @ tree_locals tree txt t, m))"
  "flat_list tree p ts \<Longrightarrow> p < st_count tree \<Longrightarrow> ts \<noteq> [] \<Longrightarrow> \<exists>m. scope_walk (\<lambda>_. True) tree txt (head_id ts) (index, n) =
     Option.bind (scope_climb tree p) (\<lambda>k. scope_walk (\<lambda>_. True) tree txt k (index @ list_locals tree txt ts, m))"
proof (induction tree p t and tree p ts arbitrary: index n and index n rule: flat_tree_flat_list.induct)
  case (1 tree p i ts)
  obtain m where m: "dyn_scope_compact_collect (\<lambda>_. True) tree txt i (index, n + 1) = Some (Inr (index @ node_locals tree txt (STree i ts), m))"
    using collect_locals [OF 1(2)] by force
  have nn: "i \<noteq> no_node" using flat_tree_not_null [OF 1(2)] by simp
  show ?case
  proof (cases "en_kind (node_at tree i) \<ge> SRC_FILE \<and> ts \<noteq> []")
    case True
    then have "scope_walk (\<lambda>_. True) tree txt i (index, n) = scope_walk (\<lambda>_. True) tree txt (head_id ts) (index @ node_locals tree txt (STree i ts), m)"
      using m nn 1(2) head_id_cases [of tree i ts] by (subst scope_walk.simps) simp
    then show ?thesis using 1(1) [of "index @ node_locals tree txt (STree i ts)" m] 1(2) True by simp
  next
    case False
    then have l: "tree_locals tree txt (STree i ts) = node_locals tree txt (STree i ts)" by auto
    show ?thesis unfolding l using False m nn 1(2) head_id_cases [of tree i ts] by (subst scope_walk.simps) auto
  qed
next
  case (3 tree p t ts)
  have f: "flat_tree tree p t" "en_next (node_at tree (tree_id t)) = head_id ts" "flat_list tree p ts" using 3(3) by simp_all
  obtain m where m: "scope_walk (\<lambda>_. True) tree txt (tree_id t) (index, n) =
      Option.bind (scope_climb tree (tree_id t)) (\<lambda>k. scope_walk (\<lambda>_. True) tree txt k (index @ tree_locals tree txt t, m))" using 3(1) [OF f(1)] by blast
  have cl: "scope_climb tree (tree_id t) = (if ts = [] then scope_climb tree p else Some (head_id ts))"
    using f flat_tree_not_null [OF f(1)] flat_tree_unfold(1) [OF f(1)] head_id_cases [OF f(3)] by (subst scope_climb.simps) auto
  show ?case
  proof (cases "ts = []")
    case True
    then show ?thesis using m cl by auto
  next
    case False
    then show ?thesis using m cl 3(2) [OF f(3) 3(4) False, of "index @ tree_locals tree txt t" m] by simp
  qed
qed simp

lemma locals_prefix_end: "list_all (\<lambda>b. sb_prefix_end b = sb_end b) (tree_locals tree txt t)"
    "list_all (\<lambda>b. sb_prefix_end b = sb_end b) (list_locals tree txt ts)"
proof (induction tree "txt" t and tree "txt" ts rule: tree_locals_list_locals.induct)
  case (1 tree src i ts)
  let ?P = "list_all (\<lambda>b. sb_prefix_end b = sb_end b)"
  have l: "?P (local_name tree src start stop t)" for start stop t by (simp add: local_name_def)
  have f: "?P (first_local tree src start stop ts)" for start stop ts by (cases ts) (simp_all add: first_local_def l)
  have m: "?P (concat (map g ts))" if "\<And>t. ?P (g t)" for g and ts :: "stree list" using that by (induction ts) simp_all
  have c: "?P (child_locals tree src kind start stop t)" for kind start stop t
    by (simp add: child_locals_def l f m split: option.split)
  have "?P (node_locals tree src t)" for t by (simp add: node_locals_def Let_def m c split: option.split)
  then show ?case using 1 by simp
qed simp_all

text \<open>C11: the index of local names is exact. For every syntax tree, when no work limit stops it, \<open>dyn_scope_build\<close> returns an
  index, and \<open>dyn_scope_local_at\<close> on it says of a name and a byte whether the byte lies in the visibility interval of some local
  with that name: a variable from the end of its declaration to the end of its block, a parameter in its function, the variable
  of a loop or the names of a case arm in the body. \<open>qsort\<close> may be any sorting function.\<close>

theorem scope_lookup_exact:
  assumes "sorter qsort" and "flat tree t"
  shows "\<exists>ix. dyn_scope_build qsort (\<lambda>_. True) (Some tree) txt = Some (Some ix) \<and>
    (\<forall>byte name. dyn_scope_local_at ix byte name \<longleftrightarrow>
      (\<exists>b\<in>set (tree_locals tree txt t). sb_name b = name \<and> sb_start b \<le> byte \<and> byte < sb_end b))"
proof -
  have t: "flat_tree tree no_node t" "tree_id t = st_root tree" "en_next (node_at tree (st_root tree)) = no_node" using assms(2) by (simp_all add: flat_def)
  have stop: "scope_climb tree no_node = Some no_node" by (subst scope_climb.simps) simp
  have "scope_climb tree (tree_id t) = Some no_node"
    using flat_tree_unfold(1) [OF t(1)] t(2,3) stop by (subst scope_climb.simps) simp
  moreover have "scope_walk (\<lambda>_. True) tree txt no_node s = Some (Inr s)" for s by (subst scope_walk.simps) simp
  ultimately obtain m where "scope_walk (\<lambda>_. True) tree txt (st_root tree) ([], 0) = Some (Inr (tree_locals tree txt t, m))"
    using scope_walk_locals(1) [OF t(1), of "txt" "[]" 0] t(2) by auto
  then have "dyn_scope_build qsort (\<lambda>_. True) (Some tree) txt = Some (Some (dyn_scope_finish qsort (tree_locals tree txt t)))"
    by (simp add: dyn_scope_build_def dyn_scope_compact_build_def)
  then show ?thesis using local_at_exact [OF assms(1) locals_prefix_end(1)] by blast
qed

definition sample_source :: bytes where
  "sample_source = cstr ''fn f(a) { x := 1; use(x, a) }''"

theorem scope_lookup_exact_witness:
  "\<exists>ix. dyn_scope_build insertion_sort (\<lambda>_. True) (Some sample_tree) sample_source = Some (Some ix) \<and>
    dyn_scope_local_at ix 22 (cstr ''x'') \<and> \<not> dyn_scope_local_at ix 12 (cstr ''x'') \<and> dyn_scope_local_at ix 25 (cstr ''a'')"
proof -
  have l: "tree_locals sample_tree sample_source sample_stree =
      [\<lparr>sb_name = cstr ''a'', sb_start = 0, sb_end = 29, sb_prefix_end = 29\<rparr>, \<lparr>sb_name = cstr ''x'', sb_start = 16, sb_end = 29, sb_prefix_end = 29\<rparr>]"
    by code_simp
  show ?thesis using scope_lookup_exact [OF insertion.sorter_axioms sample_flat(1), of sample_source] unfolding l by fastforce
qed

end
