(* ===== verification/Dyn_Ast.thy ===== *)
theory Dyn_Ast
  imports Dyn_Prelude
begin

text \<open>
  The typed program data of the compiler, \<open>src/src/dyn_ast.h\<close>: the abstract syntax that semantic
  analysis produces and IR lowering reads.

  It is a structure of arrays: an expression, statement, type or local is an index into the
  array of its kind. Arrays with a count are lists. Types are 32-bit codes split into ranges, as in
  the header; a \<open>double\<close> is its 64 bits. References into syntax trees, name
  indexes, array capacities and the state of a lowering in progress are left out of the records.
\<close>

subsection \<open>Identifiers, spans and types\<close>

type_synonym expr_id = u32

abbreviation DYN_NO_EXPR :: expr_id where "DYN_NO_EXPR \<equiv> - 1"

record span =
  start_byte :: u32
  end_byte :: u32

type_synonym dyn_type = u32

abbreviation DYN_TYPE_INFER :: dyn_type where "DYN_TYPE_INFER \<equiv> 0"
abbreviation DYN_TYPE_ERROR :: dyn_type where "DYN_TYPE_ERROR \<equiv> 1"
abbreviation DYN_TYPE_VOID :: dyn_type where "DYN_TYPE_VOID \<equiv> 2"
abbreviation DYN_TYPE_BOOL :: dyn_type where "DYN_TYPE_BOOL \<equiv> 3"
abbreviation DYN_TYPE_I8 :: dyn_type where "DYN_TYPE_I8 \<equiv> 4"
abbreviation DYN_TYPE_I16 :: dyn_type where "DYN_TYPE_I16 \<equiv> 5"
abbreviation DYN_TYPE_I32 :: dyn_type where "DYN_TYPE_I32 \<equiv> 6"
abbreviation DYN_TYPE_I64 :: dyn_type where "DYN_TYPE_I64 \<equiv> 7"
abbreviation DYN_TYPE_U8 :: dyn_type where "DYN_TYPE_U8 \<equiv> 8"
abbreviation DYN_TYPE_U16 :: dyn_type where "DYN_TYPE_U16 \<equiv> 9"
abbreviation DYN_TYPE_U32 :: dyn_type where "DYN_TYPE_U32 \<equiv> 10"
abbreviation DYN_TYPE_U64 :: dyn_type where "DYN_TYPE_U64 \<equiv> 11"
abbreviation DYN_TYPE_ISIZE :: dyn_type where "DYN_TYPE_ISIZE \<equiv> 12"
abbreviation DYN_TYPE_USIZE :: dyn_type where "DYN_TYPE_USIZE \<equiv> 13"
abbreviation DYN_TYPE_F32 :: dyn_type where "DYN_TYPE_F32 \<equiv> 14"
abbreviation DYN_TYPE_F64 :: dyn_type where "DYN_TYPE_F64 \<equiv> 15"
abbreviation DYN_TYPE_STRING :: dyn_type where "DYN_TYPE_STRING \<equiv> 16"
abbreviation DYN_TYPE_RAWPTR :: dyn_type where "DYN_TYPE_RAWPTR \<equiv> 17"
abbreviation DYN_TYPE_ANY :: dyn_type where "DYN_TYPE_ANY \<equiv> 18"
abbreviation DYN_TYPE_STRUCT_BASE :: dyn_type where "DYN_TYPE_STRUCT_BASE \<equiv> 256"
abbreviation DYN_TYPE_ENUM_BASE :: dyn_type where "DYN_TYPE_ENUM_BASE \<equiv> 32768"
abbreviation DYN_TYPE_POINTER_BASE :: dyn_type where "DYN_TYPE_POINTER_BASE \<equiv> 65536"
abbreviation DYN_TYPE_ARRAY_BASE :: dyn_type where "DYN_TYPE_ARRAY_BASE \<equiv> 131072"
abbreviation DYN_TYPE_SLICE_BASE :: dyn_type where "DYN_TYPE_SLICE_BASE \<equiv> 196608"
abbreviation DYN_TYPE_FN_BASE :: dyn_type where "DYN_TYPE_FN_BASE \<equiv> 262144"
abbreviation DYN_TYPE_DISTINCT_BASE :: dyn_type where "DYN_TYPE_DISTINCT_BASE \<equiv> 327680"
abbreviation DYN_TYPE_PARAM_BASE :: dyn_type where "DYN_TYPE_PARAM_BASE \<equiv> 393216"

definition dyn_type_is_struct :: "dyn_type \<Rightarrow> bool" where
  "dyn_type_is_struct t \<longleftrightarrow> t \<ge> DYN_TYPE_STRUCT_BASE \<and> t < DYN_TYPE_ENUM_BASE"

definition dyn_type_is_enum :: "dyn_type \<Rightarrow> bool" where
  "dyn_type_is_enum t \<longleftrightarrow> t \<ge> DYN_TYPE_ENUM_BASE \<and> t < DYN_TYPE_POINTER_BASE"

definition dyn_type_is_pointer :: "dyn_type \<Rightarrow> bool" where
  "dyn_type_is_pointer t \<longleftrightarrow> t \<ge> DYN_TYPE_POINTER_BASE \<and> t < DYN_TYPE_ARRAY_BASE"

definition dyn_type_is_array :: "dyn_type \<Rightarrow> bool" where
  "dyn_type_is_array t \<longleftrightarrow> t \<ge> DYN_TYPE_ARRAY_BASE \<and> t < DYN_TYPE_SLICE_BASE"

definition dyn_type_is_slice :: "dyn_type \<Rightarrow> bool" where
  "dyn_type_is_slice t \<longleftrightarrow> t \<ge> DYN_TYPE_SLICE_BASE \<and> t < DYN_TYPE_FN_BASE"

definition dyn_type_is_function :: "dyn_type \<Rightarrow> bool" where
  "dyn_type_is_function t \<longleftrightarrow> t \<ge> DYN_TYPE_FN_BASE \<and> t < DYN_TYPE_DISTINCT_BASE"

definition dyn_type_is_distinct :: "dyn_type \<Rightarrow> bool" where
  "dyn_type_is_distinct t \<longleftrightarrow> t \<ge> DYN_TYPE_DISTINCT_BASE \<and> t < DYN_TYPE_PARAM_BASE"

definition dyn_type_is_param :: "dyn_type \<Rightarrow> bool" where
  "dyn_type_is_param t \<longleftrightarrow> t \<ge> DYN_TYPE_PARAM_BASE \<and> t < DYN_TYPE_PARAM_BASE + 8"

subsection \<open>Kinds and operators\<close>

datatype expr_kind =
    DYN_EXPR_INT | DYN_EXPR_FLOAT | DYN_EXPR_BOOL | DYN_EXPR_CHAR | DYN_EXPR_STRING
  | DYN_EXPR_NAME | DYN_EXPR_UNARY | DYN_EXPR_BINARY | DYN_EXPR_CONVERT | DYN_EXPR_STRUCT
  | DYN_EXPR_FIELD | DYN_EXPR_CALL | DYN_EXPR_NIL | DYN_EXPR_ARRAY | DYN_EXPR_INDEX
  | DYN_EXPR_SLICE | DYN_EXPR_LEN | DYN_EXPR_ENUM | DYN_EXPR_GLOBAL | DYN_EXPR_FUNCTION
  | DYN_EXPR_INDIRECT_CALL | DYN_EXPR_SIZE | DYN_EXPR_ALIGN | DYN_EXPR_TYPEOF | DYN_EXPR_CAST
  | DYN_EXPR_BITCAST | DYN_EXPR_SYSCALL | DYN_EXPR_TYPE | DYN_EXPR_OFFSET

datatype dyn_operator =
    DYN_OP_NONE | DYN_OP_NEG | DYN_OP_NOT | DYN_OP_BIT_NOT | DYN_OP_ADDRESS | DYN_OP_DEREF
  | DYN_OP_ADD | DYN_OP_SUB | DYN_OP_MUL | DYN_OP_DIV | DYN_OP_REM | DYN_OP_EQ | DYN_OP_NE
  | DYN_OP_LT | DYN_OP_LE | DYN_OP_GT | DYN_OP_GE | DYN_OP_LOGICAL_AND | DYN_OP_LOGICAL_OR
  | DYN_OP_BIT_AND | DYN_OP_BIT_OR | DYN_OP_BIT_XOR | DYN_OP_SHL | DYN_OP_SHR

datatype stmt_kind =
    DYN_STMT_INVALID | DYN_STMT_LOCAL | DYN_STMT_ASSIGN | DYN_STMT_RETURN | DYN_STMT_EXPR
  | DYN_STMT_IF | DYN_STMT_FOR | DYN_STMT_BREAK | DYN_STMT_CONTINUE | DYN_STMT_CASE
  | DYN_STMT_DEFER | DYN_STMT_PANIC

subsection \<open>The abstract syntax\<close>

record ast_expr =
  ae_kind :: expr_kind
  ae_type :: dyn_type
  ae_span :: span
  ae_op :: dyn_operator
  ae_left :: expr_id
  ae_right :: expr_id
  ae_integer :: u64
  ae_floating :: u64
  ae_boolean :: bool
  ae_item_start :: u32
  ae_item_count :: u32
  ae_wrap :: bool

record ast_item =
  ai_name :: span
  ai_expression :: expr_id
  ai_field_index :: u32

record ast_field =
  af_name :: span
  af_type :: dyn_type
  af_default_expression :: expr_id
  af_offset :: u64

record ast_struct =
  as_span :: span
  as_name :: span
  as_packed :: bool
  as_is_public :: bool
  as_module_owner :: u64
  as_field_start :: u32
  as_field_count :: u32
  as_size :: u64
  as_alignment :: u64

record ast_variant =
  av_name :: span
  av_payload_type :: dyn_type
  av_tag :: u64

record ast_enum =
  an_span :: span
  an_name :: span
  an_tag_type :: dyn_type
  an_variant_start :: u32
  an_variant_count :: u32
  an_size :: u64
  an_alignment :: u64
  an_payload_size :: u64
  an_payload_alignment :: u64
  an_has_payload :: bool
  an_is_public :: bool
  an_module_owner :: u64

record ast_param =
  ap_name :: span
  ap_type :: dyn_type
  ap_local_id :: u32

record ast_global =
  ag_name :: span
  ag_link_name :: span
  ag_type :: dyn_type
  ag_initializer :: expr_id
  ag_is_const :: bool
  ag_foreign :: bool
  ag_is_public :: bool
  ag_module_owner :: u64

record ast_assert =
  ass_span :: span
  ass_message :: span
  ass_condition :: expr_id

record ast_pointer =
  apt_pointee :: dyn_type
  apt_is_const :: bool

record ast_array =
  aa_element :: dyn_type
  aa_length :: u64

record ast_slice =
  asl_element :: dyn_type
  asl_is_const :: bool

record ast_fn_type =
  aft_return_type :: dyn_type
  aft_param_start :: u32
  aft_param_count :: u32
  aft_variadic :: bool

record ast_alias =
  al_name :: span
  al_target :: dyn_type
  al_distinct :: bool
  al_is_public :: bool
  al_module_owner :: u64

record ast_fn =
  afn_span :: span
  afn_name :: span
  afn_link_name :: span
  afn_variadic_name :: span
  afn_return_type :: dyn_type
  afn_param_start :: u32
  afn_param_count :: u32
  afn_body_start :: u32
  afn_body_count :: u32
  afn_local_start :: u32
  afn_local_count :: u32
  afn_is_main :: bool
  afn_foreign :: bool
  afn_variadic :: bool
  afn_is_public :: bool
  afn_interface_only :: bool
  afn_is_generic :: bool
  afn_is_instance :: bool
  afn_body_pending :: bool
  afn_generic :: u32
  afn_instance :: u32
  afn_module_owner :: u64
  afn_variadic_type :: dyn_type
  afn_variadic_local_id :: u32

record ast_generic_param =
  agp_name :: span
  agp_pattern :: dyn_type
  agp_is_type :: bool

record ast_generic =
  agn_function :: u32
  agn_param_start :: u32
  agn_param_count :: u32
  agn_type_param_count :: u32
  agn_return_pattern :: dyn_type
  agn_type_names :: "span list"

record ast_instance =
  ain_generic :: u32
  ain_function :: u32
  ain_depth :: u32
  ain_args :: "dyn_type list"
  ain_call :: span
  ain_hash :: u64

record ast_stmt =
  ast_kind :: stmt_kind
  ast_span :: span
  ast_name :: span
  ast_label :: span
  ast_control_label :: span
  ast_declared_type :: dyn_type
  ast_expression :: expr_id
  ast_target :: expr_id
  ast_assignment_op :: dyn_operator
  ast_local_id :: u32
  ast_body_start :: u32
  ast_body_count :: u32
  ast_else_start :: u32
  ast_else_count :: u32
  ast_loop_depth :: u32
  ast_loop_id :: u32
  ast_target_loop_id :: u32
  ast_case_arm_start :: u32
  ast_case_arm_count :: u32
  ast_defer_block :: bool
  ast_for_pointer :: bool
  ast_for_const :: bool
  ast_is_const :: bool
  ast_for_range :: bool
  ast_for_inclusive :: bool
  ast_for_reverse :: bool

record ast_local =
  alo_name :: span
  alo_type :: dyn_type
  alo_active :: bool
  alo_is_const :: bool
  alo_owner_function :: u32

record ast_pattern =
  apa_span :: span
  apa_first :: expr_id
  apa_last :: expr_id
  apa_type :: dyn_type
  apa_first_value :: u64
  apa_last_value :: u64
  apa_variant :: u32
  apa_range :: bool
  apa_inclusive :: bool
  apa_is_enum :: bool
  apa_is_signed :: bool
  apa_is_type :: bool

record ast_case_arm =
  ac_span :: span
  ac_binding :: span
  ac_pattern_start :: u32
  ac_pattern_count :: u32
  ac_body_start :: u32
  ac_body_count :: u32
  ac_local_id :: u32
  ac_wildcard :: bool
  ac_pointer_binding :: bool

record ast_program =
  a_expressions :: "ast_expr list"
  a_items :: "ast_item list"
  a_fields :: "ast_field list"
  a_structs :: "ast_struct list"
  a_enums :: "ast_enum list"
  a_variants :: "ast_variant list"
  a_params :: "ast_param list"
  a_functions :: "ast_fn list"
  a_globals :: "ast_global list"
  a_global_init_order :: "u32 list"
  a_pointers :: "ast_pointer list"
  a_arrays :: "ast_array list"
  a_slices :: "ast_slice list"
  a_fn_types :: "ast_fn_type list"
  a_fn_type_params :: "dyn_type list"
  a_aliases :: "ast_alias list"
  a_strings :: "bytes list"
  a_statements :: "ast_stmt list"
  a_patterns :: "ast_pattern list"
  a_case_arms :: "ast_case_arm list"
  a_children :: "u32 list"
  a_locals :: "ast_local list"
  a_asserts :: "ast_assert list"
  a_generics :: "ast_generic list"
  a_generic_params :: "ast_generic_param list"
  a_instances :: "ast_instance list"
  a_type_capacity_exceeded :: bool

end
