(* ===== verification/Name_Index.thy ===== *)
theory Name_Index
  imports Source_Map Dyn_Ast
begin

text \<open>
  Name comparison and the hash indexes of declarations: \<open>src/src/ast.c\<close>, lines 17-111
  (\<open>dyn_span_text_equal\<close>, \<open>dyn_module_name_equal\<close>, \<open>dyn_name_index_find\<close>) and \<open>src/src/sema.c\<close>,
  lines 230-326 (the indexes of functions and globals, built once, and of locals, built lazily).

  All three indexes are chained hash tables: \<open>buckets\<close> holds the number of an entry plus one, 0 for
  an empty chain, and \<open>next\<close> links the entries. Counts and entry numbers are naturals (the code
  keeps them in 32 bits); allocation succeeds. The locale \<open>named\<close> is what the tables rely on: equal
  names have equal hashes.
\<close>

unbundle bit_operations_syntax

subsection \<open>Names\<close>

definition span_ok :: "source \<Rightarrow> span \<Rightarrow> bool" where
  "span_ok s n \<longleftrightarrow> start_byte n \<le> end_byte n \<and> unat (end_byte n) \<le> length (src_text s)"

definition span_bytes_of :: "source \<Rightarrow> span \<Rightarrow> bytes" where
  "span_bytes_of s n = map ((!) (src_text s)) [unat (start_byte n)..<unat (end_byte n)]"

definition dyn_span_text_equal :: "span \<Rightarrow> span \<Rightarrow> source \<Rightarrow> bool" where
  "dyn_span_text_equal a b s \<longleftrightarrow>
     end_byte a - start_byte a = end_byte b - start_byte b \<and>
     list_all (\<lambda>i. src_text s ! (unat (start_byte a) + i) = src_text s ! (unat (start_byte b) + i))
       [0..<unat (end_byte a - start_byte a)]"

function module_source_path_loop :: "source \<Rightarrow> nat \<Rightarrow> nat \<Rightarrow> nat \<Rightarrow> string" where
  "module_source_path_loop s offset first e =
     (if first < e then
        let middle = first + (e - first) div 2; m = src_maps s ! middle in
        if offset < map_start m then module_source_path_loop s offset first middle
        else if offset > map_end m then module_source_path_loop s offset (middle + 1) e
        else map_path m
      else src_path s)"
  by pat_completeness auto
termination by (relation "measure (\<lambda>(s, offset, first, e). e - first)") auto

declare module_source_path_loop.simps [simp del]

definition module_source_path :: "source \<Rightarrow> nat \<Rightarrow> string" where
  "module_source_path s offset = module_source_path_loop s offset 0 (length (src_maps s))"

text \<open>The part of a path before its last slash (\<open>strrchr\<close>), empty without one.\<close>

definition directory :: "string \<Rightarrow> string" where
  "directory p = (if CHR ''/'' \<in> set p then rev (tl (dropWhile (\<lambda>c. c \<noteq> CHR ''/'') (rev p))) else [])"

definition dyn_module_name_equal :: "span \<Rightarrow> span \<Rightarrow> source \<Rightarrow> bool" where
  "dyn_module_name_equal name declaration s =
     (if \<not> dyn_span_text_equal name declaration s then False
      else if src_maps s \<noteq> [] \<and> unat (start_byte declaration) < map_start (src_maps s ! 0) then True
      else if end_byte name - start_byte name \<ge> 5 \<and>
        map (\<lambda>i. src_text s ! (unat (start_byte name) + i)) [0..<5] = map (\<lambda>c. of_nat (of_char c)) ''dyn_m'' then True
      else
        let a = module_source_path s (unat (start_byte name));
            b = module_source_path s (unat (start_byte declaration))
        in if a = b then True else directory a = directory b)"

definition fnv_step :: "u64 \<Rightarrow> u8 \<Rightarrow> u64" where
  "fnv_step h b = (h XOR ucast b) * 1099511628211"

definition ast_name_hash :: "span \<Rightarrow> source \<Rightarrow> u64" where
  "ast_name_hash n s = fold (\<lambda>i h. fnv_step h (src_text s ! i))
     [unat (start_byte n)..<unat (end_byte n)] 14695981039346656037"

definition sema_name_hash :: "span \<Rightarrow> source \<Rightarrow> u64" where
  "sema_name_hash n s = fold (\<lambda>i h. fnv_step h (src_text s ! i))
     [unat (start_byte n)..<unat (end_byte n)] 14695981039346656037"

subsection \<open>Chained tables\<close>

record name_index =
  ni_buckets :: "nat list"
  ni_next :: "nat list"
  ni_count :: nat
  ni_capacity :: nat

definition no_index :: name_index where
  "no_index = \<lparr>ni_buckets = [], ni_next = [], ni_count = 0, ni_capacity = 0\<rparr>"

definition bucket_of :: "u64 \<Rightarrow> nat \<Rightarrow> nat" where
  "bucket_of h capacity = unat (h AND of_nat (capacity - 1))"

text \<open>Linking entry \<open>i\<close> in front of the chain of its bucket.\<close>

definition index_link :: "(nat \<Rightarrow> u64) \<Rightarrow> nat \<Rightarrow> name_index \<Rightarrow> name_index" where
  "index_link hash i ix =
     (let b = bucket_of (hash i) (ni_capacity ix)
      in ix\<lparr>ni_next := (ni_next ix)[i := ni_buckets ix ! b], ni_buckets := (ni_buckets ix)[b := i + 1]\<rparr>)"

text \<open>A walk along a chain: to the first match, or to the least one.\<close>

partial_function (option) chain_first :: "(nat \<Rightarrow> bool) \<Rightarrow> nat list \<Rightarrow> nat \<Rightarrow> nat option option" where
  "chain_first match nxt entry =
     (if entry = 0 then Some None
      else if match (entry - 1) then Some (Some (entry - 1))
      else chain_first match nxt (nxt ! (entry - 1)))"

partial_function (option) chain_least ::
  "(nat \<Rightarrow> bool) \<Rightarrow> nat list \<Rightarrow> nat \<Rightarrow> nat option \<Rightarrow> nat option option" where
  "chain_least match nxt entry found =
     (if entry = 0 then Some found
      else chain_least match nxt (nxt ! (entry - 1))
        (if match (entry - 1) \<and> (case found of None \<Rightarrow> True | Some f \<Rightarrow> entry - 1 < f)
         then Some (entry - 1) else found))"

text \<open>
  Doubling from 64 until half the capacity holds the entries. (The code's loop starts at 64, so
  the capacity is never 0; the test makes the function total.)
\<close>

function grow_capacity :: "nat \<Rightarrow> nat \<Rightarrow> nat" where
  "grow_capacity capacity count =
     (if capacity \<noteq> 0 \<and> capacity div 2 < count \<and> capacity \<le> (2 ^ 64 - 1) div 2
      then grow_capacity (capacity * 2) count else capacity)"
  by pat_completeness auto
termination by (relation "measure (\<lambda>(capacity, count). 2 ^ 64 - capacity)") auto

declare grow_capacity.simps [simp del]

definition index_reserve :: "nat \<Rightarrow> name_index \<Rightarrow> name_index option" where
  "index_reserve count ix =
     (if count > ni_capacity ix div 2 then
        let capacity = grow_capacity 64 count in
        if capacity div 2 < count \<or> capacity > (2 ^ 64 - 1) div 4 then None
        else Some \<lparr>ni_buckets = replicate capacity 0, ni_next = replicate (capacity div 2) 0,
                   ni_count = 0, ni_capacity = capacity\<rparr>
      else Some ix)"

definition index_sync :: "(nat \<Rightarrow> u64) \<Rightarrow> nat \<Rightarrow> name_index \<Rightarrow> name_index" where
  "index_sync hash count ix = (fold (index_link hash) [ni_count ix..<count] ix)\<lparr>ni_count := count\<rparr>"

definition linear_find :: "(nat \<Rightarrow> bool) \<Rightarrow> nat \<Rightarrow> nat option" where
  "linear_find match count = find match [0..<count]"

text \<open>
  \<open>dyn_name_index_find\<close>: the result (\<open>None\<close> inside is \<open>UINT32_MAX\<close>), the index and the failure flag.
  The outer \<open>None\<close> is a chain that never ends.
\<close>

definition name_matches :: "bool \<Rightarrow> span \<Rightarrow> span \<Rightarrow> source \<Rightarrow> bool" where
  "name_matches module name declaration s =
     (if module then dyn_module_name_equal name declaration s else dyn_span_text_equal name declaration s)"

definition dyn_name_index_find ::
  "name_index \<Rightarrow> span list \<Rightarrow> span \<Rightarrow> source \<Rightarrow> bool \<Rightarrow> bool \<Rightarrow> (nat option \<times> name_index \<times> bool) option" where
  "dyn_name_index_find ix names name s module failed =
     (let count = length names; match = (\<lambda>i. name_matches module name (names ! i) s);
          linear = linear_find match count in
      if count \<ge> 32 \<and> \<not> failed then
        case index_reserve count ix of
          None \<Rightarrow> Some (linear, ix, True)
        | Some ix \<Rightarrow>
            let ix = index_sync (\<lambda>i. ast_name_hash (names ! i) s) count ix in
            map_option (\<lambda>found. (found, ix, False))
              (chain_least match (ni_next ix)
                (ni_buckets ix ! bucket_of (ast_name_hash name s) (ni_capacity ix)) None)
      else Some (linear, ix, failed))"

subsection \<open>The indexes of semantic analysis\<close>

function names_capacity :: "nat \<Rightarrow> nat \<Rightarrow> nat" where
  "names_capacity capacity count =
     (if capacity \<noteq> 0 \<and> capacity < count * 2 then names_capacity (capacity * 2) count else capacity)"
  by pat_completeness auto
termination by (relation "measure (\<lambda>(capacity, count). count * 2 - capacity)") auto

declare names_capacity.simps [simp del]

text \<open>The names of functions and globals are linked from the last to the first.\<close>

definition sema_names_build :: "span list \<Rightarrow> source \<Rightarrow> name_index" where
  "sema_names_build names s =
     (let count = length names; capacity = names_capacity 16 count in
      if count = 0 then no_index
      else fold (index_link (\<lambda>i. sema_name_hash (names ! i) s)) (rev [0..<count])
        \<lparr>ni_buckets = replicate capacity 0, ni_next = replicate count 0, ni_count = count, ni_capacity = capacity\<rparr>)"

definition sema_name_lookup :: "name_index \<Rightarrow> span list \<Rightarrow> span \<Rightarrow> source \<Rightarrow> nat option option" where
  "sema_name_lookup ix names name s =
     (if ni_buckets ix = [] then Some None
      else chain_first (\<lambda>i. dyn_module_name_equal name (names ! i) s) (ni_next ix)
        (ni_buckets ix ! bucket_of (sema_name_hash name s) (ni_capacity ix)))"

text \<open>The locals of the current function, from \<open>first\<close> on, indexed when there are 32 or more.\<close>

definition sema_locals_sync :: "name_index \<Rightarrow> ast_local list \<Rightarrow> source \<Rightarrow> nat \<Rightarrow> nat \<Rightarrow> name_index option" where
  "sema_locals_sync ix locals s first count =
     map_option (index_sync (\<lambda>i. sema_name_hash (alo_name (locals ! (first + i))) s) count) (index_reserve count ix)"

definition local_matches :: "ast_local list \<Rightarrow> span \<Rightarrow> source \<Rightarrow> bool \<Rightarrow> nat \<Rightarrow> bool" where
  "local_matches locals name s active_only i \<longleftrightarrow>
     (\<not> active_only \<or> alo_active (locals ! i)) \<and> dyn_span_text_equal name (alo_name (locals ! i)) s"

definition sema_local_lookup ::
  "name_index \<Rightarrow> ast_local list \<Rightarrow> nat option \<Rightarrow> span \<Rightarrow> source \<Rightarrow> bool \<Rightarrow> (nat option \<times> name_index) option" where
  "sema_local_lookup ix locals local_start name s active_only =
     (case local_start of
        None \<Rightarrow> Some (None, ix)
      | Some first \<Rightarrow>
          let count = length locals - first;
              linear = find (local_matches locals name s active_only) [first..<length locals] in
          if count \<ge> 32 then
            case sema_locals_sync ix locals s first count of
              None \<Rightarrow> Some (linear, ix)
            | Some ix \<Rightarrow>
                map_option (\<lambda>found. (map_option ((+) first) found, ix))
                  (chain_least (\<lambda>i. local_matches locals name s active_only (first + i)) (ni_next ix)
                    (ni_buckets ix ! bucket_of (sema_name_hash name s) (ni_capacity ix)) None)
          else Some (linear, ix))"

subsection \<open>Chains\<close>

inductive chain :: "nat list \<Rightarrow> nat \<Rightarrow> nat list \<Rightarrow> bool" for nxt where
  chain_nil: "chain nxt 0 []"
| chain_cons: "i < length nxt \<Longrightarrow> chain nxt (nxt ! i) xs \<Longrightarrow> chain nxt (Suc i) (i # xs)"

lemma chain_update:
  assumes "chain nxt e xs" and "j \<notin> set xs"
  shows "chain (nxt[j := v]) e xs"
  using assms by (induction rule: chain.induct) (auto intro: chain.intros)

lemma chain_first_find: "chain nxt e xs \<Longrightarrow> chain_first match nxt e = Some (find match xs)"
  by (induction rule: chain.induct) (subst chain_first.simps, simp)+

definition keep_least :: "nat \<Rightarrow> nat option \<Rightarrow> nat option" where
  "keep_least i found = (case found of None \<Rightarrow> Some i | Some f \<Rightarrow> if i < f then Some i else found)"

lemma chain_least_fold: "chain nxt e xs \<Longrightarrow> chain_least match nxt e found = Some (fold keep_least (filter match xs) found)"
  by (induction arbitrary: found rule: chain.induct)
    (subst chain_least.simps, simp add: keep_least_def split: option.split)+

lemma fold_keep_least:
  "fold keep_least xs (Some f) = Some (Min (insert f (set xs)))"
proof (induction xs arbitrary: f)
  case (Cons x xs)
  have "keep_least x (Some f) = Some (min x f)" by (auto simp: keep_least_def min_def)
  then show ?case using Cons [of "min x f"]
    by (cases "set xs = {}") (simp_all add: min.assoc min.commute min.left_commute)
qed simp

lemma linear_find_least:
  "linear_find match n = (if \<exists>i < n. match i then Some (Min {i. i < n \<and> match i}) else None)"
proof (cases "\<exists>i < n. match i")
  case True
  let ?S = "{i. i < n \<and> match i}"
  have fin: "finite ?S" "?S \<noteq> {}" using True by auto
  note m = Min_in [OF fin] Min_le [OF fin(1)]
  have "linear_find match n = Some (Min ?S)"
    unfolding linear_find_def find_Some_iff
  proof (intro exI [of _ "Min ?S"] conjI allI impI)
    fix j assume j: "j < Min ?S"
    then have "j \<notin> ?S" using m(2) by (meson not_le)
    then show "\<not> match ([0..<n] ! j)" using j m(1) by auto
  qed (use m(1) in auto)
  then show ?thesis using True by simp
next
  case False
  then show ?thesis by (auto simp: linear_find_def find_None_iff)
qed

lemma fold_keep_least_linear:
  assumes "set xs = {i. i < n \<and> match i}"
  shows "fold keep_least xs None = linear_find match n"
proof (cases xs)
  case Nil
  then show ?thesis using assms by (auto simp: linear_find_least)
next
  case (Cons x ys)
  then have "fold keep_least xs None = Some (Min (set xs))"
    by (simp add: fold_keep_least keep_least_def)
  moreover have "\<exists>i < n. match i" using assms Cons by auto
  ultimately show ?thesis using assms by (simp add: linear_find_least)
qed

subsection \<open>Tables\<close>

text \<open>\<open>linked hash xs ix\<close>: the table links the entries \<open>xs\<close>, the newest first.\<close>

definition linked :: "(nat \<Rightarrow> u64) \<Rightarrow> nat list \<Rightarrow> name_index \<Rightarrow> bool" where
  "linked hash xs ix \<longleftrightarrow> 0 < ni_capacity ix \<and> ni_capacity ix \<le> 2 ^ 64 \<and>
     length (ni_buckets ix) = ni_capacity ix \<and>
     (\<forall>b < ni_capacity ix. chain (ni_next ix) (ni_buckets ix ! b)
       (filter (\<lambda>i. bucket_of (hash i) (ni_capacity ix) = b) xs))"

lemma bucket_of_less:
  assumes "0 < capacity" and "capacity \<le> 2 ^ 64"
  shows "bucket_of h capacity < capacity"
proof -
  have "h AND of_nat (capacity - 1) \<le> of_nat (capacity - 1)" by (rule word_and_le1)
  then have "bucket_of h capacity \<le> unat (of_nat (capacity - 1) :: u64)"
    by (simp add: bucket_of_def word_le_nat_alt)
  moreover have "unat (of_nat (capacity - 1) :: u64) = capacity - 1" 
    using assms by (simp only: unat_of_nat) simp
  ultimately show ?thesis using assms(1) by simp
qed

lemma index_link_linked:
  assumes "linked hash xs ix" and "i \<notin> set xs" and "i < length (ni_next ix)"
  shows "linked hash (i # xs) (index_link hash i ix)"
proof -
  let ?c = "ni_capacity ix" and ?b = "bucket_of (hash i) (ni_capacity ix)"
  let ?nxt = "(ni_next ix)[i := ni_buckets ix ! ?b]"
  have b: "?b < ?c" using assms(1) by (intro bucket_of_less) (simp_all add: linked_def)
  have old: "chain ?nxt (ni_buckets ix ! b) (filter (\<lambda>j. bucket_of (hash j) ?c = b) xs)" if "b < ?c" for b
    using assms that by (intro chain_update) (simp_all add: linked_def)
  have "chain ?nxt ((ni_buckets ix)[?b := i + 1] ! b) (filter (\<lambda>j. bucket_of (hash j) ?c = b) (i # xs))"
    if "b < ?c" for b
  proof (cases "b = ?b")
    case True
    then show ?thesis using old [OF b] assms b chain_cons [of i ?nxt] by (simp add: linked_def)
  next
    case False
    then show ?thesis using old [OF that] by simp
  qed
  then show ?thesis using assms(1) by (simp add: linked_def index_link_def Let_def)
qed

lemma index_link_frame: "length (ni_next (index_link hash i ix)) = length (ni_next ix)"
  "ni_capacity (index_link hash i ix) = ni_capacity ix"
  "ni_count (index_link hash i ix) = ni_count ix"
  by (simp_all add: index_link_def Let_def)

lemma index_links_linked:
  assumes "linked hash ys ix" and "distinct xs" and "set xs \<inter> set ys = {}"
    and "\<forall>i \<in> set xs. i < length (ni_next ix)"
  shows "linked hash (rev xs @ ys) (fold (index_link hash) xs ix)"
  using assms
proof (induction xs arbitrary: ix ys)
  case (Cons x xs)
  have "linked hash (x # ys) (index_link hash x ix)" using Cons.prems by (intro index_link_linked) auto
  then have "linked hash (rev xs @ x # ys) (fold (index_link hash) xs (index_link hash x ix))"
    using Cons.prems by (intro Cons.IH) (auto simp: index_link_frame)
  then show ?case by simp
qed simp

lemma empty_linked:
  assumes "0 < capacity" and "capacity \<le> 2 ^ 64"
  shows "linked hash [] \<lparr>ni_buckets = replicate capacity 0, ni_next = nxt, ni_count = n, ni_capacity = capacity\<rparr>"
  using assms by (simp add: linked_def chain_nil)

subsection \<open>What the tables rely on\<close>

locale named =
  fixes hash :: "'n \<Rightarrow> u64" and same :: "'n \<Rightarrow> 'n \<Rightarrow> bool" and name_ok :: "'n \<Rightarrow> bool"
  assumes same_hash: "name_ok a \<Longrightarrow> name_ok b \<Longrightarrow> same a b \<Longrightarrow> hash a = hash b"
begin

text \<open>The matches of a name all lie on the chain of its bucket, in the order of the entries.\<close>

lemma bucket_matches:
  assumes "linked (\<lambda>i. hash (names i)) xs ix" and "name_ok name" and "\<And>i. i \<in> set xs \<Longrightarrow> name_ok (names i)"
    and "\<And>i. match i \<Longrightarrow> same name (names i)"
  obtains ys where "chain (ni_next ix) (ni_buckets ix ! bucket_of (hash name) (ni_capacity ix)) ys"
    "filter match ys = filter match xs"
proof -
  let ?c = "ni_capacity ix" and ?b = "bucket_of (hash name) (ni_capacity ix)"
  let ?ys = "filter (\<lambda>i. bucket_of (hash (names i)) ?c = ?b) xs"
  have "?b < ?c" using assms(1) by (intro bucket_of_less) (simp_all add: linked_def)
  then have "chain (ni_next ix) (ni_buckets ix ! ?b) ?ys" using assms(1) by (simp add: linked_def)
  moreover have "bucket_of (hash (names i)) ?c = ?b" if "i \<in> set xs" "match i" for i
    using same_hash [OF assms(2,3) assms(4)] that by simp
  then have "filter match ?ys = filter match xs" by (auto simp: filter_filter intro: filter_cong)
  ultimately show ?thesis by (rule that)
qed

lemma find_filter: "find match xs = (case filter match xs of [] \<Rightarrow> None | x # _ \<Rightarrow> Some x)"
  by (induction xs) simp_all

theorem chain_first_linear:
  assumes "linked (\<lambda>i. hash (names i)) [0..<n] ix" and "name_ok name" and "\<And>i. i < n \<Longrightarrow> name_ok (names i)"
    and "\<And>i. match i \<Longrightarrow> same name (names i)"
  shows "chain_first match (ni_next ix) (ni_buckets ix ! bucket_of (hash name) (ni_capacity ix)) =
    Some (linear_find match n)"
proof -
  obtain ys where "chain (ni_next ix) (ni_buckets ix ! bucket_of (hash name) (ni_capacity ix)) ys"
    "filter match ys = filter match [0..<n]"
    by (rule bucket_matches [OF assms(1,2) _ assms(4)]) (auto intro: assms(3))
  then show ?thesis by (simp add: chain_first_find linear_find_def find_filter)
qed

theorem chain_least_linear:
  assumes "linked (\<lambda>i. hash (names i)) xs ix" and "set xs = {..<n}" and "name_ok name"
    and "\<And>i. i < n \<Longrightarrow> name_ok (names i)" and "\<And>i. match i \<Longrightarrow> same name (names i)"
  shows "chain_least match (ni_next ix) (ni_buckets ix ! bucket_of (hash name) (ni_capacity ix)) None =
    Some (linear_find match n)"
proof -
  obtain ys where ys: "chain (ni_next ix) (ni_buckets ix ! bucket_of (hash name) (ni_capacity ix)) ys"
    "filter match ys = filter match xs"
    by (rule bucket_matches [OF assms(1,3) _ assms(5)]) (auto simp: assms(2) intro: assms(4))
  then have "set (filter match ys) = {i. i < n \<and> match i}" using assms(2) by auto
  then show ?thesis using chain_least_fold [OF ys(1)] by (simp add: fold_keep_least_linear)
qed

end

subsection \<open>Equal names have equal hashes\<close>

lemma span_length: "span_ok s n \<Longrightarrow> unat (end_byte n - start_byte n) = unat (end_byte n) - unat (start_byte n)"
  by (simp add: span_ok_def unat_sub)

lemma text_equal_bytes:
  assumes "span_ok s a" and "span_ok s b" and "dyn_span_text_equal a b s"
  shows "span_bytes_of s a = span_bytes_of s b"
proof -
  have len: "unat (end_byte a) - unat (start_byte a) = unat (end_byte b) - unat (start_byte b)"
    using assms span_length [of s a] span_length [of s b] by (simp add: dyn_span_text_equal_def)
  show ?thesis
    using assms(3) len span_length [OF assms(1)]
    by (intro nth_equalityI) (auto simp: span_bytes_of_def dyn_span_text_equal_def list_all_iff)
qed

lemma hash_of_bytes: "ast_name_hash n s = fold (\<lambda>b h. fnv_step h b) (span_bytes_of s n) 14695981039346656037"
  by (simp add: ast_name_hash_def span_bytes_of_def fold_map comp_def)

lemma same_hashes: "sema_name_hash n s = ast_name_hash n s"
  by (simp add: sema_name_hash_def ast_name_hash_def)

lemma name_matches_text: "name_matches module name d s \<Longrightarrow> dyn_span_text_equal name d s"
  by (auto simp: name_matches_def dyn_module_name_equal_def split: if_splits)

interpretation texts: named "\<lambda>n. ast_name_hash n s" "\<lambda>a b. dyn_span_text_equal a b s" "span_ok s" for s
  by unfold_locales (simp add: hash_of_bytes text_equal_bytes)

subsection \<open>Indexes kept in step with their declarations\<close>

text \<open>
  A lazily built index links its first \<open>ni_count\<close> declarations; declarations are only appended.
\<close>

definition index_ok :: "(nat \<Rightarrow> u64) \<Rightarrow> nat \<Rightarrow> name_index \<Rightarrow> bool" where
  "index_ok hash n ix \<longleftrightarrow> ni_count ix \<le> n \<and> (ni_capacity ix \<noteq> 0 \<longrightarrow>
     linked hash (rev [0..<ni_count ix]) ix \<and> length (ni_next ix) = ni_capacity ix div 2)"

lemma linked_cong: "(\<And>i. i \<in> set xs \<Longrightarrow> hash i = hash' i) \<Longrightarrow> linked hash xs ix \<longleftrightarrow> linked hash' xs ix"
  unfolding linked_def by (auto cong: filter_cong)

lemma index_ok_extend:
  assumes "index_ok hash n ix" and "n \<le> n'" and "\<And>i. i < n \<Longrightarrow> hash i = hash' i"
  shows "index_ok hash' n' ix"
  using assms linked_cong [of "rev [0..<ni_count ix]" hash hash' ix] by (auto simp: index_ok_def)

lemma index_ok_none: "index_ok hash n no_index"
  by (simp add: index_ok_def no_index_def)

lemma index_reserve_ok:
  assumes "index_ok hash n ix" and "index_reserve n ix = Some ix'" and "0 < n"
  shows "index_ok hash n ix'" "n \<le> ni_capacity ix' div 2"
proof -
  have "index_ok hash n \<lparr>ni_buckets = replicate c 0, ni_next = replicate (c div 2) 0, ni_count = 0, ni_capacity = c\<rparr>"
    if "c \<le> (2 ^ 64 - 1) div 4" for c
    using that empty_linked [of c] by (auto simp: index_ok_def)
  then show "index_ok hash n ix'" "n \<le> ni_capacity ix' div 2"
    using assms by (auto simp: index_reserve_def Let_def not_less split: if_splits)
qed

lemma index_sync_linked:
  assumes "index_ok hash n ix" and "n \<le> ni_capacity ix div 2" and "0 < n"
  shows "linked hash (rev [0..<n]) (index_sync hash n ix)"
    and "length (ni_next (index_sync hash n ix)) = ni_capacity (index_sync hash n ix) div 2"
    and "ni_count (index_sync hash n ix) = n"
proof -
  let ?k = "ni_count ix"
  have ix: "?k \<le> n" "linked hash (rev [0..<?k]) ix" "length (ni_next ix) = ni_capacity ix div 2"
    using assms by (auto simp: index_ok_def)
  have "linked hash (rev [?k..<n] @ rev [0..<?k]) (fold (index_link hash) [?k..<n] ix)"
    using ix assms(2) by (intro index_links_linked) auto
  moreover have "rev [?k..<n] @ rev [0..<?k] = rev [0..<n]"
    using ix(1) upt_add_eq_append [of 0 ?k "n - ?k"] by simp
  ultimately show "linked hash (rev [0..<n]) (index_sync hash n ix)"
    by (simp add: index_sync_def linked_def)
  have "length (ni_next (fold (index_link hash) xs ix)) = length (ni_next ix) \<and>
      ni_capacity (fold (index_link hash) xs ix) = ni_capacity ix" for xs
    by (induction xs arbitrary: ix) (simp_all add: index_link_frame)
  then show "length (ni_next (index_sync hash n ix)) = ni_capacity (index_sync hash n ix) div 2"
    using ix(3) by (simp add: index_sync_def)
  show "ni_count (index_sync hash n ix) = n" by (simp add: index_sync_def)
qed

lemma index_sync_ok:
  assumes "index_ok hash n ix" and "n \<le> ni_capacity ix div 2" and "0 < n"
  shows "index_ok hash n (index_sync hash n ix)"
  using index_sync_linked [OF assms] by (simp add: index_ok_def)

abbreviation declared_hash :: "span list \<Rightarrow> source \<Rightarrow> nat \<Rightarrow> u64" where
  "declared_hash names s \<equiv> \<lambda>i. ast_name_hash (names ! i) s"

lemma name_index_find_linear:
  assumes "index_ok (declared_hash names s) (length names) ix"
    and "span_ok s name" and "list_all (span_ok s) names"
  shows "\<exists>ix' failed'. dyn_name_index_find ix names name s module failed =
      Some (linear_find (\<lambda>i. name_matches module name (names ! i) s) (length names), ix', failed') \<and>
    index_ok (declared_hash names s) (length names) ix'"
proof (cases "length names \<ge> 32 \<and> \<not> failed \<and> index_reserve (length names) ix \<noteq> None")
  case True
  then obtain ix1 where ix1: "index_reserve (length names) ix = Some ix1" by blast
  have n: "0 < length names" using True by linarith
  note ok = index_reserve_ok [OF assms(1) ix1 n]
  note linked = index_sync_linked(1) [OF ok n]
  have "chain_least (\<lambda>i. name_matches module name (names ! i) s)
      (ni_next (index_sync (declared_hash names s) (length names) ix1))
      (ni_buckets (index_sync (declared_hash names s) (length names) ix1) !
        bucket_of (ast_name_hash name s) (ni_capacity (index_sync (declared_hash names s) (length names) ix1))) None =
    Some (linear_find (\<lambda>i. name_matches module name (names ! i) s) (length names))"
    by (rule texts.chain_least_linear [OF linked _ assms(2)])
      (use assms(3) in \<open>auto simp: list_all_length intro: name_matches_text\<close>)
  then show ?thesis
    using True ix1 index_sync_ok [OF ok n] by (auto simp: dyn_name_index_find_def Let_def)
next
  case False
  then show ?thesis
    using assms(1) by (cases "index_reserve (length names) ix") (auto simp: dyn_name_index_find_def Let_def)
qed

lemma names_capacity_pos: "0 < c \<Longrightarrow> 0 < names_capacity c n"
  by (induction c n rule: names_capacity.induct) (subst names_capacity.simps, simp)

lemma names_capacity_le: "0 < c \<Longrightarrow> names_capacity c n \<le> max c (4 * n)"
proof (induction c n rule: names_capacity.induct)
  case (1 c n)
  then show ?case by (subst names_capacity.simps) (auto simp: max_def split: if_splits)
qed

lemma name_lookup_linear:
  assumes "span_ok s name" and "list_all (span_ok s) names" and "length names < 2 ^ 32"
  shows "sema_name_lookup (sema_names_build names s) names name s =
    Some (linear_find (\<lambda>i. dyn_module_name_equal name (names ! i) s) (length names))"
proof (cases "names = []")
  case True
  then show ?thesis by (simp add: sema_name_lookup_def sema_names_build_def no_index_def linear_find_def)
next
  case False
  let ?n = "length names" and ?hash = "declared_hash names s"
  define ix where "ix = sema_names_build names s"
  have c: "0 < names_capacity 16 ?n" "names_capacity 16 ?n \<le> 2 ^ 64"
    using names_capacity_pos [of 16 ?n] names_capacity_le [of 16 ?n] assms(3) by auto
  have "linked ?hash (rev (rev [0..<?n]) @ []) ix"
    using False unfolding ix_def sema_names_build_def same_hashes Let_def
    by (simp only: length_0_conv if_False) (intro index_links_linked empty_linked c, auto)
  then have linked: "linked ?hash [0..<?n] ix" by simp
  then have "ni_buckets ix \<noteq> []" by (auto simp: linked_def)
  moreover have "chain_first (\<lambda>i. dyn_module_name_equal name (names ! i) s) (ni_next ix)
      (ni_buckets ix ! bucket_of (ast_name_hash name s) (ni_capacity ix)) =
    Some (linear_find (\<lambda>i. dyn_module_name_equal name (names ! i) s) ?n)"
    by (rule texts.chain_first_linear [OF linked assms(1)])
      (use assms(2) in \<open>auto simp: list_all_length dyn_module_name_equal_def split: if_splits\<close>)
  ultimately show ?thesis by (simp add: sema_name_lookup_def same_hashes flip: ix_def)
qed

abbreviation local_hash :: "ast_local list \<Rightarrow> nat \<Rightarrow> source \<Rightarrow> nat \<Rightarrow> u64" where
  "local_hash locals first s \<equiv> \<lambda>i. ast_name_hash (alo_name (locals ! (first + i))) s"

lemma find_shift: "find m [first..<first + c] = map_option ((+) first) (linear_find (\<lambda>i. m (first + i)) c)"
proof -
  have "[first..<first + c] = map ((+) first) [0..<c]" by (induction c) simp_all
  moreover have "find m (map ((+) first) xs) = map_option ((+) first) (find (\<lambda>i. m (first + i)) xs)" for xs
    by (induction xs) simp_all
  ultimately show ?thesis by (simp only: linear_find_def)
qed

lemma local_lookup_linear:
  assumes "index_ok (local_hash locals first s) (length locals - first) ix" and "first \<le> length locals"
    and "span_ok s name" and "list_all (\<lambda>l. span_ok s (alo_name l)) locals"
  shows "\<exists>ix'. sema_local_lookup ix locals (Some first) name s active_only =
      Some (find (local_matches locals name s active_only) [first..<length locals], ix') \<and>
    index_ok (local_hash locals first s) (length locals - first) ix'"
proof (cases "length locals - first \<ge> 32 \<and> index_reserve (length locals - first) ix \<noteq> None")
  case True
  let ?n = "length locals - first"
  obtain ix1 where ix1: "index_reserve ?n ix = Some ix1" using True by blast
  have n: "0 < ?n" using True by linarith
  note ok = index_reserve_ok [OF assms(1) ix1 n]
  define ix2 where "ix2 = index_sync (local_hash locals first s) ?n ix1"
  have linked: "linked (local_hash locals first s) (rev [0..<?n]) ix2"
    unfolding ix2_def by (rule index_sync_linked(1) [OF ok n])
  have sync: "sema_locals_sync ix locals s first ?n = Some ix2"
    using ix1 by (simp add: sema_locals_sync_def same_hashes ix2_def)
  have "chain_least (\<lambda>i. local_matches locals name s active_only (first + i)) (ni_next ix2)
      (ni_buckets ix2 ! bucket_of (ast_name_hash name s) (ni_capacity ix2)) None =
    Some (linear_find (\<lambda>i. local_matches locals name s active_only (first + i)) ?n)"
    by (rule texts.chain_least_linear [OF linked _ assms(3)])
      (use assms(2,4) in \<open>auto simp: list_all_length local_matches_def\<close>)
  then show ?thesis
    using True sync index_sync_ok [OF ok n] find_shift [of "local_matches locals name s active_only" first ?n] assms(2)
    by (auto simp: sema_local_lookup_def Let_def same_hashes ix2_def)
next
  case False
  then show ?thesis
    using assms(1) by (auto simp: sema_local_lookup_def sema_locals_sync_def Let_def)
qed

subsection \<open>Properties\<close>

text \<open>C25. Looking a name up through the lazily built hash index gives the first matching declaration,
  like a search through the declarations in order, and leaves an index that stays usable after more
  declarations are appended.\<close>

theorem name_index_agrees:
  assumes "index_ok (declared_hash names s) (length names) ix"
    and "span_ok s name" and "list_all (span_ok s) names"
  shows "\<exists>ix' failed'. dyn_name_index_find ix names name s module failed =
      Some (linear_find (\<lambda>i. name_matches module name (names ! i) s) (length names), ix', failed') \<and>
    index_ok (declared_hash (names @ later) s) (length (names @ later)) ix'"
proof -
  obtain ix' failed' where ix': "dyn_name_index_find ix names name s module failed =
      Some (linear_find (\<lambda>i. name_matches module name (names ! i) s) (length names), ix', failed')"
    "index_ok (declared_hash names s) (length names) ix'"
    using name_index_find_linear [OF assms] by blast
  then show ?thesis using index_ok_extend [OF ix'(2)] by (simp add: nth_append)
qed

definition sample_text :: source where
  "sample_text = \<lparr>src_path = ''m.dyn'', src_text = replicate 20 97 @ replicate 20 98, src_original_text = None,
     src_spans = [], src_maps = []\<rparr>"

definition sample_names :: "span list" where
  "sample_names = map (\<lambda>i. \<lparr>start_byte = of_nat i, end_byte = of_nat (i + 1)\<rparr>) [0..<40]"

definition sample_name :: span where
  "sample_name = \<lparr>start_byte = 30, end_byte = 31\<rparr>"

theorem name_index_agrees_witness:
  "\<exists>ix' failed'. dyn_name_index_find no_index sample_names sample_name sample_text False False =
     Some (Some 20, ix', failed')"
proof -
  have "span_ok sample_text sample_name" "list_all (span_ok sample_text) sample_names" by code_simp+
  moreover have "linear_find (\<lambda>i. name_matches False sample_name (sample_names ! i) sample_text)
      (length sample_names) = Some 20"
    by code_simp
  ultimately show ?thesis
    using name_index_agrees [OF index_ok_none, of sample_text sample_name sample_names False False "[]"] by auto
qed

text \<open>C26. The prebuilt indexes of functions and globals find the first declaration a name may refer to,
  and the index of locals the first (active) local with that name.\<close>

theorem scope_lookups_agree:
  assumes "span_ok s name" and "list_all (span_ok s) names" and "length names < 2 ^ 32"
    and "index_ok (local_hash locals first s) (length locals - first) ix" and "first \<le> length locals"
    and "list_all (\<lambda>l. span_ok s (alo_name l)) locals"
  shows "sema_name_lookup (sema_names_build names s) names name s =
      Some (linear_find (\<lambda>i. dyn_module_name_equal name (names ! i) s) (length names)) \<and>
    (\<exists>ix'. sema_local_lookup ix locals (Some first) name s active_only =
        Some (find (local_matches locals name s active_only) [first..<length locals], ix') \<and>
      index_ok (local_hash locals first s) (length locals - first) ix')"
  using name_lookup_linear [OF assms(1-3)] local_lookup_linear [OF assms(4,5,1,6)] by blast

lemma sample_text_maps: "src_maps sample_text = []"
  by (simp add: sample_text_def)

lemma module_name_equal_single:
  "src_maps s = [] \<Longrightarrow> dyn_module_name_equal name d s = dyn_span_text_equal name d s"
  by (simp add: dyn_module_name_equal_def module_source_path_def module_source_path_loop.simps)

theorem scope_lookups_agree_witness:
  "sema_name_lookup (sema_names_build sample_names sample_text) sample_names sample_name sample_text = Some (Some 20)"
proof -
  have "length sample_names < 2 ^ 32" by (simp add: sample_names_def)
  moreover have "span_ok sample_text sample_name" "list_all (span_ok sample_text) sample_names"
    by code_simp+
  moreover have "linear_find (\<lambda>i. dyn_module_name_equal sample_name (sample_names ! i) sample_text)
      (length sample_names) = Some 20"
    unfolding module_name_equal_single [OF sample_text_maps] by code_simp
  ultimately show ?thesis
    using conjunct1 [OF scope_lookups_agree
      [OF _ _ _ index_ok_none, of sample_text sample_name sample_names 0 "[]" False]]
    by (simp only: list.size list.pred_inject minus_nat.diff_0 le_refl)
qed

end
