(* ===== verification/Sema_Types.thy ===== *)
theory Sema_Types
  imports Dyn_Ast
begin

text \<open>
  The type predicates of semantic analysis (\<open>src/src/sema.c\<close>, lines 63-85, 452-586, 731-746 and
  976-987): aliases, integer classes and widths, layout, lossless and implicit conversions, and
  which types may cross the C boundary.

  \<open>sema\<close> holds what these functions read of \<open>Sema\<close>. Type tables are read with \<open>!\<close>: a type code
  comes from the functions that fill the tables. The layout function recurs over the type graph
  and is defined with \<open>partial_function\<close>: \<open>None\<close> is a cyclic graph or a code outside its table.
\<close>

unbundle bit_operations_syntax

record sema =
  se_program :: ast_program
  se_pointer_bytes :: u32

subsection \<open>Aliases\<close>

text \<open>The loop of \<open>underlying_type\<close>; its guard allows one more round than there are aliases.\<close>

fun alias_loop :: "nat \<Rightarrow> ast_program \<Rightarrow> dyn_type \<Rightarrow> dyn_type" where
  "alias_loop 0 a t = t"
| "alias_loop (Suc n) a t =
     (if \<not> dyn_type_is_distinct t then t
      else
        let i = unat (t - DYN_TYPE_DISTINCT_BASE) in
        if i \<ge> length (a_aliases a) then DYN_TYPE_ERROR
        else alias_loop n a (al_target (a_aliases a ! i)))"

definition underlying_type :: "ast_program \<Rightarrow> dyn_type \<Rightarrow> dyn_type" where
  "underlying_type a t = alias_loop (length (a_aliases a) + 1) a t"

subsection \<open>Integer classes and widths\<close>

definition integer :: "sema \<Rightarrow> dyn_type \<Rightarrow> bool" where
  "integer se t \<longleftrightarrow> (let t = underlying_type (se_program se) t in t \<ge> DYN_TYPE_I8 \<and> t \<le> DYN_TYPE_USIZE)"

definition signed_int :: "sema \<Rightarrow> dyn_type \<Rightarrow> bool" where
  "signed_int se t \<longleftrightarrow> (let t = underlying_type (se_program se) t in
     (t \<ge> DYN_TYPE_I8 \<and> t \<le> DYN_TYPE_I64) \<or> t = DYN_TYPE_ISIZE)"

definition numeric :: "sema \<Rightarrow> dyn_type \<Rightarrow> bool" where
  "numeric se t \<longleftrightarrow> (let t = underlying_type (se_program se) t in
     integer se t \<or> t = DYN_TYPE_F32 \<or> t = DYN_TYPE_F64)"

definition bits :: "sema \<Rightarrow> dyn_type \<Rightarrow> u32" where
  "bits se t =
     (let t = underlying_type (se_program se) t in
      if t = DYN_TYPE_USIZE \<or> t = DYN_TYPE_ISIZE then se_pointer_bytes se * 8
      else if t = DYN_TYPE_I8 \<or> t = DYN_TYPE_U8 then 8
      else if t = DYN_TYPE_I16 \<or> t = DYN_TYPE_U16 then 16
      else if t = DYN_TYPE_I32 \<or> t = DYN_TYPE_U32 \<or> t = DYN_TYPE_F32 then 32
      else 64)"

definition literal_fits :: "sema \<Rightarrow> u64 \<Rightarrow> dyn_type \<Rightarrow> bool" where
  "literal_fits se v t \<longleftrightarrow>
     (let b = unat (bits se t) in
      if signed_int se t
      then (if b = 64 then v \<le> 2 ^ 63 - 1 else v \<le> push_bit (b - 1) 1 - 1)
      else integer se t \<and> (b = 64 \<or> v \<le> push_bit b 1 - 1))"

text \<open>The constant is an \<open>int64_t\<close>; the code forms the bounds of narrower types by shifting.\<close>

definition constant_fits_type :: "sema \<Rightarrow> int \<Rightarrow> dyn_type \<Rightarrow> bool" where
  "constant_fits_type se v t \<longleftrightarrow>
     (let b = unat (bits se t) in
      if signed_int se t
      then b = 64 \<or> v \<ge> - push_bit (b - 1) 1 \<and> v \<le> push_bit (b - 1) 1 - 1
      else integer se t \<and> \<not> v < 0 \<and> (b = 64 \<or> (word_of_int v :: u64) \<le> push_bit b 1 - 1))"

subsection \<open>Conversions\<close>

definition lossless :: "sema \<Rightarrow> dyn_type \<Rightarrow> dyn_type \<Rightarrow> bool" where
  "lossless se src dst \<longleftrightarrow>
     (if src = dst then True
      else if dyn_type_is_distinct src \<or> dyn_type_is_distinct dst then False
      else if integer se src \<and> integer se dst then
        (if signed_int se src = signed_int se dst then bits se dst > bits se src
         else if \<not> signed_int se src \<and> signed_int se dst then bits se dst > bits se src
         else False)
      else if src = DYN_TYPE_F32 \<and> dst = DYN_TYPE_F64 then True
      else if integer se src \<and> (dst = DYN_TYPE_F32 \<or> dst = DYN_TYPE_F64) then
        let precision = (if dst = DYN_TYPE_F32 then 24 else 53);
            needed = bits se src - (if signed_int se src then 1 else 0)
        in needed \<le> precision
      else False)"

definition pointer_info :: "ast_program \<Rightarrow> dyn_type \<Rightarrow> ast_pointer option" where
  "pointer_info a t =
     (if dyn_type_is_pointer t \<and> unat (t - DYN_TYPE_POINTER_BASE) < length (a_pointers a)
      then Some (a_pointers a ! unat (t - DYN_TYPE_POINTER_BASE)) else None)"

definition array_info :: "ast_program \<Rightarrow> dyn_type \<Rightarrow> ast_array option" where
  "array_info a t =
     (if dyn_type_is_array t \<and> unat (t - DYN_TYPE_ARRAY_BASE) < length (a_arrays a)
      then Some (a_arrays a ! unat (t - DYN_TYPE_ARRAY_BASE)) else None)"

definition slice_info :: "ast_program \<Rightarrow> dyn_type \<Rightarrow> ast_slice option" where
  "slice_info a t =
     (if dyn_type_is_slice t \<and> unat (t - DYN_TYPE_SLICE_BASE) < length (a_slices a)
      then Some (a_slices a ! unat (t - DYN_TYPE_SLICE_BASE)) else None)"

definition fn_type_info :: "ast_program \<Rightarrow> dyn_type \<Rightarrow> ast_fn_type option" where
  "fn_type_info a t =
     (if dyn_type_is_function t \<and> unat (t - DYN_TYPE_FN_BASE) < length (a_fn_types a)
      then Some (a_fn_types a ! unat (t - DYN_TYPE_FN_BASE)) else None)"

definition can_convert :: "sema \<Rightarrow> ast_program \<Rightarrow> dyn_type \<Rightarrow> dyn_type \<Rightarrow> bool" where
  "can_convert se a src dst \<longleftrightarrow>
     (if dst = DYN_TYPE_ANY \<and> src \<noteq> DYN_TYPE_VOID \<and> src \<noteq> DYN_TYPE_ERROR then True
      else if lossless se src dst then True
      else
        let f = pointer_info a src; t = pointer_info a dst in
        if f \<noteq> None \<and> dst = DYN_TYPE_RAWPTR then \<not> apt_is_const (the f)
        else if f \<noteq> None \<and> t \<noteq> None then
          apt_pointee (the f) = apt_pointee (the t) \<and> \<not> apt_is_const (the f) \<and> apt_is_const (the t)
        else
          let fs = slice_info a src; ts = slice_info a dst in
          fs \<noteq> None \<and> ts \<noteq> None \<and> asl_element (the fs) = asl_element (the ts) \<and>
            \<not> asl_is_const (the fs) \<and> asl_is_const (the ts))"

subsection \<open>Layout\<close>

definition table_at :: "'a list \<Rightarrow> u32 \<Rightarrow> 'a option" where
  "table_at xs i = (if unat i < length xs then Some (xs ! unat i) else None)"

text \<open>\<open>alignment\<close> selects the alignment instead of the size; an array too big for the address space has size 0.\<close>

partial_function (option) sema_type_layout ::
  "sema \<Rightarrow> ast_program \<Rightarrow> dyn_type \<Rightarrow> bool \<Rightarrow> u64 option" where
  "sema_type_layout se a ty alignment =
     (let t = underlying_type a ty in
      if t = DYN_TYPE_BOOL \<or> t = DYN_TYPE_I8 \<or> t = DYN_TYPE_U8 then Some 1
      else if t = DYN_TYPE_I16 \<or> t = DYN_TYPE_U16 then Some 2
      else if t = DYN_TYPE_I32 \<or> t = DYN_TYPE_U32 \<or> t = DYN_TYPE_F32 then Some 4
      else if t = DYN_TYPE_ISIZE \<or> t = DYN_TYPE_USIZE \<or> t = DYN_TYPE_RAWPTR \<or>
        dyn_type_is_pointer t \<or> dyn_type_is_function t then Some (ucast (se_pointer_bytes se))
      else if t = DYN_TYPE_I64 \<or> t = DYN_TYPE_U64 \<or> t = DYN_TYPE_F64 then Some 8
      else if dyn_type_is_struct t then
        map_option (\<lambda>st. if alignment then as_alignment st else as_size st)
          (table_at (a_structs a) (t - DYN_TYPE_STRUCT_BASE))
      else if dyn_type_is_enum t then
        map_option (\<lambda>en. if alignment then an_alignment en else an_size en)
          (table_at (a_enums a) (t - DYN_TYPE_ENUM_BASE))
      else if dyn_type_is_array t then
        Option.bind (table_at (a_arrays a) (t - DYN_TYPE_ARRAY_BASE)) (\<lambda>ar.
        Option.bind (sema_type_layout se a (aa_element ar) alignment) (\<lambda>element.
          let limit = (if se_pointer_bytes se = 4 then 2 ^ 32 - 1 else - 1) in
          if \<not> alignment \<and> element \<noteq> 0 \<and> aa_length ar > limit div element then Some 0
          else Some (if alignment then element else element * aa_length ar)))
      else if dyn_type_is_slice t \<or> t = DYN_TYPE_STRING
      then Some (ucast (if alignment then se_pointer_bytes se else 2 * se_pointer_bytes se))
      else if t = DYN_TYPE_ANY then Some (if alignment then 8 else 16)
      else Some 0)"

subsection \<open>The C boundary\<close>

function sema_c_abi_type :: "ast_program \<Rightarrow> dyn_type \<Rightarrow> nat \<Rightarrow> bool" where
  "sema_c_abi_type a ty depth =
     (let t = underlying_type a ty in
      if depth > 128 then False
      else if t = DYN_TYPE_STRING \<or> t = DYN_TYPE_ANY \<or> dyn_type_is_slice t then False
      else if dyn_type_is_struct t \<and>
        (let st = a_structs a ! unat (t - DYN_TYPE_STRUCT_BASE) in
         as_field_count st = 0 \<or>
         \<not> list_all (\<lambda>i. sema_c_abi_type a (af_type (a_fields a ! unat (as_field_start st + of_nat i))) (depth + 1))
            [0..<unat (as_field_count st)]) then False
      else if dyn_type_is_array t then
        let ar = a_arrays a ! unat (t - DYN_TYPE_ARRAY_BASE)
        in aa_length ar \<noteq> 0 \<and> sema_c_abi_type a (aa_element ar) (depth + 1)
      else if dyn_type_is_enum t then \<not> an_has_payload (a_enums a ! unat (t - DYN_TYPE_ENUM_BASE))
      else if dyn_type_is_pointer t then
        let pointee = underlying_type a (apt_pointee (a_pointers a ! unat (t - DYN_TYPE_POINTER_BASE)))
        in \<not> dyn_type_is_function pointee \<or> sema_c_abi_type a pointee (depth + 1)
      else if dyn_type_is_function t then
        let fn = a_fn_types a ! unat (t - DYN_TYPE_FN_BASE) in
        \<not> (dyn_type_is_array (underlying_type a (aft_return_type fn)) \<or>
           \<not> sema_c_abi_type a (aft_return_type fn) (depth + 1)) \<and>
        list_all (\<lambda>i.
          let parameter = a_fn_type_params a ! unat (aft_param_start fn + of_nat i) in
          \<not> (dyn_type_is_array (underlying_type a parameter) \<or>
             \<not> sema_c_abi_type a parameter (depth + 1))) [0..<unat (aft_param_count fn)]
      else True)"
  by pat_completeness auto
termination
  by (relation "measure (\<lambda>(a, t, depth). 129 - depth)") auto

declare sema_c_abi_type.simps [simp del]

definition sema_c_abi_function :: "ast_program \<Rightarrow> ast_fn \<Rightarrow> bool" where
  "sema_c_abi_function a fn \<longleftrightarrow>
     (if \<not> afn_foreign fn then True
      else if dyn_type_is_array (underlying_type a (afn_return_type fn)) \<or>
        \<not> sema_c_abi_type a (afn_return_type fn) 0 then False
      else list_all (\<lambda>i.
        let t = ap_type (a_params a ! unat (afn_param_start fn + of_nat i)) in
        \<not> (dyn_type_is_array (underlying_type a t) \<or> \<not> sema_c_abi_type a t 0))
        [0..<unat (afn_param_count fn)])"

subsection \<open>Aliases end\<close>

text \<open>
  \<open>alias_ranked a rank\<close>: an alias whose target is an alias has a bigger rank than its target, so
  there is no cycle of aliases.
\<close>

definition alias_index :: "dyn_type \<Rightarrow> nat" where
  "alias_index t = unat (t - DYN_TYPE_DISTINCT_BASE)"

definition alias_ranked :: "ast_program \<Rightarrow> (nat \<Rightarrow> nat) \<Rightarrow> bool" where
  "alias_ranked a rank \<longleftrightarrow> (\<forall>i < length (a_aliases a). let t = al_target (a_aliases a ! i) in
     dyn_type_is_distinct t \<and> alias_index t < length (a_aliases a) \<longrightarrow> rank (alias_index t) < rank i)"

lemma not_distinct_error [simp]: "\<not> dyn_type_is_distinct DYN_TYPE_ERROR"
  by (simp add: dyn_type_is_distinct_def word_le_nat_alt)

lemma alias_loop_ends:
  assumes "alias_ranked a rank"
    and "dyn_type_is_distinct t \<Longrightarrow> alias_index t < length (a_aliases a) \<Longrightarrow>
      card {i. i < length (a_aliases a) \<and> rank i \<le> rank (alias_index t)} < n"
    and "0 < n"
  shows "\<not> dyn_type_is_distinct (alias_loop n a t)"
  using assms(2,3)
proof (induction n arbitrary: t)
  case (Suc n)
  show ?case
  proof (cases "dyn_type_is_distinct t \<and> alias_index t < length (a_aliases a)")
    case True
    let ?u = "al_target (a_aliases a ! alias_index t)"
    let ?below = "\<lambda>t. {i. i < length (a_aliases a) \<and> rank i \<le> rank (alias_index t)}"
    have smaller: "card (?below ?u) < card (?below t)"
      if "dyn_type_is_distinct ?u" "alias_index ?u < length (a_aliases a)"
    proof (rule psubset_card_mono)
      have "rank (alias_index ?u) < rank (alias_index t)"
        using assms(1) True that by (simp add: alias_ranked_def Let_def)
      then have "?below ?u \<subseteq> ?below t" and "alias_index t \<in> ?below t - ?below ?u"
        using True by force+
      then show "?below ?u \<subset> ?below t" by blast
    qed simp
    have "0 < card (?below t)" using True by (auto simp: card_gt_0_iff)
    then have "0 < n" using Suc.prems(1) True by simp
    moreover have "card (?below ?u) < n"
      if "dyn_type_is_distinct ?u" "alias_index ?u < length (a_aliases a)"
      using smaller [OF that] Suc.prems(1) True by simp
    ultimately have "\<not> dyn_type_is_distinct (alias_loop n a ?u)" by (intro Suc.IH)
    then show ?thesis using True by (simp add: alias_index_def Let_def)
  qed (auto simp: alias_index_def)
qed simp

lemma alias_loop_plain: "\<not> dyn_type_is_distinct t \<Longrightarrow> alias_loop n a t = t"
  by (cases n) simp_all

lemma underlying_plain: "\<not> dyn_type_is_distinct t \<Longrightarrow> underlying_type a t = t"
  by (simp add: underlying_type_def)

lemma underlying_ends:
  assumes "alias_ranked a rank"
  shows "\<not> dyn_type_is_distinct (underlying_type a t)"
  unfolding underlying_type_def
proof (rule alias_loop_ends [OF assms])
  have "card {i. i < length (a_aliases a) \<and> P i} \<le> card {i. i < length (a_aliases a)}" for P
    by (rule card_mono) auto
  then show "card {i. i < length (a_aliases a) \<and> rank i \<le> rank (alias_index t)} < length (a_aliases a) + 1"
    by (simp add: less_Suc_eq_le)
qed simp

subsection \<open>Values of integer types\<close>

text \<open>The values of each integer type of the language, written out; the last line is for types without integer values.\<close>

definition type_range :: "sema \<Rightarrow> dyn_type \<Rightarrow> int set" where
  "type_range se t =
     (let u = underlying_type (se_program se) t; p = 8 * unat (se_pointer_bytes se) in
      if u = DYN_TYPE_I8 then {- 128 .. 127} else if u = DYN_TYPE_I16 then {- 32768 .. 32767}
      else if u = DYN_TYPE_I32 then {- (2 ^ 31) .. 2 ^ 31 - 1} else if u = DYN_TYPE_I64 then {- (2 ^ 63) .. 2 ^ 63 - 1}
      else if u = DYN_TYPE_U8 then {0 .. 255} else if u = DYN_TYPE_U16 then {0 .. 65535}
      else if u = DYN_TYPE_U32 then {0 .. 2 ^ 32 - 1} else if u = DYN_TYPE_U64 then {0 .. 2 ^ 64 - 1}
      else if u = DYN_TYPE_ISIZE then {- (2 ^ (p - 1)) .. 2 ^ (p - 1) - 1} else if u = DYN_TYPE_USIZE then {0 .. 2 ^ p - 1}
      else {0 .. 2 ^ unat (bits se t) - 1})"

definition target_width :: "sema \<Rightarrow> bool" where
  "target_width se \<longleftrightarrow> se_pointer_bytes se = 4 \<or> se_pointer_bytes se = 8"

lemma bits_cases:
  assumes "target_width se"
  shows "bits se t = 8 \<or> bits se t = 16 \<or> bits se t = 32 \<or> bits se t = 64"
  using assms by (auto simp: bits_def target_width_def Let_def)

lemma signed_codes: "DYN_TYPE_I8 \<le> t \<and> t \<le> DYN_TYPE_I64 \<longleftrightarrow> t \<in> {DYN_TYPE_I8, DYN_TYPE_I16, DYN_TYPE_I32, DYN_TYPE_I64}"
proof
  assume "DYN_TYPE_I8 \<le> t \<and> t \<le> DYN_TYPE_I64"
  then have "unat t = 4 \<or> unat t = 5 \<or> unat t = 6 \<or> unat t = 7" by (auto simp: word_le_nat_alt)
  then show "t \<in> {DYN_TYPE_I8, DYN_TYPE_I16, DYN_TYPE_I32, DYN_TYPE_I64}" by (auto simp: word_unat_eq_iff)
qed auto

text \<open>The code's widths and signs give these ranges.\<close>

lemma type_range_bits:
  assumes "target_width se"
  shows "type_range se t = (let b = unat (bits se t) in
    if signed_int se t then {- (2 ^ (b - 1)) .. 2 ^ (b - 1) - 1} else {0 .. 2 ^ b - 1})"
proof -
  define u where "u = underlying_type (se_program se) t"
  have sign: "signed_int se t \<longleftrightarrow> u \<in> {DYN_TYPE_I8, DYN_TYPE_I16, DYN_TYPE_I32, DYN_TYPE_I64, DYN_TYPE_ISIZE}"
    using signed_codes [of u] by (auto simp: signed_int_def Let_def u_def)
  have p: "unat (se_pointer_bytes se * 8) = 8 * unat (se_pointer_bytes se)"
    using assms by (auto simp: target_width_def)
  show ?thesis
    unfolding type_range_def sign Let_def u_def [symmetric]
    by (cases "u \<in> {DYN_TYPE_I8, DYN_TYPE_I16, DYN_TYPE_I32, DYN_TYPE_I64, DYN_TYPE_U8, DYN_TYPE_U16, DYN_TYPE_U32, DYN_TYPE_U64, DYN_TYPE_ISIZE, DYN_TYPE_USIZE}")
      (auto simp: bits_def u_def [symmetric] p)
qed

lemma signed_int_integer: "signed_int se t \<Longrightarrow> integer se t"
  by (auto simp: signed_int_def integer_def Let_def word_le_nat_alt)

lemma uint_ge_negative [simp]: "- numeral n \<le> uint v"
  by (rule order_trans [of _ 0]) simp_all

lemma literal_fits_range:
  assumes "target_width se"
  shows "literal_fits se v t \<longleftrightarrow> integer se t \<and> uint v \<in> type_range se t"
  using bits_cases [OF assms, of t] signed_int_integer [of se t] uint_lt2p [of v]
  by (auto simp: literal_fits_def type_range_bits [OF assms(1)] Let_def word_le_def)

lemma constant_fits_range:
  assumes "target_width se" and "- (2 ^ 63) \<le> v" and "v < 2 ^ 63"
  shows "constant_fits_type se v t \<longleftrightarrow> integer se t \<and> v \<in> type_range se t"
proof (cases "signed_int se t \<or> v < 0")
  case True
  then show ?thesis
    using bits_cases [OF assms(1), of t] signed_int_integer [of se t] assms(2,3)
    by (auto simp: constant_fits_type_def type_range_bits [OF assms(1)] Let_def)
next
  case False
  then have "uint (word_of_int v :: u64) = v" using assms(3) by (simp add: uint_word_of_int)
  then show ?thesis
    using False bits_cases [OF assms(1), of t] assms(3)
    by (auto simp: constant_fits_type_def type_range_bits [OF assms(1)] Let_def word_le_def)
qed

lemma lossless_range:
  assumes "target_width se" and "src \<noteq> dst" and "\<not> dyn_type_is_distinct src" "\<not> dyn_type_is_distinct dst"
    and "integer se src" "integer se dst"
  shows "lossless se src dst \<longleftrightarrow> type_range se src \<subset> type_range se dst"
  using bits_cases [OF assms(1), of src] bits_cases [OF assms(1), of dst] assms(2-)
  by (elim disjE) (simp_all add: lossless_def type_range_bits [OF assms(1)] Let_def atLeastatMost_psubset_iff)

text \<open>The integers that a binary float of the given precision represents exactly (the exponents of both formats reach
  beyond 64 bits).\<close>

definition float_exact :: "nat \<Rightarrow> int \<Rightarrow> bool" where
  "float_exact precision v \<longleftrightarrow> (\<exists>m e. v = m * 2 ^ e \<and> \<bar>m\<bar> < 2 ^ precision)"

lemma float_exact_small: "\<bar>v\<bar> \<le> 2 ^ precision \<Longrightarrow> 0 < precision \<Longrightarrow> float_exact precision v"
proof (cases "\<bar>v\<bar> = 2 ^ precision")
  case True
  then have "v = sgn v * 2 ^ precision" by (metis sgn_mult_abs)
  moreover assume "0 < precision"
  then have "\<bar>sgn v\<bar> < 2 ^ precision" by (simp add: abs_sgn_eq one_less_power)
  ultimately show ?thesis unfolding float_exact_def by blast
next
  case False
  moreover assume "\<bar>v\<bar> \<le> 2 ^ precision"
  ultimately have "v = v * 2 ^ 0" "\<bar>v\<bar> < 2 ^ precision" by simp_all
  then show ?thesis unfolding float_exact_def by blast
qed

lemma float_inexact: "0 < precision \<Longrightarrow> \<not> float_exact precision (2 ^ precision + 1)"
proof
  assume p: "0 < precision" and "float_exact precision (2 ^ precision + 1)"
  then obtain m e where m: "2 ^ precision + 1 = m * (2 :: int) ^ e" "\<bar>m\<bar> < 2 ^ precision" unfolding float_exact_def by blast
  have "odd (2 ^ precision + 1 :: int)" using p by simp
  then have "e = 0" using m(1) by (cases e) simp_all
  with m show False by simp
qed

definition float_precision :: "dyn_type \<Rightarrow> nat" where
  "float_precision t = (if t = DYN_TYPE_F32 then 24 else 53)"

lemma lossless_to_float:
  assumes "target_width se" and "integer se src" and "\<not> dyn_type_is_distinct src" and "\<not> dyn_type_is_distinct dst"
    and "dst = DYN_TYPE_F32 \<or> dst = DYN_TYPE_F64"
  shows "lossless se src dst \<longleftrightarrow> unat (bits se src) - (if signed_int se src then 1 else 0) \<le> float_precision dst"
proof -
  have "\<not> integer se dst"
    using assms(4,5) by (auto simp: integer_def Let_def underlying_plain word_le_nat_alt)
  moreover have "src \<noteq> DYN_TYPE_F32" "src \<noteq> dst"
    using assms(2-5) by (auto simp: integer_def underlying_plain word_le_nat_alt)
  ultimately show ?thesis
    using assms bits_cases [OF assms(1), of src]
    by (elim disjE; simp add: lossless_def float_precision_def Let_def word_le_nat_alt unat_word_ariths)
qed

lemma lossless_float_range:
  assumes "target_width se" and "integer se src" and "\<not> dyn_type_is_distinct src" and "\<not> dyn_type_is_distinct dst"
    and "dst = DYN_TYPE_F32 \<or> dst = DYN_TYPE_F64"
  shows "lossless se src dst \<longleftrightarrow> (\<forall>v \<in> type_range se src. float_exact (float_precision dst) v)"
proof -
  let ?n = "unat (bits se src) - (if signed_int se src then 1 else 0)" and ?p = "float_precision dst"
  have p: "0 < ?p" "?p < 63" by (simp_all add: float_precision_def)
  have range: "type_range se src = {- (if signed_int se src then 2 ^ ?n else 0) .. 2 ^ ?n - 1}"
    by (simp add: type_range_bits [OF assms(1)] Let_def)
  show ?thesis unfolding lossless_to_float [OF assms]
  proof
    assume "?n \<le> ?p"
    then have "(2 :: int) ^ ?n \<le> 2 ^ ?p" by (rule power_increasing) simp
    moreover have "\<bar>v\<bar> \<le> 2 ^ ?n" if "v \<in> type_range se src" for v
      using that unfolding range by (auto split: if_splits)
    ultimately show "\<forall>v \<in> type_range se src. float_exact ?p v"
      using p(1) by (meson float_exact_small order_trans)
  next
    assume all: "\<forall>v \<in> type_range se src. float_exact ?p v"
    show "?n \<le> ?p"
    proof (rule ccontr)
      assume "\<not> ?n \<le> ?p"
      then have "(2 :: int) ^ Suc ?p \<le> 2 ^ ?n" by (intro power_increasing) simp_all
      moreover have "(2 :: int) \<le> 2 ^ ?p" using p(1) self_le_power [of "2 :: int" ?p] by simp
      ultimately have "2 ^ ?p + 1 \<in> type_range se src" unfolding range by (auto split: if_splits)
      then show False using all float_inexact [OF p(1)] by blast
    qed
  qed
qed

subsection \<open>Array sizes\<close>

definition address_limit :: "sema \<Rightarrow> nat" where
  "address_limit se = (if se_pointer_bytes se = 4 then 2 ^ 32 - 1 else 2 ^ 64 - 1)"

text \<open>The mathematical size: an array of arrays is the product of the lengths and the leaf's size.\<close>

inductive has_size :: "sema \<Rightarrow> ast_program \<Rightarrow> dyn_type \<Rightarrow> nat \<Rightarrow> bool" for se a where
  leaf: "\<not> dyn_type_is_array (underlying_type a t) \<Longrightarrow> sema_type_layout se a t False = Some k \<Longrightarrow>
    unat k \<le> address_limit se \<Longrightarrow> has_size se a t (unat k)"
| array: "dyn_type_is_array (underlying_type a t) \<Longrightarrow>
    table_at (a_arrays a) (underlying_type a t - DYN_TYPE_ARRAY_BASE) = Some ar \<Longrightarrow>
    has_size se a (aa_element ar) n \<Longrightarrow> has_size se a t (n * unat (aa_length ar))"

lemma array_not_other:
  assumes "dyn_type_is_array t"
  shows "\<not> dyn_type_is_pointer t" "\<not> dyn_type_is_function t" "\<not> dyn_type_is_struct t" "\<not> dyn_type_is_enum t"
    "\<not> t < DYN_TYPE_STRUCT_BASE"
  using assms by (auto simp: dyn_type_is_array_def dyn_type_is_pointer_def dyn_type_is_function_def
      dyn_type_is_struct_def dyn_type_is_enum_def word_le_nat_alt word_less_nat_alt)

lemma small_not_array:
  assumes "dyn_type_is_array t"
  shows "t \<noteq> DYN_TYPE_BOOL" "t \<noteq> DYN_TYPE_I8" "t \<noteq> DYN_TYPE_I16" "t \<noteq> DYN_TYPE_I32" "t \<noteq> DYN_TYPE_I64"
    "t \<noteq> DYN_TYPE_U8" "t \<noteq> DYN_TYPE_U16" "t \<noteq> DYN_TYPE_U32" "t \<noteq> DYN_TYPE_U64" "t \<noteq> DYN_TYPE_ISIZE"
    "t \<noteq> DYN_TYPE_USIZE" "t \<noteq> DYN_TYPE_F32" "t \<noteq> DYN_TYPE_F64" "t \<noteq> DYN_TYPE_RAWPTR"
  using array_not_other(5) [OF assms] by (auto simp: word_less_nat_alt)

lemma layout_array:
  assumes "dyn_type_is_array (underlying_type a t)"
    and "table_at (a_arrays a) (underlying_type a t - DYN_TYPE_ARRAY_BASE) = Some ar"
  shows "sema_type_layout se a t False = Option.bind (sema_type_layout se a (aa_element ar) False)
    (\<lambda>element.
      if element \<noteq> 0 \<and> aa_length ar > (if se_pointer_bytes se = 4 then 2 ^ 32 - 1 else - 1) div element
      then Some 0 else Some (element * aa_length ar))"
  unfolding sema_type_layout.simps [of se a t False] Let_def
  using assms by (simp add: array_not_other small_not_array cong: if_cong)

lemma array_product:
  assumes "limit < 2 ^ 64" and "n \<le> limit"
  shows "(if n \<noteq> 0 \<and> unat (len :: u64) > limit div n then 0 else of_nat n * len) =
    (if n * unat len \<le> limit then of_nat (n * unat len) else (0 :: u64))"
proof (cases "n = 0")
  case False
  have "unat len > limit div n \<longleftrightarrow> \<not> n * unat len \<le> limit"
    using False by (simp add: not_le div_less_iff_less_mult mult.commute)
  then show ?thesis using False by simp
qed simp

lemma sizes_exact:
  assumes "has_size se a t n"
  shows "sema_type_layout se a t False = Some (if n \<le> address_limit se then of_nat n else 0)"
  using assms
proof (induction rule: has_size.induct)
  case (leaf t k)
  then show ?case by simp
next
  case (array t ar n)
  let ?L = "address_limit se"
  define m where "m = (if n \<le> ?L then n else 0)"
  have L: "?L < 2 ^ 64" "m \<le> ?L" by (auto simp: address_limit_def m_def)
  have m: "unat (of_nat m :: u64) = m" using L by (simp add: unat_of_nat)
  have limit: "unat ((if se_pointer_bytes se = 4 then 2 ^ 32 - 1 else - 1) :: u64) = ?L"
    by (simp add: address_limit_def unat_max)
  have "sema_type_layout se a t False = Some (if m \<noteq> 0 \<and> unat (aa_length ar) > ?L div m
      then 0 else of_nat m * aa_length ar)"
    using layout_array [OF array(1,2)] array.IH m limit
    by (simp add: m_def word_less_nat_alt unat_div unat_eq_0 [symmetric] split: if_splits)
  also have "\<dots> = Some (if m * unat (aa_length ar) \<le> ?L then of_nat (m * unat (aa_length ar)) else 0)"
    by (simp only: array_product [OF L])
  also have "\<dots> = Some (if n * unat (aa_length ar) \<le> ?L then of_nat (n * unat (aa_length ar)) else 0)"
    by (cases "unat (aa_length ar)") (auto simp: m_def)
  finally show ?case .
qed

subsection \<open>What crosses the C boundary\<close>

text \<open>
  \<open>holds_type a t u\<close>: a value of type \<open>t\<close> directly holds one of type \<open>u\<close>, or \<open>t\<close> is (a pointer
  to) a function type whose signature mentions \<open>u\<close>. Data behind an ordinary pointer is not held.
\<close>

inductive holds_type :: "ast_program \<Rightarrow> dyn_type \<Rightarrow> dyn_type \<Rightarrow> bool" for a where
  field: "dyn_type_is_struct (underlying_type a t) \<Longrightarrow>
    st = a_structs a ! unat (underlying_type a t - DYN_TYPE_STRUCT_BASE) \<Longrightarrow> i < unat (as_field_count st) \<Longrightarrow>
    holds_type a t (af_type (a_fields a ! unat (as_field_start st + of_nat i)))"
| element: "dyn_type_is_array (underlying_type a t) \<Longrightarrow>
    holds_type a t (aa_element (a_arrays a ! unat (underlying_type a t - DYN_TYPE_ARRAY_BASE)))"
| code: "dyn_type_is_pointer (underlying_type a t) \<Longrightarrow>
    u = underlying_type a (apt_pointee (a_pointers a ! unat (underlying_type a t - DYN_TYPE_POINTER_BASE))) \<Longrightarrow>
    dyn_type_is_function u \<Longrightarrow> holds_type a t u"
| return: "dyn_type_is_function (underlying_type a t) \<Longrightarrow>
    holds_type a t (aft_return_type (a_fn_types a ! unat (underlying_type a t - DYN_TYPE_FN_BASE)))"
| param: "dyn_type_is_function (underlying_type a t) \<Longrightarrow>
    fn = a_fn_types a ! unat (underlying_type a t - DYN_TYPE_FN_BASE) \<Longrightarrow> i < unat (aft_param_count fn) \<Longrightarrow>
    holds_type a t (a_fn_type_params a ! unat (aft_param_start fn + of_nat i))"

definition c_storage :: "ast_program \<Rightarrow> dyn_type \<Rightarrow> bool" where
  "c_storage a t \<longleftrightarrow> (let u = underlying_type a t in
     u \<noteq> DYN_TYPE_STRING \<and> u \<noteq> DYN_TYPE_ANY \<and> \<not> dyn_type_is_slice u \<and>
     (dyn_type_is_enum u \<longrightarrow> \<not> an_has_payload (a_enums a ! unat (u - DYN_TYPE_ENUM_BASE))) \<and>
     (dyn_type_is_array u \<longrightarrow> aa_length (a_arrays a ! unat (u - DYN_TYPE_ARRAY_BASE)) \<noteq> 0))"

lemmas type_class_defs = dyn_type_is_struct_def dyn_type_is_enum_def dyn_type_is_pointer_def
  dyn_type_is_array_def dyn_type_is_slice_def dyn_type_is_function_def dyn_type_is_distinct_def

lemma type_classes_disjoint:
  "dyn_type_is_struct t \<Longrightarrow> \<not> dyn_type_is_array t" "dyn_type_is_struct t \<Longrightarrow> \<not> dyn_type_is_enum t"
  "dyn_type_is_struct t \<Longrightarrow> \<not> dyn_type_is_pointer t" "dyn_type_is_struct t \<Longrightarrow> \<not> dyn_type_is_function t"
  "dyn_type_is_enum t \<Longrightarrow> \<not> dyn_type_is_array t" "dyn_type_is_pointer t \<Longrightarrow> \<not> dyn_type_is_array t"
  "dyn_type_is_pointer t \<Longrightarrow> \<not> dyn_type_is_enum t" "dyn_type_is_function t \<Longrightarrow> \<not> dyn_type_is_array t"
  "dyn_type_is_function t \<Longrightarrow> \<not> dyn_type_is_enum t" "dyn_type_is_function t \<Longrightarrow> \<not> dyn_type_is_pointer t"
  "dyn_type_is_function t \<Longrightarrow> \<not> dyn_type_is_struct t" "dyn_type_is_pointer t \<Longrightarrow> \<not> dyn_type_is_struct t"
  "dyn_type_is_enum t \<Longrightarrow> \<not> dyn_type_is_struct t" "dyn_type_is_array t \<Longrightarrow> \<not> dyn_type_is_struct t"
  by (auto simp: type_class_defs word_le_nat_alt word_less_nat_alt)

text \<open>The three types and the class that have no C representation.\<close>

definition descriptor :: "dyn_type \<Rightarrow> bool" where
  "descriptor t \<longleftrightarrow> t = DYN_TYPE_STRING \<or> t = DYN_TYPE_ANY \<or> dyn_type_is_slice t"

lemma not_descriptor:
  "dyn_type_is_struct t \<Longrightarrow> \<not> descriptor t" "dyn_type_is_enum t \<Longrightarrow> \<not> descriptor t"
  "dyn_type_is_pointer t \<Longrightarrow> \<not> descriptor t" "dyn_type_is_array t \<Longrightarrow> \<not> descriptor t"
  "dyn_type_is_function t \<Longrightarrow> \<not> descriptor t"
  by (auto simp: descriptor_def type_class_defs word_le_nat_alt word_less_nat_alt)

lemma abi_not_descriptor: "sema_c_abi_type a t depth \<Longrightarrow> \<not> descriptor (underlying_type a t) \<and> depth \<le> 128"
  unfolding sema_c_abi_type.simps [of a t depth] Let_def descriptor_def by (simp split: if_splits)

lemma abi_struct:
  assumes "dyn_type_is_struct (underlying_type a t)" and "sema_c_abi_type a t depth"
    and "i < unat (as_field_count (a_structs a ! unat (underlying_type a t - DYN_TYPE_STRUCT_BASE)))"
  shows "sema_c_abi_type a (af_type (a_fields a ! unat (as_field_start
    (a_structs a ! unat (underlying_type a t - DYN_TYPE_STRUCT_BASE)) + of_nat i))) (depth + 1)"
  using assms(2) not_descriptor(1) [OF assms(1)] abi_not_descriptor [OF assms(2)] assms(1,3)
  unfolding sema_c_abi_type.simps [of a t depth] Let_def descriptor_def list_all_iff
  by (simp split: if_split_asm)

lemma abi_array:
  assumes "dyn_type_is_array (underlying_type a t)" and "sema_c_abi_type a t depth"
  shows "aa_length (a_arrays a ! unat (underlying_type a t - DYN_TYPE_ARRAY_BASE)) \<noteq> 0"
    "sema_c_abi_type a (aa_element (a_arrays a ! unat (underlying_type a t - DYN_TYPE_ARRAY_BASE))) (depth + 1)"
  using assms(2) not_descriptor(4) [OF assms(1)] abi_not_descriptor [OF assms(2)]
    array_not_other [OF assms(1)] assms(1)
  unfolding sema_c_abi_type.simps [of a t depth] Let_def descriptor_def by simp_all

lemma abi_enum:
  assumes "dyn_type_is_enum (underlying_type a t)" and "sema_c_abi_type a t depth"
  shows "\<not> an_has_payload (a_enums a ! unat (underlying_type a t - DYN_TYPE_ENUM_BASE))"
  using assms(2) not_descriptor(2) [OF assms(1)] abi_not_descriptor [OF assms(2)]
    type_classes_disjoint(5,13) [OF assms(1)] assms(1)
  unfolding sema_c_abi_type.simps [of a t depth] Let_def descriptor_def by simp

lemma abi_pointer:
  assumes "dyn_type_is_pointer (underlying_type a t)" and "sema_c_abi_type a t depth"
    and "u = underlying_type a (apt_pointee (a_pointers a ! unat (underlying_type a t - DYN_TYPE_POINTER_BASE)))"
    and "dyn_type_is_function u"
  shows "sema_c_abi_type a u (depth + 1)"
  using assms(2) not_descriptor(3) [OF assms(1)] abi_not_descriptor [OF assms(2)]
    type_classes_disjoint(6,7,12) [OF assms(1)] assms(1,3,4)
  unfolding sema_c_abi_type.simps [of a t depth] Let_def descriptor_def by simp

lemma abi_function:
  assumes "dyn_type_is_function (underlying_type a t)" and "sema_c_abi_type a t depth"
    and "fn = a_fn_types a ! unat (underlying_type a t - DYN_TYPE_FN_BASE)"
  shows "sema_c_abi_type a (aft_return_type fn) (depth + 1)"
    and "i < unat (aft_param_count fn) \<Longrightarrow>
      sema_c_abi_type a (a_fn_type_params a ! unat (aft_param_start fn + of_nat i)) (depth + 1)"
  using assms(2) not_descriptor(5) [OF assms(1)] abi_not_descriptor [OF assms(2)]
    type_classes_disjoint(8-11) [OF assms(1)] assms(1,3)
  unfolding sema_c_abi_type.simps [of a t depth] Let_def descriptor_def list_all_iff by simp_all

lemma abi_storage_of:
  assumes "sema_c_abi_type a t depth"
  shows "c_storage a t"
  using abi_not_descriptor [OF assms] abi_enum [OF _ assms] abi_array(1) [OF _ assms]
  unfolding c_storage_def Let_def descriptor_def by blast

lemma abi_holds:
  assumes "holds_type a t u" and "sema_c_abi_type a t depth"
  shows "sema_c_abi_type a u (depth + 1)"
  using assms(1)
proof cases
  case (field st i)
  then show ?thesis using abi_struct [OF _ assms(2)] by simp
next
  case element
  then show ?thesis using abi_array(2) [OF _ assms(2)] by simp
next
  case code
  then show ?thesis using abi_pointer [OF _ assms(2)] by simp
next
  case return
  then show ?thesis using abi_function(1) [OF _ assms(2)] by simp
next
  case (param fn i)
  then show ?thesis using abi_function(2) [OF _ assms(2)] by simp
qed

lemma abi_reaches:
  assumes "(holds_type a)\<^sup>*\<^sup>* t u" and "sema_c_abi_type a t depth"
  shows "\<exists>d. sema_c_abi_type a u d"
  using assms(1)
proof (induction rule: rtranclp_induct)
  case base
  then show ?case using assms(2) by blast
next
  case (step u v)
  then show ?case using abi_holds by blast
qed

subsection \<open>Pointers and slices convert by adding const only\<close>

lemma plain_not_integer:
  assumes "dyn_type_is_pointer t \<or> dyn_type_is_slice t"
  shows "\<not> integer se t" "\<not> dyn_type_is_distinct t" "t \<noteq> DYN_TYPE_F32" "t \<noteq> DYN_TYPE_ANY"
proof -
  show d: "\<not> dyn_type_is_distinct t" "t \<noteq> DYN_TYPE_F32" "t \<noteq> DYN_TYPE_ANY"
    using assms by (auto simp: type_class_defs word_le_nat_alt word_less_nat_alt)
  then show "\<not> integer se t"
    using assms by (auto simp: integer_def underlying_plain type_class_defs word_le_nat_alt word_less_nat_alt)
qed

lemma lossless_plain:
  "dyn_type_is_pointer src \<or> dyn_type_is_slice src \<Longrightarrow> lossless se src dst \<longleftrightarrow> src = dst"
  using plain_not_integer [of src] by (simp add: lossless_def)

lemma pointer_info_class: "pointer_info a t = Some f \<Longrightarrow> dyn_type_is_pointer t \<and> slice_info a t = None"
  by (auto simp: pointer_info_def slice_info_def type_class_defs word_le_nat_alt word_less_nat_alt
      split: if_splits)

lemma slice_info_class: "slice_info a t = Some f \<Longrightarrow> dyn_type_is_slice t \<and> pointer_info a t = None"
  by (auto simp: pointer_info_def slice_info_def type_class_defs word_le_nat_alt word_less_nat_alt
      split: if_splits)

lemma can_convert_pointer:
  assumes "can_convert se a src dst" and "pointer_info a src = Some f" and "src \<noteq> dst" "dst \<noteq> DYN_TYPE_ANY"
  shows "\<not> apt_is_const f \<and> (dst = DYN_TYPE_RAWPTR \<or>
    (\<exists>t. pointer_info a dst = Some t \<and> apt_pointee t = apt_pointee f \<and> apt_is_const t))"
proof -
  have "\<not> lossless se src dst" using pointer_info_class [OF assms(2)] assms(3) by (simp add: lossless_plain)
  then show ?thesis
    using assms pointer_info_class [OF assms(2)] by (auto simp: can_convert_def Let_def split: if_splits)
qed

lemma can_convert_slice:
  assumes "can_convert se a src dst" and "slice_info a src = Some f" and "src \<noteq> dst" "dst \<noteq> DYN_TYPE_ANY"
  shows "\<not> asl_is_const f \<and> (\<exists>t. slice_info a dst = Some t \<and> asl_element t = asl_element f \<and> asl_is_const t)"
proof -
  have "\<not> lossless se src dst" using slice_info_class [OF assms(2)] assms(3) by (simp add: lossless_plain)
  then show ?thesis
    using assms slice_info_class [OF assms(2)] by (auto simp: can_convert_def Let_def split: if_splits)
qed

subsection \<open>Samples\<close>

definition empty_ast :: ast_program where
  "empty_ast = \<lparr>a_expressions = [], a_items = [], a_fields = [], a_structs = [], a_enums = [],
     a_variants = [], a_params = [], a_functions = [], a_globals = [], a_global_init_order = [],
     a_pointers = [], a_arrays = [], a_slices = [], a_fn_types = [], a_fn_type_params = [],
     a_aliases = [], a_strings = [], a_statements = [], a_patterns = [], a_case_arms = [],
     a_children = [], a_locals = [], a_asserts = [], a_generics = [], a_generic_params = [], a_instances = [],
     a_type_capacity_exceeded = False\<rparr>"

definition sample_alias :: "dyn_type \<Rightarrow> ast_alias" where
  "sample_alias t = \<lparr>al_name = \<lparr>start_byte = 0, end_byte = 0\<rparr>, al_target = t, al_distinct = True,
     al_is_public = False, al_module_owner = 0\<rparr>"

definition sample_types :: ast_program where
  "sample_types = empty_ast\<lparr>
     a_aliases := [sample_alias (DYN_TYPE_DISTINCT_BASE + 1), sample_alias DYN_TYPE_I32],
     a_pointers := [\<lparr>apt_pointee = DYN_TYPE_U8, apt_is_const = False\<rparr>,
       \<lparr>apt_pointee = DYN_TYPE_U8, apt_is_const = True\<rparr>],
     a_arrays := [\<lparr>aa_element = DYN_TYPE_I32, aa_length = 10\<rparr>]\<rparr>"

definition sample_sema :: sema where
  "sample_sema = \<lparr>se_program = sample_types, se_pointer_bytes = 4\<rparr>"

subsection \<open>Properties\<close>

text \<open>C22. Resolving a type through its aliases ends at a type that is not an alias whenever the
  aliases have no cycle, and the result is its own underlying type.\<close>

theorem aliases_resolve:
  assumes "alias_ranked a rank"
  shows "\<not> dyn_type_is_distinct (underlying_type a t) \<and>
    underlying_type a (underlying_type a t) = underlying_type a t"
  using underlying_ends [OF assms] underlying_plain by blast

theorem aliases_resolve_witness:
  "alias_ranked sample_types (\<lambda>i. 2 - i) \<and>
   \<not> dyn_type_is_distinct (underlying_type sample_types DYN_TYPE_DISTINCT_BASE)"
proof -
  have "alias_ranked sample_types (\<lambda>i. 2 - i)"
    by (simp add: alias_ranked_def sample_types_def sample_alias_def empty_ast_def Let_def alias_index_def
        type_class_defs less_Suc_eq)
  then show ?thesis using aliases_resolve by blast
qed

text \<open>C20. Between two different integer types the implicit conversion is allowed exactly when the target's range is strictly
  larger and contains every value of the source (types of the same range, such as \<open>usize\<close> and \<open>u64\<close> on a 64-bit target, do not
  convert to each other); from an integer to a float type it is allowed exactly when the float represents every value of the
  integer type.\<close>

theorem lossless_is_widening:
  assumes "target_width se" and "src \<noteq> dst" and "\<not> dyn_type_is_distinct src" and "\<not> dyn_type_is_distinct dst"
    and "integer se src"
  shows "(integer se dst \<longrightarrow> (lossless se src dst \<longleftrightarrow> type_range se src \<subset> type_range se dst)) \<and>
    (dst = DYN_TYPE_F32 \<or> dst = DYN_TYPE_F64 \<longrightarrow>
      (lossless se src dst \<longleftrightarrow> (\<forall>v \<in> type_range se src. float_exact (float_precision dst) v)))"
  using lossless_range [OF assms(1-4)] lossless_float_range [OF assms(1,5,3,4)] assms(5) by blast

theorem lossless_is_widening_witness:
  "lossless sample_sema DYN_TYPE_U16 DYN_TYPE_I32 \<longleftrightarrow>
   type_range sample_sema DYN_TYPE_U16 \<subset> type_range sample_sema DYN_TYPE_I32"
proof -
  have plain: "\<not> dyn_type_is_distinct DYN_TYPE_U16" "\<not> dyn_type_is_distinct DYN_TYPE_I32"
    by (simp_all add: type_class_defs)
  have "target_width sample_sema" by (simp add: target_width_def sample_sema_def)
  moreover have "integer sample_sema DYN_TYPE_U16" "integer sample_sema DYN_TYPE_I32"
    by (simp_all add: integer_def underlying_plain [OF plain(1)] underlying_plain [OF plain(2)])
  ultimately show ?thesis
    using lossless_is_widening [of sample_sema DYN_TYPE_U16 DYN_TYPE_I32] plain by simp
qed

text \<open>C21. The literal and the constant range checks accept a value exactly when it belongs to the
  integer type.\<close>

theorem range_checks_exact:
  assumes "target_width se" and "- (2 ^ 63) \<le> w" and "w < 2 ^ 63"
  shows "(literal_fits se v t \<longleftrightarrow> integer se t \<and> uint v \<in> type_range se t) \<and>
    (constant_fits_type se w t \<longleftrightarrow> integer se t \<and> w \<in> type_range se t)"
  using literal_fits_range [OF assms(1)] constant_fits_range [OF assms] by blast

theorem range_checks_exact_witness:
  "literal_fits sample_sema 200 DYN_TYPE_U8 \<longleftrightarrow>
   integer sample_sema DYN_TYPE_U8 \<and> uint (200 :: u64) \<in> type_range sample_sema DYN_TYPE_U8"
  using range_checks_exact [of sample_sema 0 200 DYN_TYPE_U8]
  by (simp add: target_width_def sample_sema_def)

text \<open>C33. The size of a type built from nested arrays is the exact product of all lengths and the size of the innermost
  element when that product fits the target's address space, and 0 otherwise: the 64-bit computation never wraps, on targets with 4
  or 8 byte pointers, whatever the nesting.\<close>

theorem array_size_exact:
  assumes "has_size se a t n"
  shows "sema_type_layout se a t False = Some (if n \<le> address_limit se then of_nat n else 0)"
  by (rule sizes_exact [OF assms])

text \<open>Ten integers, and \<open>2 ^ 30\<close> times ten integers, which does not fit 32 bits.\<close>

definition sample_arrays :: ast_program where
  "sample_arrays = sample_types\<lparr>a_arrays := [\<lparr>aa_element = DYN_TYPE_I32, aa_length = 10\<rparr>,
     \<lparr>aa_element = DYN_TYPE_ARRAY_BASE, aa_length = 0x40000000\<rparr>]\<rparr>"

theorem array_size_exact_witness:
  "sema_type_layout sample_sema sample_arrays DYN_TYPE_ARRAY_BASE False = Some 40 \<and>
   sema_type_layout sample_sema sample_arrays (DYN_TYPE_ARRAY_BASE + 1) False = Some 0"
proof -
  have plain: "underlying_type sample_arrays t = t" if "t \<in> {DYN_TYPE_I32, DYN_TYPE_ARRAY_BASE, DYN_TYPE_ARRAY_BASE + 1}" for t
    using that by (intro underlying_plain) (auto simp: type_class_defs)
  have rows: "a_arrays sample_arrays = [\<lparr>aa_element = DYN_TYPE_I32, aa_length = 10\<rparr>,
     \<lparr>aa_element = DYN_TYPE_ARRAY_BASE, aa_length = 0x40000000\<rparr>]" by (simp add: sample_arrays_def)
  have "has_size sample_sema sample_arrays DYN_TYPE_I32 (unat (4 :: u64))"
    by (rule has_size.leaf) (simp_all add: plain type_class_defs address_limit_def sample_sema_def sema_type_layout.simps)
  then have ten: "has_size sample_sema sample_arrays DYN_TYPE_ARRAY_BASE (unat (4 :: u64) * unat (10 :: u64))"
    using has_size.array [of sample_arrays DYN_TYPE_ARRAY_BASE "\<lparr>aa_element = DYN_TYPE_I32, aa_length = 10\<rparr>"
        sample_sema "unat (4 :: u64)"]
    by (simp add: plain type_class_defs table_at_def rows)
  then have "has_size sample_sema sample_arrays (DYN_TYPE_ARRAY_BASE + 1) (unat (4 :: u64) * unat (10 :: u64) * unat (0x40000000 :: u64))"
    using has_size.array [of sample_arrays "DYN_TYPE_ARRAY_BASE + 1" "\<lparr>aa_element = DYN_TYPE_ARRAY_BASE, aa_length = 0x40000000\<rparr>"
        sample_sema "unat (4 :: u64) * unat (10 :: u64)"]
    by (simp add: plain type_class_defs table_at_def rows)
  from array_size_exact [OF ten] array_size_exact [OF this] show ?thesis
    by (simp add: address_limit_def sample_sema_def)
qed

text \<open>An implicit conversion of a pointer or a slice keeps what it points at and never drops
  const: a const pointer or slice converts to no other type than \<open>any\<close>.\<close>

lemma conversion_keeps_const:
  assumes "can_convert se a src dst" and "src \<noteq> dst" and "dst \<noteq> DYN_TYPE_ANY"
  shows "(\<forall>f. pointer_info a src = Some f \<longrightarrow> \<not> apt_is_const f \<and> (dst = DYN_TYPE_RAWPTR \<or>
      (\<exists>t. pointer_info a dst = Some t \<and> apt_pointee t = apt_pointee f \<and> apt_is_const t))) \<and>
    (\<forall>f. slice_info a src = Some f \<longrightarrow> \<not> asl_is_const f \<and>
      (\<exists>t. slice_info a dst = Some t \<and> asl_element t = asl_element f \<and> asl_is_const t))"
  using can_convert_pointer [OF assms(1) _ assms(2,3)] can_convert_slice [OF assms(1) _ assms(2,3)] by blast

text \<open>A foreign function that passes the check has only C-compatible storage in its signature:
  nothing its parameters and result hold, at any depth, is a string, an \<open>any\<close>, a slice, an enum with
  a payload or an empty array, and no parameter or result is itself an array.\<close>

lemma foreign_signature_storage:
  assumes "sema_c_abi_function a fn" and "afn_foreign fn"
    and "t = afn_return_type fn \<or> (\<exists>i < unat (afn_param_count fn).
      t = ap_type (a_params a ! unat (afn_param_start fn + of_nat i)))"
    and "(holds_type a)\<^sup>*\<^sup>* t u"
  shows "c_storage a u \<and> \<not> dyn_type_is_array (underlying_type a t)"
proof -
  have "sema_c_abi_type a t 0 \<and> \<not> dyn_type_is_array (underlying_type a t)"
    using assms(1-3) by (auto simp: sema_c_abi_function_def list_all_iff Let_def split: if_splits)
  then show ?thesis using abi_reaches [OF assms(4)] abi_storage_of by blast
qed

definition sample_foreign :: ast_fn where
  "sample_foreign = \<lparr>afn_span = \<lparr>start_byte = 0, end_byte = 0\<rparr>, afn_name = \<lparr>start_byte = 0, end_byte = 0\<rparr>,
     afn_link_name = \<lparr>start_byte = 0, end_byte = 0\<rparr>,
     afn_variadic_name = \<lparr>start_byte = 0, end_byte = 0\<rparr>, afn_return_type = DYN_TYPE_I32, afn_param_start = 0,
     afn_param_count = 0, afn_body_start = 0, afn_body_count = 0, afn_local_start = 0, afn_local_count = 0,
     afn_is_main = False, afn_foreign = True, afn_variadic = False, afn_is_public = False, afn_interface_only = False,
     afn_is_generic = False, afn_is_instance = False, afn_body_pending = False, afn_generic = 0, afn_instance = 0, afn_module_owner = 0,
     afn_variadic_type = 0, afn_variadic_local_id = 0\<rparr>"

end
