(* ===== verification/Type_Name.thy ===== *)
theory Type_Name
  imports Name_Index Sema_Types
begin

text \<open>
  Names and identities of types: the spelling used in diagnostics, debug names and reflection
  (\<open>src/src/sema.c\<close>, lines 1022-1139, and \<open>dyn_type_name\<close> of \<open>src/src/ast.c\<close>), and the hash that
  names instances of generic functions (lines 1264-1321).

  The functions recur over the type tables; a model function takes the recursion depth it may use,
  and \<open>None\<close> means that the depth was not enough or that a code lies outside its table. For
  types that have a \<open>shape\<close> some depth always suffices. A C buffer of \<open>cap\<close> bytes is the text in
  it, which \<open>snprintf\<close> cuts to \<open>cap - 1\<close> bytes (\<open>clip\<close>); names are identifiers and hold no zero byte.
\<close>

unbundle bit_operations_syntax

subsection \<open>Spelling\<close>

definition basic_names :: "string list" where
  "basic_names = [''<infer>'', ''<error>'', ''void'', ''bool'', ''i8'', ''i16'', ''i32'', ''i64'', ''u8'', ''u16'',
     ''u32'', ''u64'', ''isize'', ''usize'', ''f32'', ''f64'', ''[]const u8'', ''rawptr'', ''any'']"

definition dyn_type_name :: "dyn_type \<Rightarrow> bytes option" where
  "dyn_type_name t =
     (if t < DYN_TYPE_STRUCT_BASE
      then if unat t < length basic_names then Some (cstr (basic_names ! unat t)) else None
      else Some (cstr (if dyn_type_is_enum t then ''enum'' else if dyn_type_is_pointer t then ''pointer''
        else if dyn_type_is_array t then ''array'' else if dyn_type_is_slice t then ''slice'' else ''struct'')))"

definition clip :: "nat \<Rightarrow> bytes \<Rightarrow> bytes" where
  "clip cap text = take (cap - 1) text"

fun digits :: "nat \<Rightarrow> bytes" where
  "digits n = (if n < 10 then [of_nat (48 + n)] else digits (n div 10) @ [of_nat (48 + n mod 10)])"

declare digits.simps [simp del]

text \<open>A name without the prefix \<open>dyn_m<16 hex digits>_\<close> that module rewriting adds.\<close>

definition strip_module :: "bytes \<Rightarrow> bytes" where
  "strip_module name =
     (if length name > 22 \<and> take 5 name = cstr ''dyn_m'' \<and> name ! 21 = of_char CHR ''_'' then drop 22 name else name)"

text \<open>The parameters of a function type, written while there is room.\<close>

definition comma :: bytes where
  "comma = cstr '', ''"

fun name_params ::
  "(dyn_type \<Rightarrow> bytes option) \<Rightarrow> dyn_type list \<Rightarrow> u32 \<Rightarrow> nat \<Rightarrow> nat list \<Rightarrow> bytes \<times> nat \<Rightarrow> (bytes \<times> nat) option" where
  "name_params f pool start cap [] st = Some st"
| "name_params f pool start cap (i # is) (out, at) =
     (if at < cap then
        Option.bind (table_at pool (start + of_nat i)) (\<lambda>t. Option.bind (f t) (\<lambda>inner.
          let piece = (if i \<noteq> 0 then comma else []) @ inner
          in name_params f pool start cap is (out @ clip (cap - at) piece, at + length piece)))
      else Some (out, at))"

fun type_name_into :: "nat \<Rightarrow> ast_program \<Rightarrow> dyn_type \<Rightarrow> source \<Rightarrow> nat \<Rightarrow> bytes option" where
  "type_name_into 0 a t s cap = None"
| "type_name_into (Suc n) a t s cap =
     (if cap = 0 then Some []
      else Option.bind (dyn_type_name t) (\<lambda>basic.
        if t < DYN_TYPE_STRUCT_BASE \<and> basic \<noteq> cstr ''unknown'' then Some (clip cap basic)
        else if dyn_type_is_struct t then
          map_option (\<lambda>r. clip cap (strip_module (span_bytes_of s (as_name r))))
            (table_at (a_structs a) (t - DYN_TYPE_STRUCT_BASE))
        else if dyn_type_is_enum t then
          map_option (\<lambda>r. clip cap (strip_module (span_bytes_of s (an_name r))))
            (table_at (a_enums a) (t - DYN_TYPE_ENUM_BASE))
        else if dyn_type_is_pointer t then
          Option.bind (pointer_info a t) (\<lambda>p.
            Option.bind (type_name_into n a (apt_pointee p) s 384) (\<lambda>inner.
              Some (clip cap
                (if dyn_type_is_function (apt_pointee p) \<and> \<not> apt_is_const p then inner
                 else cstr ''*'' @ cstr (if apt_is_const p then ''const '' else []) @ inner))))
        else if dyn_type_is_array t then
          Option.bind (array_info a t) (\<lambda>ar.
            Option.bind (type_name_into n a (aa_element ar) s 384) (\<lambda>inner.
              Some (clip cap (cstr ''['' @ digits (unat (aa_length ar)) @ cstr '']'' @ inner))))
        else if dyn_type_is_slice t then
          Option.bind (slice_info a t) (\<lambda>sl.
            Option.bind (type_name_into n a (asl_element sl) s 384) (\<lambda>inner.
              Some (clip cap (cstr ''[]'' @ cstr (if asl_is_const sl then ''const '' else []) @ inner))))
        else if dyn_type_is_function t then
          Option.bind (fn_type_info a t) (\<lambda>fn.
            Option.bind (name_params (\<lambda>t. type_name_into n a t s 384) (a_fn_type_params a) (aft_param_start fn) cap
                [0..<unat (aft_param_count fn)] (clip cap (cstr ''fn(''), 3)) (\<lambda>(out, at).
              if at < cap then
                Option.bind (type_name_into n a (aft_return_type fn) s 384) (\<lambda>inner.
                  Some (out @ clip (cap - at) (cstr '') '' @ inner)))
              else Some out))
        else Some (clip cap (cstr ''unknown''))))"

definition display_type_name :: "nat \<Rightarrow> ast_program \<Rightarrow> dyn_type \<Rightarrow> source \<Rightarrow> nat \<Rightarrow> bytes option" where
  "display_type_name n a t s cap =
     (if \<not> dyn_type_is_distinct t then type_name_into n a t s cap
      else
        let i = unat (t - DYN_TYPE_DISTINCT_BASE) in
        if i \<ge> length (a_aliases a) \<or> cap = 0 then Some []
        else Some (clip cap (span_bytes_of s (al_name (a_aliases a ! i)))))"

definition dyn_type_format :: "nat \<Rightarrow> ast_program \<Rightarrow> dyn_type \<Rightarrow> source \<Rightarrow> nat \<Rightarrow> bytes option" where
  "dyn_type_format n a t s cap = display_type_name n a t s cap"

definition reflection_id :: "bytes \<Rightarrow> u64" where
  "reflection_id name = fold (\<lambda>b h. (h XOR ucast b) * 1099511628211) name 1469598103934665603"

definition reflection_kind :: "sema \<Rightarrow> dyn_type \<Rightarrow> u32" where
  "reflection_kind se t =
     (if t = DYN_TYPE_VOID then 1 else if t = DYN_TYPE_BOOL then 2 else if integer se t then 3
      else if t = DYN_TYPE_F32 \<or> t = DYN_TYPE_F64 then 4 else if dyn_type_is_pointer t then 5
      else if dyn_type_is_array t then 6 else if dyn_type_is_slice t then 7 else if dyn_type_is_struct t then 8
      else if dyn_type_is_enum t then 9 else if dyn_type_is_function t then 10 else 0)"

subsection \<open>Instance hashes\<close>

fun hash_word_loop :: "nat \<Rightarrow> u64 \<Rightarrow> u64 \<Rightarrow> u64" where
  "hash_word_loop 0 hash v = hash"
| "hash_word_loop (Suc n) hash v = hash_word_loop n ((hash XOR ucast (ucast v :: u8)) * 1099511628211) (drop_bit 8 v)"

definition instance_hash_word :: "u64 \<Rightarrow> u64 \<Rightarrow> u64" where
  "instance_hash_word hash v = hash_word_loop 8 hash v"

definition instance_hash_name :: "source \<Rightarrow> span \<Rightarrow> u64 \<Rightarrow> u64" where
  "instance_hash_name s name hash = fold (\<lambda>i hash. (hash XOR ucast (src_text s ! i)) * 1099511628211)
     [unat (start_byte name)..<unat (end_byte name)]
     (instance_hash_word hash (ucast (end_byte name - start_byte name)))"

fun instance_hash_type :: "nat \<Rightarrow> ast_program \<Rightarrow> source \<Rightarrow> dyn_type \<Rightarrow> u64 \<Rightarrow> u64 option" where
  "instance_hash_type 0 a s t hash = None"
| "instance_hash_type (Suc n) a s t hash =
     (if dyn_type_is_struct t then
        map_option (\<lambda>r. instance_hash_name s (as_name r) (instance_hash_word hash (ucast DYN_TYPE_STRUCT_BASE)))
          (table_at (a_structs a) (t - DYN_TYPE_STRUCT_BASE))
      else if dyn_type_is_enum t then
        map_option (\<lambda>r. instance_hash_name s (an_name r) (instance_hash_word hash (ucast DYN_TYPE_ENUM_BASE)))
          (table_at (a_enums a) (t - DYN_TYPE_ENUM_BASE))
      else if dyn_type_is_distinct t then
        map_option (\<lambda>r. instance_hash_name s (al_name r) (instance_hash_word hash (ucast DYN_TYPE_DISTINCT_BASE)))
          (table_at (a_aliases a) (t - DYN_TYPE_DISTINCT_BASE))
      else if dyn_type_is_pointer t then
        Option.bind (pointer_info a t) (\<lambda>p. instance_hash_type n a s (apt_pointee p)
          (instance_hash_word (instance_hash_word hash (ucast DYN_TYPE_POINTER_BASE)) (of_bool (apt_is_const p))))
      else if dyn_type_is_array t then
        Option.bind (array_info a t) (\<lambda>v. instance_hash_type n a s (aa_element v)
          (instance_hash_word (instance_hash_word hash (ucast DYN_TYPE_ARRAY_BASE)) (aa_length v)))
      else if dyn_type_is_slice t then
        Option.bind (slice_info a t) (\<lambda>v. instance_hash_type n a s (asl_element v)
          (instance_hash_word (instance_hash_word hash (ucast DYN_TYPE_SLICE_BASE)) (of_bool (asl_is_const v))))
      else if dyn_type_is_function t then
        Option.bind (fn_type_info a t) (\<lambda>f.
          let hash = instance_hash_word hash (ucast DYN_TYPE_FN_BASE);
              hash = instance_hash_word hash (of_bool (aft_variadic f));
              hash = instance_hash_word hash (ucast (aft_param_count f))
          in fold (\<lambda>i h. Option.bind h (\<lambda>hash.
                Option.bind (table_at (a_fn_type_params a) (aft_param_start f + of_nat i)) (\<lambda>t.
                  instance_hash_type n a s t hash)))
              [0..<unat (aft_param_count f)] (instance_hash_type n a s (aft_return_type f) hash))
      else Some (instance_hash_word hash (ucast t)))"

definition instance_hash :: "nat \<Rightarrow> ast_program \<Rightarrow> source \<Rightarrow> dyn_type list \<Rightarrow> u64 option" where
  "instance_hash n a s args = fold (\<lambda>t h. Option.bind h (instance_hash_type n a s t)) args
     (Some (instance_hash_word 1469598103934665603 (ucast (of_nat (length args) :: u32))))"

subsection \<open>Shapes\<close>

text \<open>
  A shape is a type as the programmer wrote it: its structure down to builtin and named types.
  \<open>shape_of a s t d\<close> reads the shape of a type code from the tables.
\<close>

datatype shape =
    Builtin dyn_type
  | Struct_named bytes
  | Enum_named bytes
  | Alias_named bytes
  | Pointer_to bool shape
  | Array_of u64 shape
  | Slice_of bool shape
  | Function_of bool shape "shape list"

inductive shape_of :: "ast_program \<Rightarrow> source \<Rightarrow> dyn_type \<Rightarrow> shape \<Rightarrow> bool" for a s where
  builtin: "t < DYN_TYPE_STRUCT_BASE \<or> t \<ge> DYN_TYPE_PARAM_BASE \<Longrightarrow> shape_of a s t (Builtin t)"
| struct: "dyn_type_is_struct t \<Longrightarrow> table_at (a_structs a) (t - DYN_TYPE_STRUCT_BASE) = Some r \<Longrightarrow>
    span_ok s (as_name r) \<Longrightarrow> shape_of a s t (Struct_named (span_bytes_of s (as_name r)))"
| enum: "dyn_type_is_enum t \<Longrightarrow> table_at (a_enums a) (t - DYN_TYPE_ENUM_BASE) = Some r' \<Longrightarrow>
    span_ok s (an_name r') \<Longrightarrow> shape_of a s t (Enum_named (span_bytes_of s (an_name r')))"
| distinct: "dyn_type_is_distinct t \<Longrightarrow> table_at (a_aliases a) (t - DYN_TYPE_DISTINCT_BASE) = Some al \<Longrightarrow>
    span_ok s (al_name al) \<Longrightarrow> shape_of a s t (Alias_named (span_bytes_of s (al_name al)))"
| pointer: "pointer_info a t = Some p \<Longrightarrow> shape_of a s (apt_pointee p) d \<Longrightarrow>
    shape_of a s t (Pointer_to (apt_is_const p) d)"
| array: "array_info a t = Some ar \<Longrightarrow> shape_of a s (aa_element ar) d \<Longrightarrow>
    shape_of a s t (Array_of (aa_length ar) d)"
| slice: "slice_info a t = Some sl \<Longrightarrow> shape_of a s (asl_element sl) d \<Longrightarrow>
    shape_of a s t (Slice_of (asl_is_const sl) d)"
| fn: "fn_type_info a t = Some fn \<Longrightarrow> shape_of a s (aft_return_type fn) d \<Longrightarrow>
    length ds = unat (aft_param_count fn) \<Longrightarrow>
    (\<And>i. i < length ds \<Longrightarrow> \<exists>u. table_at (a_fn_type_params a) (aft_param_start fn + of_nat i) = Some u \<and>
      shape_of a s u (ds ! i)) \<Longrightarrow>
    shape_of a s t (Function_of (aft_variadic fn) d ds)"

text \<open>The eight bytes of a word and the byte string of a shape, which the hash reads.\<close>

definition word_bytes :: "u64 \<Rightarrow> bytes" where
  "word_bytes v = map (\<lambda>i. ucast (drop_bit (8 * i) v)) [0..<8]"

fun encode :: "shape \<Rightarrow> bytes" where
  "encode (Builtin t) = word_bytes (ucast t)"
| "encode (Struct_named n) = word_bytes (ucast DYN_TYPE_STRUCT_BASE) @ word_bytes (of_nat (length n)) @ n"
| "encode (Enum_named n) = word_bytes (ucast DYN_TYPE_ENUM_BASE) @ word_bytes (of_nat (length n)) @ n"
| "encode (Alias_named n) = word_bytes (ucast DYN_TYPE_DISTINCT_BASE) @ word_bytes (of_nat (length n)) @ n"
| "encode (Pointer_to c d) = word_bytes (ucast DYN_TYPE_POINTER_BASE) @ word_bytes (of_bool c) @ encode d"
| "encode (Array_of k d) = word_bytes (ucast DYN_TYPE_ARRAY_BASE) @ word_bytes k @ encode d"
| "encode (Slice_of c d) = word_bytes (ucast DYN_TYPE_SLICE_BASE) @ word_bytes (of_bool c) @ encode d"
| "encode (Function_of v d ds) = word_bytes (ucast DYN_TYPE_FN_BASE) @ word_bytes (of_bool v) @
     word_bytes (of_nat (length ds)) @ encode d @ concat (map encode ds)"

fun shape_ok :: "shape \<Rightarrow> bool" where
  "shape_ok (Builtin t) \<longleftrightarrow> t < DYN_TYPE_STRUCT_BASE \<or> t \<ge> DYN_TYPE_PARAM_BASE"
| "shape_ok (Struct_named n) \<longleftrightarrow> length n < 2 ^ 32"
| "shape_ok (Enum_named n) \<longleftrightarrow> length n < 2 ^ 32"
| "shape_ok (Alias_named n) \<longleftrightarrow> length n < 2 ^ 32"
| "shape_ok (Pointer_to c d) \<longleftrightarrow> shape_ok d"
| "shape_ok (Array_of k d) \<longleftrightarrow> shape_ok d"
| "shape_ok (Slice_of c d) \<longleftrightarrow> shape_ok d"
| "shape_ok (Function_of v d ds) \<longleftrightarrow> length ds < 2 ^ 32 \<and> shape_ok d \<and> list_all shape_ok ds"

subsection \<open>The hashed bytes identify the shape\<close>

lemma length_word_bytes [simp]: "length (word_bytes v) = 8"
  by (simp add: word_bytes_def)

lemma word_bytes_inject [simp]: "word_bytes v = word_bytes w \<longleftrightarrow> v = w"
proof
  assume eq: "word_bytes v = word_bytes w"
  show "v = w"
  proof (rule bit_word_eqI)
    fix n assume "n < LENGTH(64)"
    then have n: "n div 8 < 8" "n = 8 * (n div 8) + n mod 8" "n mod 8 < 8" by simp_all
    from eq n(1) have "word_bytes v ! (n div 8) = word_bytes w ! (n div 8)" by simp
    then have "bit (ucast (drop_bit (8 * (n div 8)) v) :: u8) (n mod 8) =
        bit (ucast (drop_bit (8 * (n div 8)) w) :: u8) (n mod 8)"
      using n(1) by (simp add: word_bytes_def)
    then show "bit v n = bit w n"
      using n by (simp add: bit_simps)
  qed
qed simp

lemma word_bytes_append [simp]: "word_bytes v @ x = word_bytes w @ y \<longleftrightarrow> v = w \<and> x = y"
  by (simp add: append_eq_append_conv)

lemma of_nat_64_inject [simp]:
  "m < 4294967296 \<Longrightarrow> n < 4294967296 \<Longrightarrow> (of_nat m :: u64) = of_nat n \<longleftrightarrow> m = n"
  by (simp add: word_of_nat_eq_iff take_bit_nat_eq_self)

lemma concat_inject:
  assumes "\<And>d d' x y. d \<in> set ds \<Longrightarrow> shape_ok d' \<Longrightarrow> encode d @ x = encode d' @ y \<Longrightarrow> d = d' \<and> x = y"
    and "length ds = length ds'" and "list_all shape_ok ds'"
    and "concat (map encode ds) @ x = concat (map encode ds') @ y"
  shows "ds = ds' \<and> x = y"
  using assms
proof (induction ds arbitrary: ds' x y)
  case (Cons d ds)
  from Cons.prems(2) obtain d' ds'' where ds': "ds' = d' # ds''" by (cases ds') auto
  have "d = d' \<and> concat (map encode ds) @ x = concat (map encode ds'') @ y"
    using Cons.prems(1) [of d d'] Cons.prems(3,4) by (simp add: ds')
  moreover have "ds = ds'' \<and> x = y" if "concat (map encode ds) @ x = concat (map encode ds'') @ y"
    using that Cons.prems(1-3) by (intro Cons.IH) (auto simp: ds')
  ultimately show ?case by (simp add: ds')
qed simp

lemma ucast_32_64 [simp]: "(ucast (t :: u32) :: u64) = ucast u \<longleftrightarrow> t = u"
proof
  assume "(ucast t :: u64) = ucast u"
  then have "unat (ucast t :: u64) = unat (ucast u :: u64)" by simp
  then show "t = u" by (simp only: unat_ucast_widen word_unat_eq_iff)
qed simp

text \<open>The first word of an encoding, and what follows it.\<close>

fun tag :: "shape \<Rightarrow> dyn_type" where
  "tag (Builtin t) = t"
| "tag (Struct_named n) = DYN_TYPE_STRUCT_BASE"
| "tag (Enum_named n) = DYN_TYPE_ENUM_BASE"
| "tag (Alias_named n) = DYN_TYPE_DISTINCT_BASE"
| "tag (Pointer_to c d) = DYN_TYPE_POINTER_BASE"
| "tag (Array_of k d) = DYN_TYPE_ARRAY_BASE"
| "tag (Slice_of c d) = DYN_TYPE_SLICE_BASE"
| "tag (Function_of v d ds) = DYN_TYPE_FN_BASE"

definition body :: "shape \<Rightarrow> bytes" where
  "body d = drop 8 (encode d)"

lemma body_simps:
  "body (Builtin t) = []"
  "body (Struct_named n) = word_bytes (of_nat (length n)) @ n"
  "body (Enum_named n) = word_bytes (of_nat (length n)) @ n"
  "body (Alias_named n) = word_bytes (of_nat (length n)) @ n"
  "body (Pointer_to c d) = word_bytes (of_bool c) @ encode d"
  "body (Array_of k d) = word_bytes k @ encode d"
  "body (Slice_of c d) = word_bytes (of_bool c) @ encode d"
  "body (Function_of v d ds) = word_bytes (of_bool v) @ word_bytes (of_nat (length ds)) @ encode d @
     concat (map encode ds)"
  by (simp_all add: body_def)

lemma encode_tag: "encode d = word_bytes (ucast (tag d)) @ body d"
  by (cases d) (simp_all add: body_simps)

lemma encode_split: "encode d @ x = encode d' @ y \<Longrightarrow> tag d = tag d' \<and> body d @ x = body d' @ y"
  unfolding encode_tag append_assoc word_bytes_append ucast_32_64 .

lemma of_bool_inject [simp]: "(of_bool b :: u64) = of_bool c \<longleftrightarrow> b = c"
  by simp

lemma encode_inject:
  "shape_ok d \<Longrightarrow> shape_ok d' \<Longrightarrow> encode d @ x = encode d' @ y \<Longrightarrow> d = d' \<and> x = y"
proof (induction d arbitrary: d' x y)
  case (Builtin t)
  then show ?case by (cases d') (auto dest!: encode_split simp: body_simps simp del: encode.simps)
next
  case (Struct_named n)
  then show ?case by (cases d') (auto dest!: encode_split simp: body_simps simp del: encode.simps)
next
  case (Enum_named n)
  then show ?case by (cases d') (auto dest!: encode_split simp: body_simps simp del: encode.simps)
next
  case (Alias_named n)
  then show ?case by (cases d') (auto dest!: encode_split simp: body_simps simp del: encode.simps)
next
  case (Pointer_to c d)
  note split = encode_split [OF Pointer_to.prems(3)]
  show ?case
  proof (cases d')
    case (Pointer_to c' r)
    with split have "c = c'" "encode d @ x = encode r @ y" by (auto simp: body_simps simp del: encode.simps)
    then show ?thesis using Pointer_to.IH [of r x y] Pointer_to.prems(1,2) by (simp add: Pointer_to)
  qed (use split Pointer_to.prems(1,2) in \<open>auto simp: body_simps simp del: encode.simps\<close>)
next
  case (Array_of k d)
  note split = encode_split [OF Array_of.prems(3)]
  show ?case
  proof (cases d')
    case (Array_of c' r)
    with split have "k = c'" "encode d @ x = encode r @ y" by (auto simp: body_simps simp del: encode.simps)
    then show ?thesis using Array_of.IH [of r x y] Array_of.prems(1,2) by (simp add: Array_of)
  qed (use split Array_of.prems(1,2) in \<open>auto simp: body_simps simp del: encode.simps\<close>)
next
  case (Slice_of c d)
  note split = encode_split [OF Slice_of.prems(3)]
  show ?case
  proof (cases d')
    case (Slice_of c' r)
    with split have "c = c'" "encode d @ x = encode r @ y" by (auto simp: body_simps simp del: encode.simps)
    then show ?thesis using Slice_of.IH [of r x y] Slice_of.prems(1,2) by (simp add: Slice_of)
  qed (use split Slice_of.prems(1,2) in \<open>auto simp: body_simps simp del: encode.simps\<close>)
next
  case (Function_of v d ds)
  note split = encode_split [OF Function_of.prems(3)]
  show ?case
  proof (cases d')
    case (Function_of v' r ds')
    then have "v = v'" "length ds = length ds'"
      and rest: "encode d @ concat (map encode ds) @ x = encode r @ concat (map encode ds') @ y"
      using split Function_of.prems by (auto simp: body_simps simp del: encode.simps)
    moreover have "d = r \<and> concat (map encode ds) @ x = concat (map encode ds') @ y"
      using Function_of.IH(1) [OF _ _ rest] Function_of.prems by (simp add: Function_of)
    moreover have "ds = ds' \<and> x = y" if "concat (map encode ds) @ x = concat (map encode ds') @ y"
      using Function_of.IH(2) Function_of.prems(1,2) that \<open>length ds = length ds'\<close>
      by (intro concat_inject) (auto simp: Function_of list_all_iff simp del: encode.simps)
    ultimately show ?thesis by (simp add: Function_of)
  qed (use split Function_of.prems in \<open>auto simp: body_simps simp del: encode.simps\<close>)
qed

subsection \<open>What the hash reads\<close>

definition fnv :: "bytes \<Rightarrow> u64 \<Rightarrow> u64" where
  "fnv xs hash = fold (\<lambda>b h. (h XOR ucast b) * 1099511628211) xs hash"

lemma fnv_append: "fnv (xs @ ys) h = fnv ys (fnv xs h)"
  by (simp add: fnv_def)

lemma hash_word_loop_fnv:
  "hash_word_loop n h v = fnv (map (\<lambda>i. ucast (drop_bit (8 * i) v)) [0..<n]) h"
proof (induction n arbitrary: h v)
  case (Suc n)
  have "map (\<lambda>i. ucast (drop_bit (8 * i) v)) [0..<Suc n] =
      (ucast v :: u8) # map (\<lambda>i. ucast (drop_bit (8 * i) (drop_bit 8 v))) [0..<n]"
    by (simp only: upt_conv_Cons [OF zero_less_Suc] map_Suc_upt [symmetric] list.map)
      (simp add: ac_simps)
  then show ?case by (simp add: Suc fnv_def)
qed (simp add: fnv_def)

lemma instance_hash_word_fnv: "instance_hash_word h v = fnv (word_bytes v) h"
  by (simp add: instance_hash_word_def hash_word_loop_fnv word_bytes_def del: hash_word_loop.simps)

lemma span_length_word:
  "span_ok s n \<Longrightarrow> (ucast (end_byte n - start_byte n) :: u64) = of_nat (length (span_bytes_of s n))"
proof -
  assume n: "span_ok s n"
  have "length (span_bytes_of s n) = unat (end_byte n - start_byte n)"
    using span_length [OF n] by (simp add: span_bytes_of_def)
  then show ?thesis by simp
qed

lemma instance_hash_name_fnv:
  "span_ok s n \<Longrightarrow> instance_hash_name s n h =
     fnv (word_bytes (of_nat (length (span_bytes_of s n))) @ span_bytes_of s n) h"
  by (simp add: instance_hash_name_def span_length_word [symmetric] instance_hash_word_fnv fnv_append)
    (simp add: fnv_def span_bytes_of_def fold_map comp_def)

text \<open>A bound that holds for each of finitely many numbers holds for all of them at once.\<close>

lemma uniform_bound:
  "(\<And>i. i < k \<Longrightarrow> \<exists>n. \<forall>m \<ge> n. P i m) \<Longrightarrow> \<exists>n. \<forall>m \<ge> n. \<forall>i < (k :: nat). P i (m :: nat)"
proof (induction k)
  case (Suc k)
  then obtain n1 n2 where "\<forall>m \<ge> n1. \<forall>i < k. P i m" "\<forall>m \<ge> n2. P k m" by fastforce
  then have "\<forall>m \<ge> max n1 n2. \<forall>i < Suc k. P i m" by (auto simp: less_Suc_eq)
  then show ?case by blast
qed simp

lemma shape_of_type_class:
  "pointer_info a t = Some p \<Longrightarrow> dyn_type_is_pointer t"
  "array_info a t = Some ar \<Longrightarrow> dyn_type_is_array t"
  "slice_info a t = Some sl \<Longrightarrow> dyn_type_is_slice t"
  "fn_type_info a t = Some fn \<Longrightarrow> dyn_type_is_function t"
  by (auto simp: pointer_info_def array_info_def slice_info_def fn_type_info_def split: if_splits)

lemma instance_hash_params:
  assumes "\<And>i. i < length ds \<Longrightarrow> \<exists>u. table_at pool (start + of_nat i) = Some u \<and>
      (\<forall>h. f u h = Some (fnv (encode (ds ! i)) h))"
  shows "fold (\<lambda>i h. Option.bind h (\<lambda>hash. Option.bind (table_at pool (start + of_nat i)) (\<lambda>t. f t hash)))
    [0..<length ds] (Some h) = Some (fnv (concat (map encode ds)) h)"
  using assms
proof (induction ds rule: rev_induct)
  case (snoc d ds)
  have "fold (\<lambda>i h. Option.bind h (\<lambda>hash. Option.bind (table_at pool (start + of_nat i)) (\<lambda>t. f t hash)))
      [0..<length ds] (Some h) = Some (fnv (concat (map encode ds)) h)"
  proof (intro snoc.IH)
    fix i assume "i < length ds"
    then show "\<exists>u. table_at pool (start + of_nat i) = Some u \<and> (\<forall>h. f u h = Some (fnv (encode (ds ! i)) h))"
      using snoc.prems [of i] by (simp add: nth_append)
  qed
  then show ?case using snoc.prems [of "length ds"] by (auto simp: fnv_append)
qed (simp add: fnv_def)

lemma builtin_class:
  assumes "t < DYN_TYPE_STRUCT_BASE \<or> t \<ge> DYN_TYPE_PARAM_BASE"
  shows "\<not> dyn_type_is_struct t" "\<not> dyn_type_is_enum t" "\<not> dyn_type_is_distinct t" "\<not> dyn_type_is_pointer t"
    "\<not> dyn_type_is_array t" "\<not> dyn_type_is_slice t" "\<not> dyn_type_is_function t"
  using assms by (auto simp: type_class_defs word_le_nat_alt word_less_nat_alt)

lemma class_excludes:
  "dyn_type_is_enum t \<Longrightarrow> \<not> dyn_type_is_struct t"
  "dyn_type_is_distinct t \<Longrightarrow> \<not> dyn_type_is_struct t \<and> \<not> dyn_type_is_enum t"
  "dyn_type_is_pointer t \<Longrightarrow> \<not> dyn_type_is_struct t \<and> \<not> dyn_type_is_enum t \<and> \<not> dyn_type_is_distinct t"
  "dyn_type_is_array t \<Longrightarrow> \<not> dyn_type_is_struct t \<and> \<not> dyn_type_is_enum t \<and> \<not> dyn_type_is_distinct t \<and>
     \<not> dyn_type_is_pointer t"
  "dyn_type_is_slice t \<Longrightarrow> \<not> dyn_type_is_struct t \<and> \<not> dyn_type_is_enum t \<and> \<not> dyn_type_is_distinct t \<and>
     \<not> dyn_type_is_pointer t \<and> \<not> dyn_type_is_array t"
  "dyn_type_is_function t \<Longrightarrow> \<not> dyn_type_is_struct t \<and> \<not> dyn_type_is_enum t \<and> \<not> dyn_type_is_distinct t \<and>
     \<not> dyn_type_is_pointer t \<and> \<not> dyn_type_is_array t \<and> \<not> dyn_type_is_slice t"
  by (auto simp: type_class_defs word_le_nat_alt word_less_nat_alt)

lemma all_from_Suc: "(\<exists>n. \<forall>m \<ge> n. P (Suc m)) \<Longrightarrow> \<exists>n. \<forall>m \<ge> n. P m"
  by (metis Suc_le_D Suc_le_mono)

text \<open>With enough depth the hash is FNV-1a over the encoded shape.\<close>

lemma instance_hash_shape:
  assumes "shape_of a s t d"
  shows "\<exists>n. \<forall>m \<ge> n. \<forall>h. instance_hash_type m a s t h = Some (fnv (encode d) h)"
  using assms
proof induction
  case (builtin t)
  show ?case
    by - (rule all_from_Suc, simp add: builtin_class [OF builtin] instance_hash_word_fnv)
next
  case (struct t r)
  then show ?case
    by - (rule all_from_Suc, simp add: instance_hash_name_fnv instance_hash_word_fnv fnv_append)
next
  case (enum t r)
  then show ?case
    by - (rule all_from_Suc, simp add: class_excludes(1) instance_hash_name_fnv instance_hash_word_fnv fnv_append)
next
  case (distinct t r)
  then show ?case
    by - (rule all_from_Suc, simp add: class_excludes(2) instance_hash_name_fnv instance_hash_word_fnv fnv_append)
next
  case (pointer t p d)
  note cl = shape_of_type_class(1) [OF pointer.hyps(1)]
  show ?case using pointer.IH
    by - (rule all_from_Suc, simp add: cl class_excludes(3) [OF cl] pointer.hyps(1) instance_hash_word_fnv fnv_append, blast)
next
  case (array t p d)
  note cl = shape_of_type_class(2) [OF array.hyps(1)]
  show ?case using array.IH
    by - (rule all_from_Suc, simp add: cl class_excludes(4) [OF cl] array.hyps(1) instance_hash_word_fnv fnv_append, blast)
next
  case (slice t p d)
  note cl = shape_of_type_class(3) [OF slice.hyps(1)]
  show ?case using slice.IH
    by - (rule all_from_Suc, simp add: cl class_excludes(5) [OF cl] slice.hyps(1) instance_hash_word_fnv fnv_append, blast)
next
  case (fn t fn d ds)
  note cl = shape_of_type_class(4) [OF fn.hyps(1)]
  have "\<exists>n. \<forall>m \<ge> n. \<forall>i < length ds. \<exists>u. table_at (a_fn_type_params a) (aft_param_start fn + of_nat i) = Some u \<and>
      (\<forall>h. instance_hash_type m a s u h = Some (fnv (encode (ds ! i)) h))"
    using fn.IH(2) by (intro uniform_bound) blast
  then obtain n1 where n1: "\<And>m i. m \<ge> n1 \<Longrightarrow> i < length ds \<Longrightarrow>
      \<exists>u. table_at (a_fn_type_params a) (aft_param_start fn + of_nat i) = Some u \<and>
        (\<forall>h. instance_hash_type m a s u h = Some (fnv (encode (ds ! i)) h))" by blast
  obtain n2 where n2: "\<And>m h. m \<ge> n2 \<Longrightarrow> instance_hash_type m a s (aft_return_type fn) h = Some (fnv (encode d) h)"
    using fn.IH(1) by blast
  have count: "(ucast (aft_param_count fn) :: u64) = of_nat (length ds)" by (simp add: fn.hyps(3))
  have "instance_hash_type (Suc m) a s t h = Some (fnv (encode (Function_of (aft_variadic fn) d ds)) h)"
    if "m \<ge> max n1 n2" for m h
    using instance_hash_params [OF n1 [of m], where h = "fnv (encode d) (fnv (word_bytes (of_nat (length ds)))
        (fnv (word_bytes (of_bool (aft_variadic fn))) (fnv (word_bytes 262144) h)))"] n2 [of m] that
    by (simp add: cl class_excludes(6) [OF cl] fn.hyps(1) Let_def count fn.hyps(3) [symmetric]
        instance_hash_word_fnv fnv_append)
  then show ?case by (intro all_from_Suc [OF exI [of _ "max n1 n2"]]) blast
qed

lemma shape_of_ok: "shape_of a s t d \<Longrightarrow> shape_ok d"
proof (induction rule: shape_of.induct)
  case (fn t fn d ds)
  moreover have "unat (aft_param_count fn) < 2 ^ 32" using unat_less_32 by simp
  ultimately show ?case by (auto simp: list_all_length)
next
  case (struct t r)
  then show ?case using unat_less_32 [of "end_byte (as_name r)"] by (simp add: span_bytes_of_def)
next
  case (enum t r)
  then show ?case using unat_less_32 [of "end_byte (an_name r)"] by (simp add: span_bytes_of_def)
next
  case (distinct t r)
  then show ?case using unat_less_32 [of "end_byte (al_name r)"] by (simp add: span_bytes_of_def)
qed simp_all

definition encode_args :: "shape list \<Rightarrow> bytes" where
  "encode_args ds = word_bytes (of_nat (length ds)) @ concat (map encode ds)"

lemma encode_args_inject:
  assumes "list_all shape_ok ds" and "list_all shape_ok ds'" and "length ds < 2 ^ 32" and "length ds' < 2 ^ 32"
  shows "encode_args ds = encode_args ds' \<longleftrightarrow> ds = ds'"
proof
  assume "encode_args ds = encode_args ds'"
  then have "length ds = length ds'" and eq: "concat (map encode ds) @ [] = concat (map encode ds') @ []"
    using assms(3,4) by (auto simp: encode_args_def)
  then show "ds = ds'"
    using concat_inject [of ds ds', OF encode_inject _ assms(2) eq] assms(1) by (auto simp: list_all_iff)
qed simp

lemma instance_hash_args:
  assumes "list_all2 (shape_of a s) args ds"
  shows "\<exists>n. \<forall>m \<ge> n. \<forall>h. fold (\<lambda>t h. Option.bind h (instance_hash_type m a s t)) args (Some h) =
    Some (fnv (concat (map encode ds)) h)"
  using assms
proof induction
  case (Cons t ts d ds)
  obtain n1 where "\<forall>m \<ge> n1. \<forall>h. instance_hash_type m a s t h = Some (fnv (encode d) h)"
    using instance_hash_shape [OF Cons.hyps(1)] by blast
  moreover obtain n2 where "\<forall>m \<ge> n2. \<forall>h. fold (\<lambda>t h. Option.bind h (instance_hash_type m a s t)) ts (Some h) =
      Some (fnv (concat (map encode ds)) h)" using Cons.IH by blast
  ultimately show ?case by (intro exI [of _ "max n1 n2"]) (simp add: fnv_append)
qed (simp add: fnv_def)

subsection \<open>Spelling a shape\<close>

fun is_function :: "shape \<Rightarrow> bool" where
  "is_function (Function_of v d ds) = True"
| "is_function _ = False"

fun commas :: "bytes list \<Rightarrow> bytes" where
  "commas [] = []"
| "commas (x # xs) = x @ concat (map (\<lambda>y. comma @ y) xs)"

text \<open>
  The text for a part of a type: a distinct type or a type parameter is \<open>unknown\<close> there, the module prefix of a struct or enum
  is left out, a function type shows no variadic marker. \<open>spell_type\<close> is the text for a whole type: a distinct type shows its name.
\<close>

fun spell :: "shape \<Rightarrow> bytes" where
  "spell (Builtin t) = (if t \<ge> DYN_TYPE_PARAM_BASE then cstr ''unknown'' else cstr (basic_names ! unat t))"
| "spell (Struct_named n) = strip_module n"
| "spell (Enum_named n) = strip_module n"
| "spell (Alias_named n) = cstr ''unknown''"
| "spell (Pointer_to c d) =
     (if is_function d \<and> \<not> c then spell d else cstr ''*'' @ cstr (if c then ''const '' else []) @ spell d)"
| "spell (Array_of k d) = cstr ''['' @ digits (unat k) @ cstr '']'' @ spell d"
| "spell (Slice_of c d) = cstr ''[]'' @ cstr (if c then ''const '' else []) @ spell d"
| "spell (Function_of v d ds) = cstr ''fn('' @ commas (map spell ds) @ cstr '') '' @ spell d"

fun spell_type :: "shape \<Rightarrow> bytes" where
  "spell_type (Alias_named n) = n"
| "spell_type d = spell d"

text \<open>Every code below \<open>DYN_TYPE_STRUCT_BASE\<close> is one of the builtin types.\<close>

fun codes_named :: "shape \<Rightarrow> bool" where
  "codes_named (Builtin t) \<longleftrightarrow> t \<le> DYN_TYPE_ANY \<or> t \<ge> DYN_TYPE_PARAM_BASE"
| "codes_named (Pointer_to c d) \<longleftrightarrow> codes_named d"
| "codes_named (Array_of k d) \<longleftrightarrow> codes_named d"
| "codes_named (Slice_of c d) \<longleftrightarrow> codes_named d"
| "codes_named (Function_of v d ds) \<longleftrightarrow> codes_named d \<and> list_all codes_named ds"
| "codes_named _ \<longleftrightarrow> True"

lemma clip_id: "length x < cap \<Longrightarrow> clip cap x = x"
  by (simp add: clip_def)

lemma name_params_loop:
  assumes "\<And>i. i < length xs \<Longrightarrow> \<exists>u. table_at pool (start + of_nat i) = Some u \<and> f u = Some (xs ! i)"
    and "length (out @ concat (map (\<lambda>i. (if i \<noteq> 0 then comma else []) @ xs ! i) [k..<length xs])) < cap"
    and "k \<le> length xs"
  shows "name_params f pool start cap [k..<length xs] (out, length out) =
    (let out = out @ concat (map (\<lambda>i. (if i \<noteq> 0 then comma else []) @ xs ! i) [k..<length xs])
     in Some (out, length out))"
  using assms(2,3)
proof (induction "length xs - k" arbitrary: k out)
  case (Suc n)
  then have k: "k < length xs" "[k..<length xs] = k # [Suc k..<length xs]" by (simp_all add: upt_conv_Cons)
  obtain u where u: "table_at pool (start + of_nat k) = Some u" "f u = Some (xs ! k)"
    using assms(1) k(1) by blast
  let ?piece = "(if k \<noteq> 0 then comma else []) @ xs ! k"
  have "name_params f pool start cap [k..<length xs] (out, length out) =
      name_params f pool start cap [Suc k..<length xs] (out @ ?piece, length (out @ ?piece))"
    using Suc.prems(1) u by (simp add: k(2) clip_id)
  also have "\<dots> = (let out = (out @ ?piece) @ concat (map (\<lambda>i. (if i \<noteq> 0 then comma else []) @ xs ! i)
      [Suc k..<length xs]) in Some (out, length out))"
    using Suc.prems(1) Suc.hyps(2) k(1) by (intro Suc.hyps(1)) (simp_all add: k(2))
  finally show ?case by (simp add: k(2))
qed simp

lemma commas_pieces:
  "concat (map (\<lambda>i. (if i \<noteq> 0 then comma else []) @ xs ! i) [0..<length xs]) = commas xs"
proof (cases xs)
  case (Cons x ys)
  have "concat (map (\<lambda>i. (if i \<noteq> 0 then comma else []) @ (x # ys) ! i) [0..<Suc (length ys)]) =
      x @ concat (map (\<lambda>i. comma @ ys ! i) [0..<length ys])"
    unfolding map_upt_Suc by simp
  moreover have "map (\<lambda>i. comma @ ys ! i) [0..<length ys] = map (\<lambda>y. comma @ y) ys"
    by (rule nth_equalityI) simp_all
  ultimately show ?thesis unfolding Cons list.size by (simp only: commas.simps add_Suc_right add_0_right)
qed simp

lemma name_params_all:
  assumes "\<And>i. i < length xs \<Longrightarrow> \<exists>u. table_at pool (start + of_nat i) = Some u \<and> f u = Some (xs ! i)"
    and "length (out @ commas xs) < cap"
  shows "name_params f pool start cap [0..<length xs] (out, length out) =
    Some (out @ commas xs, length (out @ commas xs))"
  using name_params_loop [where k = 0 and xs = xs and out = out and cap = cap, OF assms(1)] assms(2)
  unfolding commas_pieces Let_def by (simp only: le0)

text \<open>Every part of a type's spelling is shorter than the whole.\<close>

lemma commas_elem: "x \<in> set xs \<Longrightarrow> length x \<le> length (commas xs)"
proof (cases xs)
  case (Cons y ys)
  assume x: "x \<in> set xs"
  have "length x \<le> length (concat (map (\<lambda>y. comma @ y) ys))" if "x \<in> set ys"
    using that by (induction ys) auto
  with x show ?thesis by (auto simp: Cons)
qed simp

lemma basic_names_known: "length basic_names = 19" "list_all (\<lambda>n. cstr n \<noteq> cstr ''unknown'') basic_names"
  by code_simp+

lemma basic_name:
  assumes "t \<le> DYN_TYPE_ANY"
  shows "t < DYN_TYPE_STRUCT_BASE" "dyn_type_name t = Some (cstr (basic_names ! unat t))" "cstr (basic_names ! unat t) \<noteq> cstr ''unknown''"
proof -
  from assms have t: "unat t < length basic_names" by (simp add: word_le_nat_alt basic_names_known)
  show "t < DYN_TYPE_STRUCT_BASE" using assms by (simp add: word_le_nat_alt word_less_nat_alt)
  with t show "dyn_type_name t = Some (cstr (basic_names ! unat t))" "cstr (basic_names ! unat t) \<noteq> cstr ''unknown''"
    using basic_names_known(2) by (simp_all add: dyn_type_name_def list_all_length del: cstr_simps)
qed

lemma named_type: "\<not> t < DYN_TYPE_STRUCT_BASE \<Longrightarrow> \<exists>n. dyn_type_name t = Some n"
  by (simp add: dyn_type_name_def)

lemma class_not_basic:
  "dyn_type_is_struct t \<or> dyn_type_is_enum t \<or> dyn_type_is_pointer t \<or> dyn_type_is_array t \<or>
   dyn_type_is_slice t \<or> dyn_type_is_function t \<or> dyn_type_is_distinct t \<Longrightarrow> \<not> t < DYN_TYPE_STRUCT_BASE"
  by (auto simp: type_class_defs word_le_nat_alt word_less_nat_alt)

lemma type_name_compound:
  assumes "\<not> t < DYN_TYPE_STRUCT_BASE" and "cap \<noteq> 0"
  shows "dyn_type_is_struct t \<Longrightarrow> type_name_into (Suc n) a t s cap =
      map_option (\<lambda>r. clip cap (strip_module (span_bytes_of s (as_name r)))) (table_at (a_structs a) (t - DYN_TYPE_STRUCT_BASE))"
    and "dyn_type_is_enum t \<Longrightarrow> type_name_into (Suc n) a t s cap =
      map_option (\<lambda>r. clip cap (strip_module (span_bytes_of s (an_name r)))) (table_at (a_enums a) (t - DYN_TYPE_ENUM_BASE))"
    and "pointer_info a t = Some p \<Longrightarrow> type_name_into (Suc n) a t s cap =
      Option.bind (type_name_into n a (apt_pointee p) s 384) (\<lambda>inner. Some (clip cap
        (if dyn_type_is_function (apt_pointee p) \<and> \<not> apt_is_const p then inner
         else cstr ''*'' @ cstr (if apt_is_const p then ''const '' else []) @ inner)))"
    and "array_info a t = Some ar \<Longrightarrow> type_name_into (Suc n) a t s cap =
      Option.bind (type_name_into n a (aa_element ar) s 384) (\<lambda>inner.
        Some (clip cap (cstr ''['' @ digits (unat (aa_length ar)) @ cstr '']'' @ inner)))"
    and "slice_info a t = Some sl \<Longrightarrow> type_name_into (Suc n) a t s cap =
      Option.bind (type_name_into n a (asl_element sl) s 384) (\<lambda>inner.
        Some (clip cap (cstr ''[]'' @ cstr (if asl_is_const sl then ''const '' else []) @ inner)))"
    and "fn_type_info a t = Some fn \<Longrightarrow> type_name_into (Suc n) a t s cap =
      Option.bind (name_params (\<lambda>t. type_name_into n a t s 384) (a_fn_type_params a) (aft_param_start fn) cap
          [0..<unat (aft_param_count fn)] (clip cap (cstr ''fn(''), 3)) (\<lambda>(out, at).
        if at < cap then Option.bind (type_name_into n a (aft_return_type fn) s 384) (\<lambda>inner.
            Some (out @ clip (cap - at) (cstr '') '' @ inner))) else Some out)"
    and "dyn_type_is_distinct t \<Longrightarrow> type_name_into (Suc n) a t s cap = Some (clip cap (cstr ''unknown''))"
    and "t \<ge> DYN_TYPE_PARAM_BASE \<Longrightarrow> type_name_into (Suc n) a t s cap = Some (clip cap (cstr ''unknown''))"
proof -
  obtain b where b: "dyn_type_name t = Some b" using named_type [OF assms(1)] by blast
  have step: "type_name_into (Suc n) a t s cap = X" if "cap \<noteq> 0 \<Longrightarrow> \<not> t < DYN_TYPE_STRUCT_BASE \<Longrightarrow>
      dyn_type_name t = Some b \<Longrightarrow> type_name_into (Suc n) a t s cap = X" for X
    by (rule that [OF assms(2,1) b])
  show "dyn_type_is_struct t \<Longrightarrow> type_name_into (Suc n) a t s cap =
      map_option (\<lambda>r. clip cap (strip_module (span_bytes_of s (as_name r)))) (table_at (a_structs a) (t - DYN_TYPE_STRUCT_BASE))"
    by (rule step) simp
  show "dyn_type_is_enum t \<Longrightarrow> type_name_into (Suc n) a t s cap =
      map_option (\<lambda>r. clip cap (strip_module (span_bytes_of s (an_name r)))) (table_at (a_enums a) (t - DYN_TYPE_ENUM_BASE))"
    by (rule step) (simp add: class_excludes(1))
  show "pointer_info a t = Some p \<Longrightarrow> type_name_into (Suc n) a t s cap =
      Option.bind (type_name_into n a (apt_pointee p) s 384) (\<lambda>inner. Some (clip cap
        (if dyn_type_is_function (apt_pointee p) \<and> \<not> apt_is_const p then inner
         else cstr ''*'' @ cstr (if apt_is_const p then ''const '' else []) @ inner)))"
    by (rule step, frule shape_of_type_class(1)) (simp add: class_excludes(3))
  show "array_info a t = Some ar \<Longrightarrow> type_name_into (Suc n) a t s cap =
      Option.bind (type_name_into n a (aa_element ar) s 384) (\<lambda>inner.
        Some (clip cap (cstr ''['' @ digits (unat (aa_length ar)) @ cstr '']'' @ inner)))"
    by (rule step, frule shape_of_type_class(2)) (simp add: class_excludes(4))
  show "slice_info a t = Some sl \<Longrightarrow> type_name_into (Suc n) a t s cap =
      Option.bind (type_name_into n a (asl_element sl) s 384) (\<lambda>inner.
        Some (clip cap (cstr ''[]'' @ cstr (if asl_is_const sl then ''const '' else []) @ inner)))"
    by (rule step, frule shape_of_type_class(3)) (simp add: class_excludes(5))
  show "fn_type_info a t = Some fn \<Longrightarrow> type_name_into (Suc n) a t s cap =
      Option.bind (name_params (\<lambda>t. type_name_into n a t s 384) (a_fn_type_params a) (aft_param_start fn) cap
          [0..<unat (aft_param_count fn)] (clip cap (cstr ''fn(''), 3)) (\<lambda>(out, at).
        if at < cap then Option.bind (type_name_into n a (aft_return_type fn) s 384) (\<lambda>inner.
            Some (out @ clip (cap - at) (cstr '') '' @ inner))) else Some out)"
    by (rule step, frule shape_of_type_class(4)) (simp add: class_excludes(6))
  show "dyn_type_is_distinct t \<Longrightarrow> type_name_into (Suc n) a t s cap = Some (clip cap (cstr ''unknown''))"
    by (rule step) (use class_excludes(3-6) in \<open>auto simp: class_excludes(2)\<close>)
  show "t \<ge> DYN_TYPE_PARAM_BASE \<Longrightarrow> type_name_into (Suc n) a t s cap = Some (clip cap (cstr ''unknown''))"
    by (rule step) (use builtin_class [of t] in auto)
qed

lemma pointer_to_function:
  "shape_of a s t d \<Longrightarrow> is_function d \<longleftrightarrow> dyn_type_is_function t"
  by (induction rule: shape_of.induct)
    (auto dest: shape_of_type_class class_excludes simp: builtin_class)

lemma type_name_function:
  assumes "fn_type_info a t = Some fn" and "length ds = unat (aft_param_count fn)"
    and "\<And>i. i < length ds \<Longrightarrow> \<exists>u. table_at (a_fn_type_params a) (aft_param_start fn + of_nat i) = Some u \<and>
      type_name_into m a u s 384 = Some (map spell ds ! i)"
    and "type_name_into m a (aft_return_type fn) s 384 = Some (spell d)"
    and "length (spell (Function_of v d ds)) < cap"
  shows "type_name_into (Suc m) a t s cap = Some (spell (Function_of v d ds))"
proof -
  let ?out = "cstr ''fn('' @ commas (map spell ds)"
  have nb: "\<not> t < DYN_TYPE_STRUCT_BASE" using class_not_basic shape_of_type_class(4) [OF assms(1)] by blast
  have len: "length (cstr ''fn('') = 3" "length (cstr '') '') = 2" by simp_all
  have room: "length ?out + length (cstr '') '' @ spell d) < cap" using assms(5) by simp
  then have "cap \<noteq> 0" "length ?out < cap" "length (cstr ''fn('') < cap" by auto
  have "name_params (\<lambda>t. type_name_into m a t s 384) (a_fn_type_params a) (aft_param_start fn) cap
      [0..<length (map spell ds)] (cstr ''fn('', length (cstr ''fn('')) = Some (?out, length ?out)"
    using assms(3) \<open>length ?out < cap\<close> by (intro name_params_all) (simp_all del: cstr_simps type_name_into.simps)
  then have "name_params (\<lambda>t. type_name_into m a t s 384) (a_fn_type_params a) (aft_param_start fn) cap
      [0..<unat (aft_param_count fn)] (clip cap (cstr ''fn(''), 3) = Some (?out, length ?out)"
    by (simp only: length_map assms(2) len(1) clip_id [OF \<open>length (cstr ''fn('') < cap\<close>])
  moreover have "clip (cap - length ?out) (cstr '') '' @ spell d) = cstr '') '' @ spell d"
    using room by (intro clip_id) linarith
  ultimately show ?thesis
    unfolding type_name_compound(6) [OF nb \<open>cap \<noteq> 0\<close> assms(1)]
    by (simp only: bind.bind_lunit prod.case assms(4) \<open>length ?out < cap\<close> if_True spell.simps append_assoc)
qed

lemma type_name_spelled:
  assumes "shape_of a s t d" and "codes_named d" and "length (spell d) < 384"
  shows "\<exists>n. \<forall>m \<ge> n. \<forall>cap. length (spell d) < cap \<longrightarrow> type_name_into m a t s cap = Some (spell d)"
  using assms
proof induction
  case (builtin t)
  show ?case
  proof (cases "t \<ge> DYN_TYPE_PARAM_BASE")
    case True
    then have "\<not> t < DYN_TYPE_STRUCT_BASE" by (auto simp: word_le_nat_alt word_less_nat_alt)
    note name = type_name_compound(8) [OF this _ True]
    show ?thesis by (rule all_from_Suc) (use True in \<open>auto simp: name clip_id simp del: type_name_into.simps cstr_simps\<close>)
  next
    case False
    then have "t \<le> DYN_TYPE_ANY" using builtin by simp
    note b = basic_name [OF this]
    show ?thesis by (rule all_from_Suc) (use b False in \<open>auto simp: clip_id\<close>)
  qed
next
  case (struct t r)
  note nb = class_not_basic [OF disjI1 [OF struct.hyps(1)]]
  show ?case
    by (rule all_from_Suc) (auto simp: type_name_compound(1) [OF nb _ struct.hyps(1)] struct.hyps(2) clip_id
      simp del: type_name_into.simps)
next
  case (enum t r)
  note nb = class_not_basic [OF disjI2 [OF disjI1 [OF enum.hyps(1)]]]
  show ?case
    by (rule all_from_Suc) (auto simp: type_name_compound(2) [OF nb _ enum.hyps(1)] enum.hyps(2) clip_id
      simp del: type_name_into.simps)
next
  case (distinct t al)
  have nb: "\<not> t < DYN_TYPE_STRUCT_BASE" using class_not_basic distinct.hyps(1) by blast
  show ?case
    by (rule all_from_Suc) (auto simp: type_name_compound(7) [OF nb _ distinct.hyps(1)] clip_id simp del: type_name_into.simps cstr_simps)
next
  case (pointer t p d)
  have nb: "\<not> t < DYN_TYPE_STRUCT_BASE" using class_not_basic shape_of_type_class(1) [OF pointer.hyps(1)] by blast
  have "codes_named d" "length (spell d) < 384" using pointer.prems by (auto split: if_splits)
  then have "\<exists>n. \<forall>m \<ge> n. type_name_into m a (apt_pointee p) s 384 = Some (spell d)" using pointer.IH by blast
  then show ?case
    by - (rule all_from_Suc, erule ex_forward, simp add: type_name_compound(3) [OF nb _ pointer.hyps(1)]
      pointer_to_function [OF pointer.hyps(2)] clip_id del: type_name_into.simps cstr_simps)
next
  case (array t p d)
  have nb: "\<not> t < DYN_TYPE_STRUCT_BASE" using class_not_basic shape_of_type_class(2) [OF array.hyps(1)] by blast
  have "codes_named d" "length (spell d) < 384" using array.prems by (auto split: if_splits)
  then have "\<exists>n. \<forall>m \<ge> n. type_name_into m a (aa_element p) s 384 = Some (spell d)" using array.IH by blast
  then show ?case
    by - (rule all_from_Suc, erule ex_forward, simp add: type_name_compound(4) [OF nb _ array.hyps(1)]
      clip_id del: type_name_into.simps cstr_simps)
next
  case (slice t p d)
  have nb: "\<not> t < DYN_TYPE_STRUCT_BASE" using class_not_basic shape_of_type_class(3) [OF slice.hyps(1)] by blast
  have "codes_named d" "length (spell d) < 384" using slice.prems by (auto split: if_splits)
  then have "\<exists>n. \<forall>m \<ge> n. type_name_into m a (asl_element p) s 384 = Some (spell d)" using slice.IH by blast
  then show ?case
    by - (rule all_from_Suc, erule ex_forward, simp add: type_name_compound(5) [OF nb _ slice.hyps(1)]
      clip_id del: type_name_into.simps cstr_simps)
next
  case (fn t fn d ds)
  let ?d = "Function_of (aft_variadic fn) d ds"
  have "length (commas (map spell ds)) + length (spell d) < 384" using fn.prems(2) by simp
  then have short: "length (spell d) < 384" "length (commas (map spell ds)) < 384" by linarith+
  have "\<exists>n. \<forall>m \<ge> n. \<forall>i < length ds. \<exists>u. table_at (a_fn_type_params a) (aft_param_start fn + of_nat i) = Some u \<and>
      type_name_into m a u s 384 = Some (map spell ds ! i)"
  proof (rule uniform_bound)
    fix i assume i: "i < length ds"
    then have "length (spell (ds ! i)) \<le> length (commas (map spell ds))" by (intro commas_elem) simp
    then have le: "length (spell (ds ! i)) < 384" using short(2) by linarith
    moreover have "codes_named (ds ! i)" using fn.prems(1) i by (auto simp: list_all_length)
    ultimately obtain u where "table_at (a_fn_type_params a) (aft_param_start fn + of_nat i) = Some u"
      "\<exists>n. \<forall>m \<ge> n. \<forall>cap. length (spell (ds ! i)) < cap \<longrightarrow> type_name_into m a u s cap = Some (spell (ds ! i))"
      using fn.IH(2) [OF i] by blast
    then show "\<exists>n. \<forall>m \<ge> n. \<exists>u. table_at (a_fn_type_params a) (aft_param_start fn + of_nat i) = Some u \<and>
        type_name_into m a u s 384 = Some (map spell ds ! i)"
      using le i by (metis nth_map)
  qed
  then obtain n1 where n1: "\<And>m i. m \<ge> n1 \<Longrightarrow> i < length ds \<Longrightarrow>
      \<exists>u. table_at (a_fn_type_params a) (aft_param_start fn + of_nat i) = Some u \<and>
        type_name_into m a u s 384 = Some (map spell ds ! i)" by blast
  obtain n2 where n2: "\<And>m. m \<ge> n2 \<Longrightarrow> type_name_into m a (aft_return_type fn) s 384 = Some (spell d)"
    using fn.IH(1) short(1) fn.prems(1) by (metis codes_named.simps(5))
  have "\<forall>m \<ge> max n1 n2. \<forall>cap. length (spell ?d) < cap \<longrightarrow> type_name_into (Suc m) a t s cap = Some (spell ?d)"
    using type_name_function [OF fn.hyps(1,3) n1 n2] by (metis max.bounded_iff)
  then show ?case by (intro all_from_Suc [OF exI [of _ "max n1 n2"]])
qed

lemma distinct_shape: "shape_of a s t d \<Longrightarrow> dyn_type_is_distinct t \<longleftrightarrow> (\<exists>n. d = Alias_named n)"
proof (induction rule: shape_of.induct)
  case (builtin t)
  then show ?case using builtin_class(3) by blast
qed (auto dest: shape_of_type_class class_excludes simp: type_class_defs word_le_nat_alt word_less_nat_alt)

lemma spell_type_other: "\<nexists>n. d = Alias_named n \<Longrightarrow> spell_type d = spell d"
  by (cases d) auto

subsection \<open>Properties\<close>

text \<open>C27. The hash in the name of a generic instance is FNV-1a over a byte string that is determined by
  the written form of the type arguments alone (names, structure, const, lengths), whatever their table
  indices; and two argument lists have the same byte string only if they are written the same.\<close>

theorem instance_hash_canonical:
  assumes "list_all2 (shape_of a s) args ds" and "list_all2 (shape_of a' s') args' ds'"
    and "length args < 2 ^ 32" and "length args' < 2 ^ 32"
  shows "(\<exists>n. \<forall>m \<ge> n. instance_hash m a s args = Some (fnv (encode_args ds) 1469598103934665603)) \<and>
    (encode_args ds = encode_args ds' \<longleftrightarrow> ds = ds')"
proof (intro conjI)
  have len: "length args = length ds" "length args' = length ds'"
    using assms(1,2) by (auto dest: list_all2_lengthD)
  have ok: "list_all shape_ok ds" "list_all shape_ok ds'"
    using assms(1,2) by (auto simp: list_all2_conv_all_nth list_all_length intro: shape_of_ok)
  obtain n where n: "\<And>m h. m \<ge> n \<Longrightarrow> fold (\<lambda>t h. Option.bind h (instance_hash_type m a s t)) args (Some h) =
      Some (fnv (concat (map encode ds)) h)"
    using instance_hash_args [OF assms(1)] by blast
  have count: "(ucast (of_nat (length ds) :: u32) :: u64) = of_nat (length ds)"
    using assms(3) len by (simp add: word_unat_eq_iff unat_of_nat take_bit_nat_eq_self)
  show "\<exists>n. \<forall>m \<ge> n. instance_hash m a s args = Some (fnv (encode_args ds) 1469598103934665603)"
    by (rule exI [of _ n])
      (simp add: instance_hash_def n len count encode_args_def fnv_append instance_hash_word_fnv)
  show "encode_args ds = encode_args ds' \<longleftrightarrow> ds = ds'"
    using assms(3,4) len by (intro encode_args_inject ok) simp_all
qed

text \<open>A sample: two distinct types and a pointer to each.\<close>

definition sample_alias_text :: source where
  "sample_alias_text = \<lparr>src_path = ''m.dyn'', src_text = [65, 66], src_original_text = None, src_spans = [], src_maps = []\<rparr>"

definition sample_aliases :: ast_program where
  "sample_aliases = empty_ast\<lparr>
     a_aliases := [\<lparr>al_name = \<lparr>start_byte = 0, end_byte = 1\<rparr>, al_target = DYN_TYPE_U32, al_distinct = True,
         al_is_public = False, al_module_owner = 0\<rparr>,
       \<lparr>al_name = \<lparr>start_byte = 1, end_byte = 2\<rparr>, al_target = DYN_TYPE_U32, al_distinct = True,
         al_is_public = False, al_module_owner = 0\<rparr>],
     a_pointers := [\<lparr>apt_pointee = DYN_TYPE_DISTINCT_BASE, apt_is_const = False\<rparr>,
       \<lparr>apt_pointee = DYN_TYPE_DISTINCT_BASE + 1, apt_is_const = False\<rparr>,
       \<lparr>apt_pointee = DYN_TYPE_U32, apt_is_const = True\<rparr>]\<rparr>"

lemma sample_alias_shapes:
  "shape_of sample_aliases sample_alias_text 65536 (Pointer_to False (Alias_named [65]))"
  "shape_of sample_aliases sample_alias_text 65537 (Pointer_to False (Alias_named [66]))"
  "shape_of sample_aliases sample_alias_text 65538 (Pointer_to True (Builtin DYN_TYPE_U32))"
proof -
  have ptrs: "pointer_info sample_aliases 65536 = Some \<lparr>apt_pointee = DYN_TYPE_DISTINCT_BASE, apt_is_const = False\<rparr>"
    "pointer_info sample_aliases 65537 = Some \<lparr>apt_pointee = DYN_TYPE_DISTINCT_BASE + 1, apt_is_const = False\<rparr>"
    "pointer_info sample_aliases 65538 = Some \<lparr>apt_pointee = DYN_TYPE_U32, apt_is_const = True\<rparr>"
    by code_simp+
  have "shape_of sample_aliases sample_alias_text DYN_TYPE_DISTINCT_BASE
      (Alias_named (span_bytes_of sample_alias_text (al_name (a_aliases sample_aliases ! 0))))"
    by (rule shape_of.distinct) code_simp+
  moreover have "span_bytes_of sample_alias_text (al_name (a_aliases sample_aliases ! 0)) = [65]"
    "span_bytes_of sample_alias_text (al_name (a_aliases sample_aliases ! 1)) = [66]" by code_simp+
  moreover have "shape_of sample_aliases sample_alias_text (DYN_TYPE_DISTINCT_BASE + 1)
      (Alias_named (span_bytes_of sample_alias_text (al_name (a_aliases sample_aliases ! 1))))"
    by (rule shape_of.distinct) code_simp+
  moreover have "shape_of sample_aliases sample_alias_text DYN_TYPE_U32 (Builtin DYN_TYPE_U32)"
    by (rule shape_of.builtin) simp
  ultimately show "shape_of sample_aliases sample_alias_text 65536 (Pointer_to False (Alias_named [65]))"
    "shape_of sample_aliases sample_alias_text 65537 (Pointer_to False (Alias_named [66]))"
    "shape_of sample_aliases sample_alias_text 65538 (Pointer_to True (Builtin DYN_TYPE_U32))"
    using ptrs [THEN shape_of.pointer, of sample_alias_text] by simp_all
qed

theorem instance_hash_canonical_witness:
  "(\<exists>n. \<forall>m \<ge> n. instance_hash m sample_aliases sample_alias_text [65536] =
      Some (fnv (encode_args [Pointer_to False (Alias_named [65])]) 1469598103934665603)) \<and>
   encode_args [Pointer_to False (Alias_named [65])] \<noteq> encode_args [Pointer_to False (Alias_named [66])]"
  using instance_hash_canonical [where args = "[65536]" and args' = "[65537]"
      and ds = "[Pointer_to False (Alias_named [65])]" and ds' = "[Pointer_to False (Alias_named [66])]",
      of sample_aliases sample_alias_text sample_aliases sample_alias_text] sample_alias_shapes by simp

text \<open>C28. The spelling of every type that fits its buffers is its written form: a distinct type at the top by its name,
  otherwise the structure down to builtin, struct and enum names, where a distinct type or a type parameter inside the type
  appears as \<open>unknown\<close> and a variadic function type like a plain one.\<close>

theorem type_format_spells:
  assumes "shape_of a s t d" and "codes_named d" and "length (spell_type d) < cap" and "length (spell_type d) < 384"
  shows "\<exists>n. \<forall>m \<ge> n. dyn_type_format m a t s cap = Some (spell_type d)"
proof (cases "dyn_type_is_distinct t")
  case False
  then have "spell_type d = spell d" using distinct_shape [OF assms(1)] by (intro spell_type_other) simp
  then show ?thesis
    using type_name_spelled [OF assms(1,2)] assms(3,4) False
    by (auto simp: dyn_type_format_def display_type_name_def simp del: type_name_into.simps)
next
  case True
  then obtain n where d: "d = Alias_named n" using distinct_shape [OF assms(1)] by blast
  show ?thesis using assms(1,3) unfolding d
    by cases (auto simp: dyn_type_format_def display_type_name_def Let_def table_at_def clip_id split: if_splits)
qed

theorem type_format_spells_witness:
  "\<exists>n. \<forall>m \<ge> n. dyn_type_format m sample_aliases 65538 sample_alias_text 64 = Some (cstr ''*const u32'')"
proof -
  let ?d = "Pointer_to True (Builtin DYN_TYPE_U32)"
  have "spell_type ?d = cstr ''*const u32''" by code_simp
  moreover have "length (cstr ''*const u32'') = 10" by simp
  ultimately show ?thesis
    using type_format_spells [OF sample_alias_shapes(3), of 64] by simp
qed

text \<open>C29. Below a pointer a distinct type is not named: pointers to any two distinct types have the same
  spelling, so reflection gives them the same type id.\<close>

theorem nested_distinct_unnamed:
  assumes "pointer_info a t = Some p" and "pointer_info a u = Some q" and "apt_is_const p = apt_is_const q"
    and "dyn_type_is_distinct (apt_pointee p)" and "dyn_type_is_distinct (apt_pointee q)"
  shows "display_type_name (Suc (Suc n)) a t s cap = display_type_name (Suc (Suc n)) a u s cap \<and>
    map_option reflection_id (display_type_name (Suc (Suc n)) a t s cap) =
      map_option reflection_id (display_type_name (Suc (Suc n)) a u s cap)"
proof -
  have name: "display_type_name (Suc (Suc n)) a v s cap =
      (if cap = 0 then Some [] else Some (clip cap (cstr ''*'' @ cstr (if apt_is_const r then ''const '' else []) @ cstr ''unknown'')))"
    if v: "pointer_info a v = Some r" "dyn_type_is_distinct (apt_pointee r)" for v r
  proof -
    note cl = shape_of_type_class(1) [OF v(1)]
    have nb: "\<not> v < DYN_TYPE_STRUCT_BASE" "\<not> apt_pointee r < DYN_TYPE_STRUCT_BASE"
      using class_not_basic cl v(2) by blast+
    have "\<not> dyn_type_is_function (apt_pointee r)" using class_excludes(6) v(2) by blast
    moreover have "clip 384 (cstr ''unknown'') = cstr ''unknown''" by (intro clip_id) simp
    moreover have "type_name_into (Suc (Suc n)) a v s 0 = Some []" by simp
    ultimately show ?thesis
      using class_excludes(3) [OF cl] type_name_compound(3) [OF nb(1) _ v(1)]
        type_name_compound(7) [OF nb(2) _ v(2), of 384]
      by (simp add: display_type_name_def del: type_name_into.simps(2) cstr_simps)
  qed
  show ?thesis using name [OF assms(1,4)] name [OF assms(2,5)] assms(3) by simp
qed

theorem nested_distinct_unnamed_witness:
  "display_type_name (Suc (Suc 0)) sample_aliases 65536 sample_alias_text 512 =
     display_type_name (Suc (Suc 0)) sample_aliases 65537 sample_alias_text 512 \<and> (65536 :: dyn_type) \<noteq> 65537"
proof -
  have "pointer_info sample_aliases 65536 = Some \<lparr>apt_pointee = DYN_TYPE_DISTINCT_BASE, apt_is_const = False\<rparr>"
    "pointer_info sample_aliases 65537 = Some \<lparr>apt_pointee = DYN_TYPE_DISTINCT_BASE + 1, apt_is_const = False\<rparr>"
    by code_simp+
  note ptrs = this
  show ?thesis
    using nested_distinct_unnamed [OF ptrs, of 0 sample_alias_text 512]
    by (simp add: dyn_type_is_distinct_def del: type_name_into.simps)
qed

end
