(* ===== verification/Sema_Intern.thy ===== *)
theory Sema_Intern
  imports Sema_Types
begin

text \<open>
  Type interning (\<open>src/src/sema.c\<close>, lines 587-730): compound types are rows of per-class tables,
  and a type code is the class's base plus the row number, so that equal types have equal codes.

  The locale \<open>interner\<close> is the contract the rest of the compiler relies on; it is interpreted on
  the four tables. Growing a table is assumed to succeed; the class limits are modelled.
\<close>

subsection \<open>Operations\<close>

definition find_row :: "('r \<Rightarrow> bool) \<Rightarrow> 'r list \<Rightarrow> nat option" where
  "find_row same rows = find (\<lambda>i. same (rows ! i)) [0..<length rows]"

text \<open>
  The shape the three simple tables share: the row's code if it is there, an error if the class is
  full (\<open>limit\<close> is the base of the next class), else a new row.
\<close>

definition intern_row ::
  "('r \<Rightarrow> bool) \<Rightarrow> 'r \<Rightarrow> dyn_type \<Rightarrow> dyn_type \<Rightarrow> 'r list \<Rightarrow> dyn_type \<times> 'r list \<times> bool" where
  "intern_row same row base limit rows =
     (case find_row same rows of
        Some i \<Rightarrow> (base + of_nat i, rows, False)
      | None \<Rightarrow>
          if length rows \<ge> unat (limit - base) then (DYN_TYPE_ERROR, rows, True)
          else (base + of_nat (length rows), rows @ [row], False))"

definition sema_intern_pointer :: "dyn_type \<Rightarrow> bool \<Rightarrow> ast_program \<Rightarrow> dyn_type \<times> ast_program" where
  "sema_intern_pointer pointee is_const a =
     (let (t, rows, full) = intern_row (\<lambda>p. apt_pointee p = pointee \<and> apt_is_const p = is_const)
            \<lparr>apt_pointee = pointee, apt_is_const = is_const\<rparr>
            DYN_TYPE_POINTER_BASE DYN_TYPE_ARRAY_BASE (a_pointers a)
      in (t, a\<lparr>a_pointers := rows, a_type_capacity_exceeded := a_type_capacity_exceeded a \<or> full\<rparr>))"

definition sema_intern_array :: "dyn_type \<Rightarrow> u64 \<Rightarrow> ast_program \<Rightarrow> dyn_type \<times> ast_program" where
  "sema_intern_array element len a =
     (let (t, rows, full) = intern_row (\<lambda>r. aa_element r = element \<and> aa_length r = len)
            \<lparr>aa_element = element, aa_length = len\<rparr>
            DYN_TYPE_ARRAY_BASE DYN_TYPE_SLICE_BASE (a_arrays a)
      in (t, a\<lparr>a_arrays := rows, a_type_capacity_exceeded := a_type_capacity_exceeded a \<or> full\<rparr>))"

definition sema_intern_slice :: "dyn_type \<Rightarrow> bool \<Rightarrow> ast_program \<Rightarrow> dyn_type \<times> ast_program" where
  "sema_intern_slice element is_const a =
     (let (t, rows, full) = intern_row (\<lambda>r. asl_element r = element \<and> asl_is_const r = is_const)
            \<lparr>asl_element = element, asl_is_const = is_const\<rparr>
            DYN_TYPE_SLICE_BASE DYN_TYPE_FN_BASE (a_slices a)
      in (t, a\<lparr>a_slices := rows, a_type_capacity_exceeded := a_type_capacity_exceeded a \<or> full\<rparr>))"

definition same_signature :: "dyn_type list \<Rightarrow> dyn_type list \<Rightarrow> dyn_type \<Rightarrow> bool \<Rightarrow> ast_fn_type \<Rightarrow> bool" where
  "same_signature pool params result variadic f \<longleftrightarrow>
     \<not> (aft_return_type f \<noteq> result \<or> unat (aft_param_count f) \<noteq> length params \<or> aft_variadic f \<noteq> variadic) \<and>
     list_all (\<lambda>j. pool ! unat (aft_param_start f + of_nat j) = params ! j) [0..<length params]"

definition sema_intern_fn_type_ex ::
  "dyn_type list \<Rightarrow> dyn_type \<Rightarrow> bool \<Rightarrow> ast_program \<Rightarrow> dyn_type \<times> ast_program" where
  "sema_intern_fn_type_ex params result variadic a =
     (case find_row (same_signature (a_fn_type_params a) params result variadic) (a_fn_types a) of
        Some i \<Rightarrow> (DYN_TYPE_FN_BASE + of_nat i, a)
      | None \<Rightarrow>
          if length (a_fn_types a) \<ge> unat (DYN_TYPE_DISTINCT_BASE - DYN_TYPE_FN_BASE)
          then (DYN_TYPE_ERROR, a\<lparr>a_type_capacity_exceeded := True\<rparr>)
          else
            let start = of_nat (length (a_fn_type_params a));
                row = \<lparr>aft_return_type = result, aft_param_start = start,
                       aft_param_count = of_nat (length params), aft_variadic = variadic\<rparr>
            in (DYN_TYPE_FN_BASE + of_nat (length (a_fn_types a)),
                a\<lparr>a_fn_type_params := a_fn_type_params a @ params, a_fn_types := a_fn_types a @ [row]\<rparr>))"

definition sema_intern_fn_type :: "dyn_type list \<Rightarrow> dyn_type \<Rightarrow> ast_program \<Rightarrow> dyn_type \<times> ast_program" where
  "sema_intern_fn_type params result a = sema_intern_fn_type_ex params result False a"

definition function_params :: "ast_program \<Rightarrow> ast_fn \<Rightarrow> dyn_type list" where
  "function_params a f = map (\<lambda>i. ap_type (a_params a ! unat (afn_param_start f + of_nat i)))
     [0..<unat (afn_param_count f)]"

definition function_pointer_type :: "nat \<Rightarrow> ast_program \<Rightarrow> dyn_type \<times> ast_program" where
  "function_pointer_type i a =
     (let f = a_functions a ! i;
          (signature, a') = sema_intern_fn_type_ex (function_params a f) (afn_return_type f)
            (afn_foreign f \<and> afn_variadic f) a
      in if signature = DYN_TYPE_ERROR then (signature, a') else sema_intern_pointer signature False a')"

definition function_signature_type :: "nat \<Rightarrow> ast_program \<Rightarrow> dyn_type \<times> ast_program" where
  "function_signature_type i a =
     (let f = a_functions a ! i in sema_intern_fn_type (function_params a f) (afn_return_type f) a)"

text \<open>A sequence of internings: \<open>interned f ok ks s ts s'\<close> says that interning the keys \<open>ks\<close> one after the other, from
  state \<open>s\<close>, gives the codes \<open>ts\<close> and leaves the state \<open>s'\<close>. Some of the codes may be \<open>DYN_TYPE_ERROR\<close>.\<close>

inductive interned :: "('k \<Rightarrow> 's \<Rightarrow> dyn_type \<times> 's) \<Rightarrow> ('s \<Rightarrow> 'k \<Rightarrow> bool) \<Rightarrow> 'k list \<Rightarrow> 's \<Rightarrow> dyn_type list \<Rightarrow> 's \<Rightarrow> bool"
  for f ok where
  none: "interned f ok [] s [] s"
| one: "interned f ok ks s ts s1 \<Longrightarrow> ok s1 k \<Longrightarrow> f k s1 = (t, s') \<Longrightarrow> interned f ok (ks @ [k]) s (ts @ [t]) s'"

subsection \<open>The contract\<close>

text \<open>
  \<open>lookup s t\<close> is the key that the code \<open>t\<close> stands for. The laws: a successful interning makes its
  code stand for the key, no code changes its meaning, and a key that has a code keeps it.
\<close>

locale interner =
  fixes intern :: "'k \<Rightarrow> 's \<Rightarrow> dyn_type \<times> 's"
    and lookup :: "'s \<Rightarrow> dyn_type \<Rightarrow> 'k option"
    and inv :: "'s \<Rightarrow> bool"
    and key_ok :: "'s \<Rightarrow> 'k \<Rightarrow> bool"
  assumes lookup_new: "inv s \<Longrightarrow> key_ok s k \<Longrightarrow> intern k s = (t, s') \<Longrightarrow> t \<noteq> DYN_TYPE_ERROR \<Longrightarrow> lookup s' t = Some k"
    and lookup_old: "inv s \<Longrightarrow> key_ok s k \<Longrightarrow> intern k s = (t, s') \<Longrightarrow> lookup s u = Some k' \<Longrightarrow> lookup s' u = Some k'"
    and intern_known: "inv s \<Longrightarrow> lookup s t = Some k \<Longrightarrow> intern k s = (t, s)"
    and inv_intern: "inv s \<Longrightarrow> key_ok s k \<Longrightarrow> intern k s = (t, s') \<Longrightarrow> inv s'"
begin

lemma intern_twice:
  assumes "inv s" "key_ok s k" "intern k s = (t, s')" "t \<noteq> DYN_TYPE_ERROR"
  shows "intern k s' = (t, s')"
  using assms by (intro intern_known inv_intern [OF assms(1-3)] lookup_new)

lemma code_eq:
  assumes "inv s" "lookup s t = Some k" "key_ok s k'" "intern k' s = (t', s')" "t' \<noteq> DYN_TYPE_ERROR"
  shows "t = t' \<longleftrightarrow> k = k'"
proof
  show "k = k'" if "t = t'"
    using lookup_old [OF assms(1,3,4,2)] lookup_new [OF assms(1,3-5)] that by simp
  show "t = t'" if "k = k'" using intern_known [OF assms(1,2)] assms(4) that by simp
qed

lemma interned_codes:
  assumes "interned intern key_ok ks s ts s'" and "inv s"
  shows "inv s' \<and> length ts = length ks \<and> (\<forall>i < length ks. ts ! i \<noteq> DYN_TYPE_ERROR \<longrightarrow> lookup s' (ts ! i) = Some (ks ! i))"
  using assms
proof (induction rule: interned.induct)
  case (one ks s ts s1 k t s')
  then have IH: "inv s1" "length ts = length ks" "\<And>i. i < length ks \<Longrightarrow> ts ! i \<noteq> DYN_TYPE_ERROR \<Longrightarrow> lookup s1 (ts ! i) = Some (ks ! i)"
    by blast+
  have "lookup s' (ts ! i) = Some (ks ! i)" if "i < length ks" "ts ! i \<noteq> DYN_TYPE_ERROR" for i
    by (rule lookup_old [OF IH(1) one.hyps(2,3) IH(3) [OF that]])
  moreover have "lookup s' t = Some k" if "t \<noteq> DYN_TYPE_ERROR" by (rule lookup_new [OF IH(1) one.hyps(2,3) that])
  ultimately show ?case using inv_intern [OF IH(1) one.hyps(2,3)] IH(2) by (auto simp: nth_append less_Suc_eq)
qed simp

lemma codes_identify:
  assumes "interned intern key_ok ks s ts s'" and "inv s" and "i < length ks" and "j < length ks"
    and "ts ! i \<noteq> DYN_TYPE_ERROR" and "ts ! j \<noteq> DYN_TYPE_ERROR"
  shows "ts ! i = ts ! j \<longleftrightarrow> ks ! i = ks ! j"
proof -
  have at: "inv s'" "lookup s' (ts ! i) = Some (ks ! i)" "lookup s' (ts ! j) = Some (ks ! j)"
    using interned_codes [OF assms(1,2)] assms(3-6) by blast+
  show ?thesis
  proof
    show "ks ! i = ks ! j" if "ts ! i = ts ! j" using at(2,3) that by simp
    show "ts ! i = ts ! j" if "ks ! i = ks ! j"
      using intern_known [OF at(1,2)] intern_known [OF at(1,3)] that by simp
  qed
qed

end

subsection \<open>Tables of rows\<close>

lemma find_row_Some: "find_row same rows = Some i \<Longrightarrow> i < length rows \<and> same (rows ! i)"
  by (auto simp: find_row_def find_Some_iff)

lemma find_row_None: "find_row same rows = None \<Longrightarrow> r \<in> set rows \<Longrightarrow> \<not> same r"
  by (auto simp: find_row_def find_None_iff in_set_conv_nth)

lemma find_row_unique:
  assumes "i < length rows" and "same (rows ! i)" and "\<And>j. j < length rows \<Longrightarrow> same (rows ! j) \<Longrightarrow> j = i"
  shows "find_row same rows = Some i"
proof (cases "find_row same rows")
  case None
  then show ?thesis using find_row_None [OF None] assms(1,2) by (auto simp: in_set_conv_nth)
next
  case (Some j)
  then show ?thesis using find_row_Some [OF Some] assms(3) by simp
qed

locale row_table =
  fixes base limit :: dyn_type
  assumes base_error: "DYN_TYPE_ERROR < base" and base_limit: "base < limit"
begin

definition row_at :: "'r list \<Rightarrow> dyn_type \<Rightarrow> 'r option" where
  "row_at rows t =
     (if base \<le> t \<and> t < limit \<and> unat (t - base) < length rows then Some (rows ! unat (t - base)) else None)"

definition table_ok :: "'r list \<Rightarrow> bool" where
  "table_ok rows \<longleftrightarrow> distinct rows \<and> length rows \<le> unat (limit - base)"

lemma code_of_row:
  assumes "i < unat (limit - base)"
  shows "base \<le> base + of_nat i" "base + of_nat i < limit" "unat (base + of_nat i - base) = i"
    "base + of_nat i \<noteq> DYN_TYPE_ERROR"
proof -
  have lim: "unat (limit - base) = unat limit - unat base" using base_limit by (simp add: unat_sub)
  have lt: "i + unat base < unat limit" "unat limit < 2 ^ 32"
    using assms lim unat_less_32 [of limit] by simp_all
  then have i: "unat (of_nat i :: u32) = i" by (simp add: unat_of_nat)
  then have sum: "unat (base + of_nat i) = unat base + i"
    using lt by (simp add: unat_word_ariths)
  show "base \<le> base + of_nat i" "base + of_nat i < limit"
    using sum lt by (simp_all add: word_le_nat_alt word_less_nat_alt)
  then show "base + of_nat i \<noteq> DYN_TYPE_ERROR" using base_error by auto
  show "unat (base + of_nat i - base) = i" using i by simp
qed

lemma row_at_code:
  assumes "i < unat (limit - base)" and "i < length rows"
  shows "row_at rows (base + of_nat i) = Some (rows ! i)"
  using code_of_row [OF assms(1)] assms(2) by (simp add: row_at_def)

lemma row_at_Some:
  "row_at rows t = Some r \<Longrightarrow> t = base + of_nat (unat (t - base)) \<and> unat (t - base) < length rows \<and>
    rows ! unat (t - base) = r"
  by (auto simp: row_at_def split: if_splits)

lemma intern_row_new:
  assumes "table_ok rows" and "intern_row (\<lambda>r. r = row) row base limit rows = (t, rows', full)" and "t \<noteq> DYN_TYPE_ERROR"
  shows "row_at rows' t = Some row"
proof (cases "find_row (\<lambda>r. r = row) rows")
  case None
  with assms(2,3) show ?thesis
    by (auto simp: intern_row_def row_at_code nth_append split: if_splits)
next
  case (Some i)
  then show ?thesis
    using find_row_Some [OF Some] assms row_at_code [of i rows] by (auto simp: intern_row_def table_ok_def)
qed

lemma row_at_append: "row_at rows u = Some r \<Longrightarrow> row_at (rows @ xs) u = Some r"
  by (auto simp: row_at_def nth_append split: if_splits)

lemma intern_row_old:
  assumes "intern_row same row base limit rows = (t, rows', full)" and "row_at rows u = Some r"
  shows "row_at rows' u = Some r"
  using assms by (auto simp: intern_row_def row_at_append split: option.splits if_splits)

lemma intern_row_known:
  assumes "table_ok rows" and "row_at rows t = Some row"
  shows "intern_row (\<lambda>r. r = row) row base limit rows = (t, rows, False)"
proof -
  note at = row_at_Some [OF assms(2)]
  have "find_row (\<lambda>r. r = row) rows = Some (unat (t - base))"
    using at assms(1) by (intro find_row_unique) (auto simp: table_ok_def nth_eq_iff_index_eq)
  then show ?thesis using at by (simp add: intern_row_def)
qed

lemma intern_row_ok:
  assumes "table_ok rows" and "intern_row (\<lambda>r. r = row) row base limit rows = (t, rows', full)"
  shows "table_ok rows'"
  using assms find_row_None [of "\<lambda>r. r = row" rows row]
  by (auto simp: intern_row_def table_ok_def split: option.splits if_splits)

end

text \<open>A component whose interning works on one such table of its state keeps the contract.\<close>

locale row_interner = row_table +
  fixes rows_of :: "'s \<Rightarrow> 'r list" and intern :: "'r \<Rightarrow> 's \<Rightarrow> dyn_type \<times> 's"
  assumes intern_rows: "intern k s = (t, s') \<Longrightarrow>
      \<exists>full. intern_row (\<lambda>r. r = k) k base limit (rows_of s) = (t, rows_of s', full)"
    and intern_same: "intern_row (\<lambda>r. r = k) k base limit (rows_of s) = (t, rows_of s, False) \<Longrightarrow>
      intern k s = (t, s)"

sublocale row_interner \<subseteq> interner intern "\<lambda>s. row_at (rows_of s)" "\<lambda>s. table_ok (rows_of s)" "\<lambda>s k. True"
proof (unfold_locales, goal_cases)
  case (1 s k t s')
  from intern_rows [OF 1(3)] show ?case by (elim exE) (rule intern_row_new [OF 1(1) _ 1(4)])
next
  case (2 s k t s' u k')
  from intern_rows [OF 2(3)] show ?case by (elim exE) (rule intern_row_old [OF _ 2(4)])
next
  case (3 s t k)
  then show ?case by (intro intern_same intern_row_known)
next
  case (4 s k t s')
  from intern_rows [OF 4(3)] show ?case by (elim exE) (rule intern_row_ok [OF 4(1)])
qed

subsection \<open>Pointers, arrays and slices\<close>

lemma row_eta [simp]:
  "\<lparr>apt_pointee = apt_pointee p, apt_is_const = apt_is_const p\<rparr> = p"
  "\<lparr>aa_element = aa_element r, aa_length = aa_length r\<rparr> = r"
  "\<lparr>asl_element = asl_element q, asl_is_const = asl_is_const q\<rparr> = q"
  by simp_all

lemma pointer_same: "(\<lambda>p. apt_pointee p = x \<and> apt_is_const p = c) = (\<lambda>p. p = \<lparr>apt_pointee = x, apt_is_const = c\<rparr>)"
  by (rule ext) auto

lemma array_same: "(\<lambda>p. aa_element p = x \<and> aa_length p = c) = (\<lambda>p. p = \<lparr>aa_element = x, aa_length = c\<rparr>)"
  by (rule ext) auto

lemma slice_same: "(\<lambda>p. asl_element p = x \<and> asl_is_const p = c) = (\<lambda>p. p = \<lparr>asl_element = x, asl_is_const = c\<rparr>)"
  by (rule ext) auto

interpretation pointers: row_interner DYN_TYPE_POINTER_BASE DYN_TYPE_ARRAY_BASE a_pointers
  "\<lambda>p. sema_intern_pointer (apt_pointee p) (apt_is_const p)"
  by unfold_locales (auto simp: sema_intern_pointer_def pointer_same split: prod.splits)

interpretation arrays: row_interner DYN_TYPE_ARRAY_BASE DYN_TYPE_SLICE_BASE a_arrays
  "\<lambda>r. sema_intern_array (aa_element r) (aa_length r)"
  by unfold_locales (auto simp: sema_intern_array_def array_same split: prod.splits)

interpretation slices: row_interner DYN_TYPE_SLICE_BASE DYN_TYPE_FN_BASE a_slices
  "\<lambda>r. sema_intern_slice (asl_element r) (asl_is_const r)"
  by unfold_locales (auto simp: sema_intern_slice_def slice_same split: prod.splits)

text \<open>The readers of the tables, \<open>pointer_info\<close> and the others, are the lookups.\<close>

lemma pointer_info_row: "pointer_info a t = pointers.row_at (a_pointers a) t"
  by (simp add: pointer_info_def pointers.row_at_def dyn_type_is_pointer_def)

lemma array_info_row: "array_info a t = arrays.row_at (a_arrays a) t"
  by (simp add: array_info_def arrays.row_at_def dyn_type_is_array_def)

lemma slice_info_row: "slice_info a t = slices.row_at (a_slices a) t"
  by (simp add: slice_info_def slices.row_at_def dyn_type_is_slice_def)

subsection \<open>Function types\<close>

text \<open>The signature a row stands for: its parameters lie in the shared pool.\<close>

type_synonym signature = "dyn_type list \<times> dyn_type \<times> bool"

definition signature_of :: "dyn_type list \<Rightarrow> ast_fn_type \<Rightarrow> signature" where
  "signature_of pool f = (map (\<lambda>j. pool ! unat (aft_param_start f + of_nat j)) [0..<unat (aft_param_count f)],
     aft_return_type f, aft_variadic f)"

definition fn_types_ok :: "ast_program \<Rightarrow> bool" where
  "fn_types_ok a \<longleftrightarrow> distinct (map (signature_of (a_fn_type_params a)) (a_fn_types a)) \<and>
     length (a_fn_types a) \<le> unat (DYN_TYPE_DISTINCT_BASE - DYN_TYPE_FN_BASE) \<and>
     length (a_fn_type_params a) < 2 ^ 32 \<and>
     list_all (\<lambda>f. unat (aft_param_start f) + unat (aft_param_count f) \<le> length (a_fn_type_params a)) (a_fn_types a)"

definition signature_fits :: "ast_program \<Rightarrow> signature \<Rightarrow> bool" where
  "signature_fits a k \<longleftrightarrow> length (a_fn_type_params a) + length (fst k) < 2 ^ 32"

interpretation fn_rows: row_table DYN_TYPE_FN_BASE DYN_TYPE_DISTINCT_BASE
  by unfold_locales simp_all

definition fn_signature :: "ast_program \<Rightarrow> dyn_type \<Rightarrow> signature option" where
  "fn_signature a t = map_option (signature_of (a_fn_type_params a)) (fn_type_info a t)"

lemma fn_type_info_row: "fn_type_info a t = fn_rows.row_at (a_fn_types a) t"
  by (simp add: fn_type_info_def fn_rows.row_at_def dyn_type_is_function_def)

lemma same_signature_eq: "same_signature pool params result variadic f \<longleftrightarrow> signature_of pool f = (params, result, variadic)"
proof -
  let ?g = "\<lambda>j. pool ! unat (aft_param_start f + of_nat j)" and ?n = "unat (aft_param_count f)"
  have "map ?g [0..<?n] = params \<longleftrightarrow> ?n = length params \<and> (\<forall>j < length params. ?g j = params ! j)"
  proof
    assume "map ?g [0..<?n] = params"
    then show "?n = length params \<and> (\<forall>j < length params. ?g j = params ! j)" by force
  qed (auto intro: nth_equalityI)
  then show ?thesis
    unfolding same_signature_def signature_of_def list_all_iff prod.inject atLeast_upt atLeastLessThan_upt [symmetric]
    by fastforce
qed

lemma signature_of_append:
  assumes "unat (aft_param_start f) + unat (aft_param_count f) \<le> length pool" and "length pool < 2 ^ 32"
  shows "signature_of (pool @ xs) f = signature_of pool f"
proof -
  have "unat (aft_param_start f + of_nat j) < length pool" if "j < unat (aft_param_count f)" for j
    using that assms by (simp add: unat_word_ariths unat_of_nat)
  then show ?thesis by (simp add: signature_of_def nth_append)
qed

lemma signature_of_new:
  assumes "length pool + length params < 2 ^ 32"
  shows "signature_of (pool @ params) \<lparr>aft_return_type = r, aft_param_start = of_nat (length pool),
    aft_param_count = of_nat (length params), aft_variadic = v\<rparr> = (params, r, v)"
proof -
  have n: "unat (of_nat (length params) :: u32) = length params" "unat (of_nat (length pool) :: u32) = length pool"
    using assms by (simp_all add: unat_of_nat)
  have "unat (of_nat (length pool) + of_nat j :: u32) = length pool + j" if "j < length params" for j
    using that assms by (simp add: unat_word_ariths unat_of_nat)
  then have "map (\<lambda>j. (pool @ params) ! unat (of_nat (length pool) + of_nat j :: u32)) [0..<length params] = params"
    by (intro nth_equalityI) simp_all
  then show ?thesis using n by (simp add: signature_of_def)
qed

lemma fn_new_ok:
  assumes "fn_types_ok a" and "signature_fits a (params, result, variadic)"
    and "find_row (same_signature (a_fn_type_params a) params result variadic) (a_fn_types a) = None"
    and "length (a_fn_types a) < unat (DYN_TYPE_DISTINCT_BASE - DYN_TYPE_FN_BASE)"
    and "sema_intern_fn_type_ex params result variadic a = (t, a')"
  shows "map (signature_of (a_fn_type_params a')) (a_fn_types a') =
      map (signature_of (a_fn_type_params a)) (a_fn_types a) @ [(params, result, variadic)]"
    and "t = DYN_TYPE_FN_BASE + of_nat (length (a_fn_types a))" and "fn_types_ok a'"
proof -
  let ?pool = "a_fn_type_params a"
  let ?row = "\<lparr>aft_return_type = result, aft_param_start = of_nat (length ?pool),
    aft_param_count = of_nat (length params), aft_variadic = variadic\<rparr>"
  have a': "a' = a\<lparr>a_fn_type_params := ?pool @ params, a_fn_types := a_fn_types a @ [?row]\<rparr>"
    and t: "t = DYN_TYPE_FN_BASE + of_nat (length (a_fn_types a))"
    using assms(3-5) by (auto simp: sema_intern_fn_type_ex_def Let_def)
  have fit: "length ?pool + length params < 2 ^ 32" using assms(2) by (simp add: signature_fits_def)
  have old: "map (signature_of (?pool @ params)) (a_fn_types a) = map (signature_of ?pool) (a_fn_types a)"
    using assms(1) by (auto simp: fn_types_ok_def list_all_iff intro!: signature_of_append)
  show sigs: "map (signature_of (a_fn_type_params a')) (a_fn_types a') =
      map (signature_of ?pool) (a_fn_types a) @ [(params, result, variadic)]"
    using old signature_of_new [OF fit] by (simp add: a')
  show "t = DYN_TYPE_FN_BASE + of_nat (length (a_fn_types a))" by (rule t)
  have "(params, result, variadic) \<notin> set (map (signature_of ?pool) (a_fn_types a))"
    using find_row_None [OF assms(3)] unfolding same_signature_eq by (force simp: image_iff)
  then have "distinct (map (signature_of (a_fn_type_params a')) (a_fn_types a'))"
    using assms(1) unfolding sigs by (simp add: fn_types_ok_def)
  moreover have "unat (of_nat (length ?pool) :: u32) + unat (of_nat (length params) :: u32) \<le>
      length ?pool + length params"
    using fit by (simp add: unat_of_nat)
  ultimately show "fn_types_ok a'"
    using assms(1,4) fit by (auto simp: fn_types_ok_def a' list_all_iff)
qed

lemma fn_signature_nth:
  "fn_signature a t = Some k \<longleftrightarrow> dyn_type_is_function t \<and> unat (t - DYN_TYPE_FN_BASE) < length (a_fn_types a) \<and>
    map (signature_of (a_fn_type_params a)) (a_fn_types a) ! unat (t - DYN_TYPE_FN_BASE) = k"
  by (auto simp: fn_signature_def fn_type_info_def)

lemma fn_code_class:
  assumes "i < unat (DYN_TYPE_DISTINCT_BASE - DYN_TYPE_FN_BASE)"
  shows "dyn_type_is_function (DYN_TYPE_FN_BASE + of_nat i)" "unat (DYN_TYPE_FN_BASE + of_nat i - DYN_TYPE_FN_BASE) = i"
  using fn_rows.code_of_row [OF assms] by (simp_all add: dyn_type_is_function_def)

lemma fn_found:
  assumes "fn_types_ok a" and "fn_signature a t = Some (params, result, variadic)"
  shows "sema_intern_fn_type_ex params result variadic a = (t, a)"
proof -
  let ?i = "unat (t - DYN_TYPE_FN_BASE)"
  have at: "?i < length (a_fn_types a)" "signature_of (a_fn_type_params a) (a_fn_types a ! ?i) = (params, result, variadic)"
    using assms(2) by (auto simp: fn_signature_nth)
  have "find_row (same_signature (a_fn_type_params a) params result variadic) (a_fn_types a) = Some ?i"
  proof (rule find_row_unique [OF at(1)])
    show "same_signature (a_fn_type_params a) params result variadic (a_fn_types a ! ?i)"
      using at(2) by (simp add: same_signature_eq)
    fix j assume "j < length (a_fn_types a)"
      and "same_signature (a_fn_type_params a) params result variadic (a_fn_types a ! j)"
    then show "j = ?i"
      using assms(1) at nth_eq_iff_index_eq [of "map (signature_of (a_fn_type_params a)) (a_fn_types a)" j ?i]
      by (simp add: fn_types_ok_def same_signature_eq)
  qed
  then show ?thesis by (simp add: sema_intern_fn_type_ex_def)
qed

text \<open>The cases of interning a signature: known, class full, or a new row.\<close>

lemma fn_cases:
  assumes "fn_types_ok a" and "sema_intern_fn_type_ex params result variadic a = (t, a')"
  obtains (known) "a' = a" "fn_signature a t = Some (params, result, variadic)"
    | (full) "a' = a\<lparr>a_type_capacity_exceeded := True\<rparr>" "t = DYN_TYPE_ERROR"
    | (fresh) "find_row (same_signature (a_fn_type_params a) params result variadic) (a_fn_types a) = None"
        "length (a_fn_types a) < unat (DYN_TYPE_DISTINCT_BASE - DYN_TYPE_FN_BASE)"
proof (cases "find_row (same_signature (a_fn_type_params a) params result variadic) (a_fn_types a)")
  case None
  then show ?thesis using assms(2) full fresh by (auto simp: sema_intern_fn_type_ex_def not_le split: if_splits)
next
  case (Some i)
  have i: "i < length (a_fn_types a)" "signature_of (a_fn_type_params a) (a_fn_types a ! i) = (params, result, variadic)"
    using find_row_Some [OF Some] by (simp_all add: same_signature_eq)
  moreover have "i < unat (DYN_TYPE_DISTINCT_BASE - DYN_TYPE_FN_BASE)" using i assms(1) by (simp add: fn_types_ok_def)
  ultimately have "fn_signature a (DYN_TYPE_FN_BASE + of_nat i) = Some (params, result, variadic)"
    using fn_code_class by (simp add: fn_signature_nth)
  then show ?thesis using assms(2) Some by (intro known) (auto simp: sema_intern_fn_type_ex_def)
qed

interpretation fns: interner "\<lambda>(params, result, variadic). sema_intern_fn_type_ex params result variadic"
  fn_signature fn_types_ok signature_fits
proof (unfold_locales, goal_cases)
  case (1 a k t a')
  obtain p r v where k: "k = (p, r, v)" by (cases k)
  from 1 have it: "sema_intern_fn_type_ex p r v a = (t, a')" by (simp add: k)
  show ?case using 1(1) it
  proof (cases rule: fn_cases)
    case fresh
    note new = fn_new_ok [OF 1(1) 1(2) [unfolded k] fresh it]
    have "length (a_fn_types a') = Suc (length (a_fn_types a))"
      using arg_cong [OF new(1), of length] by simp
    then show ?thesis using new fn_code_class [OF fresh(2)] by (simp add: fn_signature_nth k nth_append)
  qed (use 1 k in auto)
next
  case (2 a k t a' u k')
  obtain p r v where k: "k = (p, r, v)" by (cases k)
  from 2 have it: "sema_intern_fn_type_ex p r v a = (t, a')" by (simp add: k)
  show ?case using 2(1) it
  proof (cases rule: fn_cases)
    case fresh
    note new = fn_new_ok [OF 2(1) 2(2) [unfolded k] fresh it]
    have "length (a_fn_types a') = Suc (length (a_fn_types a))"
      using arg_cong [OF new(1), of length] by simp
    then show ?thesis using new(1) 2(4) by (simp add: fn_signature_nth nth_append)
  qed (use 2 in \<open>auto simp: fn_signature_nth\<close>)
next
  case (3 a t k)
  then show ?case using fn_found by (cases k) simp
next
  case (4 a k t a')
  obtain p r v where k: "k = (p, r, v)" by (cases k)
  from 4 have it: "sema_intern_fn_type_ex p r v a = (t, a')" by (simp add: k)
  show ?case using 4(1) it
  proof (cases rule: fn_cases)
    case fresh
    then show ?thesis using fn_new_ok(3) [OF 4(1) 4(2) [unfolded k] _ _ it] by blast
  qed (use 4 in \<open>auto simp: fn_types_ok_def\<close>)
qed

subsection \<open>Function values\<close>

lemma pointer_frame:
  assumes "sema_intern_pointer p c a = (t, a')"
  shows "a_fn_types a' = a_fn_types a" "a_fn_type_params a' = a_fn_type_params a" "a_params a' = a_params a"
    "a_functions a' = a_functions a"
  using assms by (auto simp: sema_intern_pointer_def split: prod.splits)

lemma fn_frame:
  assumes "sema_intern_fn_type_ex p r v a = (t, a')"
  shows "a_pointers a' = a_pointers a" "a_params a' = a_params a" "a_functions a' = a_functions a"
  using assms by (auto simp: sema_intern_fn_type_ex_def Let_def split: option.splits if_splits)

lemma fn_frame_ok:
  assumes "a_fn_types a' = a_fn_types a" "a_fn_type_params a' = a_fn_type_params a"
  shows "fn_types_ok a' \<longleftrightarrow> fn_types_ok a" "fn_signature a' t = fn_signature a t" "signature_fits a' k \<longleftrightarrow> signature_fits a k"
  using assms by (simp_all add: fn_types_ok_def fn_signature_def fn_type_info_def signature_fits_def)

definition signature_of_fn :: "ast_program \<Rightarrow> nat \<Rightarrow> signature" where
  "signature_of_fn a i = (let f = a_functions a ! i in
     (function_params a f, afn_return_type f, afn_foreign f \<and> afn_variadic f))"

definition pointers_ok :: "ast_program \<Rightarrow> bool" where
  "pointers_ok a \<longleftrightarrow> distinct (a_pointers a) \<and> length (a_pointers a) \<le> unat (DYN_TYPE_ARRAY_BASE - DYN_TYPE_POINTER_BASE)"

lemma pointers_ok_table: "pointers_ok a \<longleftrightarrow> pointers.table_ok (a_pointers a)"
  by (simp add: pointers_ok_def pointers.table_ok_def)

lemma function_pointer_steps:
  assumes "function_pointer_type i a = (t, a')" and "t \<noteq> DYN_TYPE_ERROR"
  obtains sg b p r v where "signature_of_fn a i = (p, r, v)" "sema_intern_fn_type_ex p r v a = (sg, b)"
    "sg \<noteq> DYN_TYPE_ERROR" "sema_intern_pointer sg False b = (t, a')"
  using assms by (auto simp: function_pointer_type_def signature_of_fn_def Let_def split: prod.splits if_splits)

lemma function_pointer_frame:
  assumes "function_pointer_type i a = (t, b)" and "t \<noteq> DYN_TYPE_ERROR"
  shows "signature_of_fn b k = signature_of_fn a k"
proof -
  obtain sg d p r v where st: "sema_intern_fn_type_ex p r v a = (sg, d)" "sema_intern_pointer sg False d = (t, b)"
    using function_pointer_steps [OF assms] by metis
  show ?thesis
    using fn_frame(2,3) [OF st(1)] pointer_frame(3,4) [OF st(2)]
    by (simp add: signature_of_fn_def function_params_def)
qed

lemma function_pointer_meaning:
  assumes "fn_types_ok a" "pointers_ok a" and "signature_fits a (signature_of_fn a i)"
    and "function_pointer_type i a = (t, a')" "t \<noteq> DYN_TYPE_ERROR"
  obtains sg where "fn_signature a' sg = Some (signature_of_fn a i)"
    "pointer_info a' t = Some \<lparr>apt_pointee = sg, apt_is_const = False\<rparr>"
    "fn_types_ok a'" "pointers_ok a'"
proof -
  obtain sg b p r v where st: "signature_of_fn a i = (p, r, v)" "sema_intern_fn_type_ex p r v a = (sg, b)"
      "sg \<noteq> DYN_TYPE_ERROR" "sema_intern_pointer sg False b = (t, a')"
    by (rule function_pointer_steps [OF assms(4,5)])
  have "fn_signature b sg = Some (p, r, v)" "fn_types_ok b"
    using fns.lookup_new [of a "(p, r, v)" sg b] fns.inv_intern [of a "(p, r, v)" sg b] st assms(1,3) by simp_all
  then have fn: "fn_signature a' sg = Some (p, r, v)" "fn_types_ok a'"
    using fn_frame_ok [OF pointer_frame(1,2) [OF st(4)]] by simp_all
  have "pointers.table_ok (a_pointers b)"
    using assms(2) fn_frame(1) [OF st(2)] by (simp add: pointers_ok_table)
  then have "pointer_info a' t = Some \<lparr>apt_pointee = sg, apt_is_const = False\<rparr>" "pointers_ok a'"
    using pointers.lookup_new [of b "\<lparr>apt_pointee = sg, apt_is_const = False\<rparr>" t a']
      pointers.inv_intern [of b "\<lparr>apt_pointee = sg, apt_is_const = False\<rparr>" t a'] st(4) assms(5)
    by (simp_all add: pointer_info_row pointers_ok_table)
  with fn st(1) show ?thesis using that by simp
qed

subsection \<open>All classes together\<close>

text \<open>The type a row describes, and the interning of each of the four kinds.\<close>

datatype type_key = Pointer_key dyn_type bool | Array_key dyn_type u64 | Slice_key dyn_type bool | Function_key "dyn_type list" dyn_type bool

fun intern_type :: "type_key \<Rightarrow> ast_program \<Rightarrow> dyn_type \<times> ast_program" where
  "intern_type (Pointer_key pointee is_const) a = sema_intern_pointer pointee is_const a"
| "intern_type (Array_key element len) a = sema_intern_array element len a"
| "intern_type (Slice_key element is_const) a = sema_intern_slice element is_const a"
| "intern_type (Function_key params result variadic) a = sema_intern_fn_type_ex params result variadic a"

definition type_at :: "ast_program \<Rightarrow> dyn_type \<Rightarrow> type_key option" where
  "type_at a t =
     (if dyn_type_is_pointer t then map_option (\<lambda>p. Pointer_key (apt_pointee p) (apt_is_const p)) (pointer_info a t)
      else if dyn_type_is_array t then map_option (\<lambda>r. Array_key (aa_element r) (aa_length r)) (array_info a t)
      else if dyn_type_is_slice t then map_option (\<lambda>r. Slice_key (asl_element r) (asl_is_const r)) (slice_info a t)
      else map_option (\<lambda>(params, result, variadic). Function_key params result variadic) (fn_signature a t))"

definition types_interned :: "ast_program \<Rightarrow> bool" where
  "types_interned a \<longleftrightarrow> pointers.table_ok (a_pointers a) \<and> arrays.table_ok (a_arrays a) \<and> slices.table_ok (a_slices a) \<and>
     fn_types_ok a"

text \<open>The pool of parameters is indexed with 32 bits.\<close>

fun key_fits :: "ast_program \<Rightarrow> type_key \<Rightarrow> bool" where
  "key_fits a (Function_key params result variadic) = signature_fits a (params, result, variadic)"
| "key_fits a _ = True"

lemma class_apart:
  "dyn_type_is_array t \<Longrightarrow> \<not> dyn_type_is_pointer t"
  "dyn_type_is_slice t \<Longrightarrow> \<not> dyn_type_is_pointer t \<and> \<not> dyn_type_is_array t"
  "dyn_type_is_function t \<Longrightarrow> \<not> dyn_type_is_pointer t \<and> \<not> dyn_type_is_array t \<and> \<not> dyn_type_is_slice t"
  by (auto simp: dyn_type_is_pointer_def dyn_type_is_array_def dyn_type_is_slice_def dyn_type_is_function_def
      word_le_nat_alt word_less_nat_alt)

lemma type_at_iff:
  "type_at a t = Some (Pointer_key x c) \<longleftrightarrow> pointer_info a t = Some \<lparr>apt_pointee = x, apt_is_const = c\<rparr>"
  "type_at a t = Some (Array_key x n) \<longleftrightarrow> array_info a t = Some \<lparr>aa_element = x, aa_length = n\<rparr>"
  "type_at a t = Some (Slice_key x c) \<longleftrightarrow> slice_info a t = Some \<lparr>asl_element = x, asl_is_const = c\<rparr>"
  "type_at a t = Some (Function_key p r v) \<longleftrightarrow> fn_signature a t = Some (p, r, v)"
proof -
  consider "dyn_type_is_pointer t" | "dyn_type_is_array t" | "dyn_type_is_slice t" | "dyn_type_is_function t"
    | "\<not> dyn_type_is_pointer t" "\<not> dyn_type_is_array t" "\<not> dyn_type_is_slice t" "\<not> dyn_type_is_function t" by blast
  then have "(type_at a t = Some (Pointer_key x c) \<longleftrightarrow> pointer_info a t = Some \<lparr>apt_pointee = x, apt_is_const = c\<rparr>) \<and>
    (type_at a t = Some (Array_key x n) \<longleftrightarrow> array_info a t = Some \<lparr>aa_element = x, aa_length = n\<rparr>) \<and>
    (type_at a t = Some (Slice_key x c) \<longleftrightarrow> slice_info a t = Some \<lparr>asl_element = x, asl_is_const = c\<rparr>) \<and>
    (type_at a t = Some (Function_key p r v) \<longleftrightarrow> fn_signature a t = Some (p, r, v))"
    by cases (use class_apart [of t] in \<open>auto simp: type_at_def pointer_info_def array_info_def slice_info_def fn_signature_def fn_type_info_def split: prod.splits\<close>)
  then show "type_at a t = Some (Pointer_key x c) \<longleftrightarrow> pointer_info a t = Some \<lparr>apt_pointee = x, apt_is_const = c\<rparr>"
    "type_at a t = Some (Array_key x n) \<longleftrightarrow> array_info a t = Some \<lparr>aa_element = x, aa_length = n\<rparr>"
    "type_at a t = Some (Slice_key x c) \<longleftrightarrow> slice_info a t = Some \<lparr>asl_element = x, asl_is_const = c\<rparr>"
    "type_at a t = Some (Function_key p r v) \<longleftrightarrow> fn_signature a t = Some (p, r, v)" by blast+
qed

text \<open>What each operation leaves alone.\<close>

lemma pointer_other:
  assumes "sema_intern_pointer x c a = (t, a')"
  shows "a_arrays a' = a_arrays a" "a_slices a' = a_slices a" "a_fn_types a' = a_fn_types a" "a_fn_type_params a' = a_fn_type_params a"
  using assms by (auto simp: sema_intern_pointer_def split: prod.splits)

lemma array_other:
  assumes "sema_intern_array x n a = (t, a')"
  shows "a_pointers a' = a_pointers a" "a_slices a' = a_slices a" "a_fn_types a' = a_fn_types a" "a_fn_type_params a' = a_fn_type_params a"
  using assms by (auto simp: sema_intern_array_def split: prod.splits)

lemma slice_other:
  assumes "sema_intern_slice x c a = (t, a')"
  shows "a_pointers a' = a_pointers a" "a_arrays a' = a_arrays a" "a_fn_types a' = a_fn_types a" "a_fn_type_params a' = a_fn_type_params a"
  using assms by (auto simp: sema_intern_slice_def split: prod.splits)

lemma fn_other:
  assumes "sema_intern_fn_type_ex p r v a = (t, a')"
  shows "a_pointers a' = a_pointers a" "a_arrays a' = a_arrays a" "a_slices a' = a_slices a"
  using assms by (auto simp: sema_intern_fn_type_ex_def Let_def split: option.splits if_splits)

lemma intern_type_new:
  assumes "types_interned a" "key_fits a k" "intern_type k a = (t, a')" "t \<noteq> DYN_TYPE_ERROR"
  shows "type_at a' t = Some k"
proof (cases k)
  case (Pointer_key x c)
  then show ?thesis using assms pointers.lookup_new [of a "\<lparr>apt_pointee = x, apt_is_const = c\<rparr>" t a']
    by (simp add: types_interned_def type_at_iff pointer_info_row)
next
  case (Array_key x n)
  then show ?thesis using assms arrays.lookup_new [of a "\<lparr>aa_element = x, aa_length = n\<rparr>" t a']
    by (simp add: types_interned_def type_at_iff array_info_row)
next
  case (Slice_key x c)
  then show ?thesis using assms slices.lookup_new [of a "\<lparr>asl_element = x, asl_is_const = c\<rparr>" t a']
    by (simp add: types_interned_def type_at_iff slice_info_row)
next
  case (Function_key p r v)
  then show ?thesis using assms fns.lookup_new [of a "(p, r, v)" t a'] by (simp add: types_interned_def type_at_iff)
qed

lemma intern_type_known:
  assumes "types_interned a" "type_at a t = Some k"
  shows "intern_type k a = (t, a)"
proof (cases k)
  case (Pointer_key x c)
  then show ?thesis using assms pointers.intern_known [of a t "\<lparr>apt_pointee = x, apt_is_const = c\<rparr>"]
    by (simp add: types_interned_def type_at_iff pointer_info_row)
next
  case (Array_key x n)
  then show ?thesis using assms arrays.intern_known [of a t "\<lparr>aa_element = x, aa_length = n\<rparr>"]
    by (simp add: types_interned_def type_at_iff array_info_row)
next
  case (Slice_key x c)
  then show ?thesis using assms slices.intern_known [of a t "\<lparr>asl_element = x, asl_is_const = c\<rparr>"]
    by (simp add: types_interned_def type_at_iff slice_info_row)
next
  case (Function_key p r v)
  then show ?thesis using assms fns.intern_known [of a t "(p, r, v)"] by (simp add: types_interned_def type_at_iff)
qed

text \<open>An interning only adds to the table of its own class.\<close>

lemma intern_type_old:
  assumes "types_interned a" "key_fits a k" "intern_type k a = (t, a')"
  shows "pointer_info a u = Some p \<Longrightarrow> pointer_info a' u = Some p" "array_info a u = Some r \<Longrightarrow> array_info a' u = Some r"
    "slice_info a u = Some q \<Longrightarrow> slice_info a' u = Some q" "fn_signature a u = Some f \<Longrightarrow> fn_signature a' u = Some f"
    "types_interned a'"
proof -
  have "(pointer_info a u = Some p \<longrightarrow> pointer_info a' u = Some p) \<and> (array_info a u = Some r \<longrightarrow> array_info a' u = Some r) \<and>
    (slice_info a u = Some q \<longrightarrow> slice_info a' u = Some q) \<and> (fn_signature a u = Some f \<longrightarrow> fn_signature a' u = Some f) \<and>
    types_interned a'"
  proof (cases k)
    case (Pointer_key x c)
    then have it: "sema_intern_pointer x c a = (t, a')" using assms(3) by simp
    note laws = pointers.lookup_old [of a "\<lparr>apt_pointee = x, apt_is_const = c\<rparr>" t a' u]
      pointers.inv_intern [of a "\<lparr>apt_pointee = x, apt_is_const = c\<rparr>" t a']
    show ?thesis using laws it assms(1) pointer_other [OF it] fn_frame_ok [OF pointer_other(3,4) [OF it]]
      by (simp add: types_interned_def pointer_info_row array_info_row slice_info_row)
  next
    case (Array_key x n)
    then have it: "sema_intern_array x n a = (t, a')" using assms(3) by simp
    note laws = arrays.lookup_old [of a "\<lparr>aa_element = x, aa_length = n\<rparr>" t a' u]
      arrays.inv_intern [of a "\<lparr>aa_element = x, aa_length = n\<rparr>" t a']
    show ?thesis using laws it assms(1) array_other [OF it] fn_frame_ok [OF array_other(3,4) [OF it]]
      by (simp add: types_interned_def pointer_info_row array_info_row slice_info_row)
  next
    case (Slice_key x c)
    then have it: "sema_intern_slice x c a = (t, a')" using assms(3) by simp
    note laws = slices.lookup_old [of a "\<lparr>asl_element = x, asl_is_const = c\<rparr>" t a' u]
      slices.inv_intern [of a "\<lparr>asl_element = x, asl_is_const = c\<rparr>" t a']
    show ?thesis using laws it assms(1) slice_other [OF it] fn_frame_ok [OF slice_other(3,4) [OF it]]
      by (simp add: types_interned_def pointer_info_row array_info_row slice_info_row)
  next
    case (Function_key ps res v)
    then have it: "sema_intern_fn_type_ex ps res v a = (t, a')" "signature_fits a (ps, res, v)" using assms(2,3) by simp_all
    note laws = fns.lookup_old [of a "(ps, res, v)" t a' u] fns.inv_intern [of a "(ps, res, v)" t a']
    show ?thesis using laws it assms(1) fn_other [OF it(1)]
      by (simp add: types_interned_def pointer_info_row array_info_row slice_info_row)
  qed
  then show "pointer_info a u = Some p \<Longrightarrow> pointer_info a' u = Some p" "array_info a u = Some r \<Longrightarrow> array_info a' u = Some r"
    "slice_info a u = Some q \<Longrightarrow> slice_info a' u = Some q" "fn_signature a u = Some f \<Longrightarrow> fn_signature a' u = Some f"
    "types_interned a'" by blast+
qed

interpretation all_types: interner intern_type type_at types_interned key_fits
proof (unfold_locales, goal_cases)
  case (1 a k t a')
  then show ?case by (rule intern_type_new)
next
  case (2 a k t a' u k')
  then show ?case using intern_type_old(1-4) [OF 2(1-3), of u] by (cases k') (auto simp: type_at_iff)
next
  case (3 a t k)
  then show ?case by (rule intern_type_known)
next
  case (4 a k t a')
  then show ?case by (rule intern_type_old(5))
qed

subsection \<open>Properties\<close>

text \<open>C19. Type codes identify types. After any sequence of internings of pointer, array, slice and function types, in any
  order and starting from tables without duplicates, every code that was returned reads back from the tables as the type it was
  returned for, and two of the codes are equal exactly when the types are. Codes are compared across the classes too. The
  internings that run out of codes return \<open>DYN_TYPE_ERROR\<close>; the pool of parameter types stays below \<open>2 ^ 32\<close> entries.\<close>

theorem codes_identify_types:
  assumes "types_interned a" and "interned intern_type key_fits ks a ts b"
    and "i < length ks" and "j < length ks" and "ts ! i \<noteq> DYN_TYPE_ERROR" and "ts ! j \<noteq> DYN_TYPE_ERROR"
  shows "type_at b (ts ! i) = Some (ks ! i) \<and> (ts ! i = ts ! j \<longleftrightarrow> ks ! i = ks ! j)"
  using all_types.interned_codes [OF assms(2,1)] all_types.codes_identify [OF assms(2,1,3-6)] assms(3,5) by blast

text \<open>A pointer, a function type over that pointer, and the same pointer again.\<close>

definition sample_keys :: "type_key list" where
  "sample_keys = [Pointer_key DYN_TYPE_U8 True, Function_key [DYN_TYPE_POINTER_BASE] DYN_TYPE_I32 False, Pointer_key DYN_TYPE_U8 True]"

definition sample_pointer_table :: ast_program where
  "sample_pointer_table = empty_ast\<lparr>a_pointers := [\<lparr>apt_pointee = DYN_TYPE_U8, apt_is_const = True\<rparr>]\<rparr>"

definition sample_type_tables :: ast_program where
  "sample_type_tables = sample_pointer_table\<lparr>a_fn_type_params := [DYN_TYPE_POINTER_BASE],
     a_fn_types := [\<lparr>aft_return_type = DYN_TYPE_I32, aft_param_start = 0, aft_param_count = 1, aft_variadic = False\<rparr>]\<rparr>"

lemma sample_interned_steps:
  "intern_type (sample_keys ! 0) empty_ast = (DYN_TYPE_POINTER_BASE, sample_pointer_table)"
  "intern_type (sample_keys ! 1) sample_pointer_table = (DYN_TYPE_FN_BASE, sample_type_tables)"
  "intern_type (sample_keys ! 2) sample_type_tables = (DYN_TYPE_POINTER_BASE, sample_type_tables)"
  by (simp_all add: sample_keys_def sample_pointer_table_def sample_type_tables_def empty_ast_def sema_intern_pointer_def
      sema_intern_fn_type_ex_def intern_row_def find_row_def)

theorem codes_identify_types_witness:
  "interned intern_type key_fits sample_keys empty_ast
     [DYN_TYPE_POINTER_BASE, DYN_TYPE_FN_BASE, DYN_TYPE_POINTER_BASE] sample_type_tables \<and> types_interned empty_ast \<and>
   type_at sample_type_tables DYN_TYPE_FN_BASE = Some (Function_key [DYN_TYPE_POINTER_BASE] DYN_TYPE_I32 False)"
proof -
  note one = interned.one [where f = intern_type and ok = key_fits]
  have fits: "key_fits a (sample_keys ! 0)" "key_fits a (sample_keys ! 2)" for a by (simp_all add: sample_keys_def)
  have fit: "key_fits sample_pointer_table (sample_keys ! 1)"
    by (simp add: sample_keys_def signature_fits_def sample_pointer_table_def empty_ast_def)
  have "interned intern_type key_fits ((([] @ [sample_keys ! 0]) @ [sample_keys ! 1]) @ [sample_keys ! 2]) empty_ast
      ((([] @ [DYN_TYPE_POINTER_BASE]) @ [DYN_TYPE_FN_BASE]) @ [DYN_TYPE_POINTER_BASE]) sample_type_tables"
    by (rule one [OF one [OF one [OF interned.none fits(1) sample_interned_steps(1)] fit sample_interned_steps(2)]
        fits(2) sample_interned_steps(3)])
  then have run: "interned intern_type key_fits sample_keys empty_ast [DYN_TYPE_POINTER_BASE, DYN_TYPE_FN_BASE, DYN_TYPE_POINTER_BASE]
      sample_type_tables" by (simp add: sample_keys_def)
  have ok: "types_interned empty_ast"
    by (simp add: types_interned_def pointers.table_ok_def arrays.table_ok_def slices.table_ok_def fn_types_ok_def empty_ast_def)
  show ?thesis using codes_identify_types [OF ok run, of 1 1] run ok by (simp add: sample_keys_def)
qed

text \<open>The type of a function value identifies its signature: two functions get the same function
  pointer type exactly when their parameter types, result type and C variadicity agree, and the
  type reads back as a non-const pointer to that signature.\<close>

lemma function_values_typed_by_signature:
  assumes "fn_types_ok a" and "pointers_ok a"
    and "signature_fits a (signature_of_fn a i)" and "function_pointer_type i a = (t, b)" and "t \<noteq> DYN_TYPE_ERROR"
    and "signature_fits b (signature_of_fn b j)" and "function_pointer_type j b = (t', c)" and "t' \<noteq> DYN_TYPE_ERROR"
  shows "(t = t' \<longleftrightarrow> signature_of_fn b i = signature_of_fn b j) \<and>
    (\<exists>sg. pointer_info c t' = Some \<lparr>apt_pointee = sg, apt_is_const = False\<rparr> \<and>
      fn_signature c sg = Some (signature_of_fn b j))"
proof -
  obtain sg where 1: "fn_signature b sg = Some (signature_of_fn a i)"
      "pointer_info b t = Some \<lparr>apt_pointee = sg, apt_is_const = False\<rparr>" "fn_types_ok b" "pointers_ok b"
    by (rule function_pointer_meaning [OF assms(1-5)])
  obtain sg' where 2: "fn_signature c sg' = Some (signature_of_fn b j)"
      "pointer_info c t' = Some \<lparr>apt_pointee = sg', apt_is_const = False\<rparr>"
    by (rule function_pointer_meaning [OF 1(3,4) assms(6-8)])
  obtain sg2 d p r v where st: "signature_of_fn b j = (p, r, v)" "sema_intern_fn_type_ex p r v b = (sg2, d)"
      "sg2 \<noteq> DYN_TYPE_ERROR" "sema_intern_pointer sg2 False d = (t', c)"
    by (rule function_pointer_steps [OF assms(7,8)])
  have sg: "sg = sg2 \<longleftrightarrow> signature_of_fn a i = signature_of_fn b j"
    using fns.code_eq [OF 1(3,1), of "signature_of_fn b j" sg2 d] st(1-3) assms(6) by simp
  have "pointers.table_ok (a_pointers d)" "pointer_info d t = pointer_info b t"
    using 1(4) fn_frame(1) [OF st(2)] by (simp_all add: pointers_ok_table pointer_info_def)
  then have "t = t' \<longleftrightarrow> sg = sg2"
    using pointers.code_eq [of d t "\<lparr>apt_pointee = sg, apt_is_const = False\<rparr>"
        "\<lparr>apt_pointee = sg2, apt_is_const = False\<rparr>" t' c] 1(2) st(4) assms(8)
    by (simp add: pointer_info_row)
  moreover have "signature_of_fn b i = signature_of_fn a i"
    by (rule function_pointer_frame [OF assms(4,5)])
  ultimately show ?thesis using sg 2 by auto
qed

definition sample_functions :: ast_program where
  "sample_functions = empty_ast\<lparr>a_functions := [sample_foreign]\<rparr>"

end
