(* ===== verification/Sema_Const.thy ===== *)
theory Sema_Const
  imports Sema_Types "HOL-Library.Signed_Division"
begin

text \<open>
  Constant folding in semantic analysis (\<open>src/src/sema.c\<close>, lines 797-975) and the evaluation of
  \<open>#assert\<close> conditions built on it (lines 3501-3562).

  An \<open>int64_t\<close> is an \<open>int\<close>: the code tests every operation before it performs it, and the theorems
  show that results stay in range. C division truncates (\<open>sdiv\<close>, \<open>smod\<close>). The recursion over the
  expression graph is a \<open>partial_function\<close>; \<open>None\<close> is a cyclic graph or an index outside the table.
\<close>

unbundle bit_operations_syntax

abbreviation INT64_MAX :: int where "INT64_MAX \<equiv> 2 ^ 63 - 1"
abbreviation INT64_MIN :: int where "INT64_MIN \<equiv> - (2 ^ 63)"

subsection \<open>Signed constants\<close>

record constant_int_t =
  ci_valid :: bool
  ci_overflow :: bool
  ci_value :: int

definition ci_none :: constant_int_t where
  "ci_none = \<lparr>ci_valid = False, ci_overflow = False, ci_value = 0\<rparr>"

definition ci_over :: constant_int_t where
  "ci_over = \<lparr>ci_valid = False, ci_overflow = True, ci_value = 0\<rparr>"

text \<open>The result of the \<open>switch\<close>: \<open>v\<close> is only assigned when there is no overflow.\<close>

definition ci_result :: "bool \<Rightarrow> int \<Rightarrow> constant_int_t" where
  "ci_result overflow v = \<lparr>ci_valid = \<not> overflow, ci_overflow = overflow, ci_value = (if overflow then 0 else v)\<rparr>"

definition mul_overflows :: "int \<Rightarrow> int \<Rightarrow> bool" where
  "mul_overflows l r \<longleftrightarrow>
     (l > 0 \<and> r > 0 \<and> l > INT64_MAX sdiv r) \<or> (l > 0 \<and> r < 0 \<and> r < INT64_MIN sdiv l) \<or>
     (l < 0 \<and> r > 0 \<and> l < INT64_MIN sdiv r) \<or> (l < 0 \<and> r < 0 \<and> l < INT64_MAX sdiv r)"

definition fold_int :: "dyn_operator \<Rightarrow> int \<Rightarrow> int \<Rightarrow> constant_int_t" where
  "fold_int opr l r =
     (if opr = DYN_OP_ADD then
        ci_result ((r > 0 \<and> l > INT64_MAX - r) \<or> (r < 0 \<and> l < INT64_MIN - r)) (l + r)
      else if opr = DYN_OP_SUB then
        ci_result ((r < 0 \<and> l > INT64_MAX + r) \<or> (r > 0 \<and> l < INT64_MIN + r)) (l - r)
      else if opr = DYN_OP_MUL then
        (if l = 0 \<or> r = 0 then ci_result False 0
         else if mul_overflows l r then ci_result True 0 else ci_result False (l * r))
      else if opr = DYN_OP_DIV \<or> opr = DYN_OP_REM then
        (if r = 0 then ci_none
         else if l = INT64_MIN \<and> r = - 1 then ci_result True 0
         else ci_result False (if opr = DYN_OP_DIV then l sdiv r else l smod r))
      else if opr = DYN_OP_SHL then
        (if r < 0 \<or> r \<ge> 64 then ci_result True 0
         else if l < 0 \<or> l > drop_bit (nat r) INT64_MAX then ci_result True 0
         else ci_result False (push_bit (nat r) l))
      else if opr = DYN_OP_SHR then
        (if r < 0 \<or> r \<ge> 64 then ci_result True 0 else ci_result False (drop_bit (nat r) l))
      else ci_none)"

definition unary_int :: "dyn_operator \<Rightarrow> constant_int_t \<Rightarrow> constant_int_t" where
  "unary_int opr x =
     (if \<not> ci_valid x then x
      else if opr = DYN_OP_NEG then
        (if ci_value x = INT64_MIN then ci_over else x\<lparr>ci_value := - ci_value x\<rparr>)
      else if opr = DYN_OP_BIT_NOT then x\<lparr>ci_value := NOT (ci_value x)\<rparr>
      else x\<lparr>ci_valid := False\<rparr>)"

text \<open>The operand of a negation that is marked as a negative literal.\<close>

definition negative_literal :: "ast_program \<Rightarrow> ast_expr \<Rightarrow> u64 option" where
  "negative_literal a e =
     (if ae_op e = DYN_OP_NEG \<and> ae_boolean e then
        (case table_at (a_expressions a) (ae_left e) of
           Some x \<Rightarrow> if ae_kind x = DYN_EXPR_INT then Some (ae_integer x) else None
         | None \<Rightarrow> None)
      else None)"

text \<open>The initializer of a constant name.\<close>

definition constant_name :: "ast_program \<Rightarrow> ast_expr \<Rightarrow> expr_id option" where
  "constant_name a e =
     (if ae_kind e = DYN_EXPR_GLOBAL \<and> unat (ae_integer e) < length (a_globals a) \<and>
         ag_is_const (a_globals a ! unat (ae_integer e))
      then Some (ag_initializer (a_globals a ! unat (ae_integer e))) else None)"

text \<open>
  The body of \<open>constant_int_at\<close> for an expression that is not wrapping; \<open>g\<close> stands for the
  recursive calls.
\<close>

definition int_of_expr :: "ast_program \<Rightarrow> (expr_id \<Rightarrow> nat \<Rightarrow> constant_int_t option) \<Rightarrow> nat \<Rightarrow> ast_expr \<Rightarrow>
    constant_int_t option" where
  "int_of_expr a g follow e =
     (if follow \<noteq> 0 \<and> ae_kind e = DYN_EXPR_CONVERT then g (ae_left e) (follow - 1)
      else if follow \<noteq> 0 \<and> constant_name a e \<noteq> None then g (the (constant_name a e)) (follow - 1)
      else if ae_kind e = DYN_EXPR_INT \<or> ae_kind e = DYN_EXPR_CHAR then
        Some (if uint (ae_integer e) > INT64_MAX then ci_over
              else \<lparr>ci_valid = True, ci_overflow = False, ci_value = sint (ae_integer e)\<rparr>)
      else if ae_kind e = DYN_EXPR_UNARY then
        (if negative_literal a e \<noteq> None then
           let magnitude = the (negative_literal a e)
           in Some \<lparr>ci_valid = True, ci_overflow = False,
                    ci_value = (if magnitude = 2 ^ 63 then INT64_MIN else - sint magnitude)\<rparr>
         else Option.bind (g (ae_left e) follow) (\<lambda>x. Some (unary_int (ae_op e) x)))
      else if ae_kind e \<noteq> DYN_EXPR_BINARY then Some ci_none
      else
        Option.bind (g (ae_left e) follow) (\<lambda>l.
        Option.bind (g (ae_right e) follow) (\<lambda>r.
          if \<not> ci_valid l \<or> \<not> ci_valid r
          then Some \<lparr>ci_valid = False, ci_overflow = ci_overflow l \<or> ci_overflow r, ci_value = 0\<rparr>
          else Some (fold_int (ae_op e) (ci_value l) (ci_value r)))))"

lemma int_of_expr_mono [partial_function_mono]:
  "(\<And>i f. mono_option (\<lambda>g. G g i f)) \<Longrightarrow> mono_option (\<lambda>g. int_of_expr a (G g) follow e)"
  unfolding int_of_expr_def Let_def by (intro partial_function_mono)

partial_function (option) constant_int_at ::
  "ast_program \<Rightarrow> expr_id \<Rightarrow> nat \<Rightarrow> constant_int_t option" where
  "constant_int_at a i follow =
     (if i = DYN_NO_EXPR then Some ci_none
      else Option.bind (table_at (a_expressions a) i) (\<lambda>e.
        if ae_wrap e then Some ci_none else int_of_expr a (constant_int_at a) follow e))"

definition constant_int :: "ast_program \<Rightarrow> expr_id \<Rightarrow> constant_int_t option" where
  "constant_int a i = constant_int_at a i 0"

subsection \<open>Unsigned constants\<close>

record constant_uint_t =
  cu_valid :: bool
  cu_overflow :: bool
  cu_value :: u64

definition cu_none :: constant_uint_t where
  "cu_none = \<lparr>cu_valid = False, cu_overflow = False, cu_value = 0\<rparr>"

definition cu_result :: "bool \<Rightarrow> u64 \<Rightarrow> constant_uint_t" where
  "cu_result overflow v = \<lparr>cu_valid = \<not> overflow, cu_overflow = overflow, cu_value = (if overflow then 0 else v)\<rparr>"

definition fold_uint :: "dyn_operator \<Rightarrow> u64 \<Rightarrow> u64 \<Rightarrow> constant_uint_t" where
  "fold_uint opr l r =
     (if opr = DYN_OP_ADD then cu_result (l > - 1 - r) (l + r)
      else if opr = DYN_OP_SUB then cu_result (l < r) (l - r)
      else if opr = DYN_OP_MUL then cu_result (l \<noteq> 0 \<and> r > (- 1) div l) (l * r)
      else if opr = DYN_OP_DIV \<or> opr = DYN_OP_REM then
        (if r = 0 then cu_none else cu_result False (if opr = DYN_OP_DIV then l div r else l mod r))
      else if opr = DYN_OP_SHL then
        cu_result (r \<ge> 64 \<or> l > drop_bit (unat r) (- 1)) (push_bit (unat r) l)
      else if opr = DYN_OP_SHR then cu_result (r \<ge> 64) (drop_bit (unat r) l)
      else cu_none)"

text \<open>A negated non-zero constant is flagged as overflow and stays valid, with its value unchanged.\<close>

definition unary_uint :: "dyn_operator \<Rightarrow> constant_uint_t \<Rightarrow> constant_uint_t" where
  "unary_uint opr x =
     (if \<not> cu_valid x then x
      else if opr = DYN_OP_BIT_NOT then x\<lparr>cu_value := NOT (cu_value x)\<rparr>
      else if opr = DYN_OP_NEG then
        (if cu_value x \<noteq> 0 then x\<lparr>cu_overflow := True\<rparr> else x\<lparr>cu_value := 0\<rparr>)
      else x\<lparr>cu_valid := False\<rparr>)"

definition uint_of_expr :: "ast_program \<Rightarrow> (expr_id \<Rightarrow> nat \<Rightarrow> constant_uint_t option) \<Rightarrow> nat \<Rightarrow> ast_expr \<Rightarrow>
    constant_uint_t option" where
  "uint_of_expr a g follow e =
     (if follow \<noteq> 0 \<and> ae_kind e = DYN_EXPR_CONVERT then g (ae_left e) (follow - 1)
      else if follow \<noteq> 0 \<and> constant_name a e \<noteq> None then g (the (constant_name a e)) (follow - 1)
      else if ae_kind e = DYN_EXPR_INT \<or> ae_kind e = DYN_EXPR_CHAR then
        Some \<lparr>cu_valid = True, cu_overflow = False, cu_value = ae_integer e\<rparr>
      else if ae_kind e = DYN_EXPR_UNARY then
        Option.bind (g (ae_left e) follow) (\<lambda>x. Some (unary_uint (ae_op e) x))
      else if ae_kind e \<noteq> DYN_EXPR_BINARY then Some cu_none
      else
        Option.bind (g (ae_left e) follow) (\<lambda>l.
        Option.bind (g (ae_right e) follow) (\<lambda>r.
          if \<not> cu_valid l \<or> \<not> cu_valid r
          then Some \<lparr>cu_valid = False, cu_overflow = cu_overflow l \<or> cu_overflow r, cu_value = 0\<rparr>
          else Some (fold_uint (ae_op e) (cu_value l) (cu_value r)))))"

lemma uint_of_expr_mono [partial_function_mono]:
  "(\<And>i f. mono_option (\<lambda>g. G g i f)) \<Longrightarrow> mono_option (\<lambda>g. uint_of_expr a (G g) follow e)"
  unfolding uint_of_expr_def by (intro partial_function_mono)

partial_function (option) constant_uint_at ::
  "ast_program \<Rightarrow> expr_id \<Rightarrow> nat \<Rightarrow> constant_uint_t option" where
  "constant_uint_at a i follow =
     (if i = DYN_NO_EXPR then Some cu_none
      else Option.bind (table_at (a_expressions a) i) (\<lambda>e.
        if ae_wrap e then Some cu_none else uint_of_expr a (constant_uint_at a) follow e))"

definition constant_uint :: "ast_program \<Rightarrow> expr_id \<Rightarrow> constant_uint_t option" where
  "constant_uint a i = constant_uint_at a i 0"

subsection \<open>Assertions\<close>

text \<open>\<open>assert_operand\<close> looks through conversions and constant names, at most 64 of them.\<close>

fun assert_operand_loop :: "nat \<Rightarrow> ast_program \<Rightarrow> expr_id \<Rightarrow> expr_id option" where
  "assert_operand_loop 0 a i = Some DYN_NO_EXPR"
| "assert_operand_loop (Suc n) a i =
     (if i = DYN_NO_EXPR then Some DYN_NO_EXPR
      else Option.bind (table_at (a_expressions a) i) (\<lambda>e.
        if ae_kind e = DYN_EXPR_CONVERT then assert_operand_loop n a (ae_left e)
        else case constant_name a e of Some j \<Rightarrow> assert_operand_loop n a j | None \<Rightarrow> Some i))"

definition assert_operand :: "ast_program \<Rightarrow> expr_id \<Rightarrow> expr_id option" where
  "assert_operand a i = assert_operand_loop 64 a i"

definition assert_signed :: "dyn_type \<Rightarrow> bool" where
  "assert_signed t \<longleftrightarrow> (t \<ge> DYN_TYPE_I8 \<and> t \<le> DYN_TYPE_I64) \<or> t = DYN_TYPE_ISIZE"

definition order_holds :: "dyn_operator \<Rightarrow> int \<Rightarrow> bool" where
  "order_holds opr order =
     (if opr = DYN_OP_EQ then order = 0 else if opr = DYN_OP_NE then order \<noteq> 0
      else if opr = DYN_OP_LT then order < 0 else if opr = DYN_OP_LE then order \<le> 0
      else if opr = DYN_OP_GT then order > 0 else order \<ge> 0)"

text \<open>The comparison at the end of \<open>assert_value\<close>: \<open>None\<close> inside is the code's -1.\<close>

definition assert_compare :: "ast_program \<Rightarrow> ast_expr \<Rightarrow> bool option option" where
  "assert_compare a e =
     Option.bind (assert_operand a (ae_left e)) (\<lambda>left.
     Option.bind (assert_operand a (ae_right e)) (\<lambda>right.
     if left = DYN_NO_EXPR \<or> right = DYN_NO_EXPR then Some None
     else
       Option.bind (table_at (a_expressions a) (ae_left e)) (\<lambda>le.
       Option.bind (table_at (a_expressions a) (ae_right e)) (\<lambda>re.
       if assert_signed (ae_type le) \<or> assert_signed (ae_type re) then
         Option.bind (constant_int_at a left 64) (\<lambda>l.
         Option.bind (constant_int_at a right 64) (\<lambda>r.
           Some (if \<not> ci_valid l \<or> \<not> ci_valid r then None
                 else Some (order_holds (ae_op e)
                   (of_bool (ci_value l > ci_value r) - of_bool (ci_value l < ci_value r))))))
       else
         Option.bind (constant_uint_at a left 64) (\<lambda>l.
         Option.bind (constant_uint_at a right 64) (\<lambda>r.
           Some (if \<not> cu_valid l \<or> \<not> cu_valid r then None
                 else Some (order_holds (ae_op e)
                   (of_bool (cu_value l > cu_value r) - of_bool (cu_value l < cu_value r))))))))))"

function assert_value :: "ast_program \<Rightarrow> expr_id \<Rightarrow> nat \<Rightarrow> bool option option" where
  "assert_value a i0 depth =
     Option.bind (assert_operand a i0) (\<lambda>i.
     if i = DYN_NO_EXPR \<or> depth > 64 then Some None
     else Option.bind (table_at (a_expressions a) i) (\<lambda>e.
       if ae_kind e = DYN_EXPR_BOOL then Some (Some (ae_boolean e))
       else if ae_kind e = DYN_EXPR_UNARY \<and> ae_op e = DYN_OP_NOT then
         map_option (map_option Not) (assert_value a (ae_left e) (depth + 1))
       else if ae_kind e \<noteq> DYN_EXPR_BINARY then Some None
       else if ae_op e = DYN_OP_LOGICAL_AND \<or> ae_op e = DYN_OP_LOGICAL_OR then
         Option.bind (assert_value a (ae_left e) (depth + 1)) (\<lambda>l.
         Option.bind (assert_value a (ae_right e) (depth + 1)) (\<lambda>r.
           Some (case (l, r) of
             (Some x, Some y) \<Rightarrow> Some (if ae_op e = DYN_OP_LOGICAL_AND then x \<and> y else x \<or> y)
           | _ \<Rightarrow> None)))
       else if ae_op e \<notin> {DYN_OP_EQ, DYN_OP_NE, DYN_OP_LT, DYN_OP_LE, DYN_OP_GT, DYN_OP_GE} then Some None
       else assert_compare a e))"
  by pat_completeness auto
termination
  by (relation "measure (\<lambda>(a, i, depth). 65 - depth)") auto

declare assert_value.simps [simp del]

subsection \<open>The exact value of a constant expression\<close>

definition in64 :: "int \<Rightarrow> bool" where
  "in64 v \<longleftrightarrow> INT64_MIN \<le> v \<and> v \<le> INT64_MAX"

text \<open>What the folding of an expression has to report: its exact value, an overflow, or nothing.\<close>

datatype 'v outcome = Exact 'v | Overflow | Unknown

definition fitted :: "int \<Rightarrow> int outcome" where
  "fitted v = (if in64 v then Exact v else Overflow)"

text \<open>
  Operations on mathematical integers. The language gives no value to a division by zero; a remainder overflows with its
  quotient, and a shift overflows when its amount is not below 64 or when a negative value is shifted left.
\<close>

definition exact_int :: "dyn_operator \<Rightarrow> int \<Rightarrow> int \<Rightarrow> int outcome" where
  "exact_int opr l r =
     (case opr of
        DYN_OP_ADD \<Rightarrow> fitted (l + r)
      | DYN_OP_SUB \<Rightarrow> fitted (l - r)
      | DYN_OP_MUL \<Rightarrow> fitted (l * r)
      | DYN_OP_DIV \<Rightarrow> if r = 0 then Unknown else fitted (l sdiv r)
      | DYN_OP_REM \<Rightarrow> if r = 0 then Unknown else if in64 (l sdiv r) then Exact (l smod r) else Overflow
      | DYN_OP_SHL \<Rightarrow> if 0 \<le> r \<and> r < 64 \<and> 0 \<le> l then fitted (l * 2 ^ nat r) else Overflow
      | DYN_OP_SHR \<Rightarrow> if 0 \<le> r \<and> r < 64 then Exact (l div 2 ^ nat r) else Overflow
      | _ \<Rightarrow> Unknown)"

definition exact_unary :: "dyn_operator \<Rightarrow> int \<Rightarrow> int outcome" where
  "exact_unary opr v = (if opr = DYN_OP_NEG then fitted (- v) else if opr = DYN_OP_BIT_NOT then Exact (- v - 1) else Unknown)"

text \<open>An operation on parts that are not all known: an overflow of a part is an overflow of the whole.\<close>

fun one :: "('v \<Rightarrow> 'v outcome) \<Rightarrow> 'v outcome \<Rightarrow> 'v outcome" where
  "one h (Exact v) = h v"
| "one h x = x"

fun both :: "('v \<Rightarrow> 'v \<Rightarrow> 'v outcome) \<Rightarrow> 'v outcome \<Rightarrow> 'v outcome \<Rightarrow> 'v outcome" where
  "both h (Exact l) (Exact r) = h l r"
| "both h x y = (if x = Overflow \<or> y = Overflow then Overflow else Unknown)"

text \<open>An expression that is not folded: missing, wrapping, or of another kind.\<close>

definition unfolded :: "ast_program \<Rightarrow> nat \<Rightarrow> ast_expr \<Rightarrow> bool" where
  "unfolded a f e \<longleftrightarrow> ae_wrap e \<or> ae_kind e \<notin> {DYN_EXPR_INT, DYN_EXPR_CHAR, DYN_EXPR_UNARY, DYN_EXPR_BINARY} \<and>
     (f = 0 \<or> ae_kind e \<noteq> DYN_EXPR_CONVERT \<and> constant_name a e = None)"

text \<open>
  \<open>int_const a follow i o\<close>: \<open>o\<close> is the outcome of expression \<open>i\<close> as a signed 64-bit constant; \<open>follow\<close> bounds the
  conversions and names looked through.
\<close>

inductive int_const :: "ast_program \<Rightarrow> nat \<Rightarrow> expr_id \<Rightarrow> int outcome \<Rightarrow> bool" for a where
  missing: "int_const a f DYN_NO_EXPR Unknown"
| other: "i \<noteq> DYN_NO_EXPR \<Longrightarrow> table_at (a_expressions a) i = Some e \<Longrightarrow> unfolded a f e \<Longrightarrow> int_const a f i Unknown"
| convert: "i \<noteq> DYN_NO_EXPR \<Longrightarrow> table_at (a_expressions a) i = Some e \<Longrightarrow> \<not> ae_wrap e \<Longrightarrow>
    ae_kind e = DYN_EXPR_CONVERT \<Longrightarrow> int_const a f (ae_left e) x \<Longrightarrow> int_const a (Suc f) i x"
| name: "i \<noteq> DYN_NO_EXPR \<Longrightarrow> table_at (a_expressions a) i = Some e \<Longrightarrow> \<not> ae_wrap e \<Longrightarrow>
    constant_name a e = Some j \<Longrightarrow> int_const a f j x \<Longrightarrow> int_const a (Suc f) i x"
| literal: "i \<noteq> DYN_NO_EXPR \<Longrightarrow> table_at (a_expressions a) i = Some e \<Longrightarrow> \<not> ae_wrap e \<Longrightarrow>
    ae_kind e = DYN_EXPR_INT \<or> ae_kind e = DYN_EXPR_CHAR \<Longrightarrow> int_const a f i (fitted (uint (ae_integer e)))"
| negative: "i \<noteq> DYN_NO_EXPR \<Longrightarrow> table_at (a_expressions a) i = Some e \<Longrightarrow> \<not> ae_wrap e \<Longrightarrow>
    ae_kind e = DYN_EXPR_UNARY \<Longrightarrow> negative_literal a e = Some m \<Longrightarrow> int_const a f i (fitted (- uint m))"
| unary: "i \<noteq> DYN_NO_EXPR \<Longrightarrow> table_at (a_expressions a) i = Some e \<Longrightarrow> \<not> ae_wrap e \<Longrightarrow>
    ae_kind e = DYN_EXPR_UNARY \<Longrightarrow> negative_literal a e = None \<Longrightarrow> int_const a f (ae_left e) x \<Longrightarrow>
    int_const a f i (one (exact_unary (ae_op e)) x)"
| binary: "i \<noteq> DYN_NO_EXPR \<Longrightarrow> table_at (a_expressions a) i = Some e \<Longrightarrow> \<not> ae_wrap e \<Longrightarrow>
    ae_kind e = DYN_EXPR_BINARY \<Longrightarrow> int_const a f (ae_left e) x \<Longrightarrow> int_const a f (ae_right e) y \<Longrightarrow>
    int_const a f i (both (exact_int (ae_op e)) x y)"

text \<open>What a folded constant reports.\<close>

definition reports :: "constant_int_t \<Rightarrow> int outcome \<Rightarrow> bool" where
  "reports r x \<longleftrightarrow> (case x of Exact v \<Rightarrow> ci_valid r \<and> \<not> ci_overflow r \<and> ci_value r = v
     | Overflow \<Rightarrow> \<not> ci_valid r \<and> ci_overflow r | Unknown \<Rightarrow> \<not> ci_valid r \<and> \<not> ci_overflow r)"

lemma reports_simps [simp]:
  "reports r (Exact v) \<longleftrightarrow> ci_valid r \<and> \<not> ci_overflow r \<and> ci_value r = v"
  "reports r Overflow \<longleftrightarrow> \<not> ci_valid r \<and> ci_overflow r" "reports r Unknown \<longleftrightarrow> \<not> ci_valid r \<and> \<not> ci_overflow r"
  by (simp_all add: reports_def)

lemma ci_simps [simp]:
  "\<not> ci_valid ci_none" "\<not> ci_overflow ci_none" "\<not> ci_valid ci_over" "ci_overflow ci_over"
  "ci_valid (ci_result overflow v) \<longleftrightarrow> \<not> overflow" "ci_overflow (ci_result overflow v) \<longleftrightarrow> overflow"
  "ci_value (ci_result False v) = v"
  by (simp_all add: ci_none_def ci_over_def ci_result_def)

lemma reports_none [simp]: "reports ci_none x \<longleftrightarrow> x = Unknown"
  by (cases x) (simp_all add: ci_none_def)

lemma reports_over [simp]: "reports ci_over x \<longleftrightarrow> x = Overflow"
  by (cases x) (simp_all add: ci_over_def)

lemma reports_result: "reports (ci_result overflow v) x \<longleftrightarrow> x = (if overflow then Overflow else Exact v)"
  by (cases x) (auto simp: ci_result_def)

text \<open>The overflow tests of multiplication, with truncating division, are exact.\<close>

lemma sdiv_pos_pos: "0 \<le> (k :: int) \<Longrightarrow> 0 < l \<Longrightarrow> k sdiv l = k div l"
  by (cases "k = 0") (simp_all add: signed_divide_int_def)

lemma sdiv_neg_pos: "k \<le> (0 :: int) \<Longrightarrow> 0 < l \<Longrightarrow> k sdiv l = - ((- k) div l)"
  by (cases "k = 0") (simp_all add: signed_divide_int_def)

lemma sdiv_pos_neg: "0 \<le> (k :: int) \<Longrightarrow> l < 0 \<Longrightarrow> k sdiv l = - (k div (- l))"
  by (cases "k = 0") (simp_all add: signed_divide_int_def)

lemma div_less_pos:
  assumes "0 < (l :: int)"
  shows "n div l < m \<longleftrightarrow> n < m * l"
proof
  assume "n div l < m"
  then have "(n div l + 1) * l \<le> m * l" using assms by (intro mult_right_mono) simp_all
  moreover have "n < (n div l + 1) * l"
    unfolding distrib_right mult_1_left
    using div_mult_mod_eq [of n l] pos_mod_bound [OF assms, of n] by linarith
  ultimately show "n < m * l" by simp
next
  assume n: "n < m * l"
  show "n div l < m"
  proof (rule ccontr)
    assume "\<not> n div l < m"
    then have "m * l \<le> n div l * l" using assms by (intro mult_right_mono) simp_all
    moreover have "n div l * l \<le> n"
      using div_mult_mod_eq [of n l] pos_mod_sign [OF assms, of n] by linarith
    ultimately show False using n by simp
  qed
qed

lemma mul_overflows_exact:
  assumes "in64 l" and "in64 r" and "l \<noteq> 0" and "r \<noteq> 0"
  shows "mul_overflows l r \<longleftrightarrow> \<not> in64 (l * r)"
proof -
  consider (pp) "0 < l" "0 < r" | (pn) "0 < l" "r < 0" | (np) "l < 0" "0 < r" | (nn) "l < 0" "r < 0"
    using assms by linarith
  then show ?thesis
  proof cases
    case pp
    then have "mul_overflows l r \<longleftrightarrow> INT64_MAX < l * r"
      by (simp add: mul_overflows_def sdiv_pos_pos div_less_pos)
    moreover have "0 < l * r" using pp by simp
    ultimately show ?thesis by (auto simp: in64_def)
  next
    case pn
    then have "mul_overflows l r \<longleftrightarrow> r < - (2 ^ 63 div l)"
      by (simp add: mul_overflows_def sdiv_pos_pos)
    then have "mul_overflows l r \<longleftrightarrow> 2 ^ 63 div l < - r" by linarith
    also have "\<dots> \<longleftrightarrow> 2 ^ 63 < - (l * r)"
      using div_less_pos [OF pn(1)] by (simp add: mult.commute)
    finally have "mul_overflows l r \<longleftrightarrow> 2 ^ 63 < - (l * r)" .
    moreover have "l * r < 0" using pn by (rule mult_pos_neg)
    ultimately show ?thesis by (simp add: in64_def) linarith
  next
    case np
    then have "mul_overflows l r \<longleftrightarrow> l < - (2 ^ 63 div r)"
      by (simp add: mul_overflows_def sdiv_pos_pos)
    then have "mul_overflows l r \<longleftrightarrow> 2 ^ 63 div r < - l" by linarith
    also have "\<dots> \<longleftrightarrow> 2 ^ 63 < - (l * r)"
      using div_less_pos [OF np(2)] by simp
    finally have "mul_overflows l r \<longleftrightarrow> 2 ^ 63 < - (l * r)" .
    moreover have "l * r < 0" using np by (rule mult_neg_pos)
    ultimately show ?thesis by (simp add: in64_def) linarith
  next
    case nn
    then have "mul_overflows l r \<longleftrightarrow> INT64_MAX div (- r) < - l"
      by (simp add: mul_overflows_def sdiv_pos_neg) linarith
    also have "\<dots> \<longleftrightarrow> INT64_MAX < l * r"
      using div_less_pos [of "- r"] nn by simp
    finally have "mul_overflows l r \<longleftrightarrow> INT64_MAX < l * r" .
    moreover have "0 < l * r" using nn by (rule mult_neg_neg)
    ultimately show ?thesis by (auto simp: in64_def)
  qed
qed

lemma sdiv_in64:
  assumes "in64 l" and "r \<noteq> 0" and "\<not> (l = INT64_MIN \<and> r = - 1)"
  shows "in64 (l sdiv r)"
proof (cases "l = INT64_MIN \<and> r < 0")
  case True
  then have "2 \<le> - r" using assms(3) by linarith
  then have "2 ^ 63 div (- r) \<le> 2 ^ 63 div (2 :: int)" by (intro zdiv_mono2) simp_all
  moreover have "0 \<le> 2 ^ 63 div (- r)" using True by (simp add: pos_imp_zdiv_nonneg_iff)
  moreover have "l sdiv r = 2 ^ 63 div (- r)" using True by (simp add: sdiv_pos_neg)
  ultimately show ?thesis by (simp add: in64_def)
next
  case False
  have range: "- \<bar>l\<bar> \<le> l sdiv r" "l sdiv r \<le> \<bar>l\<bar>" using sdiv_int_range [of l r] by simp_all
  show ?thesis
  proof (cases "l = INT64_MIN")
    case True
    then have r: "0 < r" using False assms(2) by simp
    then have "0 \<le> (2 ^ 63) div r" by (simp add: pos_imp_zdiv_nonneg_iff)
    then show ?thesis using True r range by (simp add: in64_def sdiv_pos_pos)
  next
    case False
    then show ?thesis using range assms(1) unfolding in64_def by linarith
  qed
qed

lemma smod_in64:
  assumes "in64 l"
  shows "in64 (l smod r)"
proof -
  have "0 \<le> \<bar>l\<bar> mod \<bar>r\<bar>"
  proof (cases "r = 0")
    case False
    then show ?thesis by (intro pos_mod_sign) simp
  qed simp
  moreover have "\<bar>l\<bar> mod \<bar>r\<bar> \<le> \<bar>l\<bar>" by (rule zmod_le_nonneg_dividend) simp
  ultimately have m: "0 \<le> \<bar>l\<bar> mod \<bar>r\<bar>" "\<bar>l\<bar> mod \<bar>r\<bar> \<le> \<bar>l\<bar>" .
  consider "l smod r = \<bar>l\<bar> mod \<bar>r\<bar>" "0 \<le> l" | "l smod r = - (\<bar>l\<bar> mod \<bar>r\<bar>)" "l < 0"
    by (cases "l < 0") (auto simp: signed_modulo_int_def sgn_if)
  then show ?thesis using assms m unfolding in64_def by cases linarith+
qed

lemma shl_in64:
  assumes "0 \<le> l"
  shows "l > drop_bit n INT64_MAX \<longleftrightarrow> \<not> in64 (l * 2 ^ n)"
proof -
  have "drop_bit n INT64_MAX < l \<longleftrightarrow> INT64_MAX < l * 2 ^ n"
    unfolding drop_bit_eq_div by (rule div_less_pos) simp
  moreover have "0 \<le> l * 2 ^ n" using assms by simp
  ultimately show ?thesis by (auto simp: in64_def)
qed

lemma shr_in64: "in64 l \<Longrightarrow> in64 (l div 2 ^ n)"
proof -
  assume l: "in64 l"
  show ?thesis
  proof (cases "0 \<le> l")
    case True
    have "l div 2 ^ n \<le> l" using True zdiv_mono2 [of l 1 "2 ^ n"] by simp
    moreover have "0 \<le> l div 2 ^ n" using True by (simp add: pos_imp_zdiv_nonneg_iff)
    ultimately show ?thesis using l by (simp add: in64_def)
  next
    case False
    have "l div 2 ^ n < 0" using False by (simp add: pos_imp_zdiv_neg_iff)
    moreover have "l \<le> l div 2 ^ n"
    proof -
      have "l * 2 ^ n \<le> l * 1" using False by (intro mult_left_mono_neg) simp_all
      then show ?thesis using div_less_pos [of "2 ^ n" l l] by simp
    qed
    ultimately show ?thesis using l by (simp add: in64_def)
  qed
qed

text \<open>Folding an operation on two 64-bit values gives the exact result or reports overflow.\<close>

lemma fold_int_exact:
  assumes "in64 l" and "in64 r"
  shows "reports (fold_int opr l r) (exact_int opr l r)"
proof (cases opr)
  case DYN_OP_ADD
  have "(r > 0 \<and> l > INT64_MAX - r \<or> r < 0 \<and> l < INT64_MIN - r) \<longleftrightarrow> \<not> in64 (l + r)"
    using assms unfolding in64_def by linarith
  then show ?thesis by (simp add: DYN_OP_ADD fold_int_def exact_int_def fitted_def reports_result)
next
  case DYN_OP_SUB
  have "(r < 0 \<and> l > INT64_MAX + r \<or> r > 0 \<and> l < INT64_MIN + r) \<longleftrightarrow> \<not> in64 (l - r)"
    using assms unfolding in64_def by linarith
  then show ?thesis by (simp add: DYN_OP_SUB fold_int_def exact_int_def fitted_def reports_result)
next
  case DYN_OP_MUL
  show ?thesis
  proof (cases "l = 0 \<or> r = 0")
    case True
    then show ?thesis by (auto simp: DYN_OP_MUL fold_int_def exact_int_def fitted_def reports_result in64_def)
  next
    case False
    then show ?thesis using mul_overflows_exact [OF assms]
      by (auto simp: DYN_OP_MUL fold_int_def exact_int_def fitted_def reports_result)
  qed
next
  case DYN_OP_DIV
  have "\<not> in64 (INT64_MIN sdiv (- 1))" by (simp add: in64_def)
  then show ?thesis using sdiv_in64 [OF assms(1), of r]
    by (cases "l = INT64_MIN \<and> r = - 1") (auto simp: DYN_OP_DIV fold_int_def exact_int_def fitted_def reports_result)
next
  case DYN_OP_REM
  have "\<not> in64 (INT64_MIN sdiv (- 1))" by (simp add: in64_def)
  then show ?thesis using sdiv_in64 [OF assms(1), of r]
    by (cases "l = INT64_MIN \<and> r = - 1") (auto simp: DYN_OP_REM fold_int_def exact_int_def fitted_def reports_result)
next
  case DYN_OP_SHL
  show ?thesis
  proof (cases "0 \<le> r \<and> r < 64 \<and> 0 \<le> l")
    case True
    then show ?thesis using shl_in64 [of l "nat r"]
      by (auto simp: DYN_OP_SHL fold_int_def exact_int_def fitted_def reports_result push_bit_eq_mult)
  qed (auto simp: DYN_OP_SHL fold_int_def exact_int_def reports_result)
next
  case DYN_OP_SHR
  then show ?thesis by (auto simp: fold_int_def exact_int_def reports_result drop_bit_eq_div)
qed (auto simp: fold_int_def exact_int_def)

lemma exact_int_range: "exact_int opr l r = Exact v \<Longrightarrow> in64 l \<Longrightarrow> in64 v"
  using smod_in64 [of l r] shr_in64 [of l "nat r"]
  by (cases opr) (auto simp: exact_int_def fitted_def split: if_splits)

lemma int_const_range: "int_const a f i x \<Longrightarrow> x = Exact v \<Longrightarrow> in64 v"
proof (induction arbitrary: v rule: int_const.induct)
  case (unary i e f x)
  then show ?case by (cases x) (auto simp: exact_unary_def fitted_def in64_def split: if_splits)
next
  case (binary i e f x y)
  then show ?case by (cases x; cases y) (auto dest: exact_int_range)
qed (auto simp: fitted_def split: if_splits)

text \<open>
  The literals that \<open>check_expr\<close> marks as negative have magnitude at most \<open>2 ^ 63\<close> (the width test
  before \<open>boolean\<close> is set).
\<close>

definition literals_checked :: "ast_program \<Rightarrow> bool" where
  "literals_checked a \<longleftrightarrow> list_all (\<lambda>e. ae_kind e = DYN_EXPR_UNARY \<longrightarrow>
     (case negative_literal a e of Some m \<Rightarrow> uint m \<le> 2 ^ 63 | None \<Rightarrow> True)) (a_expressions a)"

lemma literals_checkedD:
  assumes "literals_checked a" and "table_at (a_expressions a) i = Some e" and "ae_kind e = DYN_EXPR_UNARY"
    and "negative_literal a e = Some m"
  shows "uint m \<le> 2 ^ 63"
proof -
  have "e \<in> set (a_expressions a)" using assms(2) by (auto simp: table_at_def split: if_splits)
  then show ?thesis using assms by (auto simp: literals_checked_def list_all_iff)
qed

lemma sint_small: "uint (w :: u64) < 2 ^ 63 \<Longrightarrow> sint w = uint w"
  by (simp add: sint_uint signed_take_bit_int_eq_self)

lemma negative_magnitude:
  assumes "uint (m :: u64) \<le> 2 ^ 63"
  shows "(if m = 2 ^ 63 then INT64_MIN else - sint m) = - uint m"
proof (cases "m = 2 ^ 63")
  case False
  have "uint m \<noteq> uint (2 ^ 63 :: u64)" using False by (metis word_uint_eqI)
  then have "uint m < 2 ^ 63" using assms by simp
  then show ?thesis using False by (simp add: sint_small)
qed simp

lemma unary_int_exact:
  assumes "reports c x" and "\<And>v. x = Exact v \<Longrightarrow> in64 v"
  shows "reports (unary_int opr c) (one (exact_unary opr) x)"
  using assms by (cases x) (auto simp: unary_int_def exact_unary_def fitted_def in64_def not_int_def)

lemma both_int_exact:
  assumes "reports c x" "reports d y" "\<And>v. x = Exact v \<Longrightarrow> in64 v" "\<And>v. y = Exact v \<Longrightarrow> in64 v"
  shows "reports (if \<not> ci_valid c \<or> \<not> ci_valid d then \<lparr>ci_valid = False, ci_overflow = ci_overflow c \<or> ci_overflow d, ci_value = 0\<rparr>
      else fold_int opr (ci_value c) (ci_value d)) (both (exact_int opr) x y)"
  using assms fold_int_exact by (cases x; cases y) auto

lemma literal_exact:
  "reports (if uint n > INT64_MAX then ci_over else \<lparr>ci_valid = True, ci_overflow = False, ci_value = sint (n :: u64)\<rparr>) (fitted (uint n))"
  using sint_small [of n] by (auto simp: fitted_def in64_def order_trans [of _ 0])

lemma negative_exact:
  assumes "uint (m :: u64) \<le> 2 ^ 63"
  shows "reports \<lparr>ci_valid = True, ci_overflow = False, ci_value = (if m = 2 ^ 63 then INT64_MIN else - sint m)\<rparr> (fitted (- uint m))"
  using negative_magnitude [OF assms] assms by (simp add: fitted_def in64_def order_trans [of _ 0])

lemma constant_name_kind: "constant_name a e = Some j \<Longrightarrow> ae_kind e = DYN_EXPR_GLOBAL"
  by (auto simp: constant_name_def split: if_splits)

lemma constant_name_none: "ae_kind e \<noteq> DYN_EXPR_GLOBAL \<Longrightarrow> constant_name a e = None"
  by (simp add: constant_name_def)

lemma int_of_expr_sound:
  assumes i: "i \<noteq> DYN_NO_EXPR" "table_at (a_expressions a) i = Some e" "\<not> ae_wrap e"
    and eq: "int_of_expr a g f e = Some r" and lit: "literals_checked a"
    and IH: "\<And>i f r. g i f = Some r \<Longrightarrow> \<exists>x. int_const a f i x \<and> reports r x"
  shows "\<exists>x. int_const a f i x \<and> reports r x"
proof (cases "f \<noteq> 0 \<and> (ae_kind e = DYN_EXPR_CONVERT \<or> constant_name a e \<noteq> None)")
  case True
  then obtain f' where f: "f = Suc f'" by (cases f) auto
  show ?thesis
  proof (cases "ae_kind e = DYN_EXPR_CONVERT")
    case True
    then have "g (ae_left e) f' = Some r" using eq f by (simp add: int_of_expr_def)
    then show ?thesis using IH int_const.convert [OF i True] f by blast
  next
    case False
    then obtain j where j: "constant_name a e = Some j" using True by auto
    then have "g j f' = Some r" using False eq f by (simp add: int_of_expr_def)
    then show ?thesis using IH int_const.name [OF i j] f by blast
  qed
next
  case False
  then consider (lit) "ae_kind e = DYN_EXPR_INT \<or> ae_kind e = DYN_EXPR_CHAR"
    | (neg) m where "ae_kind e = DYN_EXPR_UNARY" "negative_literal a e = Some m"
    | (un) "ae_kind e = DYN_EXPR_UNARY" "negative_literal a e = None" | (bin) "ae_kind e = DYN_EXPR_BINARY"
    | (rest) "unfolded a f e" "r = ci_none"
    using eq by (cases "negative_literal a e") (auto simp: int_of_expr_def unfolded_def split: if_splits)
  then show ?thesis
  proof cases
    case lit
    then have "r = (if uint (ae_integer e) > INT64_MAX then ci_over else \<lparr>ci_valid = True, ci_overflow = False, ci_value = sint (ae_integer e)\<rparr>)"
      using eq False by (auto simp: int_of_expr_def)
    then show ?thesis using int_const.literal [OF i lit] literal_exact by blast
  next
    case (neg m)
    then show ?thesis using eq False negative_exact [OF literals_checkedD [OF lit i(2) neg]] int_const.negative [OF i neg]
      by (fastforce simp: int_of_expr_def)
  next
    case un
    then obtain c where c: "g (ae_left e) f = Some c" "r = unary_int (ae_op e) c"
      using eq False by (auto simp: int_of_expr_def bind_eq_Some_conv)
    obtain x where x: "int_const a f (ae_left e) x" "reports c x" using IH [OF c(1)] by blast
    show ?thesis using int_const.unary [OF i un x(1)] unary_int_exact [OF x(2)] int_const_range [OF x(1)] c(2) by blast
  next
    case bin
    then obtain c d where cd: "g (ae_left e) f = Some c" "g (ae_right e) f = Some d"
        "r = (if \<not> ci_valid c \<or> \<not> ci_valid d then \<lparr>ci_valid = False, ci_overflow = ci_overflow c \<or> ci_overflow d, ci_value = 0\<rparr>
          else fold_int (ae_op e) (ci_value c) (ci_value d))"
      using eq False by (auto simp: int_of_expr_def bind_eq_Some_conv split: if_splits)
    obtain x y where xy: "int_const a f (ae_left e) x" "reports c x" "int_const a f (ae_right e) y" "reports d y"
      using IH [OF cd(1)] IH [OF cd(2)] by blast
    show ?thesis unfolding cd(3)
      using int_const.binary [OF i bin xy(1,3)] both_int_exact [OF xy(2,4)] int_const_range [OF xy(1)] int_const_range [OF xy(3)] by blast
  next
    case rest
    then show ?thesis using int_const.other [OF i(1,2)] by auto
  qed
qed

lemma constant_int_sound:
  assumes "constant_int_at a i f = Some r" and "literals_checked a"
  shows "\<exists>x. int_const a f i x \<and> reports r x"
proof -
  have "literals_checked a \<longrightarrow> (\<exists>x. int_const a f i x \<and> reports r x)"
  proof (rule constant_int_at.raw_induct
      [where P = "\<lambda>a i f r. literals_checked a \<longrightarrow> (\<exists>x. int_const a f i x \<and> reports r x)", OF _ assms(1)], intro impI)
    fix g :: "ast_program \<Rightarrow> expr_id \<Rightarrow> nat \<Rightarrow> constant_int_t option" and a i f r
    assume IH: "\<And>a i f r. g a i f = Some r \<Longrightarrow> literals_checked a \<longrightarrow> (\<exists>x. int_const a f i x \<and> reports r x)"
      and eq: "(if i = DYN_NO_EXPR then Some ci_none
        else Option.bind (table_at (a_expressions a) i)
          (\<lambda>e. if ae_wrap e then Some ci_none else int_of_expr a (g a) f e)) = Some r"
      and lit: "literals_checked a"
    from eq consider "i = DYN_NO_EXPR" "r = ci_none"
      | e where "i \<noteq> DYN_NO_EXPR" "table_at (a_expressions a) i = Some e" "ae_wrap e" "r = ci_none"
      | e where "i \<noteq> DYN_NO_EXPR" "table_at (a_expressions a) i = Some e" "\<not> ae_wrap e" "int_of_expr a (g a) f e = Some r"
      by (auto simp: bind_eq_Some_conv split: if_splits)
    then show "\<exists>x. int_const a f i x \<and> reports r x"
    proof cases
      case 1
      then show ?thesis using int_const.missing by auto
    next
      case (2 e)
      then show ?thesis using int_const.other [of i a e f] by (auto simp: unfolded_def)
    next
      case (3 e)
      then show ?thesis using int_of_expr_sound [OF 3 lit] IH lit by blast
    qed
  qed
  then show ?thesis using assms by blast
qed

text \<open>Conversely a constant expression whose outcome is determined is folded, to that outcome.\<close>

lemma constant_int_unfold:
  "i \<noteq> DYN_NO_EXPR \<Longrightarrow> table_at (a_expressions a) i = Some e \<Longrightarrow> \<not> ae_wrap e \<Longrightarrow>
    constant_int_at a i f = int_of_expr a (constant_int_at a) f e"
  by (subst constant_int_at.simps) simp

definition folds_to :: "constant_int_t option \<Rightarrow> int outcome \<Rightarrow> bool" where
  "folds_to m x \<longleftrightarrow> (\<exists>r. m = Some r \<and> reports r x)"

lemma folds_to_Some [simp]: "folds_to (Some r) x \<longleftrightarrow> reports r x"
  by (simp add: folds_to_def)

lemma constant_int_complete:
  assumes "literals_checked a"
  shows "int_const a f i x \<Longrightarrow> folds_to (constant_int_at a i f) x"
proof (induction rule: int_const.induct)
  case (missing f)
  then show ?case by (simp add: constant_int_at.simps)
next
  case (other i e f)
  then show ?case by (cases "ae_wrap e") (auto simp: constant_int_at.simps int_of_expr_def unfolded_def)
next
  case (convert i e f x)
  then show ?case by (auto simp: constant_int_unfold int_of_expr_def)
next
  case (name i e j f x)
  then show ?case by (auto simp: constant_int_unfold int_of_expr_def dest: constant_name_kind)
next
  case (literal i e f)
  then have "constant_int_at a i f = Some (if uint (ae_integer e) > INT64_MAX then ci_over
      else \<lparr>ci_valid = True, ci_overflow = False, ci_value = sint (ae_integer e)\<rparr>)"
    by (auto simp: constant_int_unfold int_of_expr_def constant_name_none)
  then show ?case using literal_exact by (simp only: folds_to_Some)
next
  case (negative i e m f)
  then have "constant_int_at a i f = Some \<lparr>ci_valid = True, ci_overflow = False, ci_value = (if m = 2 ^ 63 then INT64_MIN else - sint m)\<rparr>"
    by (simp add: constant_int_unfold int_of_expr_def constant_name_none)
  then show ?case using negative_exact [OF literals_checkedD [OF assms negative(2,4,5)]] by (simp only: folds_to_Some)
next
  case (unary i e f x)
  then obtain c where "constant_int_at a (ae_left e) f = Some c" "reports c x" by (auto simp: folds_to_def)
  moreover from this have "constant_int_at a i f = Some (unary_int (ae_op e) c)" using unary
    by (simp add: constant_int_unfold int_of_expr_def constant_name_none)
  ultimately show ?case using unary_int_exact int_const_range [OF unary(6)] by simp
next
  case (binary i e f x y)
  then obtain c d where cd: "constant_int_at a (ae_left e) f = Some c" "reports c x" "constant_int_at a (ae_right e) f = Some d" "reports d y"
    by (auto simp: folds_to_def)
  then have "constant_int_at a i f = Some (if \<not> ci_valid c \<or> \<not> ci_valid d then
      \<lparr>ci_valid = False, ci_overflow = ci_overflow c \<or> ci_overflow d, ci_value = 0\<rparr> else fold_int (ae_op e) (ci_value c) (ci_value d))"
    using binary by (auto simp: constant_int_unfold int_of_expr_def constant_name_none)
  then show ?case
    using both_int_exact [OF cd(2,4)] int_const_range [OF binary(5)] int_const_range [OF binary(6)] by (simp only: folds_to_Some)
qed

subsection \<open>The exact value of an unsigned constant\<close>

definition ufitted :: "nat \<Rightarrow> nat outcome" where
  "ufitted v = (if v < 2 ^ 64 then Exact v else Overflow)"

definition exact_uint :: "dyn_operator \<Rightarrow> nat \<Rightarrow> nat \<Rightarrow> nat outcome" where
  "exact_uint opr l r =
     (case opr of
        DYN_OP_ADD \<Rightarrow> ufitted (l + r)
      | DYN_OP_SUB \<Rightarrow> if l < r then Overflow else Exact (l - r)
      | DYN_OP_MUL \<Rightarrow> ufitted (l * r)
      | DYN_OP_DIV \<Rightarrow> if r = 0 then Unknown else Exact (l div r)
      | DYN_OP_REM \<Rightarrow> if r = 0 then Unknown else Exact (l mod r)
      | DYN_OP_SHL \<Rightarrow> if r < 64 then ufitted (l * 2 ^ r) else Overflow
      | DYN_OP_SHR \<Rightarrow> if r < 64 then Exact (l div 2 ^ r) else Overflow
      | _ \<Rightarrow> Unknown)"

text \<open>The complement is the only unary operation here: the folding of negation is not exact, see \<open>unary_uint\<close>.\<close>

definition exact_unary_uint :: "dyn_operator \<Rightarrow> nat \<Rightarrow> nat outcome" where
  "exact_unary_uint opr v = (if opr = DYN_OP_BIT_NOT then Exact (2 ^ 64 - 1 - v) else Unknown)"

inductive uint_const :: "ast_program \<Rightarrow> nat \<Rightarrow> expr_id \<Rightarrow> nat outcome \<Rightarrow> bool" for a where
  missing: "uint_const a f DYN_NO_EXPR Unknown"
| other: "i \<noteq> DYN_NO_EXPR \<Longrightarrow> table_at (a_expressions a) i = Some e \<Longrightarrow> unfolded a f e \<Longrightarrow> uint_const a f i Unknown"
| convert: "i \<noteq> DYN_NO_EXPR \<Longrightarrow> table_at (a_expressions a) i = Some e \<Longrightarrow> \<not> ae_wrap e \<Longrightarrow>
    ae_kind e = DYN_EXPR_CONVERT \<Longrightarrow> uint_const a f (ae_left e) x \<Longrightarrow> uint_const a (Suc f) i x"
| name: "i \<noteq> DYN_NO_EXPR \<Longrightarrow> table_at (a_expressions a) i = Some e \<Longrightarrow> \<not> ae_wrap e \<Longrightarrow>
    constant_name a e = Some j \<Longrightarrow> uint_const a f j x \<Longrightarrow> uint_const a (Suc f) i x"
| literal: "i \<noteq> DYN_NO_EXPR \<Longrightarrow> table_at (a_expressions a) i = Some e \<Longrightarrow> \<not> ae_wrap e \<Longrightarrow>
    ae_kind e = DYN_EXPR_INT \<or> ae_kind e = DYN_EXPR_CHAR \<Longrightarrow> uint_const a f i (Exact (unat (ae_integer e)))"
| unary: "i \<noteq> DYN_NO_EXPR \<Longrightarrow> table_at (a_expressions a) i = Some e \<Longrightarrow> \<not> ae_wrap e \<Longrightarrow>
    ae_kind e = DYN_EXPR_UNARY \<Longrightarrow> uint_const a f (ae_left e) x \<Longrightarrow> uint_const a f i (one (exact_unary_uint (ae_op e)) x)"
| binary: "i \<noteq> DYN_NO_EXPR \<Longrightarrow> table_at (a_expressions a) i = Some e \<Longrightarrow> \<not> ae_wrap e \<Longrightarrow>
    ae_kind e = DYN_EXPR_BINARY \<Longrightarrow> uint_const a f (ae_left e) x \<Longrightarrow> uint_const a f (ae_right e) y \<Longrightarrow>
    uint_const a f i (both (exact_uint (ae_op e)) x y)"

text \<open>\<open>negates a follow i\<close>: a part of expression \<open>i\<close> that the folding looks at is a unary minus.\<close>

inductive negates :: "ast_program \<Rightarrow> nat \<Rightarrow> expr_id \<Rightarrow> bool" for a where
  here: "table_at (a_expressions a) i = Some e \<Longrightarrow> ae_kind e = DYN_EXPR_UNARY \<Longrightarrow> ae_op e = DYN_OP_NEG \<Longrightarrow> negates a f i"
| convert: "table_at (a_expressions a) i = Some e \<Longrightarrow> ae_kind e = DYN_EXPR_CONVERT \<Longrightarrow> negates a f (ae_left e) \<Longrightarrow> negates a (Suc f) i"
| name: "table_at (a_expressions a) i = Some e \<Longrightarrow> constant_name a e = Some j \<Longrightarrow> negates a f j \<Longrightarrow> negates a (Suc f) i"
| operand: "table_at (a_expressions a) i = Some e \<Longrightarrow> ae_kind e = DYN_EXPR_UNARY \<Longrightarrow> negates a f (ae_left e) \<Longrightarrow> negates a f i"
| left: "table_at (a_expressions a) i = Some e \<Longrightarrow> ae_kind e = DYN_EXPR_BINARY \<Longrightarrow> negates a f (ae_left e) \<Longrightarrow> negates a f i"
| right: "table_at (a_expressions a) i = Some e \<Longrightarrow> ae_kind e = DYN_EXPR_BINARY \<Longrightarrow> negates a f (ae_right e) \<Longrightarrow> negates a f i"

definition ureports :: "constant_uint_t \<Rightarrow> nat outcome \<Rightarrow> bool" where
  "ureports r x \<longleftrightarrow> (case x of Exact v \<Rightarrow> cu_valid r \<and> \<not> cu_overflow r \<and> unat (cu_value r) = v
     | Overflow \<Rightarrow> \<not> cu_valid r \<and> cu_overflow r | Unknown \<Rightarrow> \<not> cu_valid r \<and> \<not> cu_overflow r)"

lemma ureports_simps [simp]:
  "ureports r (Exact v) \<longleftrightarrow> cu_valid r \<and> \<not> cu_overflow r \<and> unat (cu_value r) = v"
  "ureports r Overflow \<longleftrightarrow> \<not> cu_valid r \<and> cu_overflow r" "ureports r Unknown \<longleftrightarrow> \<not> cu_valid r \<and> \<not> cu_overflow r"
  by (simp_all add: ureports_def)

lemma cu_simps [simp]:
  "\<not> cu_valid cu_none" "\<not> cu_overflow cu_none" "cu_valid (cu_result overflow v) \<longleftrightarrow> \<not> overflow"
  "cu_overflow (cu_result overflow v) \<longleftrightarrow> overflow" "cu_value (cu_result False v) = v"
  by (simp_all add: cu_none_def cu_result_def)

lemma ureports_none [simp]: "ureports cu_none x \<longleftrightarrow> x = Unknown"
  by (cases x) (simp_all add: cu_none_def)

lemma ureports_result: "ureports (cu_result overflow v) x \<longleftrightarrow> x = (if overflow then Overflow else Exact (unat v))"
  by (cases x) (auto simp: cu_result_def)

lemma fold_uint_exact: "ureports (fold_uint opr l r) (exact_uint opr (unat l) (unat r))"
proof (cases opr)
  case DYN_OP_ADD
  show ?thesis using add_wraps_iff [of r l]
    by (auto simp: DYN_OP_ADD fold_uint_def exact_uint_def ufitted_def ureports_result unat_word_ariths not_le)
next
  case DYN_OP_SUB
  show ?thesis by (auto simp: DYN_OP_SUB fold_uint_def exact_uint_def ureports_result word_less_nat_alt unat_sub_if')
next
  case DYN_OP_MUL
  show ?thesis using mul_wraps_iff [of l r]
    by (auto simp: DYN_OP_MUL fold_uint_def exact_uint_def ufitted_def ureports_result unat_word_ariths not_le)
next
  case DYN_OP_DIV
  then show ?thesis by (auto simp: fold_uint_def exact_uint_def ureports_result unat_div unat_eq_0)
next
  case DYN_OP_REM
  then show ?thesis by (auto simp: fold_uint_def exact_uint_def ureports_result unat_mod unat_eq_0)
next
  case DYN_OP_SHL
  show ?thesis using shl_wraps_iff [of "unat r" l] unat_push_bit [of l "unat r"]
    by (auto simp: DYN_OP_SHL fold_uint_def exact_uint_def ufitted_def ureports_result word_le_nat_alt not_le)
next
  case DYN_OP_SHR
  then show ?thesis by (auto simp: fold_uint_def exact_uint_def ureports_result word_le_nat_alt not_le unat_drop_bit)
qed (auto simp: fold_uint_def exact_uint_def)

lemma unat_not: "unat (NOT (x :: u64)) = 2 ^ 64 - 1 - unat x"
proof -
  have "NOT x = - 1 - x" by (simp add: not_eq_complement)
  then show ?thesis by (simp only: unat_complement)
qed

lemma unary_uint_exact:
  "ureports c x \<Longrightarrow> opr \<noteq> DYN_OP_NEG \<Longrightarrow> ureports (unary_uint opr c) (one (exact_unary_uint opr) x)"
  by (cases x) (auto simp: unary_uint_def exact_unary_uint_def unat_not)

lemma both_uint_exact:
  assumes "ureports c x" "ureports d y"
  shows "ureports (if \<not> cu_valid c \<or> \<not> cu_valid d then \<lparr>cu_valid = False, cu_overflow = cu_overflow c \<or> cu_overflow d, cu_value = 0\<rparr>
      else fold_uint opr (cu_value c) (cu_value d)) (both (exact_uint opr) x y)"
  using assms fold_uint_exact [of opr "cu_value c" "cu_value d"] by (cases x; cases y) auto

lemma uint_of_expr_sound:
  assumes i: "i \<noteq> DYN_NO_EXPR" "table_at (a_expressions a) i = Some e" "\<not> ae_wrap e"
    and eq: "uint_of_expr a g f e = Some r" and free: "\<not> negates a f i"
    and IH: "\<And>i f r. g i f = Some r \<Longrightarrow> \<not> negates a f i \<Longrightarrow> \<exists>x. uint_const a f i x \<and> ureports r x"
  shows "\<exists>x. uint_const a f i x \<and> ureports r x"
proof (cases "f \<noteq> 0 \<and> (ae_kind e = DYN_EXPR_CONVERT \<or> constant_name a e \<noteq> None)")
  case True
  then obtain f' where f: "f = Suc f'" by (cases f) auto
  show ?thesis
  proof (cases "ae_kind e = DYN_EXPR_CONVERT")
    case True
    then have "g (ae_left e) f' = Some r" "\<not> negates a f' (ae_left e)"
      using eq f free negates.convert [OF i(2) True] by (auto simp: uint_of_expr_def)
    then show ?thesis using IH uint_const.convert [OF i True] f by blast
  next
    case False
    then obtain j where j: "constant_name a e = Some j" using True by auto
    then have "g j f' = Some r" "\<not> negates a f' j" using False eq f free negates.name [OF i(2) j] by (auto simp: uint_of_expr_def)
    then show ?thesis using IH uint_const.name [OF i j] f by blast
  qed
next
  case False
  then consider (lit) "ae_kind e = DYN_EXPR_INT \<or> ae_kind e = DYN_EXPR_CHAR"
    | (un) "ae_kind e = DYN_EXPR_UNARY" | (bin) "ae_kind e = DYN_EXPR_BINARY" | (rest) "unfolded a f e" "r = cu_none"
    using eq by (auto simp: uint_of_expr_def unfolded_def split: if_splits)
  then show ?thesis
  proof cases
    case lit
    then have "r = \<lparr>cu_valid = True, cu_overflow = False, cu_value = ae_integer e\<rparr>" using eq False by (auto simp: uint_of_expr_def)
    then show ?thesis using uint_const.literal [OF i lit, of f] by auto
  next
    case un
    then obtain c where c: "g (ae_left e) f = Some c" "r = unary_uint (ae_op e) c"
      using eq False by (auto simp: uint_of_expr_def bind_eq_Some_conv)
    have op: "ae_op e \<noteq> DYN_OP_NEG" "\<not> negates a f (ae_left e)" using free negates.here [OF i(2) un] negates.operand [OF i(2) un] by blast+
    obtain x where x: "uint_const a f (ae_left e) x" "ureports c x" using IH [OF c(1) op(2)] by blast
    show ?thesis using uint_const.unary [OF i un x(1)] unary_uint_exact [OF x(2) op(1)] c(2) by blast
  next
    case bin
    then obtain c d where cd: "g (ae_left e) f = Some c" "g (ae_right e) f = Some d"
        "r = (if \<not> cu_valid c \<or> \<not> cu_valid d then \<lparr>cu_valid = False, cu_overflow = cu_overflow c \<or> cu_overflow d, cu_value = 0\<rparr>
          else fold_uint (ae_op e) (cu_value c) (cu_value d))"
      using eq False by (auto simp: uint_of_expr_def bind_eq_Some_conv split: if_splits)
    have op: "\<not> negates a f (ae_left e)" "\<not> negates a f (ae_right e)" using free negates.left [OF i(2) bin] negates.right [OF i(2) bin] by blast+
    obtain x y where xy: "uint_const a f (ae_left e) x" "ureports c x" "uint_const a f (ae_right e) y" "ureports d y"
      using IH [OF cd(1) op(1)] IH [OF cd(2) op(2)] by blast
    show ?thesis unfolding cd(3) using uint_const.binary [OF i bin xy(1,3)] both_uint_exact [OF xy(2,4)] by blast
  next
    case rest
    then show ?thesis using uint_const.other [OF i(1,2)] by auto
  qed
qed

lemma constant_uint_sound:
  assumes "constant_uint_at a i f = Some r" and "\<not> negates a f i"
  shows "\<exists>x. uint_const a f i x \<and> ureports r x"
proof -
  have "\<not> negates a f i \<longrightarrow> (\<exists>x. uint_const a f i x \<and> ureports r x)"
  proof (rule constant_uint_at.raw_induct
      [where P = "\<lambda>a i f r. \<not> negates a f i \<longrightarrow> (\<exists>x. uint_const a f i x \<and> ureports r x)", OF _ assms(1)], intro impI)
    fix g :: "ast_program \<Rightarrow> expr_id \<Rightarrow> nat \<Rightarrow> constant_uint_t option" and a i f r
    assume IH: "\<And>a i f r. g a i f = Some r \<Longrightarrow> \<not> negates a f i \<longrightarrow> (\<exists>x. uint_const a f i x \<and> ureports r x)"
      and eq: "(if i = DYN_NO_EXPR then Some cu_none
        else Option.bind (table_at (a_expressions a) i)
          (\<lambda>e. if ae_wrap e then Some cu_none else uint_of_expr a (g a) f e)) = Some r"
      and free: "\<not> negates a f i"
    from eq consider "i = DYN_NO_EXPR" "r = cu_none"
      | e where "i \<noteq> DYN_NO_EXPR" "table_at (a_expressions a) i = Some e" "ae_wrap e" "r = cu_none"
      | e where "i \<noteq> DYN_NO_EXPR" "table_at (a_expressions a) i = Some e" "\<not> ae_wrap e" "uint_of_expr a (g a) f e = Some r"
      by (auto simp: bind_eq_Some_conv split: if_splits)
    then show "\<exists>x. uint_const a f i x \<and> ureports r x"
    proof cases
      case 1
      then show ?thesis using uint_const.missing by auto
    next
      case (2 e)
      then show ?thesis using uint_const.other [of i a e f] by (auto simp: unfolded_def)
    next
      case (3 e)
      then show ?thesis using uint_of_expr_sound [OF 3 free] IH by blast
    qed
  qed
  then show ?thesis using assms by blast
qed

lemma constant_uint_unfold:
  "i \<noteq> DYN_NO_EXPR \<Longrightarrow> table_at (a_expressions a) i = Some e \<Longrightarrow> \<not> ae_wrap e \<Longrightarrow>
    constant_uint_at a i f = uint_of_expr a (constant_uint_at a) f e"
  by (subst constant_uint_at.simps) simp

definition ufolds_to :: "constant_uint_t option \<Rightarrow> nat outcome \<Rightarrow> bool" where
  "ufolds_to m x \<longleftrightarrow> (\<exists>r. m = Some r \<and> ureports r x)"

lemma ufolds_to_Some [simp]: "ufolds_to (Some r) x \<longleftrightarrow> ureports r x"
  by (simp add: ufolds_to_def)

lemma constant_uint_complete: "uint_const a f i x \<Longrightarrow> \<not> negates a f i \<Longrightarrow> ufolds_to (constant_uint_at a i f) x"
proof (induction rule: uint_const.induct)
  case (missing f)
  then show ?case by (simp add: constant_uint_at.simps)
next
  case (other i e f)
  then show ?case by (cases "ae_wrap e") (auto simp: constant_uint_at.simps uint_of_expr_def unfolded_def)
next
  case (convert i e f x)
  then show ?case using negates.convert [OF convert(2,4)] by (auto simp: constant_uint_unfold uint_of_expr_def)
next
  case (name i e j f x)
  then show ?case using negates.name [OF name(2,4)] by (auto simp: constant_uint_unfold uint_of_expr_def dest: constant_name_kind)
next
  case (literal i e f)
  then show ?case by (auto simp: constant_uint_unfold uint_of_expr_def constant_name_none)
next
  case (unary i e f x)
  have op: "ae_op e \<noteq> DYN_OP_NEG" "\<not> negates a f (ae_left e)"
    using unary.prems negates.here [OF unary(2,4)] negates.operand [OF unary(2,4)] by blast+
  then obtain c where "constant_uint_at a (ae_left e) f = Some c" "ureports c x" using unary.IH by (auto simp: ufolds_to_def)
  moreover from this have "constant_uint_at a i f = Some (unary_uint (ae_op e) c)" using unary
    by (simp add: constant_uint_unfold uint_of_expr_def constant_name_none)
  ultimately show ?case using unary_uint_exact op(1) by simp
next
  case (binary i e f x y)
  have "\<not> negates a f (ae_left e)" "\<not> negates a f (ae_right e)"
    using binary.prems negates.left [OF binary(2,4)] negates.right [OF binary(2,4)] by blast+
  then obtain c d where cd: "constant_uint_at a (ae_left e) f = Some c" "ureports c x" "constant_uint_at a (ae_right e) f = Some d" "ureports d y"
    using binary.IH by (auto simp: ufolds_to_def)
  then have "constant_uint_at a i f = Some (if \<not> cu_valid c \<or> \<not> cu_valid d then
      \<lparr>cu_valid = False, cu_overflow = cu_overflow c \<or> cu_overflow d, cu_value = 0\<rparr> else fold_uint (ae_op e) (cu_value c) (cu_value d))"
    using binary by (auto simp: constant_uint_unfold uint_of_expr_def constant_name_none)
  then show ?case using both_uint_exact [OF cd(2,4)] by (simp only: ufolds_to_Some)
qed

subsection \<open>Comparisons in assertions\<close>

definition compares :: "dyn_operator \<Rightarrow> int \<Rightarrow> int \<Rightarrow> bool" where
  "compares opr l r =
     (case opr of DYN_OP_EQ \<Rightarrow> l = r | DYN_OP_NE \<Rightarrow> l \<noteq> r | DYN_OP_LT \<Rightarrow> l < r | DYN_OP_LE \<Rightarrow> l \<le> r
      | DYN_OP_GT \<Rightarrow> l > r | _ \<Rightarrow> l \<ge> r)"

lemma order_holds_compares: "order_holds opr (of_bool (l > r) - of_bool (l < r)) = compares opr l r"
  by (cases opr) (auto simp: order_holds_def compares_def)

lemma assert_compare_signed:
  assumes "assert_compare a e = Some (Some b)" and "literals_checked a"
    and "table_at (a_expressions a) (ae_left e) = Some x" and "assert_signed (ae_type x)"
  obtains i j l r where "assert_operand a (ae_left e) = Some i" "assert_operand a (ae_right e) = Some j"
    "int_const a 64 i (Exact l)" "int_const a 64 j (Exact r)" "b = compares (ae_op e) l r"
proof -
  obtain i j l r where "assert_operand a (ae_left e) = Some i" "assert_operand a (ae_right e) = Some j"
      and c: "constant_int_at a i 64 = Some l" "constant_int_at a j 64 = Some r" "ci_valid l" "ci_valid r"
        "b = order_holds (ae_op e) (of_bool (ci_value l > ci_value r) - of_bool (ci_value l < ci_value r))"
    using assms(1,3,4) by (auto simp: assert_compare_def bind_eq_Some_conv split: if_splits)
  moreover have exact: "int_const a 64 k (Exact (ci_value v))" if k: "constant_int_at a k 64 = Some v" "ci_valid v" for k v
  proof -
    obtain x where "int_const a 64 k x" "reports v x" using constant_int_sound [OF k(1) assms(2)] by blast
    then show ?thesis using k(2) by (cases x) simp_all
  qed
  ultimately show ?thesis
    using that [of i j "ci_value l" "ci_value r"] exact [OF c(1,3)] exact [OF c(2,4)] by (simp only: order_holds_compares)
qed

subsection \<open>Properties\<close>

text \<open>C16: folding a constant expression as a signed value reports its outcome: the exact value when the expression and all its
  parts fit 64 signed bits, an overflow exactly when a part overflows, and nothing for an expression that is not constant. Over the
  integers a remainder overflows with its quotient, and so does a left shift of a negative value or a shift by an amount
  outside 0 to 63.\<close>

theorem signed_folding_exact:
  assumes "literals_checked a"
  shows "(\<exists>r. constant_int_at a i f = Some r \<and> reports r x) \<longleftrightarrow> int_const a f i x"
proof
  assume "\<exists>r. constant_int_at a i f = Some r \<and> reports r x"
  then obtain r where r: "constant_int_at a i f = Some r" "reports r x" by blast
  then obtain y where "int_const a f i y" "reports r y" using constant_int_sound [OF r(1) assms] by blast
  moreover from this have "y = x" using r(2) by (cases x; cases y) auto
  ultimately show "int_const a f i x" by simp
next
  assume "int_const a f i x"
  then show "\<exists>r. constant_int_at a i f = Some r \<and> reports r x" using constant_int_complete [OF assms] by (simp add: folds_to_def)
qed

text \<open>C17: the same for unsigned constants, for an expression none of whose parts is a unary minus: folding reports the exact
  value when every part lies between 0 and \<open>2 ^ 64 - 1\<close>, and an overflow exactly when a part leaves this range or shifts by 64 or more.\<close>

theorem unsigned_folding_exact:
  assumes "\<not> negates a f i"
  shows "(\<exists>r. constant_uint_at a i f = Some r \<and> ureports r x) \<longleftrightarrow> uint_const a f i x"
proof
  assume "\<exists>r. constant_uint_at a i f = Some r \<and> ureports r x"
  then obtain r where r: "constant_uint_at a i f = Some r" "ureports r x" by blast
  then obtain y where "uint_const a f i y" "ureports r y" using constant_uint_sound [OF r(1) assms] by blast
  moreover from this have "y = x" using r(2) by (cases x; cases y) auto
  ultimately show "uint_const a f i x" by simp
next
  assume "uint_const a f i x"
  then show "\<exists>r. constant_uint_at a i f = Some r \<and> ureports r x" using constant_uint_complete assms by (simp add: ufolds_to_def)
qed

definition sample_expr :: "expr_kind \<Rightarrow> dyn_operator \<Rightarrow> expr_id \<Rightarrow> expr_id \<Rightarrow> u64 \<Rightarrow> ast_expr" where
  "sample_expr k opr l r n = \<lparr>ae_kind = k, ae_type = DYN_TYPE_I32, ae_span = \<lparr>start_byte = 0, end_byte = 0\<rparr>,
     ae_op = opr, ae_left = l, ae_right = r, ae_integer = n, ae_floating = 0, ae_boolean = False,
     ae_item_start = 0, ae_item_count = 0, ae_wrap = False\<rparr>"

text \<open>\<open>5 - 7\<close>, and \<open>-(5) + 1\<close>.\<close>

definition sample_difference :: ast_program where
  "sample_difference = empty_ast\<lparr>a_expressions :=
     [sample_expr DYN_EXPR_INT DYN_OP_NONE DYN_NO_EXPR DYN_NO_EXPR 5,
      sample_expr DYN_EXPR_INT DYN_OP_NONE DYN_NO_EXPR DYN_NO_EXPR 7,
      sample_expr DYN_EXPR_BINARY DYN_OP_SUB 0 1 0]\<rparr>"

definition sample_negation :: ast_program where
  "sample_negation = empty_ast\<lparr>a_expressions :=
     [sample_expr DYN_EXPR_INT DYN_OP_NONE DYN_NO_EXPR DYN_NO_EXPR 5,
      sample_expr DYN_EXPR_UNARY DYN_OP_NEG 0 DYN_NO_EXPR 0,
      sample_expr DYN_EXPR_INT DYN_OP_NONE DYN_NO_EXPR DYN_NO_EXPR 1,
      sample_expr DYN_EXPR_BINARY DYN_OP_ADD 1 2 0]\<rparr>"

text \<open>The largest constant plus one.\<close>

definition sample_sum :: ast_program where
  "sample_sum = empty_ast\<lparr>a_expressions :=
     [sample_expr DYN_EXPR_INT DYN_OP_NONE DYN_NO_EXPR DYN_NO_EXPR 0x7FFFFFFFFFFFFFFF,
      sample_expr DYN_EXPR_INT DYN_OP_NONE DYN_NO_EXPR DYN_NO_EXPR 1,
      sample_expr DYN_EXPR_BINARY DYN_OP_ADD 0 1 0]\<rparr>"

theorem signed_folding_exact_witness:
  "literals_checked sample_difference \<and> int_const sample_difference 0 2 (Exact (- 2)) \<and>
   literals_checked sample_sum \<and> int_const sample_sum 0 2 Overflow"
proof -
  have checked: "literals_checked sample_difference" "literals_checked sample_sum"
    by (simp_all add: literals_checked_def sample_difference_def sample_sum_def sample_expr_def)
  have "constant_int_at sample_difference 2 0 = Some \<lparr>ci_valid = True, ci_overflow = False, ci_value = - 2\<rparr>"
    by (simp add: constant_int_at.simps int_of_expr_def sample_difference_def sample_expr_def table_at_def
        constant_name_def fold_int_def ci_result_def)
  moreover have "constant_int_at sample_sum 2 0 = Some \<lparr>ci_valid = False, ci_overflow = True, ci_value = 0\<rparr>"
    by (simp add: constant_int_at.simps int_of_expr_def sample_sum_def sample_expr_def table_at_def
        constant_name_def fold_int_def ci_result_def)
  ultimately show ?thesis
    using signed_folding_exact [OF checked(1), of 2 0 "Exact (- 2)"] signed_folding_exact [OF checked(2), of 2 0 Overflow] checked by simp
qed

lemma negates_in_table: "negates a f i \<Longrightarrow> \<exists>e \<in> set (a_expressions a). ae_kind e = DYN_EXPR_UNARY \<and> ae_op e = DYN_OP_NEG"
  by (induction rule: negates.induct) (auto simp: table_at_def split: if_splits)

lemma sample_difference_plain: "\<not> negates sample_difference 0 2"
  by (rule notI, drule negates_in_table) (auto simp: sample_difference_def sample_expr_def)

theorem unsigned_folding_exact_witness:
  "\<not> negates sample_difference 0 2 \<and> uint_const sample_difference 0 2 Overflow"
proof -
  have "constant_uint_at sample_difference 2 0 = Some \<lparr>cu_valid = False, cu_overflow = True, cu_value = 0\<rparr>"
    by (simp add: constant_uint_at.simps uint_of_expr_def sample_difference_def sample_expr_def table_at_def
        constant_name_def fold_uint_def cu_result_def)
  then show ?thesis using unsigned_folding_exact [OF sample_difference_plain, of Overflow] sample_difference_plain by simp
qed

text \<open>Folding \<open>-(5) + 1\<close> as an unsigned constant gives the valid value 6 without overflow: the
  folding of unary minus keeps the operand's value and stays valid, and the addition drops its
  overflow flag.\<close>

lemma unsigned_negation_ignored:
  "constant_uint_at sample_negation 3 0 = Some \<lparr>cu_valid = True, cu_overflow = False, cu_value = 6\<rparr>"
  by (simp add: constant_uint_at.simps uint_of_expr_def sample_negation_def sample_expr_def table_at_def
      constant_name_def fold_uint_def cu_result_def unary_uint_def word_less_nat_alt unat_complement)

end
