(* ===== verification/Sema_Case.thy ===== *)
theory Sema_Case
  imports Sema_Types
begin

text \<open>
  Exhaustiveness of \<open>case\<close> over integers (\<open>src/src/sema.c\<close>, lines 2594-2636): the overlap test of
  two patterns and the search that walks the patterns from the type's least value to its greatest.

  Pattern bounds are 64-bit words that hold signed or unsigned values; the walk is a loop without
  a bound in the code and a \<open>partial_function\<close> here, proved to return.
\<close>

unbundle bit_operations_syntax

subsection \<open>Operations\<close>

definition interval_overlap :: "ast_pattern \<Rightarrow> ast_pattern \<Rightarrow> bool" where
  "interval_overlap a b =
     (if apa_is_signed a then
        sint (apa_first_value a) \<le> sint (apa_last_value b) \<and> sint (apa_first_value b) \<le> sint (apa_last_value a)
      else apa_first_value a \<le> apa_last_value b \<and> apa_first_value b \<le> apa_last_value a)"

text \<open>The patterns of a statement in the order of the two nested loops.\<close>

definition case_patterns :: "ast_program \<Rightarrow> ast_stmt \<Rightarrow> ast_pattern list" where
  "case_patterns a st = concat (map (\<lambda>i.
     let arm = a_case_arms a ! unat (ast_case_arm_start st + of_nat i)
     in map (\<lambda>j. a_patterns a ! unat (ac_pattern_start arm + of_nat j)) [0..<unat (ac_pattern_count arm)])
     [0..<unat (ast_case_arm_count st)])"

partial_function (option) complete_loop :: "bool \<Rightarrow> u64 \<Rightarrow> ast_pattern list \<Rightarrow> u64 \<Rightarrow> bool option" where
  "complete_loop sign m pats cursor =
     (case find (\<lambda>p. apa_first_value p = cursor) pats of
        None \<Rightarrow> Some False
      | Some found \<Rightarrow>
          if apa_last_value found = m then Some True
          else if sign \<and> sint (apa_last_value found) = 2 ^ 63 - 1 then Some False
          else if \<not> sign \<and> apa_last_value found = - 1 then Some False
          else complete_loop sign m pats (apa_last_value found + 1))"

definition case_least :: "bool \<Rightarrow> nat \<Rightarrow> u64" where
  "case_least sign width =
     (if sign then (if width = 64 then word_of_int (- (2 ^ 63)) else word_of_int (- push_bit (width - 1) 1)) else 0)"

definition case_greatest :: "bool \<Rightarrow> nat \<Rightarrow> u64" where
  "case_greatest sign width =
     (if sign then (if width = 64 then word_of_int (2 ^ 63 - 1) else word_of_int (push_bit (width - 1) 1 - 1))
      else (if width = 64 then - 1 else push_bit width 1 - 1))"

definition integer_case_complete :: "sema \<Rightarrow> ast_program \<Rightarrow> ast_stmt \<Rightarrow> dyn_type \<Rightarrow> bool option" where
  "integer_case_complete se a st t =
     (let sign = signed_int se t; width = unat (bits se t)
      in complete_loop sign (case_greatest sign width) (case_patterns a st) (case_least sign width))"

subsection \<open>Values\<close>

definition case_value :: "bool \<Rightarrow> u64 \<Rightarrow> int" where
  "case_value sign w = (if sign then sint w else uint w)"

definition covers :: "bool \<Rightarrow> ast_pattern \<Rightarrow> int \<Rightarrow> bool" where
  "covers sign p x \<longleftrightarrow> case_value sign (apa_first_value p) \<le> x \<and> x \<le> case_value sign (apa_last_value p)"

lemma case_value_inj: "case_value sign v = case_value sign w \<longleftrightarrow> v = w"
  by (auto simp: case_value_def dest: signed_word_eqI unsigned_word_eqI)

lemma case_value_bounds:
  "case_value sign w \<le> (if sign then 2 ^ 63 - 1 else 2 ^ 64 - 1)"
  "(if sign then - (2 ^ 63) else 0) \<le> case_value sign w"
  using sint_range_size [of w] uint_lt2p [of w] by (auto simp: case_value_def word_size)

lemma case_value_succ:
  assumes "case_value sign w \<noteq> (if sign then 2 ^ 63 - 1 else 2 ^ 64 - 1)"
  shows "case_value sign (w + 1) = case_value sign w + 1"
proof (cases sign)
  case True
  then have "sint w + 1 < 2 ^ 63" "- (2 ^ 63) \<le> sint w + 1"
    using assms case_value_bounds [of True w] by (simp_all add: case_value_def)
  then have "sint (w + 1) = sint w + 1"
    by (simp add: sint_word_ariths signed_take_bit_int_eq_self)
  then show ?thesis using True by (simp add: case_value_def)
next
  case False
  then have "uint w + 1 < 2 ^ 64"
    using assms case_value_bounds(1) [of False w] by (simp add: case_value_def)
  then have "uint (w + 1) = uint w + 1" by (simp add: uint_word_ariths)
  then show ?thesis using False by (simp add: case_value_def)
qed

lemma uint_max_word: "uint (- 1 :: u64) = 2 ^ 64 - 1"
  by (simp add: unsigned_minus_1_eq_mask mask_eq_exp_minus_1)

text \<open>The two tests before the cursor moves are the test that it cannot move.\<close>

lemma at_end:
  "sign \<and> sint w = 2 ^ 63 - 1 \<or> \<not> sign \<and> w = - 1 \<longleftrightarrow>
    case_value sign w = (if sign then 2 ^ 63 - 1 else 2 ^ 64 - 1)"
proof -
  have "uint w = 2 ^ 64 - 1 \<longleftrightarrow> w = - 1" using uint_max_word by (metis unsigned_word_eqI)
  then show ?thesis by (auto simp: case_value_def)
qed

lemma complete_loop_step:
  "complete_loop sign m pats cursor =
     (case find (\<lambda>p. apa_first_value p = cursor) pats of
        None \<Rightarrow> Some False
      | Some found \<Rightarrow>
          if apa_last_value found = m then Some True
          else if case_value sign (apa_last_value found) = (if sign then 2 ^ 63 - 1 else 2 ^ 64 - 1) then Some False
          else complete_loop sign m pats (apa_last_value found + 1))"
  unfolding at_end [symmetric] by (subst complete_loop.simps) (auto split: option.split)

definition patterns_ordered :: "bool \<Rightarrow> ast_pattern list \<Rightarrow> bool" where
  "patterns_ordered sign pats \<longleftrightarrow>
     list_all (\<lambda>p. case_value sign (apa_first_value p) \<le> case_value sign (apa_last_value p)) pats"

lemma find_first:
  assumes "find (\<lambda>p. apa_first_value p = cursor) pats = Some q"
  shows "q \<in> set pats" "apa_first_value q = cursor"
  using assms by (auto simp: find_Some_iff in_set_conv_nth)

text \<open>
  The loop on ordered patterns: it returns; it answers true only if every value from the cursor to
  the greatest is covered; and, when no two patterns overlap, it answers true if they are.
  \<open>prev\<close> says that the value before the cursor is the last one of a pattern.
\<close>

definition cursor_fresh :: "bool \<Rightarrow> ast_pattern list \<Rightarrow> u64 \<Rightarrow> bool" where
  "cursor_fresh sign pats cursor \<longleftrightarrow>
     (\<forall>p \<in> set pats. covers sign p (case_value sign cursor) \<longrightarrow> apa_first_value p = cursor)"

definition patterns_disjoint :: "bool \<Rightarrow> ast_pattern list \<Rightarrow> bool" where
  "patterns_disjoint sign pats \<longleftrightarrow> (\<forall>p \<in> set pats. \<forall>q \<in> set pats. \<forall>x. covers sign p x \<and> covers sign q x \<longrightarrow> p = q)"

lemma next_fresh:
  assumes "patterns_disjoint sign pats" and "q \<in> set pats" and "patterns_ordered sign pats"
    and "case_value sign (apa_last_value q) \<noteq> (if sign then 2 ^ 63 - 1 else 2 ^ 64 - 1)"
  shows "cursor_fresh sign pats (apa_last_value q + 1)"
  unfolding cursor_fresh_def
proof (intro ballI impI)
  let ?c = "apa_last_value q + 1"
  fix p assume p: "p \<in> set pats" and cov: "covers sign p (case_value sign ?c)"
  have c: "case_value sign ?c = case_value sign (apa_last_value q) + 1" using assms(4) by (rule case_value_succ)
  show "apa_first_value p = ?c"
  proof (rule ccontr)
    assume "apa_first_value p \<noteq> ?c"
    then have "case_value sign (apa_first_value p) \<noteq> case_value sign ?c" by (simp add: case_value_inj)
    then have "covers sign p (case_value sign (apa_last_value q))"
      using cov c by (auto simp: covers_def)
    moreover have "covers sign q (case_value sign (apa_last_value q))"
      using assms(2,3) by (auto simp: covers_def patterns_ordered_def list_all_iff)
    ultimately have "p = q" using assms(1,2) p unfolding patterns_disjoint_def by blast
    then show False using cov c by (simp add: covers_def)
  qed
qed

lemma complete_loop_exact:
  assumes "patterns_ordered sign pats" and "patterns_disjoint sign pats"
    and "\<forall>p \<in> set pats. case_value sign (apa_last_value p) \<le> case_value sign m"
    and "cursor_fresh sign pats cursor" and "case_value sign cursor \<le> case_value sign m"
  shows "complete_loop sign m pats cursor = Some (\<forall>x. case_value sign cursor \<le> x \<and> x \<le> case_value sign m \<longrightarrow>
    (\<exists>p \<in> set pats. covers sign p x))"
  using assms(4,5)
proof (induction "nat (case_value sign m - case_value sign cursor)" arbitrary: cursor rule: less_induct)
  case less
  let ?v = "case_value sign" and ?top = "if sign then 2 ^ 63 - 1 else 2 ^ 64 - 1 :: int"
  show ?case
  proof (cases "find (\<lambda>p. apa_first_value p = cursor) pats")
    case None
    then have "\<not> (\<exists>p \<in> set pats. covers sign p (?v cursor))"
      using less.prems(1) by (auto simp: find_None_iff cursor_fresh_def)
    then show ?thesis using None less.prems(2) by (subst complete_loop_step) auto
  next
    case (Some q)
    note q = find_first [OF Some]
    have ord: "?v cursor \<le> ?v (apa_last_value q)" "?v (apa_last_value q) \<le> ?v m"
      using assms(1,3) q by (auto simp: patterns_ordered_def list_all_iff)
    have in_q: "covers sign q x" if "?v cursor \<le> x" "x \<le> ?v (apa_last_value q)" for x
      using that q(2) by (simp add: covers_def)
    show ?thesis
    proof (cases "apa_last_value q = m")
      case True
      then show ?thesis using Some in_q q(1) by (subst complete_loop_step) auto
    next
      case False
      then have lt: "?v (apa_last_value q) < ?v m" using ord(2) case_value_inj [of sign] by force
      then have no_top: "?v (apa_last_value q) \<noteq> ?top" using case_value_bounds(1) [of sign m] by linarith
      let ?c = "apa_last_value q + 1"
      have c: "?v ?c = ?v (apa_last_value q) + 1" using no_top by (rule case_value_succ)
      have "complete_loop sign m pats ?c = Some (\<forall>x. ?v ?c \<le> x \<and> x \<le> ?v m \<longrightarrow> (\<exists>p \<in> set pats. covers sign p x))"
        using lt ord(1) c next_fresh [OF assms(2) q(1) assms(1) no_top] by (intro less.hyps) simp_all
      moreover have "(\<forall>x. ?v ?c \<le> x \<and> x \<le> ?v m \<longrightarrow> (\<exists>p \<in> set pats. covers sign p x)) \<longleftrightarrow>
          (\<forall>x. ?v cursor \<le> x \<and> x \<le> ?v m \<longrightarrow> (\<exists>p \<in> set pats. covers sign p x))"
        (is "?rest \<longleftrightarrow> ?all")
      proof
        assume rest: ?rest
        have "\<exists>p \<in> set pats. covers sign p x" if "?v cursor \<le> x" "x \<le> ?v m" for x
          using that rest in_q [of x] q(1) c by (cases "x \<le> ?v (apa_last_value q)") auto
        then show ?all by blast
      qed (use ord(1) c in auto)
      ultimately show ?thesis using Some False no_top by (subst complete_loop_step) simp
    qed
  qed
qed

subsection \<open>Properties\<close>

text \<open>What \<open>sema_case_v2\<close> has checked of the patterns when it asks whether they are exhaustive.\<close>

definition patterns_checked :: "sema \<Rightarrow> dyn_type \<Rightarrow> ast_pattern list \<Rightarrow> bool" where
  "patterns_checked se t pats \<longleftrightarrow>
     (\<forall>p \<in> set pats. apa_is_signed p = signed_int se t \<and>
       case_value (signed_int se t) (apa_first_value p) \<le> case_value (signed_int se t) (apa_last_value p) \<and>
       case_value (signed_int se t) (apa_first_value p) \<in> type_range se t \<and>
       case_value (signed_int se t) (apa_last_value p) \<in> type_range se t) \<and>
     (\<forall>p \<in> set pats. \<forall>q \<in> set pats. p \<noteq> q \<longrightarrow> \<not> interval_overlap p q)"

lemma type_range_ends:
  assumes "target_width se"
  shows "type_range se t = {case_value (signed_int se t) (case_least (signed_int se t) (unat (bits se t))) ..
    case_value (signed_int se t) (case_greatest (signed_int se t) (unat (bits se t)))}"
  using bits_cases [OF assms, of t]
  by (elim disjE) (simp_all add: type_range_bits [OF assms] Let_def case_value_def case_least_def case_greatest_def
      uint_max_word)

lemma overlap_covers:
  assumes "covers sign p x" and "covers sign q x" and "apa_is_signed p = sign"
  shows "interval_overlap p q"
  using assms by (auto simp: covers_def interval_overlap_def case_value_def word_le_def split: if_splits)

text \<open>C18. The exhaustiveness test of an integer \<open>case\<close> returns, and answers true exactly when every
  value of the subject's type is covered by a pattern, for patterns that are ordered, of the
  subject's type and do not overlap.\<close>

theorem case_complete_exact:
  assumes "target_width se" and "patterns_checked se t (case_patterns a st)"
  shows "integer_case_complete se a st t = Some (\<forall>x \<in> type_range se t.
    \<exists>p \<in> set (case_patterns a st). covers (signed_int se t) p x)"
proof -
  let ?s = "signed_int se t" and ?w = "unat (bits se t)" and ?pats = "case_patterns a st"
  note range = type_range_ends [OF assms(1), of t]
  have ord: "patterns_ordered ?s ?pats"
    using assms(2) by (auto simp: patterns_checked_def patterns_ordered_def list_all_iff)
  have dis: "patterns_disjoint ?s ?pats"
    using assms(2) overlap_covers unfolding patterns_checked_def patterns_disjoint_def by blast
  have top: "\<forall>p \<in> set ?pats. case_value ?s (apa_last_value p) \<le> case_value ?s (case_greatest ?s ?w)"
    using assms(2) by (auto simp: patterns_checked_def range)
  have "apa_first_value p = case_least ?s ?w"
    if "p \<in> set ?pats" "covers ?s p (case_value ?s (case_least ?s ?w))" for p
  proof -
    have "case_value ?s (apa_first_value p) \<in> type_range se t"
      using assms(2) that(1) by (simp add: patterns_checked_def)
    then have "case_value ?s (apa_first_value p) = case_value ?s (case_least ?s ?w)"
      using that(2) by (simp add: range covers_def)
    then show ?thesis by (simp add: case_value_inj)
  qed
  then have "cursor_fresh ?s ?pats (case_least ?s ?w)" by (simp add: cursor_fresh_def)
  moreover have "case_value ?s (case_least ?s ?w) \<le> case_value ?s (case_greatest ?s ?w)"
    using bits_cases [OF assms(1), of t]
    by (elim disjE) (simp_all add: case_value_def case_least_def case_greatest_def uint_max_word)
  ultimately show ?thesis
    using complete_loop_exact [OF ord dis top]
    by (simp add: integer_case_complete_def range Let_def Ball_def)
qed

definition sample_pattern :: "u64 \<Rightarrow> u64 \<Rightarrow> ast_pattern" where
  "sample_pattern lo hi = \<lparr>apa_span = \<lparr>start_byte = 0, end_byte = 0\<rparr>, apa_first = DYN_NO_EXPR,
     apa_last = DYN_NO_EXPR, apa_type = DYN_TYPE_U8, apa_first_value = lo, apa_last_value = hi,
     apa_variant = 0, apa_range = True, apa_inclusive = True, apa_is_enum = False,
     apa_is_signed = False, apa_is_type = False\<rparr>"

definition sample_arm :: ast_case_arm where
  "sample_arm = \<lparr>ac_span = \<lparr>start_byte = 0, end_byte = 0\<rparr>, ac_binding = \<lparr>start_byte = 0, end_byte = 0\<rparr>,
     ac_pattern_start = 0, ac_pattern_count = 2, ac_body_start = 0, ac_body_count = 0, ac_local_id = 0,
     ac_wildcard = False, ac_pointer_binding = False\<rparr>"

definition sample_case :: ast_program where
  "sample_case = sample_types\<lparr>a_patterns := [sample_pattern 100 255, sample_pattern 0 99], a_case_arms := [sample_arm]\<rparr>"

definition sample_case_stmt :: ast_stmt where
  "sample_case_stmt = \<lparr>ast_kind = DYN_STMT_CASE, ast_span = \<lparr>start_byte = 0, end_byte = 0\<rparr>,
     ast_name = \<lparr>start_byte = 0, end_byte = 0\<rparr>, ast_label = \<lparr>start_byte = 0, end_byte = 0\<rparr>,
     ast_control_label = \<lparr>start_byte = 0, end_byte = 0\<rparr>, ast_declared_type = 0,
     ast_expression = DYN_NO_EXPR, ast_target = DYN_NO_EXPR, ast_assignment_op = DYN_OP_NONE,
     ast_local_id = 0, ast_body_start = 0, ast_body_count = 0, ast_else_start = 0, ast_else_count = 0,
     ast_loop_depth = 0, ast_loop_id = 0, ast_target_loop_id = 0, ast_case_arm_start = 0,
     ast_case_arm_count = 1, ast_defer_block = False, ast_for_pointer = False, ast_for_const = False,
     ast_is_const = False, ast_for_range = False, ast_for_inclusive = False, ast_for_reverse = False\<rparr>"

theorem case_complete_exact_witness:
  "integer_case_complete sample_sema sample_case sample_case_stmt DYN_TYPE_U8 = Some True"
proof -
  have plain: "\<not> dyn_type_is_distinct DYN_TYPE_U8" by (simp add: type_class_defs)
  have s: "\<not> signed_int sample_sema DYN_TYPE_U8" "bits sample_sema DYN_TYPE_U8 = 8"
    by (simp_all add: signed_int_def bits_def underlying_plain [OF plain])
  have w: "target_width sample_sema" by (simp add: target_width_def sample_sema_def)
  have pats: "case_patterns sample_case sample_case_stmt = [sample_pattern 100 255, sample_pattern 0 99]"
    by (simp add: case_patterns_def sample_case_def sample_case_stmt_def sample_arm_def Let_def upt_rec)
  have ok: "patterns_checked sample_sema DYN_TYPE_U8 (case_patterns sample_case sample_case_stmt)"
    by (simp add: patterns_checked_def pats s type_range_bits [OF w] case_value_def interval_overlap_def sample_pattern_def)
  have all: "\<forall>x \<in> type_range sample_sema DYN_TYPE_U8. \<exists>p \<in> set (case_patterns sample_case sample_case_stmt).
      covers (signed_int sample_sema DYN_TYPE_U8) p x"
    by (auto simp: pats s type_range_bits [OF w] case_value_def covers_def sample_pattern_def)
  show ?thesis using case_complete_exact [OF w ok] all by simp
qed

end
