(* ===== verification/Dyn_Ir.thy ===== *)
theory Dyn_Ir
  imports Dyn_Ast
begin

text \<open>
  The intermediate representation (\<open>src/src/ir.h\<close>). Names are the bytes the C strings hold.
  Liveness, line tables and the interface hash are derived data of other passes and not part of
  the record; \<open>unstable_locals\<close> and \<open>local_statements\<close>, which the optimiser reads, are.
\<close>

record ir_expr =
  ie_kind :: expr_kind
  ie_type :: dyn_type
  ie_op :: dyn_operator
  ie_left :: expr_id
  ie_right :: expr_id
  ie_integer :: u64
  ie_floating :: u64
  ie_boolean :: bool
  ie_item_start :: u32
  ie_item_count :: u32
  ie_span :: span
  ie_wrap :: bool
  ie_check_origin :: u32

record ir_item =
  it_expression :: expr_id
  it_field_index :: u32

record ir_field =
  if_name :: bytes
  if_type :: dyn_type
  if_default_expression :: expr_id

record ir_struct =
  is_name :: bytes
  is_span :: span
  is_packed :: bool
  is_is_public :: bool
  is_module_owner :: u64
  is_field_start :: u32
  is_field_count :: u32
  is_size :: u64
  is_alignment :: u64

record ir_variant =
  iv_name :: bytes
  iv_payload_type :: dyn_type
  iv_tag :: u64

record ir_enum =
  in_name :: bytes
  in_span :: span
  in_tag_type :: dyn_type
  in_variant_start :: u32
  in_variant_count :: u32
  in_size :: u64
  in_alignment :: u64
  in_payload_size :: u64
  in_payload_alignment :: u64
  in_has_payload :: bool
  in_is_public :: bool
  in_module_owner :: u64

record ir_param =
  ip_name :: bytes
  ip_type :: dyn_type
  ip_local_id :: u32

record ir_global =
  ig_name :: bytes
  ig_link_name :: bytes
  ig_span :: span
  ig_type :: dyn_type
  ig_initializer :: expr_id
  ig_is_const :: bool
  ig_foreign :: bool
  ig_is_public :: bool
  ig_module_owner :: u64

record ir_pointer =
  ipt_pointee :: dyn_type
  ipt_is_const :: bool

record ir_array =
  ia_element :: dyn_type
  ia_length :: u64

record ir_slice =
  isl_element :: dyn_type
  isl_is_const :: bool

record ir_fn_type =
  ift_return_type :: dyn_type
  ift_param_start :: u32
  ift_param_count :: u32
  ift_variadic :: bool

datatype math_intrinsic =
    DYN_MATH_INTRINSIC_NONE | DYN_MATH_INTRINSIC_SQRT | DYN_MATH_INTRINSIC_FLOOR
  | DYN_MATH_INTRINSIC_CEIL | DYN_MATH_INTRINSIC_TRUNC | DYN_MATH_INTRINSIC_ROUND
  | DYN_MATH_INTRINSIC_COPYSIGN | DYN_MATH_INTRINSIC_FMA

datatype byte_intrinsic =
    DYN_BYTE_INTRINSIC_NONE | DYN_BYTE_INTRINSIC_FIND_BYTE | DYN_BYTE_INTRINSIC_FIND
  | DYN_BYTE_INTRINSIC_JSON_ASCII_PREFIX

record ir_function =
  ifn_name :: bytes
  ifn_link_name :: bytes
  ifn_debug_name :: "bytes option"
  ifn_return_type :: dyn_type
  ifn_param_start :: u32
  ifn_param_count :: u32
  ifn_body_start :: u32
  ifn_body_count :: u32
  ifn_local_start :: u32
  ifn_local_count :: u32
  ifn_variadic_local_id :: u32
  ifn_source_line :: u32
  ifn_source_offset :: u32
  ifn_is_main :: bool
  ifn_foreign :: bool
  ifn_variadic :: bool
  ifn_is_public :: bool
  ifn_generic :: bool
  ifn_instance :: bool
  ifn_module_owner :: u64
  ifn_variadic_type :: dyn_type
  ifn_math_intrinsic :: math_intrinsic
  ifn_byte_intrinsic :: byte_intrinsic

record ir_stmt =
  ist_kind :: stmt_kind
  ist_expression :: expr_id
  ist_target :: expr_id
  ist_assignment_op :: dyn_operator
  ist_local_id :: u32
  ist_body_start :: u32
  ist_body_count :: u32
  ist_else_start :: u32
  ist_else_count :: u32
  ist_loop_id :: u32
  ist_target_loop_id :: u32
  ist_case_arm_start :: u32
  ist_case_arm_count :: u32
  ist_defer_block :: bool
  ist_for_pointer :: bool
  ist_for_const :: bool
  ist_for_range :: bool
  ist_for_inclusive :: bool
  ist_for_reverse :: bool
  ist_span :: span
  ist_check_origin :: u32

record ir_local =
  ilo_name :: bytes
  ilo_type :: dyn_type

record ir_pattern =
  ipa_first :: u64
  ipa_last :: u64
  ipa_type :: dyn_type
  ipa_variant :: u32
  ipa_is_enum :: bool
  ipa_is_signed :: bool
  ipa_is_type :: bool

record ir_case_arm =
  ic_pattern_start :: u32
  ic_pattern_count :: u32
  ic_body_start :: u32
  ic_body_count :: u32
  ic_local_id :: u32
  ic_wildcard :: bool
  ic_pointer_binding :: bool

record ir_program =
  p_expressions :: "ir_expr list"
  p_items :: "ir_item list"
  p_fields :: "ir_field list"
  p_structs :: "ir_struct list"
  p_enums :: "ir_enum list"
  p_variants :: "ir_variant list"
  p_params :: "ir_param list"
  p_functions :: "ir_function list"
  p_globals :: "ir_global list"
  p_global_init_order :: "u32 list"
  p_pointers :: "ir_pointer list"
  p_arrays :: "ir_array list"
  p_slices :: "ir_slice list"
  p_fn_types :: "ir_fn_type list"
  p_fn_type_params :: "dyn_type list"
  p_strings :: "bytes list"
  p_statements :: "ir_stmt list"
  p_patterns :: "ir_pattern list"
  p_case_arms :: "ir_case_arm list"
  p_children :: "u32 list"
  p_locals :: "ir_local list"
  p_unstable_locals :: "bool list option"
  p_local_statements :: "u32 list option"

end
