(* ===== verification/Ir_Ranges.thy ===== *)
theory Ir_Ranges
  imports Dyn_Ir
begin

text \<open>
  The unsigned range proofs of IR lowering (\<open>src/src/ir.c\<close>, lines 192-359): an upper bound for
  unsigned expressions, and the loop analysis that marks index expressions whose bounds check
  and additions whose overflow check cannot fail (the \<open>boolean\<close> field of the expression).

  An expression index is read with \<open>expr_at\<close>; the code guards the indices it follows, or they come
  from semantic analysis, which gives every binary and index expression both operands. Allocation
  failure, which only drops the proofs, is not modelled. The recursive functions are bounded by
  the code's own depth guard, so they are total; \<open>n\<close> is the number of expressions.
\<close>

unbundle bit_operations_syntax

subsection \<open>Ranges\<close>

record uint_range_t =
  ur_valid :: bool
  ur_exact :: bool
  ur_max :: u64
  ur_value :: u64

definition no_range :: uint_range_t where
  "no_range = \<lparr>ur_valid = False, ur_exact = False, ur_max = 0, ur_value = 0\<rparr>"

record range_locals =
  rl_values :: "uint_range_t list"
  rl_start :: nat

definition expr_at :: "ir_program \<Rightarrow> expr_id \<Rightarrow> ir_expr" where
  "expr_at ir e = p_expressions ir ! unat e"

definition stmt_at :: "ir_program \<Rightarrow> nat \<Rightarrow> ir_stmt" where
  "stmt_at ir c = p_statements ir ! unat (p_children ir ! c)"

definition range_has_local :: "range_locals \<Rightarrow> nat \<Rightarrow> bool" where
  "range_has_local locals i \<longleftrightarrow> i \<ge> rl_start locals \<and> i - rl_start locals < length (rl_values locals)"

definition range_of :: "range_locals \<Rightarrow> nat \<Rightarrow> uint_range_t" where
  "range_of locals i = rl_values locals ! (i - rl_start locals)"

definition set_range :: "range_locals \<Rightarrow> nat \<Rightarrow> uint_range_t \<Rightarrow> range_locals" where
  "set_range locals i r = locals\<lparr>rl_values := (rl_values locals)[i - rl_start locals := r]\<rparr>"

definition unsigned_type :: "dyn_type \<Rightarrow> bool" where
  "unsigned_type t \<longleftrightarrow> (t \<ge> DYN_TYPE_U8 \<and> t \<le> DYN_TYPE_U64) \<or> t = DYN_TYPE_USIZE"

definition unsigned_max :: "dyn_type \<Rightarrow> u32 \<Rightarrow> u64" where
  "unsigned_max t pointer_bytes =
     (if t = DYN_TYPE_U8 then 0xFF
      else if t = DYN_TYPE_U16 then 0xFFFF
      else if t = DYN_TYPE_U32 \<or> (t = DYN_TYPE_USIZE \<and> pointer_bytes = 4) then 0xFFFFFFFF
      else - 1)"

text \<open>The combination of two operand ranges for \<open>&\<close>, \<open>+\<close> and \<open>*\<close>.\<close>

definition binary_range :: "dyn_operator \<Rightarrow> uint_range_t \<Rightarrow> uint_range_t \<Rightarrow> uint_range_t" where
  "binary_range opr left right =
     (if \<not> ur_valid left \<or> \<not> ur_valid right then no_range
      else if opr = DYN_OP_BIT_AND then
        let m = (if ur_max left < ur_max right then ur_max left else ur_max right);
            m = (if ur_exact right \<and> ur_value right < m then ur_value right else m);
            m = (if ur_exact left \<and> ur_value left < m then ur_value left else m)
        in \<lparr>ur_valid = True, ur_exact = ur_exact left \<and> ur_exact right, ur_max = m,
            ur_value = ur_value left AND ur_value right\<rparr>
      else if opr = DYN_OP_ADD \<and> - 1 - ur_max left \<ge> ur_max right then
        \<lparr>ur_valid = True, ur_exact = ur_exact left \<and> ur_exact right,
         ur_max = ur_max left + ur_max right, ur_value = ur_value left + ur_value right\<rparr>
      else if opr = DYN_OP_MUL \<and> (ur_max left = 0 \<or> ur_max right \<le> (- 1) div ur_max left) then
        \<lparr>ur_valid = True, ur_exact = ur_exact left \<and> ur_exact right,
         ur_max = ur_max left * ur_max right, ur_value = ur_value left * ur_value right\<rparr>
      else no_range)"

definition convert_range :: "u64 \<Rightarrow> uint_range_t \<Rightarrow> uint_range_t" where
  "convert_range limit source =
     (if \<not> ur_valid source \<or> ur_max source > limit
      then \<lparr>ur_valid = True, ur_exact = False, ur_max = limit, ur_value = 0\<rparr>
      else
        let source = source\<lparr>ur_max := (if ur_max source < limit then ur_max source else limit)\<rparr>
        in if ur_exact source \<and> ur_value source > limit then source\<lparr>ur_exact := False\<rparr> else source)"

function uint_range ::
  "ir_program \<Rightarrow> expr_id \<Rightarrow> range_locals \<Rightarrow> u32 \<Rightarrow> nat \<Rightarrow> uint_range_t" where
  "uint_range ir i locals pb depth =
     (if i = DYN_NO_EXPR \<or> unat i \<ge> length (p_expressions ir) \<or> depth > length (p_expressions ir)
      then no_range
      else
        let e = expr_at ir i in
        if ie_kind e = DYN_EXPR_BOOL then
          let v = (if ie_boolean e then 1 else 0)
          in \<lparr>ur_valid = True, ur_exact = True, ur_max = v, ur_value = v\<rparr>
        else if ie_kind e = DYN_EXPR_INT \<or> ie_kind e = DYN_EXPR_CHAR then
          \<lparr>ur_valid = True, ur_exact = True, ur_max = ie_integer e, ur_value = ie_integer e\<rparr>
        else if ie_kind e = DYN_EXPR_NAME \<and> range_has_local locals (unat (ie_integer e)) then
          range_of locals (unat (ie_integer e))
        else if ie_kind e = DYN_EXPR_CONVERT \<or> ie_kind e = DYN_EXPR_CAST then
          if \<not> unsigned_type (ie_type e) then no_range
          else convert_range (unsigned_max (ie_type e) pb) (uint_range ir (ie_left e) locals pb (depth + 1))
        else if ie_kind e = DYN_EXPR_INDEX \<and> unsigned_type (ie_type e) then
          \<lparr>ur_valid = True, ur_exact = False, ur_max = unsigned_max (ie_type e) pb, ur_value = 0\<rparr>
        else if ie_kind e \<noteq> DYN_EXPR_BINARY \<or> ie_wrap e then no_range
        else binary_range (ie_op e) (uint_range ir (ie_left e) locals pb (depth + 1))
          (uint_range ir (ie_right e) locals pb (depth + 1)))"
  by pat_completeness auto
termination
  by (relation "measure (\<lambda>(ir, i, locals, pb, depth). Suc (length (p_expressions ir)) - depth)") auto

declare uint_range.simps [simp del]

function range_pure :: "ir_program \<Rightarrow> expr_id \<Rightarrow> nat \<Rightarrow> bool" where
  "range_pure ir i depth =
     (if i = DYN_NO_EXPR \<or> unat i \<ge> length (p_expressions ir) \<or> depth > length (p_expressions ir)
      then False
      else
        let e = expr_at ir i in
        if ie_kind e \<in> {DYN_EXPR_INT, DYN_EXPR_CHAR, DYN_EXPR_BOOL, DYN_EXPR_NAME, DYN_EXPR_GLOBAL}
        then True
        else if ie_kind e = DYN_EXPR_CONVERT \<or> ie_kind e = DYN_EXPR_CAST
        then range_pure ir (ie_left e) (depth + 1)
        else if ie_kind e = DYN_EXPR_INDEX \<or> ie_kind e = DYN_EXPR_BINARY
        then range_pure ir (ie_left e) (depth + 1) \<and> range_pure ir (ie_right e) (depth + 1)
        else False)"
  by pat_completeness auto
termination
  by (relation "measure (\<lambda>(ir, i, depth). Suc (length (p_expressions ir)) - depth)") auto

declare range_pure.simps [simp del]

subsection \<open>Loops\<close>

text \<open>The statements of a body, in order (\<open>ir->children[start + i]\<close>).\<close>

definition body_stmts :: "u32 \<Rightarrow> u32 \<Rightarrow> nat list" where
  "body_stmts start count = map (\<lambda>i. unat (start + of_nat i)) [0..<unat count]"

definition simple_loop_body :: "ir_program \<Rightarrow> ir_stmt \<Rightarrow> bool" where
  "simple_loop_body ir loop \<longleftrightarrow> list_all (\<lambda>c.
     let st = stmt_at ir c in
     if ist_kind st = DYN_STMT_LOCAL then range_pure ir (ist_expression st) 0
     else if ist_kind st = DYN_STMT_ASSIGN
     then ist_target st = DYN_NO_EXPR \<and> range_pure ir (ist_expression st) 0
     else False) (body_stmts (ist_body_start loop) (ist_body_count loop))"

definition mark_expr :: "ir_program \<Rightarrow> expr_id \<Rightarrow> ir_program" where
  "mark_expr ir i = ir\<lparr>p_expressions := (p_expressions ir)[unat i := (expr_at ir i)\<lparr>ie_boolean := True\<rparr>]\<rparr>"

text \<open>The test at the end of \<open>prove_array_bounds\<close>.\<close>

definition prove_index :: "ir_program \<Rightarrow> expr_id \<Rightarrow> range_locals \<Rightarrow> u32 \<Rightarrow> ir_program" where
  "prove_index ir i locals pb =
     (let e = expr_at ir i in
      if ie_kind e \<noteq> DYN_EXPR_INDEX \<or> \<not> dyn_type_is_array (ie_type (expr_at ir (ie_left e))) then ir
      else
        let index = uint_range ir (ie_right e) locals pb 0;
            arr = p_arrays ir ! unat (ie_type (expr_at ir (ie_left e)) - DYN_TYPE_ARRAY_BASE)
        in if ur_valid index \<and> ur_max index < ia_length arr then mark_expr ir i else ir)"

function prove_array_bounds ::
  "nat \<Rightarrow> ir_program \<Rightarrow> expr_id \<Rightarrow> range_locals \<Rightarrow> u32 \<Rightarrow> nat \<Rightarrow> ir_program" where
  "prove_array_bounds n ir i locals pb depth =
     (if i = DYN_NO_EXPR \<or> unat i \<ge> n \<or> depth > n then ir
      else
        let e = expr_at ir i;
            ir = prove_array_bounds n ir (ie_left e) locals pb (depth + 1);
            ir = prove_array_bounds n ir (ie_right e) locals pb (depth + 1);
            ir = fold (\<lambda>j ir. prove_array_bounds n ir
                   (it_expression (p_items ir ! unat (ie_item_start e + of_nat j))) locals pb (depth + 1))
                   [0..<unat (ie_item_count e)] ir
        in prove_index ir i locals pb)"
  by pat_completeness auto
termination
  by (relation "measure (\<lambda>(n, ir, i, locals, pb, depth). Suc n - depth)") auto

declare prove_array_bounds.simps [simp del]

text \<open>
  The incoming ranges of the body (every local the body writes is forgotten), and how often the
  body assigns each local.
\<close>

definition forget_writes :: "ir_program \<Rightarrow> nat list \<Rightarrow> range_locals \<Rightarrow> range_locals" where
  "forget_writes ir body locals = fold (\<lambda>c locals.
     let st = stmt_at ir c in
     if range_has_local locals (unat (ist_local_id st))
     then set_range locals (unat (ist_local_id st)) no_range else locals) body locals"

definition writes_of :: "ir_program \<Rightarrow> nat list \<Rightarrow> range_locals \<Rightarrow> nat \<Rightarrow> nat" where
  "writes_of ir body locals i = length (filter (\<lambda>c.
     let st = stmt_at ir c in
     range_has_local locals (unat (ist_local_id st)) \<and> unat (ist_local_id st) = i \<and>
     ist_kind st = DYN_STMT_ASSIGN) body)"

text \<open>One statement of the body, once the induction range is known.\<close>

definition prove_statement ::
  "range_locals \<Rightarrow> (nat \<Rightarrow> nat) \<Rightarrow> u64 \<Rightarrow> u32 \<Rightarrow> nat \<Rightarrow> ir_program \<times> range_locals \<Rightarrow> ir_program \<times> range_locals" where
  "prove_statement outer writes iterations pb c = (\<lambda>(ir, inside).
     let st = stmt_at ir c; local = unat (ist_local_id st);
         ir = prove_array_bounds (length (p_expressions ir)) ir (ist_expression st) inside pb 0 in
     if ist_kind st = DYN_STMT_LOCAL \<and> range_has_local inside local then
       (ir, set_range inside local (uint_range ir (ist_expression st) inside pb 0))
     else if ist_kind st \<noteq> DYN_STMT_ASSIGN \<or> \<not> range_has_local inside local then (ir, inside)
     else
       let e = expr_at ir (ist_expression st); inside = set_range inside local no_range in
       if writes local \<noteq> 1 \<or> ie_kind e \<noteq> DYN_EXPR_BINARY \<or> ie_op e \<noteq> DYN_OP_ADD \<or>
          ie_kind (expr_at ir (ie_left e)) \<noteq> DYN_EXPR_NAME \<or>
          unat (ie_integer (expr_at ir (ie_left e))) \<noteq> local
       then (ir, inside)
       else
         let initial = range_of outer local; step = uint_range ir (ie_right e) inside pb 0;
             limit = unsigned_max (ie_type e) pb in
         if \<not> unsigned_type (ie_type e) \<or> \<not> ur_valid initial \<or> \<not> ur_valid step \<or>
            (iterations \<noteq> 0 \<and> ur_max step > (- 1) div iterations)
         then (ir, inside)
         else
           let growth = ur_max step * iterations in
           if ur_max initial \<le> limit \<and> growth \<le> limit - ur_max initial
           then (mark_expr ir (ist_expression st), inside) else (ir, inside))"

text \<open>
  \<open>loop_shape\<close> collects the conditions under which the analysis applies: the induction local, its
  last value inside the body, and the number of iterations.
\<close>

definition loop_shape ::
  "ir_program \<Rightarrow> ir_stmt \<Rightarrow> range_locals \<Rightarrow> u32 \<Rightarrow> (nat \<times> u64 \<times> u64) option" where
  "loop_shape ir loop outer pb =
     (if ist_for_range loop \<or> ist_expression loop = DYN_NO_EXPR \<or> \<not> simple_loop_body ir loop then None
      else
        let cond = expr_at ir (ist_expression loop) in
        if ie_kind cond \<noteq> DYN_EXPR_BINARY \<or> (ie_op cond \<noteq> DYN_OP_LT \<and> ie_op cond \<noteq> DYN_OP_LE) then None
        else
          let ind = expr_at ir (ie_left cond) in
          if ie_kind ind \<noteq> DYN_EXPR_NAME \<or> \<not> range_has_local outer (unat (ie_integer ind)) \<or>
             \<not> unsigned_type (ie_type ind) then None
          else
            let ind_id = unat (ucast (ie_integer ind) :: u32);
                body = body_stmts (ist_body_start loop) (ist_body_count loop);
                inside = forget_writes ir body outer;
                bound = uint_range ir (ie_right cond) inside pb 0; start = range_of outer ind_id in
            if \<not> ur_exact bound \<or> \<not> ur_exact start \<or> ur_value bound < ur_value start then None
            else
              let incl = (ie_op cond = DYN_OP_LE) in
              if incl \<and> ur_value bound \<ge> unsigned_max (ie_type ind) pb then None
              else
                let iterations = ur_value bound - ur_value start + (if incl then 1 else 0) in
                if writes_of ir body outer ind_id \<noteq> 1 \<or> body = [] then None
                else
                  let st = stmt_at ir (last body) in
                  if ist_kind st \<noteq> DYN_STMT_ASSIGN \<or> unat (ist_local_id st) \<noteq> ind_id then None
                  else
                    let inc = expr_at ir (ist_expression st) in
                    if ie_kind inc \<noteq> DYN_EXPR_BINARY \<or> ie_op inc \<noteq> DYN_OP_ADD \<or>
                       ie_kind (expr_at ir (ie_left inc)) \<noteq> DYN_EXPR_NAME \<or>
                       unat (ie_integer (expr_at ir (ie_left inc))) \<noteq> ind_id then None
                    else
                      let one = uint_range ir (ie_right inc) inside pb 0 in
                      if \<not> ur_exact one \<or> ur_value one \<noteq> 1 then None
                      else Some (ind_id,
                        if incl then ur_value bound
                        else if ur_value bound \<noteq> 0 then ur_value bound - 1 else 0, iterations))"

definition prove_unsigned_loop :: "ir_program \<Rightarrow> ir_stmt \<Rightarrow> range_locals \<Rightarrow> u32 \<Rightarrow> ir_program" where
  "prove_unsigned_loop ir loop outer pb =
     (case loop_shape ir loop outer pb of
        None \<Rightarrow> ir
      | Some (ind_id, highest, iterations) \<Rightarrow>
          let body = body_stmts (ist_body_start loop) (ist_body_count loop);
              inside = set_range (forget_writes ir body outer) ind_id
                \<lparr>ur_valid = True, ur_exact = False, ur_max = highest, ur_value = 0\<rparr>
          in fst (fold (prove_statement outer (writes_of ir body outer) iterations pb) body (ir, inside)))"

subsection \<open>Functions\<close>

definition range_statement :: "u32 \<Rightarrow> nat \<Rightarrow> ir_program \<times> range_locals \<Rightarrow> ir_program \<times> range_locals" where
  "range_statement pb c = (\<lambda>(ir, locals).
     let st = stmt_at ir c; local = unat (ist_local_id st) in
     if (ist_kind st = DYN_STMT_LOCAL \<or> ist_kind st = DYN_STMT_ASSIGN) \<and> ist_target st = DYN_NO_EXPR \<and>
        range_has_local locals local \<and> range_pure ir (ist_expression st) 0
     then (ir, set_range locals local (uint_range ir (ist_expression st) locals pb 0))
     else (if ist_kind st = DYN_STMT_FOR then prove_unsigned_loop ir st locals pb else ir,
           locals\<lparr>rl_values := map (\<lambda>_. no_range) (rl_values locals)\<rparr>))"

definition range_function :: "u32 \<Rightarrow> ir_function \<Rightarrow> ir_program \<Rightarrow> ir_program" where
  "range_function pb fn ir =
     (if ifn_local_count fn = 0 then ir
      else fst (fold (range_statement pb) (body_stmts (ifn_body_start fn) (ifn_body_count fn))
        (ir, \<lparr>rl_values = replicate (unat (ifn_local_count fn)) no_range,
              rl_start = unat (ifn_local_start fn)\<rparr>)))"

definition prove_unsigned_ranges :: "ir_program \<Rightarrow> u32 \<Rightarrow> ir_program" where
  "prove_unsigned_ranges ir pb = fold (range_function pb) (p_functions ir) ir"

subsection \<open>Meaning\<close>

text \<open>
  What an expression can evaluate to when no check fails: \<open>env\<close> gives the values of locals as
  mathematical integers. Arithmetic is exact (a result that does not fit its type panics), a
  conversion to an unsigned type keeps values that fit and gives some value of the type otherwise,
  an element of unsigned type is some value of that type. Every other expression may have any value,
  so the theorems hold whatever those do.
\<close>

definition fits :: "dyn_type \<Rightarrow> u32 \<Rightarrow> int \<Rightarrow> bool" where
  "fits t pb v \<longleftrightarrow> 0 \<le> v \<and> v \<le> uint (unsigned_max t pb)"

definition exact_binary :: "dyn_operator \<Rightarrow> int \<Rightarrow> int \<Rightarrow> int option" where
  "exact_binary opr a b =
     (if opr = DYN_OP_ADD then Some (a + b) else if opr = DYN_OP_MUL then Some (a * b)
      else if opr = DYN_OP_BIT_AND then Some (a AND b) else None)"

definition precise :: "ir_expr \<Rightarrow> bool" where
  "precise e \<longleftrightarrow> ie_kind e \<in> {DYN_EXPR_BOOL, DYN_EXPR_INT, DYN_EXPR_CHAR, DYN_EXPR_NAME} \<or>
     ie_kind e \<in> {DYN_EXPR_CONVERT, DYN_EXPR_CAST, DYN_EXPR_INDEX} \<and> unsigned_type (ie_type e) \<or>
     ie_kind e = DYN_EXPR_BINARY \<and> \<not> ie_wrap e \<and> ie_op e \<in> {DYN_OP_ADD, DYN_OP_MUL, DYN_OP_BIT_AND}"

inductive evals :: "ir_program \<Rightarrow> u32 \<Rightarrow> (nat \<Rightarrow> int) \<Rightarrow> expr_id \<Rightarrow> int \<Rightarrow> bool"
  for ir pb env where
  bool: "unat i < length (p_expressions ir) \<Longrightarrow> ie_kind (expr_at ir i) = DYN_EXPR_BOOL \<Longrightarrow>
    evals ir pb env i (of_bool (ie_boolean (expr_at ir i)))"
| int: "unat i < length (p_expressions ir) \<Longrightarrow>
    ie_kind (expr_at ir i) \<in> {DYN_EXPR_INT, DYN_EXPR_CHAR} \<Longrightarrow>
    evals ir pb env i (uint (ie_integer (expr_at ir i)))"
| name: "unat i < length (p_expressions ir) \<Longrightarrow> ie_kind (expr_at ir i) = DYN_EXPR_NAME \<Longrightarrow>
    evals ir pb env i (env (unat (ie_integer (expr_at ir i))))"
| convert: "unat i < length (p_expressions ir) \<Longrightarrow>
    ie_kind (expr_at ir i) \<in> {DYN_EXPR_CONVERT, DYN_EXPR_CAST} \<Longrightarrow>
    unsigned_type (ie_type (expr_at ir i)) \<Longrightarrow> evals ir pb env (ie_left (expr_at ir i)) v \<Longrightarrow>
    fits (ie_type (expr_at ir i)) pb w \<Longrightarrow> (fits (ie_type (expr_at ir i)) pb v \<Longrightarrow> w = v) \<Longrightarrow>
    evals ir pb env i w"
| index: "unat i < length (p_expressions ir) \<Longrightarrow> ie_kind (expr_at ir i) = DYN_EXPR_INDEX \<Longrightarrow>
    unsigned_type (ie_type (expr_at ir i)) \<Longrightarrow>
    fits (ie_type (expr_at ir i)) pb w \<Longrightarrow> evals ir pb env i w"
| binary: "unat i < length (p_expressions ir) \<Longrightarrow> ie_kind (expr_at ir i) = DYN_EXPR_BINARY \<Longrightarrow>
    \<not> ie_wrap (expr_at ir i) \<Longrightarrow> evals ir pb env (ie_left (expr_at ir i)) a \<Longrightarrow>
    evals ir pb env (ie_right (expr_at ir i)) b \<Longrightarrow> exact_binary (ie_op (expr_at ir i)) a b = Some w \<Longrightarrow>
    evals ir pb env i w"
| other: "\<not> (unat i < length (p_expressions ir) \<and> precise (expr_at ir i)) \<Longrightarrow> evals ir pb env i w"

text \<open>A value is described by a range, an environment by the ranges of its locals.\<close>

definition in_range :: "uint_range_t \<Rightarrow> int \<Rightarrow> bool" where
  "in_range r v \<longleftrightarrow> (ur_valid r \<longrightarrow> 0 \<le> v \<and> v \<le> uint (ur_max r)) \<and>
     (ur_exact r \<longrightarrow> ur_valid r \<and> v = uint (ur_value r))"

definition described :: "range_locals \<Rightarrow> (nat \<Rightarrow> int) \<Rightarrow> bool" where
  "described locals env \<longleftrightarrow> (\<forall>i. range_has_local locals i \<longrightarrow> in_range (range_of locals i) (env i))"

lemma no_range_sel [simp]: "\<not> ur_valid no_range" "\<not> ur_exact no_range"
  by (simp_all add: no_range_def)

lemma in_range_no_range [simp]: "in_range no_range v"
  by (simp add: in_range_def no_range_def)

lemma convert_range_sound:
  assumes "in_range r v" and "0 \<le> w \<and> w \<le> uint limit" and "0 \<le> v \<and> v \<le> uint limit \<Longrightarrow> w = v"
  shows "in_range (convert_range limit r) w"
proof (cases "\<not> ur_valid r \<or> ur_max r > limit")
  case True
  then show ?thesis using assms(2) by (simp add: convert_range_def in_range_def)
next
  case False
  then have "ur_valid r" "ur_max r \<le> limit" by auto
  with assms(1) have "0 \<le> v" "v \<le> uint limit" by (auto simp: in_range_def word_le_def)
  then have "w = v" by (intro assms(3)) simp
  with False assms(1) show ?thesis by (auto simp: convert_range_def in_range_def Let_def)
qed

lemma uint_add_no_wrap:
  "- 1 - (a :: u64) \<ge> b \<Longrightarrow> uint (a + b) = uint a + uint b"
proof -
  assume "- 1 - a \<ge> b"
  then have "unat a + unat b < 2 ^ 64"
    using unat_less_64 [of a] by (simp add: word_le_nat_alt unat_complement)
  then have "unat (a + b) = unat a + unat b" by (simp add: unat_word_ariths)
  then have "int (unat (a + b)) = int (unat a) + int (unat b)" by (simp only: of_nat_add)
  then show ?thesis by simp
qed

lemma uint_mul_no_wrap:
  assumes "a = 0 \<or> b \<le> (- 1) div (a :: u64)"
  shows "uint (a * b) = uint a * uint b"
proof (cases "a = 0")
  case False
  with assms have "unat b \<le> unat ((- 1) div a)" by (simp add: word_le_nat_alt)
  then have "unat b \<le> (2 ^ 64 - 1) div unat a" by (simp only: unat_div unat_max)
  moreover have "0 < unat a" using False by (simp add: unat_gt_0)
  ultimately have "unat b * unat a \<le> 2 ^ 64 - 1"
    by (simp only: less_eq_div_iff_mult_less_eq)
  then have "unat a * unat b < 2 ^ 64" by (simp add: mult.commute)
  then have "unat (a * b) = unat a * unat b" by (simp add: unat_word_ariths)
  then have "int (unat (a * b)) = int (unat a) * int (unat b)" by (simp only: of_nat_mult)
  then show ?thesis by simp
qed simp

lemma mult_mono_int: "0 \<le> a \<Longrightarrow> a \<le> x \<Longrightarrow> 0 \<le> b \<Longrightarrow> b \<le> y \<Longrightarrow> 0 \<le> a * b \<and> a * b \<le> x * (y :: int)"
  by (simp add: mult_mono)

lemma binary_range_sound:
  assumes "in_range r a" and "in_range s b"
  shows "opr = DYN_OP_ADD \<Longrightarrow> in_range (binary_range opr r s) (a + b)"
    and "opr = DYN_OP_MUL \<Longrightarrow> in_range (binary_range opr r s) (a * b)"
    and "opr = DYN_OP_BIT_AND \<Longrightarrow> in_range (binary_range opr r s) (a AND b)"
proof -
  have exact: "ur_exact r \<Longrightarrow> ur_value r \<le> ur_max r" "ur_exact s \<Longrightarrow> ur_value s \<le> ur_max s"
    using assms by (auto simp: in_range_def word_le_def)
  show "in_range (binary_range opr r s) (a + b)" if opr: "opr = DYN_OP_ADD"
  proof (cases "ur_valid r \<and> ur_valid s \<and> - 1 - ur_max r \<ge> ur_max s")
    case True
    then have "uint (ur_max r + ur_max s) = uint (ur_max r) + uint (ur_max s)"
      by (intro uint_add_no_wrap) simp
    moreover have "uint (ur_value r + ur_value s) = uint (ur_value r) + uint (ur_value s)"
      if "ur_exact r" "ur_exact s"
    proof (rule uint_add_no_wrap)
      have "- 1 - ur_max r \<le> - 1 - ur_value r"
        using exact(1) [OF that(1)] by (simp only: word_le_nat_alt unat_complement diff_le_mono2)
      then show "ur_value s \<le> - 1 - ur_value r" using True exact(2) [OF that(2)] by auto
    qed
    ultimately show ?thesis using True assms by (auto simp: binary_range_def opr in_range_def)
  qed (auto simp: binary_range_def opr)
  show "in_range (binary_range opr r s) (a * b)" if opr: "opr = DYN_OP_MUL"
  proof (cases "ur_valid r \<and> ur_valid s \<and> (ur_max r = 0 \<or> ur_max s \<le> (- 1) div ur_max r)")
    case True
    then have prod: "uint (ur_max r * ur_max s) = uint (ur_max r) * uint (ur_max s)"
      by (intro uint_mul_no_wrap) simp
    have bound: "0 \<le> a * b \<and> a * b \<le> uint (ur_max r) * uint (ur_max s)"
      using True assms by (intro mult_mono_int) (auto simp: in_range_def)
    have "uint (ur_value r * ur_value s) = a * b" if "ur_exact r" "ur_exact s"
    proof -
      have "a * b < 2 ^ 64" using bound prod uint_lt2p [of "ur_max r * ur_max s"] by simp
      moreover have "uint (ur_value r) = a" "uint (ur_value s) = b"
        using assms that by (auto simp: in_range_def)
      ultimately show ?thesis using bound by (simp add: uint_word_ariths)
    qed
    with True bound prod show ?thesis by (auto simp: binary_range_def opr in_range_def)
  qed (auto simp: binary_range_def opr)
  show "in_range (binary_range opr r s) (a AND b)" if opr: "opr = DYN_OP_BIT_AND"
  proof (cases "ur_valid r \<and> ur_valid s")
    case True
    then have ab: "0 \<le> a" "a \<le> uint (ur_max r)" "0 \<le> b" "b \<le> uint (ur_max s)"
      using assms by (auto simp: in_range_def)
    then have and_le: "0 \<le> a AND b" "a AND b \<le> a" "a AND b \<le> b"
      by (auto intro: AND_upper1 AND_upper2)
    have "a = uint (ur_value r)" if "ur_exact r" using assms(1) that by (simp add: in_range_def)
    moreover have "b = uint (ur_value s)" if "ur_exact s" using assms(2) that by (simp add: in_range_def)
    ultimately show ?thesis
      using True ab and_le
      by (auto simp: binary_range_def opr in_range_def Let_def word_less_def uint_and)
  qed (auto simp: binary_range_def opr)
qed

lemma uint_range_binary:
  assumes "ie_kind (expr_at ir i) = DYN_EXPR_BINARY" and "\<not> ie_wrap (expr_at ir i)"
  shows "uint_range ir i locals pb depth =
    (if i = DYN_NO_EXPR \<or> unat i \<ge> length (p_expressions ir) \<or> depth > length (p_expressions ir)
     then no_range
     else binary_range (ie_op (expr_at ir i)) (uint_range ir (ie_left (expr_at ir i)) locals pb (depth + 1))
       (uint_range ir (ie_right (expr_at ir i)) locals pb (depth + 1)))"
  unfolding uint_range.simps [of ir i locals pb depth] by (simp add: assms Let_def)

lemma binary_range_other:
  "opr \<notin> {DYN_OP_ADD, DYN_OP_MUL, DYN_OP_BIT_AND} \<Longrightarrow> binary_range opr r s = no_range"
  by (simp add: binary_range_def)

lemma uint_range_imprecise:
  assumes "\<not> (unat i < length (p_expressions ir) \<and> precise (expr_at ir i))"
  shows "uint_range ir i locals pb depth = no_range"
proof (cases "unat i < length (p_expressions ir)")
  case True
  let ?k = "ie_kind (expr_at ir i)"
  have "\<not> precise (expr_at ir i)" using assms True by simp
  then have k: "?k \<noteq> DYN_EXPR_BOOL" "?k \<noteq> DYN_EXPR_INT" "?k \<noteq> DYN_EXPR_CHAR" "?k \<noteq> DYN_EXPR_NAME"
      "?k = DYN_EXPR_CONVERT \<or> ?k = DYN_EXPR_CAST \<or> ?k = DYN_EXPR_INDEX \<Longrightarrow> \<not> unsigned_type (ie_type (expr_at ir i))"
    and op: "?k = DYN_EXPR_BINARY \<Longrightarrow> ie_wrap (expr_at ir i) \<or>
      ie_op (expr_at ir i) \<notin> {DYN_OP_ADD, DYN_OP_MUL, DYN_OP_BIT_AND}"
    unfolding precise_def by blast+
  show ?thesis
  proof (cases "?k = DYN_EXPR_BINARY \<and> \<not> ie_wrap (expr_at ir i)")
    case True
    with op have "ie_op (expr_at ir i) \<notin> {DYN_OP_ADD, DYN_OP_MUL, DYN_OP_BIT_AND}" by blast
    with True show ?thesis by (simp add: uint_range_binary binary_range_other)
  next
    case False
    then show ?thesis unfolding uint_range.simps [of ir i locals pb depth] Let_def using k by auto
  qed
next
  case False
  then show ?thesis by (subst uint_range.simps) simp
qed

lemma uint_range_sound:
  assumes "evals ir pb env i v" and "described locals env"
  shows "in_range (uint_range ir i locals pb depth) v"
  using assms(1)
proof (induction arbitrary: depth rule: evals.induct)
  case (convert i v w)
  then show ?case
    by (subst uint_range.simps) (auto simp: Let_def fits_def intro!: convert_range_sound)
next
  case (binary i a b w)
  let ?e = "expr_at ir i"
  note sound = binary_range_sound [OF binary.IH(1) [of "depth + 1"] binary.IH(2) [of "depth + 1"]]
  from binary.hyps(6) consider "ie_op ?e = DYN_OP_ADD" "w = a + b" | "ie_op ?e = DYN_OP_MUL" "w = a * b"
    | "ie_op ?e = DYN_OP_BIT_AND" "w = a AND b"
    by (auto simp: exact_binary_def split: if_splits)
  then have "in_range (binary_range (ie_op ?e) (uint_range ir (ie_left ?e) locals pb (depth + 1))
      (uint_range ir (ie_right ?e) locals pb (depth + 1))) w"
  proof cases
    case 1
    show ?thesis unfolding 1(2) by (rule sound(1)) (rule 1(1))
  next
    case 2
    show ?thesis unfolding 2(2) by (rule sound(2)) (rule 2(1))
  next
    case 3
    show ?thesis unfolding 3(2) by (rule sound(3)) (rule 3(1))
  qed
  then show ?case using uint_range_binary [OF binary.hyps(2,3), of locals pb depth] by simp
next
  case (other i w)
  then show ?case by (simp add: uint_range_imprecise)
next
  case (name i)
  then show ?case using assms(2)
    by (subst uint_range.simps) (simp add: Let_def described_def)
next
  case (bool i)
  then show ?case by (subst uint_range.simps) (simp add: Let_def in_range_def)
next
  case (int i)
  then show ?case by (subst uint_range.simps) (auto simp: Let_def in_range_def)
next
  case (index i w)
  then show ?case by (subst uint_range.simps) (simp add: Let_def in_range_def fits_def)
qed

subsection \<open>Marks do not change meaning\<close>

text \<open>
  The analysis only sets the \<open>boolean\<close> field of expressions that are not boolean literals
  (\<open>marked\<close>), which no evaluation reads.
\<close>

definition marked :: "ir_expr \<Rightarrow> ir_expr \<Rightarrow> bool" where
  "marked e e' \<longleftrightarrow> e' = e \<or> ie_kind e \<noteq> DYN_EXPR_BOOL \<and> e' = e\<lparr>ie_boolean := True\<rparr>"

definition marks :: "ir_program \<Rightarrow> ir_program \<Rightarrow> bool" where
  "marks ir ir' \<longleftrightarrow> (\<exists>es. ir' = ir\<lparr>p_expressions := es\<rparr> \<and> list_all2 marked (p_expressions ir) es)"

lemma marked_refl [simp]: "marked e e"
  by (simp add: marked_def)

lemma marked_trans: "marked e f \<Longrightarrow> marked f g \<Longrightarrow> marked e g"
  by (auto simp: marked_def)

lemma marks_refl [simp]: "marks ir ir"
  unfolding marks_def by (rule exI [of _ "p_expressions ir"]) (simp add: list_all2_refl)

lemma marks_trans: "marks a b \<Longrightarrow> marks b c \<Longrightarrow> marks a c"
  unfolding marks_def
  by (elim exE conjE) (auto intro: list_all2_trans [OF marked_trans])

lemma marks_frame:
  assumes "marks ir ir'"
  shows "length (p_expressions ir') = length (p_expressions ir)" "p_items ir' = p_items ir"
    "p_arrays ir' = p_arrays ir" "p_statements ir' = p_statements ir" "p_children ir' = p_children ir"
    "p_functions ir' = p_functions ir"
  using assms by (auto simp: marks_def dest: list_all2_lengthD)

lemma marks_expr:
  assumes "marks ir ir'" and "unat i < length (p_expressions ir)"
  shows "marked (expr_at ir i) (expr_at ir' i)"
  using assms by (auto simp: marks_def expr_at_def list_all2_conv_all_nth)

lemma marked_sel:
  assumes "marked e e'"
  shows "ie_kind e' = ie_kind e" "ie_type e' = ie_type e" "ie_op e' = ie_op e" "ie_left e' = ie_left e"
    "ie_right e' = ie_right e" "ie_integer e' = ie_integer e" "ie_wrap e' = ie_wrap e"
    "ie_item_start e' = ie_item_start e" "ie_item_count e' = ie_item_count e"
    "ie_kind e = DYN_EXPR_BOOL \<Longrightarrow> ie_boolean e' = ie_boolean e"
  using assms by (auto simp: marked_def)

lemma uint_range_marks:
  assumes "marks ir ir'"
  shows "uint_range ir' i locals pb depth = uint_range ir i locals pb depth"
proof (induction "Suc (length (p_expressions ir)) - depth" arbitrary: i depth rule: less_induct)
  case less
  show ?case
  proof (cases "i = DYN_NO_EXPR \<or> unat i \<ge> length (p_expressions ir) \<or> depth > length (p_expressions ir)")
    case True
    then show ?thesis
      by (subst (1 2) uint_range.simps) (auto simp: marks_frame [OF assms])
  next
    case False
    note sel = marked_sel [OF marks_expr [OF assms]]
    have rec: "uint_range ir' j locals pb (depth + 1) = uint_range ir j locals pb (depth + 1)" for j
      using False by (intro less) (simp add: Suc_diff_le)
    have i: "unat i < length (p_expressions ir)" using False by simp
    show ?thesis
      unfolding uint_range.simps [of ir' i locals pb depth] uint_range.simps [of ir i locals pb depth]
      by (simp only: Let_def rec marks_frame [OF assms] sel(1-9) [OF i]) (simp add: sel(10) [OF i] cong: if_cong)
  qed
qed

lemma evals_marks:
  assumes "marks ir ir'" and "evals ir pb env i v"
  shows "evals ir' pb env i v"
  using assms(2)
proof (induction rule: evals.induct)
  case (bool i)
  note sel = marked_sel [OF marks_expr [OF assms(1) bool(1)]]
  show ?case using bool evals.bool [of i ir' pb env] sel by (simp add: marks_frame [OF assms(1)])
next
  case (int i)
  note sel = marked_sel [OF marks_expr [OF assms(1) int(1)]]
  show ?case using int evals.int [of i ir' pb env] sel by (simp add: marks_frame [OF assms(1)])
next
  case (name i)
  note sel = marked_sel [OF marks_expr [OF assms(1) name(1)]]
  show ?case using name evals.name [of i ir' pb env] sel by (simp add: marks_frame [OF assms(1)])
next
  case (convert i v w)
  note sel = marked_sel [OF marks_expr [OF assms(1) convert(1)]]
  show ?case using convert sel
    by (intro evals.convert [of i ir' pb env v w]) (simp_all add: marks_frame [OF assms(1)])
next
  case (index i w)
  note sel = marked_sel [OF marks_expr [OF assms(1) index(1)]]
  show ?case using index sel
    by (intro evals.index [of i ir' pb w env]) (simp_all add: marks_frame [OF assms(1)])
next
  case (binary i a b w)
  note sel = marked_sel [OF marks_expr [OF assms(1) binary(1)]]
  show ?case using binary sel
    by (intro evals.binary [of i ir' pb env a b w]) (simp_all add: marks_frame [OF assms(1)])
next
  case (other i w)
  show ?case
  proof (rule evals.other)
    show "\<not> (unat i < length (p_expressions ir') \<and> precise (expr_at ir' i))"
      using other marked_sel [OF marks_expr [OF assms(1), of i]]
      by (auto simp: marks_frame [OF assms(1)] precise_def)
  qed
qed

subsection \<open>Index proofs\<close>

text \<open>
  \<open>index_safe\<close>: whatever values the locals have within their ranges, the index expression \<open>j\<close>
  evaluates its index below the length of the array type.
\<close>

definition index_safe :: "ir_program \<Rightarrow> u32 \<Rightarrow> range_locals \<Rightarrow> expr_id \<Rightarrow> bool" where
  "index_safe ir pb locals j \<longleftrightarrow> ie_kind (expr_at ir j) = DYN_EXPR_INDEX \<and>
     (\<forall>env v. described locals env \<and> evals ir pb env (ie_right (expr_at ir j)) v \<longrightarrow> 0 \<le> v \<and>
       v < uint (ia_length (p_arrays ir !
         unat (ie_type (expr_at ir (ie_left (expr_at ir j))) - DYN_TYPE_ARRAY_BASE))))"

text \<open>Every expression that is marked in \<open>ir'\<close> and was not in \<open>ir\<close> satisfies \<open>P\<close>.\<close>

definition new_marks :: "ir_program \<Rightarrow> ir_program \<Rightarrow> (expr_id \<Rightarrow> bool) \<Rightarrow> bool" where
  "new_marks ir ir' P \<longleftrightarrow> marks ir ir' \<and>
     (\<forall>j. unat j < length (p_expressions ir) \<and> ie_boolean (expr_at ir' j) \<and> \<not> ie_boolean (expr_at ir j) \<longrightarrow> P j)"

lemma new_marks_refl [simp]: "new_marks ir ir P"
  by (simp add: new_marks_def)

lemma new_marks_trans:
  assumes "new_marks a b P" and "new_marks b c Q" and "\<And>j. unat j < length (p_expressions a) \<Longrightarrow> Q j \<Longrightarrow> P j"
  shows "new_marks a c P"
  using assms marks_frame(1) [of a b] unfolding new_marks_def
  by (metis marks_trans)


text \<open>Index and binary expressions have their left operand (\<open>validate_ir\<close> checks operand indices).\<close>

definition operands_in :: "ir_program \<Rightarrow> bool" where
  "operands_in ir \<longleftrightarrow> list_all (\<lambda>e. ie_kind e \<in> {DYN_EXPR_INDEX, DYN_EXPR_BINARY} \<longrightarrow>
     unat (ie_left e) < length (p_expressions ir)) (p_expressions ir)"

lemma operands_inD:
  "operands_in ir \<Longrightarrow> unat j < length (p_expressions ir) \<Longrightarrow> ie_kind (expr_at ir j) \<in> {DYN_EXPR_INDEX, DYN_EXPR_BINARY} \<Longrightarrow>
    unat (ie_left (expr_at ir j)) < length (p_expressions ir)"
  by (auto simp: operands_in_def list_all_length expr_at_def)

lemma operands_in_marks:
  assumes "marks ir ir'" and "operands_in ir"
  shows "operands_in ir'"
proof -
  obtain es where es: "ir' = ir\<lparr>p_expressions := es\<rparr>" "list_all2 marked (p_expressions ir) es"
    using assms(1) by (auto simp: marks_def)
  show ?thesis unfolding operands_in_def list_all_length
  proof (intro allI impI)
    fix k assume k: "k < length (p_expressions ir')" "ie_kind (p_expressions ir' ! k) \<in> {DYN_EXPR_INDEX, DYN_EXPR_BINARY}"
    then have "k < length (p_expressions ir)" and m: "marked (p_expressions ir ! k) (p_expressions ir' ! k)"
      using es by (auto simp: list_all2_conv_all_nth)
    then show "unat (ie_left (p_expressions ir' ! k)) < length (p_expressions ir')"
      using assms(2) k(2) marked_sel(1,4) [OF m] marks_frame(1) [OF assms(1)]
      by (auto simp: operands_in_def list_all_length)
  qed
qed

lemma index_safe_marks:
  assumes "marks ir ir'" and "operands_in ir" and "unat j < length (p_expressions ir)"
    and "index_safe ir' pb locals j"
  shows "index_safe ir pb locals j"
proof -
  note sel = marked_sel [OF marks_expr [OF assms(1,3)]]
  have kind: "ie_kind (expr_at ir j) = DYN_EXPR_INDEX"
    using assms(4) sel(1) by (simp add: index_safe_def)
  have "unat (ie_left (expr_at ir j)) < length (p_expressions ir)"
    using kind by (intro operands_inD [OF assms(2,3)]) simp
  note left = marked_sel(2) [OF marks_expr [OF assms(1) this]]
  show ?thesis unfolding index_safe_def
  proof (intro conjI allI impI; (elim conjE)?)
    fix env v assume env: "described locals env" and ev: "evals ir pb env (ie_right (expr_at ir j)) v"
    have "evals ir' pb env (ie_right (expr_at ir' j)) v"
      using evals_marks [OF assms(1) ev] by (simp only: sel)
    with env have *: "0 \<le> v \<and> v < uint (ia_length (p_arrays ir' !
        unat (ie_type (expr_at ir' (ie_left (expr_at ir' j))) - DYN_TYPE_ARRAY_BASE)))"
      using assms(4) unfolding index_safe_def by blast
    then show "0 \<le> v" by (rule conjunct1)
    from * show "v < uint (ia_length (p_arrays ir !
        unat (ie_type (expr_at ir (ie_left (expr_at ir j))) - DYN_TYPE_ARRAY_BASE)))"
      by (simp only: sel left marks_frame [OF assms(1)])
  qed (rule kind)
qed

lemma mark_expr_marks:
  assumes "ie_kind (expr_at ir i) \<noteq> DYN_EXPR_BOOL"
  shows "marks ir (mark_expr ir i)"
proof -
  let ?es = "(p_expressions ir)[unat i := (expr_at ir i)\<lparr>ie_boolean := True\<rparr>]"
  have "list_all2 marked ((p_expressions ir)[unat i := expr_at ir i]) ?es"
    using assms by (intro list_all2_update_cong) (auto simp: list_all2_refl marked_def)
  then have "list_all2 marked (p_expressions ir) ?es" by (simp add: expr_at_def)
  then show ?thesis unfolding marks_def mark_expr_def by (intro exI [of _ ?es]) simp
qed

lemma mark_expr_new:
  assumes "ie_kind (expr_at ir i) \<noteq> DYN_EXPR_BOOL" and "P i"
  shows "new_marks ir (mark_expr ir i) P"
  unfolding new_marks_def
proof (intro conjI allI impI; (elim conjE)?)
  show "marks ir (mark_expr ir i)" using assms(1) by (rule mark_expr_marks)
  fix j assume j: "ie_boolean (expr_at (mark_expr ir i) j)" "\<not> ie_boolean (expr_at ir j)"
  have "unat j = unat i"
  proof (rule ccontr)
    assume "unat j \<noteq> unat i"
    then have "expr_at (mark_expr ir i) j = expr_at ir j" by (simp add: mark_expr_def expr_at_def)
    with j show False by simp
  qed
  then have "j = i" by (simp only: word_unat_eq_iff)
  then show "P j" using assms(2) by simp
qed

lemma prove_index_new: "new_marks ir (prove_index ir i locals pb) (index_safe ir pb locals)"
proof -
  let ?e = "expr_at ir i"
  let ?arr = "p_arrays ir ! unat (ie_type (expr_at ir (ie_left ?e)) - DYN_TYPE_ARRAY_BASE)"
  let ?r = "uint_range ir (ie_right ?e) locals pb 0"
  have mark: "new_marks ir (mark_expr ir i) (index_safe ir pb locals)"
    if kind: "ie_kind ?e = DYN_EXPR_INDEX" and valid: "ur_valid ?r" "ur_max ?r < ia_length ?arr"
  proof (rule mark_expr_new)
    show "ie_kind ?e \<noteq> DYN_EXPR_BOOL" using kind by simp
    have bound: "0 \<le> v \<and> v < uint (ia_length ?arr)"
      if "described locals env" "evals ir pb env (ie_right ?e) v" for env v
    proof -
      have "0 \<le> v" "v \<le> uint (ur_max ?r)"
        using uint_range_sound [OF that(2,1), of 0] valid(1) by (simp_all add: in_range_def)
      with valid(2) show ?thesis by (simp add: word_less_def)
    qed
    show "index_safe ir pb locals i" unfolding index_safe_def using kind bound by blast
  qed
  show ?thesis unfolding prove_index_def Let_def using mark by simp
qed

lemma new_marks_step:
  assumes "new_marks a b (index_safe a pb locals)" and "operands_in a"
    and "operands_in b \<Longrightarrow> new_marks b c (index_safe b pb locals)"
  shows "new_marks a c (index_safe a pb locals)"
proof (rule new_marks_trans [OF assms(1)])
  have m: "marks a b" using assms(1) by (simp add: new_marks_def)
  show "new_marks b c (index_safe b pb locals)" by (intro assms(3) operands_in_marks [OF m assms(2)])
  show "index_safe a pb locals j" if "unat j < length (p_expressions a)" "index_safe b pb locals j" for j
    using index_safe_marks [OF m assms(2) that] .
qed

lemma new_marks_fold:
  assumes "operands_in ir"
    and "\<And>x ir'. marks ir ir' \<Longrightarrow> operands_in ir' \<Longrightarrow> new_marks ir' (f x ir') (index_safe ir' pb locals)"
  shows "new_marks ir (fold f xs ir) (index_safe ir pb locals)"
proof -
  have "new_marks ir' (fold f xs ir') (index_safe ir' pb locals)" if "marks ir ir'" "operands_in ir'" for ir'
    using that
  proof (induction xs arbitrary: ir')
    case (Cons x xs)
    note one = assms(2) [OF Cons.prems, of x]
    have "marks ir (f x ir')" using marks_trans [OF Cons.prems(1)] one by (simp add: new_marks_def)
    then show ?case using new_marks_step [OF one Cons.prems(2) Cons.IH] by simp
  qed simp
  then show ?thesis using assms(1) by simp
qed

lemma prove_array_bounds_new:
  "operands_in ir \<Longrightarrow> new_marks ir (prove_array_bounds n ir i locals pb depth) (index_safe ir pb locals)"
proof (induction "Suc n - depth" arbitrary: ir i depth rule: less_induct)
  case less
  show ?case
  proof (cases "i = DYN_NO_EXPR \<or> unat i \<ge> n \<or> depth > n")
    case True
    then show ?thesis by (subst prove_array_bounds.simps) simp
  next
    case False
    then have lt: "Suc n - (depth + 1) < Suc n - depth" by linarith
    note rec = less.hyps [OF lt]
    let ?e = "expr_at ir i"
    define l where "l = prove_array_bounds n ir (ie_left ?e) locals pb (depth + 1)"
    define r where "r = prove_array_bounds n l (ie_right ?e) locals pb (depth + 1)"
    define f where "f = (\<lambda>j ir. prove_array_bounds n ir
      (it_expression (p_items ir ! unat (ie_item_start ?e + of_nat j))) locals pb (depth + 1))"
    have eq: "prove_array_bounds n ir i locals pb depth =
        prove_index (fold f [0..<unat (ie_item_count ?e)] r) i locals pb"
      unfolding prove_array_bounds.simps [of n ir i locals pb depth] l_def r_def f_def Let_def
      using False by simp
    have f: "new_marks ir' (f x ir') (index_safe ir' pb locals)" if "operands_in ir'" for x ir'
      unfolding f_def by (rule rec [OF that])
    have l: "new_marks ir l (index_safe ir pb locals)" unfolding l_def by (rule rec [OF less.prems])
    have r: "operands_in l \<Longrightarrow> new_marks l r (index_safe l pb locals)" unfolding r_def by (rule rec)
    show ?thesis unfolding eq
      by (rule new_marks_step [OF new_marks_step [OF new_marks_step [OF l less.prems r] less.prems
            new_marks_fold [OF _ f]] less.prems prove_index_new])
  qed
qed


subsection \<open>Sample expressions\<close>

text \<open>The parts the samples of the later theories share: expressions, and a program with one array type.\<close>

definition sample_ir_expr :: "expr_kind \<Rightarrow> dyn_type \<Rightarrow> dyn_operator \<Rightarrow> expr_id \<Rightarrow> expr_id \<Rightarrow> u64 \<Rightarrow> ir_expr" where
  "sample_ir_expr k t opr l r n = \<lparr>ie_kind = k, ie_type = t, ie_op = opr, ie_left = l, ie_right = r, ie_integer = n,
     ie_floating = 0, ie_boolean = False, ie_item_start = 0, ie_item_count = 0,
     ie_span = \<lparr>start_byte = 0, end_byte = 0\<rparr>, ie_wrap = False, ie_check_origin = 0\<rparr>"

definition sample_program :: ir_program where
  "sample_program = \<lparr>p_expressions = [], p_items = [], p_fields = [], p_structs = [], p_enums = [],
     p_variants = [], p_params = [], p_functions = [], p_globals = [], p_global_init_order = [],
     p_pointers = [], p_arrays = [\<lparr>ia_element = DYN_TYPE_U32, ia_length = 8\<rparr>], p_slices = [],
     p_fn_types = [], p_fn_type_params = [], p_strings = [], p_statements = [], p_patterns = [],
     p_case_arms = [], p_children = [], p_locals = [], p_unstable_locals = None, p_local_statements = None\<rparr>"

lemma prove_array_bounds_step:
  assumes "ie_item_count (expr_at ir i) = 0" and "unat i < n" and "i \<noteq> DYN_NO_EXPR" and "depth \<le> n"
  shows "prove_array_bounds n ir i locals pb depth =
    prove_index (prove_array_bounds n (prove_array_bounds n ir (ie_left (expr_at ir i)) locals pb (depth + 1))
      (ie_right (expr_at ir i)) locals pb (depth + 1)) i locals pb"
  by (subst prove_array_bounds.simps) (use assms in \<open>simp add: Let_def\<close>)

lemma prove_array_bounds_none: "prove_array_bounds n ir DYN_NO_EXPR locals pb depth = ir"
  by (subst prove_array_bounds.simps) simp

end
