(* ===== verification/Ir_Loops.thy ===== *)
theory Ir_Loops
  imports Ir_Ranges
begin

text \<open>
  What the loop analysis of \<open>Ir_Ranges\<close> guarantees about every execution of the loop: index expressions that lose
  their bounds check stay in bounds. \<open>Ir_Additions\<close> continues with the additions that lose their overflow check.

  A simple loop body is a sequence of declarations and assignments of locals. \<open>runs\<close> executes a prefix of the body,
  \<open>iterates\<close> whole iterations; a value that does not fit the type of its local is never stored, because the
  program stops with a panic.
\<close>

subsection \<open>The range proofs only set flags\<close>

lemma prove_index_marks: "marks ir (prove_index ir i locals pb)"
  unfolding prove_index_def Let_def by (auto intro: mark_expr_marks)

lemma marks_fold: "(\<And>x ir. marks ir (f x ir)) \<Longrightarrow> marks ir (fold f xs ir)"
  by (induction xs arbitrary: ir) (auto intro: marks_trans)

lemma prove_array_bounds_marks: "marks ir (prove_array_bounds n ir i locals pb depth)"
proof (induction "Suc n - depth" arbitrary: ir i depth rule: less_induct)
  case less
  show ?case
  proof (cases "i = DYN_NO_EXPR \<or> unat i \<ge> n \<or> depth > n")
    case True
    then show ?thesis by (subst prove_array_bounds.simps) simp
  next
    case False
    then have "Suc n - (depth + 1) < Suc n - depth" by linarith
    note rec = less [OF this]
    show ?thesis
      unfolding prove_array_bounds.simps [of n ir i locals pb depth] if_not_P [OF False] Let_def
      by (rule marks_trans [OF marks_trans [OF marks_trans [OF rec rec] marks_fold [OF rec]] prove_index_marks])
  qed
qed

lemma mark_binary: "ie_kind (expr_at ir i) = DYN_EXPR_BINARY \<Longrightarrow> marks ir (mark_expr ir i)"
  by (rule mark_expr_marks) simp

lemma prove_statement_marks: "marks ir (fst (prove_statement outer writes iterations pb c (ir, inside)))"
proof -
  let ?ir = "prove_array_bounds (length (p_expressions ir)) ir (ist_expression (stmt_at ir c)) inside pb 0"
  have m: "marks ir ?ir" by (rule prove_array_bounds_marks)
  have "marks ?ir (fst (prove_statement outer writes iterations pb c (ir, inside)))"
    unfolding prove_statement_def prod.case Let_def by (auto intro: mark_binary)
  with m show ?thesis by (rule marks_trans)
qed

lemma marks_fold_pair:
  assumes "\<And>x ir st. marks ir (fst (f x (ir, st)))"
  shows "marks ir (fst (fold f xs (ir, st)))"
proof (induction xs arbitrary: ir st)
  case (Cons x xs)
  obtain ir' st' where "f x (ir, st) = (ir', st')" by (cases "f x (ir, st)")
  then show ?case using assms [of ir x st] Cons [of ir' st'] by (auto intro: marks_trans)
qed simp

lemma prove_unsigned_loop_marks: "marks ir (prove_unsigned_loop ir loop outer pb)"
  unfolding prove_unsigned_loop_def Let_def
  by (auto intro: marks_fold_pair prove_statement_marks split: option.split)

lemma range_statement_marks: "marks ir (fst (range_statement pb c (ir, locals)))"
  unfolding range_statement_def Let_def by (simp add: prove_unsigned_loop_marks)

lemma prove_unsigned_ranges_marks: "marks ir (prove_unsigned_ranges ir pb)"
  unfolding prove_unsigned_ranges_def range_function_def
  by (rule marks_fold) (auto intro: marks_fold_pair range_statement_marks)

subsection \<open>Executions\<close>

definition loop_body :: "ir_stmt \<Rightarrow> nat list" where
  "loop_body loop = body_stmts (ist_body_start loop) (ist_body_count loop)"

definition stored :: "ir_program \<Rightarrow> nat \<Rightarrow> nat" where
  "stored ir c = unat (ist_local_id (stmt_at ir c))"

definition typed_env :: "ir_program \<Rightarrow> u32 \<Rightarrow> (nat \<Rightarrow> int) \<Rightarrow> bool" where
  "typed_env ir pb env \<longleftrightarrow> (\<forall>i < length (p_locals ir). unsigned_type (ilo_type (p_locals ir ! i)) \<longrightarrow>
     fits (ilo_type (p_locals ir ! i)) pb (env i))"

inductive runs :: "ir_program \<Rightarrow> u32 \<Rightarrow> nat list \<Rightarrow> (nat \<Rightarrow> int) \<Rightarrow> (nat \<Rightarrow> int) \<Rightarrow> bool" for ir pb where
  none: "runs ir pb [] env env"
| snoc: "runs ir pb cs env env1 \<Longrightarrow> evals ir pb env1 (ist_expression (stmt_at ir c)) v \<Longrightarrow>
    typed_env ir pb (env1(stored ir c := v)) \<Longrightarrow> runs ir pb (cs @ [c]) env (env1(stored ir c := v))"

inductive_cases runs_snocE: "runs ir pb (cs @ [c]) env env'"
inductive_cases runs_nilE: "runs ir pb [] env env'"

definition enters :: "ir_program \<Rightarrow> u32 \<Rightarrow> ir_stmt \<Rightarrow> (nat \<Rightarrow> int) \<Rightarrow> bool" where
  "enters ir pb loop env \<longleftrightarrow>
     (let cond = expr_at ir (ist_expression loop); i = env (unat (ie_integer (expr_at ir (ie_left cond)))) in
      \<exists>b. evals ir pb env (ie_right cond) b \<and> (if ie_op cond = DYN_OP_LE then i \<le> b else i < b))"

inductive iterates :: "ir_program \<Rightarrow> u32 \<Rightarrow> ir_stmt \<Rightarrow> nat \<Rightarrow> (nat \<Rightarrow> int) \<Rightarrow> (nat \<Rightarrow> int) \<Rightarrow> bool" for ir pb loop where
  start: "typed_env ir pb env \<Longrightarrow> iterates ir pb loop 0 env env"
| again: "iterates ir pb loop k env env1 \<Longrightarrow> enters ir pb loop env1 \<Longrightarrow> runs ir pb (loop_body loop) env1 env2 \<Longrightarrow>
    iterates ir pb loop (Suc k) env env2"

subsection \<open>The analysis before each statement\<close>

text \<open>The state of \<open>prove_unsigned_loop\<close> before statement \<open>j\<close> of the body.\<close>

definition loop_analysis ::
  "ir_program \<Rightarrow> ir_stmt \<Rightarrow> range_locals \<Rightarrow> u32 \<Rightarrow> nat \<Rightarrow> (ir_program \<times> range_locals) option" where
  "loop_analysis ir loop outer pb j =
     (case loop_shape ir loop outer pb of
        None \<Rightarrow> None
      | Some (ind_id, highest, iterations) \<Rightarrow>
          let inside = set_range (forget_writes ir (loop_body loop) outer) ind_id
                \<lparr>ur_valid = True, ur_exact = False, ur_max = highest, ur_value = 0\<rparr>
          in Some (fold (prove_statement outer (writes_of ir (loop_body loop) outer) iterations pb)
               (take j (loop_body loop)) (ir, inside)))"

lemma prove_unsigned_loop_analysis:
  "prove_unsigned_loop ir loop outer pb =
     (case loop_analysis ir loop outer pb (length (loop_body loop)) of None \<Rightarrow> ir | Some (ir', _) \<Rightarrow> ir')"
  by (auto simp: prove_unsigned_loop_def loop_analysis_def loop_body_def Let_def split: option.split prod.split)

text \<open>The ranges do not depend on the marks set meanwhile.\<close>

definition range_step :: "ir_program \<Rightarrow> u32 \<Rightarrow> nat \<Rightarrow> range_locals \<Rightarrow> range_locals" where
  "range_step ir pb c inside =
     (let st = stmt_at ir c; local = stored ir c in
      if ist_kind st = DYN_STMT_LOCAL \<and> range_has_local inside local
      then set_range inside local (uint_range ir (ist_expression st) inside pb 0)
      else if ist_kind st \<noteq> DYN_STMT_ASSIGN \<or> \<not> range_has_local inside local then inside
      else set_range inside local no_range)"

lemma stmt_at_marks: "marks ir ir' \<Longrightarrow> stmt_at ir' c = stmt_at ir c"
  by (simp add: stmt_at_def marks_frame)

lemma prove_statement_ranges:
  assumes "marks ir ir1"
  shows "snd (prove_statement outer writes iterations pb c (ir1, inside)) = range_step ir pb c inside"
proof -
  let ?ir = "prove_array_bounds (length (p_expressions ir1)) ir1 (ist_expression (stmt_at ir c)) inside pb 0"
  have m: "marks ir ?ir" by (rule marks_trans [OF assms prove_array_bounds_marks])
  show ?thesis
    unfolding prove_statement_def range_step_def prod.case Let_def stored_def stmt_at_marks [OF assms]
      uint_range_marks [OF m]
    by simp
qed

lemma analysis_state:
  "fold (prove_statement outer writes iterations pb) cs (ir1, inside) = (ir2, inside2) \<Longrightarrow> marks ir ir1 \<Longrightarrow>
    marks ir ir2 \<and> inside2 = fold (range_step ir pb) cs inside"
proof (induction cs arbitrary: ir1 inside)
  case (Cons c cs)
  obtain irm ins where step: "prove_statement outer writes iterations pb c (ir1, inside) = (irm, ins)"
    by (cases "prove_statement outer writes iterations pb c (ir1, inside)")
  have "marks ir irm" using marks_trans [OF Cons.prems(2) prove_statement_marks] step by (metis fst_conv)
  moreover have "ins = range_step ir pb c inside" using prove_statement_ranges [OF Cons.prems(2)] step by (metis snd_conv)
  ultimately show ?case using Cons.IH [of irm ins] Cons.prems(1) step by simp
qed simp

subsection \<open>Ranges describe the locals\<close>

lemma has_local_set_range [simp]: "range_has_local (set_range locals i r) j \<longleftrightarrow> range_has_local locals j"
  by (simp add: range_has_local_def set_range_def)

lemma range_of_set_range:
  "range_has_local locals i \<Longrightarrow> range_has_local locals j \<Longrightarrow>
    range_of (set_range locals i r) j = (if i = j then r else range_of locals j)"
  by (auto simp: range_has_local_def range_of_def set_range_def nth_list_update)

lemma described_set_range:
  assumes "described locals env" and "range_has_local locals i" and "in_range r v"
  shows "described (set_range locals i r) (env(i := v))"
  using assms by (auto simp: described_def range_of_set_range)

lemma described_untracked: "described locals env \<Longrightarrow> \<not> range_has_local locals i \<Longrightarrow> described locals (env(i := v))"
  by (auto simp: described_def)

lemma range_step_sound:
  assumes "described inside env" and "evals ir pb env (ist_expression (stmt_at ir c)) v"
    and "ist_kind (stmt_at ir c) = DYN_STMT_LOCAL \<or> ist_kind (stmt_at ir c) = DYN_STMT_ASSIGN"
  shows "described (range_step ir pb c inside) (env(stored ir c := v))"
  using assms described_set_range [OF assms(1)] described_untracked [OF assms(1)] uint_range_sound [OF assms(2,1)]
  by (auto simp: range_step_def Let_def)

text \<open>What the body writes is forgotten, so the other ranges hold throughout the loop.\<close>

lemma forget_frame: "range_has_local (forget_writes ir cs locals) i \<longleftrightarrow> range_has_local locals i"
  unfolding forget_writes_def by (induction cs arbitrary: locals) (auto simp: Let_def)

lemma forget_Cons: "forget_writes ir (c # cs) locals = forget_writes ir cs
    (if range_has_local locals (stored ir c) then set_range locals (stored ir c) no_range else locals)"
  by (simp add: forget_writes_def Let_def stored_def)

lemma forget_keeps_none:
  assumes "range_has_local locals i" and "range_of locals i = no_range"
  shows "range_of (forget_writes ir cs locals) i = no_range"
  using assms
proof (induction cs arbitrary: locals)
  case (Cons c cs)
  then show ?case by (auto simp: forget_Cons range_of_set_range)
qed (simp add: forget_writes_def)

lemma forget_written:
  "c \<in> set cs \<Longrightarrow> range_has_local locals (stored ir c) \<Longrightarrow> range_of (forget_writes ir cs locals) (stored ir c) = no_range"
proof (induction cs arbitrary: locals)
  case (Cons d cs)
  show ?case
  proof (cases "c = d")
    case True
    then show ?thesis using Cons.prems by (auto simp: forget_Cons range_of_set_range intro!: forget_keeps_none)
  next
    case False
    then show ?thesis using Cons by (auto simp: forget_Cons)
  qed
qed simp

lemma forget_unwritten:
  "i \<notin> stored ir ` set cs \<Longrightarrow> range_has_local locals i \<Longrightarrow> range_of (forget_writes ir cs locals) i = range_of locals i"
proof (induction cs arbitrary: locals)
  case (Cons d cs)
  then show ?case by (auto simp: forget_Cons range_of_set_range)
qed (simp add: forget_writes_def)

lemma forget_described: "described locals env \<Longrightarrow> described (forget_writes ir cs locals) env"
  unfolding described_def forget_frame
proof (intro allI impI)
  fix i assume all: "\<forall>i. range_has_local locals i \<longrightarrow> in_range (range_of locals i) (env i)" and i: "range_has_local locals i"
  show "in_range (range_of (forget_writes ir cs locals) i) (env i)"
  proof (cases "i \<in> stored ir ` set cs")
    case True
    then obtain c where "c \<in> set cs" "i = stored ir c" by blast
    then show ?thesis using forget_written [of c cs locals ir] i by simp
  qed (use all i forget_unwritten [of i ir cs locals] in simp)
qed

lemma forget_stable:
  assumes "described (forget_writes ir cs locals) env" and "c \<in> set cs"
  shows "described (forget_writes ir cs locals) (env(stored ir c := v))"
  using assms(1) forget_written [OF assms(2), of locals] unfolding described_def forget_frame
  by (simp add: fun_upd_apply)

lemma runs_forget:
  "runs ir pb cs env env' \<Longrightarrow> set cs \<subseteq> set body \<Longrightarrow> described (forget_writes ir body outer) env \<Longrightarrow>
    described (forget_writes ir body outer) env'"
  by (induction rule: runs.induct) (auto intro: forget_stable)

lemma iterates_forget:
  assumes "iterates ir pb loop k env0 env" and "described outer env0"
  shows "described (forget_writes ir (loop_body loop) outer) env"
  using assms
proof (induction rule: iterates.induct)
  case (start env)
  then show ?case by (intro forget_described)
next
  case (again k env env1 env2)
  then show ?case using runs_forget [OF again.hyps(3) subset_refl] by blast
qed

subsection \<open>Inside the loop\<close>

lemma runs_typed: "runs ir pb cs env env' \<Longrightarrow> typed_env ir pb env \<Longrightarrow> typed_env ir pb env'"
  by (induction rule: runs.induct)

lemma iterates_typed: "iterates ir pb loop k env0 env \<Longrightarrow> typed_env ir pb env"
  by (induction rule: iterates.induct) (auto intro: runs_typed)

lemma runs_described:
  "runs ir pb cs env env' \<Longrightarrow> described inside env \<Longrightarrow>
    list_all (\<lambda>c. ist_kind (stmt_at ir c) = DYN_STMT_LOCAL \<or> ist_kind (stmt_at ir c) = DYN_STMT_ASSIGN) cs \<Longrightarrow>
    described (fold (range_step ir pb) cs inside) env'"
proof (induction rule: runs.induct)
  case (snoc cs env env1 c v)
  then have "described (fold (range_step ir pb) cs inside) env1" by simp
  then show ?case using range_step_sound [OF _ snoc.hyps(2)] snoc.prems(2) by (simp del: fun_upd_apply)
qed simp

text \<open>A name has the type of its local.\<close>

definition names_typed :: "ir_program \<Rightarrow> bool" where
  "names_typed ir \<longleftrightarrow> list_all (\<lambda>e. ie_kind e = DYN_EXPR_NAME \<longrightarrow> unat (ie_integer e) < length (p_locals ir) \<and>
     ilo_type (p_locals ir ! unat (ie_integer e)) = ie_type e) (p_expressions ir)"

lemma names_typed_fits:
  assumes "names_typed ir" and "typed_env ir pb env" and "unat i < length (p_expressions ir)"
    and "ie_kind (expr_at ir i) = DYN_EXPR_NAME" and "unsigned_type (ie_type (expr_at ir i))"
  shows "fits (ie_type (expr_at ir i)) pb (env (unat (ie_integer (expr_at ir i))))"
proof -
  have "unat (ie_integer (expr_at ir i)) < length (p_locals ir)"
    and type: "ilo_type (p_locals ir ! unat (ie_integer (expr_at ir i))) = ie_type (expr_at ir i)"
    using assms(1,3,4) by (simp_all add: names_typed_def list_all_length expr_at_def)
  with assms(2,5) show ?thesis unfolding typed_env_def by (metis type)
qed

text \<open>
  What the analysis relies on: the tables \<open>sema\<close> and lowering produce have their operands, names are typed like their
  locals, and the local ids of the function are 32-bit numbers.
\<close>

definition analysable :: "ir_program \<Rightarrow> ir_stmt \<Rightarrow> range_locals \<Rightarrow> bool" where
  "analysable ir loop outer \<longleftrightarrow> operands_in ir \<and> names_typed ir \<and>
     unat (ist_expression loop) < length (p_expressions ir) \<and> rl_start outer + length (rl_values outer) \<le> 2 ^ 32"

lemma analysableD:
  assumes "analysable ir loop outer"
  shows "operands_in ir" "names_typed ir" "unat (ist_expression loop) < length (p_expressions ir)"
    "rl_start outer + length (rl_values outer) \<le> 2 ^ 32"
  using assms by (simp_all add: analysable_def)

text \<open>What the conditions of the analysis give.\<close>

definition loop_bound :: "ir_program \<Rightarrow> ir_stmt \<Rightarrow> range_locals \<Rightarrow> u32 \<Rightarrow> uint_range_t" where
  "loop_bound ir loop outer pb = uint_range ir (ie_right (expr_at ir (ist_expression loop)))
     (forget_writes ir (loop_body loop) outer) pb 0"

lemma loop_shapeD:
  assumes "loop_shape ir loop outer pb = Some (ind_id, highest, iterations)"
  defines "cond \<equiv> expr_at ir (ist_expression loop)"
  defines "ind \<equiv> expr_at ir (ie_left cond)"
  shows "simple_loop_body ir loop" "ie_kind ind = DYN_EXPR_NAME" "range_has_local outer (unat (ie_integer ind))"
    "unsigned_type (ie_type ind)" "ind_id = unat (ucast (ie_integer ind) :: u32)"
    "ur_exact (loop_bound ir loop outer pb)"
    "highest = (if ie_op cond = DYN_OP_LE then ur_value (loop_bound ir loop outer pb)
       else if ur_value (loop_bound ir loop outer pb) \<noteq> 0 then ur_value (loop_bound ir loop outer pb) - 1 else 0)"
    "ie_kind cond = DYN_EXPR_BINARY"
  using assms(1) unfolding loop_shape_def Let_def loop_body_def [symmetric] loop_bound_def
    cond_def [symmetric] ind_def [symmetric]
  by (simp_all split: if_split_asm)

lemma ind_id_exact:
  assumes "range_has_local outer (unat (n :: u64))" and "rl_start outer + length (rl_values outer) \<le> 2 ^ 32"
  shows "unat (ucast n :: u32) = unat n"
proof -
  have "unat n < 2 ^ 32" using assms unfolding range_has_local_def by linarith
  then show ?thesis by (simp add: unat_ucast_down)
qed

lemma enters_below:
  assumes "analysable ir loop outer" and "typed_env ir pb env" and "enters ir pb loop env"
    and "loop_shape ir loop outer pb = Some (ind_id, highest, iterations)"
    and "described (forget_writes ir (loop_body loop) outer) env"
  shows "0 \<le> env ind_id \<and> env ind_id \<le> uint highest"
proof -
  note shape = loop_shapeD [OF assms(4)] and wf = analysableD [OF assms(1)]
  have left: "unat (ie_left (expr_at ir (ist_expression loop))) < length (p_expressions ir)"
    using shape(8) by (intro operands_inD [OF wf(1,3)]) simp
  define i where "i = env (unat (ie_integer (expr_at ir (ie_left (expr_at ir (ist_expression loop))))))"
  have i: "env ind_id = i" unfolding i_def shape(5) ind_id_exact [OF shape(3) wf(4)] ..
  have nonneg: "0 \<le> i" using names_typed_fits [OF wf(2) assms(2) left shape(2,4)] by (simp add: i_def fits_def)
  obtain b where b: "evals ir pb env (ie_right (expr_at ir (ist_expression loop))) b"
    and le: "if ie_op (expr_at ir (ist_expression loop)) = DYN_OP_LE then i \<le> b else i < b"
    using assms(3) unfolding enters_def Let_def i_def by blast
  have "in_range (loop_bound ir loop outer pb) b" unfolding loop_bound_def by (rule uint_range_sound [OF b assms(5)])
  with shape(6) have "b = uint (ur_value (loop_bound ir loop outer pb))" by (simp add: in_range_def)
  moreover have "uint (w - 1) = uint w - 1" if "w \<noteq> 0" for w :: u64
    using that uint_minus_simple_alt [of 1 w] by (simp add: word_le_nat_alt Suc_le_eq unat_gt_0)
  ultimately show ?thesis using le nonneg unfolding i shape(7)
    by (auto split: if_split_asm)
qed

text \<open>The expressions below \<open>i\<close>, which \<open>prove_array_bounds\<close> visits.\<close>

inductive part_of :: "ir_program \<Rightarrow> expr_id \<Rightarrow> expr_id \<Rightarrow> bool" for ir i where
  whole: "part_of ir i i"
| left: "part_of ir i j \<Longrightarrow> unat j < length (p_expressions ir) \<Longrightarrow> part_of ir i (ie_left (expr_at ir j))"
| right: "part_of ir i j \<Longrightarrow> unat j < length (p_expressions ir) \<Longrightarrow> part_of ir i (ie_right (expr_at ir j))"
| item: "part_of ir i j \<Longrightarrow> unat j < length (p_expressions ir) \<Longrightarrow> k < unat (ie_item_count (expr_at ir j)) \<Longrightarrow>
    part_of ir i (it_expression (p_items ir ! unat (ie_item_start (expr_at ir j) + of_nat k)))"

lemma prove_index_part: "new_marks ir (prove_index ir i locals pb) (\<lambda>j. j = i)"
  unfolding prove_index_def Let_def by (auto intro!: mark_expr_new)

lemma new_marks_fold_in:
  assumes "\<And>x ir'. x \<in> set xs \<Longrightarrow> marks ir ir' \<Longrightarrow> new_marks ir' (f x ir') P"
  shows "marks ir ir' \<Longrightarrow> new_marks ir' (fold f xs ir') P"
  using assms
proof (induction xs arbitrary: ir')
  case (Cons x xs)
  have one: "new_marks ir' (f x ir') P" using Cons.prems by simp
  then have "marks ir (f x ir')" using marks_trans [OF Cons.prems(1)] by (simp add: new_marks_def)
  then have "new_marks (f x ir') (fold f xs (f x ir')) P" using Cons by simp
  with one show ?case using new_marks_trans by fastforce
qed simp

lemma prove_array_bounds_part:
  "marks ir0 ir \<Longrightarrow> part_of ir0 root i \<Longrightarrow> n = length (p_expressions ir0) \<Longrightarrow>
    new_marks ir (prove_array_bounds n ir i locals pb depth) (part_of ir0 root)"
proof (induction "Suc n - depth" arbitrary: ir i depth rule: less_induct)
  case less
  show ?case
  proof (cases "i = DYN_NO_EXPR \<or> unat i \<ge> n \<or> depth > n")
    case True
    then show ?thesis by (subst prove_array_bounds.simps) simp
  next
    case False
    then have lt: "Suc n - (depth + 1) < Suc n - depth" by linarith
    note rec = less.hyps [OF lt]
    have i: "unat i < length (p_expressions ir0)" using False less.prems(3) by simp
    note sel = marked_sel [OF marks_expr [OF less.prems(1) i]]
    define l where "l = prove_array_bounds n ir (ie_left (expr_at ir0 i)) locals pb (depth + 1)"
    define r where "r = prove_array_bounds n l (ie_right (expr_at ir0 i)) locals pb (depth + 1)"
    define f where "f = (\<lambda>j ir. prove_array_bounds n ir
      (it_expression (p_items ir ! unat (ie_item_start (expr_at ir0 i) + of_nat j))) locals pb (depth + 1))"
    define s where "s = fold f [0..<unat (ie_item_count (expr_at ir0 i))] r"
    have eq: "prove_array_bounds n ir i locals pb depth = prove_index s i locals pb"
      unfolding prove_array_bounds.simps [of n ir i locals pb depth] l_def r_def f_def s_def Let_def sel
      using False by simp
    have l: "new_marks ir l (part_of ir0 root)"
      unfolding l_def by (rule rec [OF less.prems(1) part_of.left [OF less.prems(2) i] less.prems(3)])
    then have ml: "marks ir0 l" using marks_trans [OF less.prems(1)] by (simp add: new_marks_def)
    have r: "new_marks l r (part_of ir0 root)"
      unfolding r_def by (rule rec [OF ml part_of.right [OF less.prems(2) i] less.prems(3)])
    then have mr: "marks ir0 r" using marks_trans [OF ml] by (simp add: new_marks_def)
    have s: "new_marks r s (part_of ir0 root)" unfolding s_def
    proof (rule new_marks_fold_in [OF _ mr])
      fix x ir' assume "x \<in> set [0..<unat (ie_item_count (expr_at ir0 i))]" and m: "marks ir0 ir'"
      then have "part_of ir0 root (it_expression (p_items ir' ! unat (ie_item_start (expr_at ir0 i) + of_nat x)))"
        unfolding marks_frame(2) [OF m] by (intro part_of.item [OF less.prems(2) i]) simp
      then show "new_marks ir' (f x ir') (part_of ir0 root)" unfolding f_def by (rule rec [OF m _ less.prems(3)])
    qed
    have last: "new_marks s (prove_index s i locals pb) (part_of ir0 root)"
      using prove_index_part [of s i locals pb] less.prems(2) by (auto simp: new_marks_def)
    show ?thesis unfolding eq
      by (rule new_marks_trans [OF l new_marks_trans [OF r new_marks_trans [OF s last]]])
  qed
qed

text \<open>An index expression marked while a statement is treated is part of it and in bounds.\<close>

lemma prove_statement_index:
  assumes "ie_kind (expr_at ir1 m) = DYN_EXPR_INDEX" and "unat m < length (p_expressions ir1)"
    and "ie_boolean (expr_at (fst (prove_statement outer writes iterations pb c (ir1, inside))) m)"
  shows "ie_boolean (expr_at (prove_array_bounds (length (p_expressions ir1)) ir1 (ist_expression (stmt_at ir1 c))
    inside pb 0) m)"
proof -
  let ?ir = "prove_array_bounds (length (p_expressions ir1)) ir1 (ist_expression (stmt_at ir1 c)) inside pb 0"
  have "ie_kind (expr_at ?ir m) = DYN_EXPR_INDEX"
    using marked_sel(1) [OF marks_expr [OF prove_array_bounds_marks assms(2)]] assms(1) by simp
  then have "ie_boolean (expr_at (mark_expr ?ir e) m) \<Longrightarrow> ie_boolean (expr_at ?ir m)"
    if "ie_kind (expr_at ?ir e) = DYN_EXPR_BINARY" for e
    using that by (cases "unat e = unat m") (auto simp: mark_expr_def expr_at_def)
  with assms(3) show ?thesis unfolding prove_statement_def prod.case Let_def by (auto split: if_split_asm)
qed

lemma fold_changes:
  assumes "P (fold f xs a)" and "\<not> P a"
  shows "\<exists>j < length xs. \<not> P (fold f (take j xs) a) \<and> P (f (xs ! j) (fold f (take j xs) a))"
  using assms(1)
proof (induction xs rule: rev_induct)
  case (snoc x xs)
  show ?case
  proof (cases "P (fold f xs a)")
    case True
    then obtain j where "j < length xs" "\<not> P (fold f (take j xs) a)" "P (f (xs ! j) (fold f (take j xs) a))"
      using snoc.IH by blast
    then show ?thesis by (intro exI [of _ j]) (simp add: nth_append)
  next
    case False
    then show ?thesis using snoc.prems by (intro exI [of _ "length xs"]) simp
  qed
qed (use assms(2) in simp)

lemma simple_loop_kinds:
  assumes "simple_loop_body ir loop"
  shows "list_all (\<lambda>c. ist_kind (stmt_at ir c) = DYN_STMT_LOCAL \<or> ist_kind (stmt_at ir c) = DYN_STMT_ASSIGN)
    (take j (loop_body loop))"
  using assms unfolding simple_loop_body_def Let_def loop_body_def [symmetric]
  by (auto simp: list_all_iff dest!: in_set_takeD split: if_split_asm)

lemma ind_id_tracked:
  assumes "loop_shape ir loop outer pb = Some (ind_id, highest, iterations)" and "analysable ir loop outer"
  shows "range_has_local outer ind_id"
  using loop_shapeD(3) [OF assms(1)] unfolding loop_shapeD(5) [OF assms(1)]
    ind_id_exact [OF loop_shapeD(3) [OF assms(1)] analysableD(4) [OF assms(2)]] .

text \<open>The ranges before statement \<open>j\<close> of the body.\<close>

definition ranges_before :: "ir_program \<Rightarrow> ir_stmt \<Rightarrow> range_locals \<Rightarrow> u32 \<Rightarrow> nat \<Rightarrow> u64 \<Rightarrow> nat \<Rightarrow> range_locals" where
  "ranges_before ir loop outer pb ind_id highest j = fold (range_step ir pb) (take j (loop_body loop))
     (set_range (forget_writes ir (loop_body loop) outer) ind_id
       \<lparr>ur_valid = True, ur_exact = False, ur_max = highest, ur_value = 0\<rparr>)"

lemma inside_described:
  assumes "loop_shape ir loop outer pb = Some (ind_id, highest, iterations)" and "analysable ir loop outer"
    and "described outer env0" and "iterates ir pb loop k env0 env" and "enters ir pb loop env"
    and "runs ir pb (take j (loop_body loop)) env env1"
  shows "described (ranges_before ir loop outer pb ind_id highest j) env1"
  unfolding ranges_before_def
proof (rule runs_described [OF assms(6) _ simple_loop_kinds [OF loop_shapeD(1) [OF assms(1)]]])
  let ?inside = "forget_writes ir (loop_body loop) outer"
  have d: "described ?inside env" by (rule iterates_forget [OF assms(4,3)])
  have "0 \<le> env ind_id \<and> env ind_id \<le> uint highest"
    by (rule enters_below [OF assms(2) iterates_typed [OF assms(4)] assms(5,1) d])
  then show "described (set_range ?inside ind_id
      \<lparr>ur_valid = True, ur_exact = False, ur_max = highest, ur_value = 0\<rparr>) env"
    using described_set_range [OF d, of ind_id _ "env ind_id"] ind_id_tracked [OF assms(1,2)]
    by (simp add: in_range_def forget_frame)
qed

lemma loop_marked_at:
  assumes "loop_shape ir loop outer pb = Some (ind_id, highest, iterations)"
    and "\<not> ie_boolean (expr_at ir m)" and "ie_boolean (expr_at (prove_unsigned_loop ir loop outer pb) m)"
  obtains j ir1 where "j < length (loop_body loop)" and "marks ir ir1" and "\<not> ie_boolean (expr_at ir1 m)"
    and "ie_boolean (expr_at (fst (prove_statement outer (writes_of ir (loop_body loop) outer) iterations pb
      (loop_body loop ! j) (ir1, ranges_before ir loop outer pb ind_id highest j))) m)"
proof -
  let ?body = "loop_body loop" and ?inside = "ranges_before ir loop outer pb ind_id highest 0"
  define f where "f = prove_statement outer (writes_of ir ?body outer) iterations pb"
  have "prove_unsigned_loop ir loop outer pb = fst (fold f ?body (ir, ?inside))"
    unfolding prove_unsigned_loop_def assms(1) f_def ranges_before_def loop_body_def Let_def by simp
  then obtain j where j: "j < length ?body"
    and old: "\<not> ie_boolean (expr_at (fst (fold f (take j ?body) (ir, ?inside))) m)"
    and new: "ie_boolean (expr_at (fst (f (?body ! j) (fold f (take j ?body) (ir, ?inside)))) m)"
    using fold_changes [where P = "\<lambda>s. ie_boolean (expr_at (fst s) m)" and f = f and xs = ?body and a = "(ir, ?inside)"]
      assms(2,3) by auto
  obtain ir1 ins where S: "fold f (take j ?body) (ir, ?inside) = (ir1, ins)" by fastforce
  then have "marks ir ir1" and "ins = ranges_before ir loop outer pb ind_id highest j"
    using analysis_state [of outer _ iterations pb "take j ?body" ir ?inside ir1 ins ir]
    by (simp_all add: f_def ranges_before_def)
  with that [OF j] old [unfolded S] new [unfolded S] show thesis by (simp add: f_def)
qed

lemma loop_index_marked:
  assumes "loop_shape ir loop outer pb = Some (ind_id, highest, iterations)"
    and "operands_in ir" and "unat m < length (p_expressions ir)"
    and "ie_kind (expr_at ir m) = DYN_EXPR_INDEX" and "\<not> ie_boolean (expr_at ir m)"
    and "ie_boolean (expr_at (prove_unsigned_loop ir loop outer pb) m)"
  shows "\<exists>j < length (loop_body loop). part_of ir (ist_expression (stmt_at ir (loop_body loop ! j))) m \<and>
    index_safe ir pb (ranges_before ir loop outer pb ind_id highest j) m"
proof -
  obtain j ir1 where j: "j < length (loop_body loop)" and m1: "marks ir ir1" and old: "\<not> ie_boolean (expr_at ir1 m)"
    and new: "ie_boolean (expr_at (fst (prove_statement outer (writes_of ir (loop_body loop) outer) iterations pb
      (loop_body loop ! j) (ir1, ranges_before ir loop outer pb ind_id highest j))) m)"
    by (rule loop_marked_at [OF assms(1,5,6)])
  let ?ins = "ranges_before ir loop outer pb ind_id highest j"
  let ?root = "ist_expression (stmt_at ir (loop_body loop ! j))"
  let ?ir2 = "prove_array_bounds (length (p_expressions ir1)) ir1 ?root ?ins pb 0"
  note len = marks_frame(1) [OF m1]
  have m: "unat m < length (p_expressions ir1)" "ie_kind (expr_at ir1 m) = DYN_EXPR_INDEX"
    using assms(3,4) len marked_sel(1) [OF marks_expr [OF m1 assms(3)]] by simp_all
  have new2: "ie_boolean (expr_at ?ir2 m)"
    using prove_statement_index [OF m(2,1) new] by (simp add: stmt_at_marks [OF m1])
  have "new_marks ir1 ?ir2 (part_of ir ?root)" by (rule prove_array_bounds_part [OF m1 part_of.whole len])
  then have part: "part_of ir ?root m" using old new2 m(1) by (simp add: new_marks_def)
  have "new_marks ir1 ?ir2 (index_safe ir1 pb ?ins)"
    by (rule prove_array_bounds_new [OF operands_in_marks [OF m1 assms(2)]])
  then have "index_safe ir1 pb ?ins m" using old new2 m(1) by (simp add: new_marks_def)
  then have "index_safe ir pb ?ins m" by (rule index_safe_marks [OF m1 assms(2,3)])
  with j part show ?thesis by blast
qed

subsection \<open>The guarantee\<close>

text \<open>C14. An index expression that the loop analysis marks as needing no bounds check belongs to a statement of
  the loop body, and whenever an execution of the loop, after any number of iterations, reaches that statement, the
  index it evaluates lies inside the array.\<close>

theorem loop_bounds_sound:
  assumes "analysable ir loop outer" and "unat m < length (p_expressions ir)"
    and "ie_kind (expr_at ir m) = DYN_EXPR_INDEX" and "\<not> ie_boolean (expr_at ir m)"
    and "ie_boolean (expr_at (prove_unsigned_loop ir loop outer pb) m)"
  shows "\<exists>j < length (loop_body loop).
    part_of ir (ist_expression (stmt_at ir (loop_body loop ! j))) m \<and>
    (\<forall>k env0 env env1 v. described outer env0 \<and> iterates ir pb loop k env0 env \<and> enters ir pb loop env \<and>
       runs ir pb (take j (loop_body loop)) env env1 \<and> evals ir pb env1 (ie_right (expr_at ir m)) v \<longrightarrow>
       0 \<le> v \<and> v < uint (ia_length (p_arrays ir !
         unat (ie_type (expr_at ir (ie_left (expr_at ir m))) - DYN_TYPE_ARRAY_BASE))))"
proof -
  obtain ind_id highest iterations where shape: "loop_shape ir loop outer pb = Some (ind_id, highest, iterations)"
    using assms(4,5) unfolding prove_unsigned_loop_def by (cases "loop_shape ir loop outer pb") auto
  show ?thesis
    using loop_index_marked [OF shape analysableD(1) [OF assms(1)] assms(2-5)] inside_described [OF shape assms(1)]
    unfolding index_safe_def by blast
qed

subsection \<open>A sample loop\<close>

text \<open>\<open>for i < 8 { x := a[i]  i = i + 1 }\<close> with \<open>a\<close> an array of eight elements.\<close>

definition sample_body_stmt :: "stmt_kind \<Rightarrow> expr_id \<Rightarrow> u32 \<Rightarrow> u32 \<Rightarrow> ir_stmt" where
  "sample_body_stmt k e local count = \<lparr>ist_kind = k, ist_expression = e, ist_target = DYN_NO_EXPR,
     ist_assignment_op = DYN_OP_NONE, ist_local_id = local, ist_body_start = 0, ist_body_count = count,
     ist_else_start = 0, ist_else_count = 0, ist_loop_id = 0, ist_target_loop_id = 0, ist_case_arm_start = 0,
     ist_case_arm_count = 0, ist_defer_block = False, ist_for_pointer = False, ist_for_const = False,
     ist_for_range = False, ist_for_inclusive = False, ist_for_reverse = False,
     ist_span = \<lparr>start_byte = 0, end_byte = 0\<rparr>, ist_check_origin = 0\<rparr>"

definition sample_loop :: ir_stmt where
  "sample_loop = sample_body_stmt DYN_STMT_FOR 5 0 2"

definition sample_loop_program :: ir_program where
  "sample_loop_program = sample_program\<lparr>p_expressions :=
     [sample_ir_expr DYN_EXPR_NAME DYN_TYPE_ARRAY_BASE DYN_OP_NONE DYN_NO_EXPR DYN_NO_EXPR 0,
      sample_ir_expr DYN_EXPR_NAME DYN_TYPE_U32 DYN_OP_NONE DYN_NO_EXPR DYN_NO_EXPR 1,
      sample_ir_expr DYN_EXPR_INDEX DYN_TYPE_U32 DYN_OP_NONE 0 1 0,
      sample_ir_expr DYN_EXPR_NAME DYN_TYPE_U32 DYN_OP_NONE DYN_NO_EXPR DYN_NO_EXPR 1,
      sample_ir_expr DYN_EXPR_INT DYN_TYPE_U32 DYN_OP_NONE DYN_NO_EXPR DYN_NO_EXPR 8,
      sample_ir_expr DYN_EXPR_BINARY DYN_TYPE_BOOL DYN_OP_LT 3 4 0,
      sample_ir_expr DYN_EXPR_NAME DYN_TYPE_U32 DYN_OP_NONE DYN_NO_EXPR DYN_NO_EXPR 1,
      sample_ir_expr DYN_EXPR_INT DYN_TYPE_U32 DYN_OP_NONE DYN_NO_EXPR DYN_NO_EXPR 1,
      sample_ir_expr DYN_EXPR_BINARY DYN_TYPE_U32 DYN_OP_ADD 6 7 0],
     p_statements := [sample_body_stmt DYN_STMT_LOCAL 2 2 0, sample_body_stmt DYN_STMT_ASSIGN 8 1 0, sample_loop],
     p_children := [0, 1, 2],
     p_locals := [\<lparr>ilo_name = [0x61], ilo_type = DYN_TYPE_ARRAY_BASE\<rparr>, \<lparr>ilo_name = [0x69], ilo_type = DYN_TYPE_U32\<rparr>,
       \<lparr>ilo_name = [0x78], ilo_type = DYN_TYPE_U32\<rparr>]\<rparr>"

definition sample_outer :: range_locals where
  "sample_outer = \<lparr>rl_values = [no_range, \<lparr>ur_valid = True, ur_exact = True, ur_max = 0, ur_value = 0\<rparr>, no_range],
     rl_start = 0\<rparr>"

lemma sample_loop_tables:
  "length (p_expressions sample_loop_program) = 9"
  "p_arrays sample_loop_program = [\<lparr>ia_element = DYN_TYPE_U32, ia_length = 8\<rparr>]"
  "stmt_at sample_loop_program 0 = sample_body_stmt DYN_STMT_LOCAL 2 2 0"
  "stmt_at sample_loop_program (Suc 0) = sample_body_stmt DYN_STMT_ASSIGN 8 1 0"
  "loop_body sample_loop = [0, 1]" "body_stmts 0 2 = [0, 1]"
  by (simp_all add: sample_loop_program_def sample_program_def stmt_at_def loop_body_def body_stmts_def sample_loop_def
      sample_body_stmt_def upt_rec)

lemma sample_loop_exprs:
  "expr_at sample_loop_program 0 = sample_ir_expr DYN_EXPR_NAME DYN_TYPE_ARRAY_BASE DYN_OP_NONE DYN_NO_EXPR DYN_NO_EXPR 0"
  "expr_at sample_loop_program 1 = sample_ir_expr DYN_EXPR_NAME DYN_TYPE_U32 DYN_OP_NONE DYN_NO_EXPR DYN_NO_EXPR 1"
  "expr_at sample_loop_program 2 = sample_ir_expr DYN_EXPR_INDEX DYN_TYPE_U32 DYN_OP_NONE 0 1 0"
  "expr_at sample_loop_program 3 = sample_ir_expr DYN_EXPR_NAME DYN_TYPE_U32 DYN_OP_NONE DYN_NO_EXPR DYN_NO_EXPR 1"
  "expr_at sample_loop_program 4 = sample_ir_expr DYN_EXPR_INT DYN_TYPE_U32 DYN_OP_NONE DYN_NO_EXPR DYN_NO_EXPR 8"
  "expr_at sample_loop_program 5 = sample_ir_expr DYN_EXPR_BINARY DYN_TYPE_BOOL DYN_OP_LT 3 4 0"
  "expr_at sample_loop_program 6 = sample_ir_expr DYN_EXPR_NAME DYN_TYPE_U32 DYN_OP_NONE DYN_NO_EXPR DYN_NO_EXPR 1"
  "expr_at sample_loop_program 7 = sample_ir_expr DYN_EXPR_INT DYN_TYPE_U32 DYN_OP_NONE DYN_NO_EXPR DYN_NO_EXPR 1"
  "expr_at sample_loop_program 8 = sample_ir_expr DYN_EXPR_BINARY DYN_TYPE_U32 DYN_OP_ADD 6 7 0"
  by (simp_all add: expr_at_def sample_loop_program_def)

lemma sample_analysable: "analysable sample_loop_program sample_loop sample_outer"
  by (simp add: analysable_def operands_in_def names_typed_def sample_loop_program_def sample_ir_expr_def
      sample_outer_def sample_loop_def sample_body_stmt_def)

lemma sample_pure: "range_pure sample_loop_program 2 0" "range_pure sample_loop_program 8 0"
proof -
  have leaf: "range_pure sample_loop_program i 1" if "i \<in> {0, 1, 6, 7}" for i
    using that by (subst range_pure.simps) (auto simp: sample_loop_exprs sample_ir_expr_def sample_loop_tables)
  show "range_pure sample_loop_program 2 0" "range_pure sample_loop_program 8 0"
    by (subst range_pure.simps; simp add: sample_loop_exprs sample_ir_expr_def sample_loop_tables leaf)+
qed

lemma sample_literals:
  "uint_range sample_loop_program 4 locals 8 0 = \<lparr>ur_valid = True, ur_exact = True, ur_max = 8, ur_value = 8\<rparr>"
  "uint_range sample_loop_program 7 locals 8 0 = \<lparr>ur_valid = True, ur_exact = True, ur_max = 1, ur_value = 1\<rparr>"
  by (subst uint_range.simps; simp add: sample_loop_exprs sample_ir_expr_def sample_loop_tables)+

lemma sample_shape: "loop_shape sample_loop_program sample_loop sample_outer 8 = Some (1, 7, 8)"
proof -
  have "simple_loop_body sample_loop_program sample_loop"
    by (simp add: simple_loop_body_def loop_body_def [symmetric] sample_loop_tables sample_body_stmt_def sample_pure)
  then show ?thesis
    by (simp add: loop_shape_def Let_def sample_loop_def sample_body_stmt_def sample_loop_exprs sample_ir_expr_def
        sample_loop_tables sample_literals sample_outer_def range_has_local_def range_of_def unsigned_type_def
        writes_of_def)
qed

lemma sample_loop_marked:
  "ie_boolean (expr_at (prove_unsigned_loop sample_loop_program sample_loop sample_outer 8) 2)"
proof -
  let ?ir = sample_loop_program and ?r = "\<lparr>ur_valid = True, ur_exact = False, ur_max = 7, ur_value = 0\<rparr>"
  let ?f = "prove_statement sample_outer (writes_of ?ir [0, 1] sample_outer) 8 8"
  define inside where "inside = set_range (forget_writes ?ir [0, 1] sample_outer) 1 ?r"
  have "uint_range ?ir 1 inside 8 0 = ?r"
    by (subst uint_range.simps) (simp add: sample_loop_exprs sample_ir_expr_def sample_loop_tables inside_def
        forget_writes_def sample_body_stmt_def sample_outer_def range_has_local_def range_of_def set_range_def)
  then have index: "prove_index ?ir 2 inside 8 = mark_expr ?ir 2"
    by (simp add: prove_index_def sample_loop_exprs sample_ir_expr_def sample_loop_tables dyn_type_is_array_def)
  have leaf: "prove_index ?ir i inside 8 = ?ir" if "ie_kind (expr_at ?ir i) \<noteq> DYN_EXPR_INDEX" for i
    using that by (simp add: prove_index_def Let_def)
  have "prove_array_bounds 9 ?ir 2 inside 8 0 = mark_expr ?ir 2"
    by (simp add: prove_array_bounds_step [where n = 9 and ir = ?ir] sample_loop_exprs sample_ir_expr_def
        prove_array_bounds_none leaf index)
  then have one: "fst (?f 0 (?ir, inside)) = mark_expr ?ir 2"
    by (simp add: prove_statement_def Let_def sample_loop_tables sample_body_stmt_def)
  obtain ir1 ins where two: "?f 0 (?ir, inside) = (ir1, ins)" by fastforce
  have "prove_unsigned_loop ?ir sample_loop sample_outer 8 = fst (?f 1 (ir1, ins))"
    unfolding prove_unsigned_loop_def sample_shape loop_body_def [symmetric] sample_loop_tables Let_def
    by (simp only: option.case prod.case inside_def [symmetric] fold_simps two)
  then have m: "marks ir1 (prove_unsigned_loop ?ir sample_loop sample_outer 8)" by (simp add: prove_statement_marks)
  have ir1: "ir1 = mark_expr ?ir 2" using one two by simp
  have "unat (2 :: expr_id) < length (p_expressions ir1)" "ie_boolean (expr_at ir1 2)"
    by (simp_all add: ir1 mark_expr_def expr_at_def sample_loop_tables)
  then show ?thesis using marks_expr [OF m, of 2] by (auto simp: marked_def)
qed

text \<open>The first iteration of the sample, with \<open>i = 0\<close>.\<close>

lemma sample_loop_enters:
  "described sample_outer (\<lambda>_. 0) \<and> iterates sample_loop_program 8 sample_loop 0 (\<lambda>_. 0) (\<lambda>_. 0) \<and>
    enters sample_loop_program 8 sample_loop (\<lambda>_. 0)"
proof (intro conjI)
  show "described sample_outer (\<lambda>_. 0)"
    by (auto simp: described_def range_has_local_def range_of_def sample_outer_def in_range_def less_Suc_eq nth_Cons')
  have "typed_env sample_loop_program 8 (\<lambda>_. 0)" by (simp add: typed_env_def fits_def)
  then show "iterates sample_loop_program 8 sample_loop 0 (\<lambda>_. 0) (\<lambda>_. 0)" by (rule iterates.start)
  have "evals sample_loop_program 8 (\<lambda>_. 0) 4 (uint (ie_integer (expr_at sample_loop_program 4)))"
    by (rule evals.int) (simp_all add: sample_loop_exprs sample_ir_expr_def sample_loop_tables)
  then show "enters sample_loop_program 8 sample_loop (\<lambda>_. 0)"
    by (auto simp: enters_def sample_loop_def sample_body_stmt_def sample_loop_exprs sample_ir_expr_def)
qed

theorem loop_bounds_sound_witness:
  "(\<exists>j < length (loop_body sample_loop). part_of sample_loop_program (ist_expression (stmt_at sample_loop_program ([0, 1] ! j))) 2 \<and>
    (\<forall>k env0 env env1 v. described sample_outer env0 \<and> iterates sample_loop_program 8 sample_loop k env0 env \<and>
       enters sample_loop_program 8 sample_loop env \<and> runs sample_loop_program 8 (take j [0, 1]) env env1 \<and>
       evals sample_loop_program 8 env1 1 v \<longrightarrow> 0 \<le> v \<and> v < 8)) \<and>
   described sample_outer (\<lambda>_. 0) \<and> iterates sample_loop_program 8 sample_loop 0 (\<lambda>_. 0) (\<lambda>_. 0) \<and>
   enters sample_loop_program 8 sample_loop (\<lambda>_. 0)"
proof -
  have "unat (2 :: expr_id) < length (p_expressions sample_loop_program)"
    "ie_kind (expr_at sample_loop_program 2) = DYN_EXPR_INDEX" "\<not> ie_boolean (expr_at sample_loop_program 2)"
    by (simp_all add: sample_loop_tables sample_loop_exprs sample_ir_expr_def)
  then have "\<exists>j < length (loop_body sample_loop). part_of sample_loop_program (ist_expression (stmt_at sample_loop_program ([0, 1] ! j))) 2 \<and>
    (\<forall>k env0 env env1 v. described sample_outer env0 \<and> iterates sample_loop_program 8 sample_loop k env0 env \<and>
       enters sample_loop_program 8 sample_loop env \<and> runs sample_loop_program 8 (take j [0, 1]) env env1 \<and>
       evals sample_loop_program 8 env1 1 v \<longrightarrow> 0 \<le> v \<and> v < 8)"
    using loop_bounds_sound [OF sample_analysable _ _ _ sample_loop_marked]
    by (simp add: sample_loop_tables sample_loop_exprs sample_ir_expr_def)
  then show ?thesis using sample_loop_enters by blast
qed

end
