(* ===== verification/Ir_Additions.thy ===== *)
theory Ir_Additions
  imports Ir_Loops
begin

text \<open>
  The second result of the loop analysis of \<open>Ir_Ranges\<close>: an addition \<open>x = x + e\<close> of the body loses its overflow
  check when the largest step times the number of iterations, added to the incoming value, still fits the type.
  \<open>loop_additions_sound\<close> shows that such an addition never leaves the range of its type.

  The argument counts iterations: the induction local is the start value plus the number of iterations done
  (\<open>induction_counts\<close>), so there are never more iterations than the analysis says (\<open>iterations_bound\<close>), and a local
  assigned once per iteration grows by at most the largest step each time (\<open>iterates_sum\<close>).
\<close>

subsection \<open>Runs\<close>

lemma runs_single: "runs ir pb [c] env env' \<Longrightarrow>
    \<exists>v. evals ir pb env (ist_expression (stmt_at ir c)) v \<and> env' = env(stored ir c := v)"
  by (rule runs_snocE [of ir pb "[]" c env env']) (auto elim: runs_nilE)

lemma runs_append: "runs ir pb (xs @ ys) env env' \<Longrightarrow> \<exists>mid. runs ir pb xs env mid \<and> runs ir pb ys mid env'"
proof (induction ys arbitrary: env' rule: rev_induct)
  case Nil
  then show ?case using runs.none by auto
next
  case (snoc y ys)
  then have "runs ir pb ((xs @ ys) @ [y]) env env'" by simp
  then obtain env1 v where "runs ir pb (xs @ ys) env env1" "evals ir pb env1 (ist_expression (stmt_at ir y)) v"
      "typed_env ir pb (env1(stored ir y := v))" "env' = env1(stored ir y := v)"
    by (rule runs_snocE) auto
  with snoc.IH runs.snoc show ?case by blast
qed

lemma runs_keeps: "runs ir pb cs env env' \<Longrightarrow> l \<notin> stored ir ` set cs \<Longrightarrow> env' l = env l"
  by (induction rule: runs.induct) auto

text \<open>\<open>l\<close> is stored by statement \<open>j\<close> of the body only.\<close>

definition stored_once :: "ir_program \<Rightarrow> nat list \<Rightarrow> nat \<Rightarrow> nat \<Rightarrow> bool" where
  "stored_once ir body j l \<longleftrightarrow> j < length body \<and> stored ir (body ! j) = l \<and>
     l \<notin> stored ir ` set (take j body) \<and> l \<notin> stored ir ` set (drop (Suc j) body)"

lemma runs_once:
  assumes "runs ir pb body env env2" and "stored_once ir body j l"
  obtains env1 where "runs ir pb (take j body) env env1"
    and "evals ir pb env1 (ist_expression (stmt_at ir (body ! j))) (env2 l)" and "env1 l = env l"
proof -
  have once: "j < length body" "stored ir (body ! j) = l" "l \<notin> stored ir ` set (take j body)"
      "l \<notin> stored ir ` set (drop (Suc j) body)"
    using assms(2) by (simp_all add: stored_once_def)
  have "body = take j body @ [body ! j] @ drop (Suc j) body" using id_take_nth_drop [OF once(1)] by simp
  then have "runs ir pb (take j body @ [body ! j] @ drop (Suc j) body) env env2" using assms(1) by simp
  then obtain env1 mid where runs: "runs ir pb (take j body) env env1" "runs ir pb [body ! j] env1 mid"
      "runs ir pb (drop (Suc j) body) mid env2"
    using runs_append by blast
  obtain v where "evals ir pb env1 (ist_expression (stmt_at ir (body ! j))) v" "mid = env1(l := v)"
    using runs_single [OF runs(2)] once(2) by auto
  moreover have "env2 l = mid l" "env1 l = env l"
    using runs_keeps [OF runs(3) once(4)] runs_keeps [OF runs(1) once(3)] by simp_all
  ultimately show thesis using that [OF runs(1)] by simp
qed

subsection \<open>Additions\<close>

text \<open>Statement \<open>c\<close> is \<open>l = l + e\<close>, checked (no \<open>#wrap\<close>).\<close>

definition adds_to :: "ir_program \<Rightarrow> nat \<Rightarrow> nat \<Rightarrow> bool" where
  "adds_to ir c l \<longleftrightarrow>
     (let e = ist_expression (stmt_at ir c); left = ie_left (expr_at ir e) in
      unat e < length (p_expressions ir) \<and> unat left < length (p_expressions ir) \<and>
      ie_kind (expr_at ir e) = DYN_EXPR_BINARY \<and> ie_op (expr_at ir e) = DYN_OP_ADD \<and> \<not> ie_wrap (expr_at ir e) \<and>
      ie_kind (expr_at ir left) = DYN_EXPR_NAME \<and> unat (ie_integer (expr_at ir left)) = l)"

definition summand :: "ir_program \<Rightarrow> nat \<Rightarrow> expr_id" where
  "summand ir c = ie_right (expr_at ir (ist_expression (stmt_at ir c)))"

inductive_cases evalsE: "evals ir pb env i v"

lemma evals_name:
  assumes "evals ir pb env i v" and "unat i < length (p_expressions ir)" and "ie_kind (expr_at ir i) = DYN_EXPR_NAME"
  shows "v = env (unat (ie_integer (expr_at ir i)))"
  using assms(1) by (rule evalsE) (use assms(2,3) in \<open>auto simp: precise_def\<close>)

lemma adds_to_evals:
  assumes "evals ir pb env (ist_expression (stmt_at ir c)) v" and "adds_to ir c l"
  shows "\<exists>b. evals ir pb env (summand ir c) b \<and> v = env l + b"
proof -
  let ?e = "ist_expression (stmt_at ir c)"
  have e: "unat ?e < length (p_expressions ir)" "unat (ie_left (expr_at ir ?e)) < length (p_expressions ir)"
    "ie_kind (expr_at ir ?e) = DYN_EXPR_BINARY" "ie_op (expr_at ir ?e) = DYN_OP_ADD" "\<not> ie_wrap (expr_at ir ?e)"
    "ie_kind (expr_at ir (ie_left (expr_at ir ?e))) = DYN_EXPR_NAME"
    "unat (ie_integer (expr_at ir (ie_left (expr_at ir ?e)))) = l"
    using assms(2) by (simp_all add: adds_to_def Let_def)
  from assms(1) obtain a b where ab: "evals ir pb env (ie_left (expr_at ir ?e)) a"
      "evals ir pb env (ie_right (expr_at ir ?e)) b" "exact_binary DYN_OP_ADD a b = Some v"
    by (rule evalsE) (use e in \<open>auto simp: precise_def\<close>)
  have "a = env l" using evals_name [OF ab(1) e(2,6)] e(7) by simp
  with ab(2,3) show ?thesis by (auto simp: exact_binary_def summand_def)
qed

lemma iterates_sum:
  assumes "stored_once ir (loop_body loop) j l" and "adds_to ir (loop_body loop ! j) l"
    and step: "\<And>k env env1 b. iterates ir pb loop k env0 env \<Longrightarrow> enters ir pb loop env \<Longrightarrow>
      runs ir pb (take j (loop_body loop)) env env1 \<Longrightarrow> evals ir pb env1 (summand ir (loop_body loop ! j)) b \<Longrightarrow>
      lo \<le> b \<and> b \<le> hi"
    and "iterates ir pb loop k env0 env"
  shows "env0 l + int k * lo \<le> env l \<and> env l \<le> env0 l + int k * hi"
  using assms(4,3)
proof (induction k env0 env rule: iterates.induct)
  case (again k env0 env1 env2)
  obtain env' where run: "runs ir pb (take j (loop_body loop)) env1 env'"
      "evals ir pb env' (ist_expression (stmt_at ir (loop_body loop ! j))) (env2 l)" "env' l = env1 l"
    by (rule runs_once [OF again.hyps(3) assms(1)])
  obtain b where b: "evals ir pb env' (summand ir (loop_body loop ! j)) b" "env2 l = env1 l + b"
    using adds_to_evals [OF run(2) assms(2)] run(3) by auto
  have "lo \<le> b \<and> b \<le> hi" by (rule again.prems [OF again.hyps(1,2) run(1) b(1)])
  moreover have "env0 l + int k * lo \<le> env1 l \<and> env1 l \<le> env0 l + int k * hi"
    by (rule again.IH) (rule again.prems)
  ultimately show ?case using b(2) by (simp add: algebra_simps)
qed simp

subsection \<open>Counting iterations\<close>

text \<open>
  The ranges of \<open>outer\<close> are those before the loop, where a local that the body declares is not in scope and so
  has no known range. \<open>unknown_before\<close> below shows that \<open>range_function\<close> reaches every loop with such ranges.
\<close>

definition fresh_locals :: "ir_program \<Rightarrow> nat list \<Rightarrow> range_locals \<Rightarrow> bool" where
  "fresh_locals ir body outer \<longleftrightarrow> list_all (\<lambda>c. ist_kind (stmt_at ir c) = DYN_STMT_LOCAL \<and>
     range_has_local outer (stored ir c) \<longrightarrow> range_of outer (stored ir c) = no_range) body"

text \<open>The expression that statement \<open>c\<close> stores is not under \<open>#wrap\<close>.\<close>

definition checked_stmt :: "ir_program \<Rightarrow> nat \<Rightarrow> bool" where
  "checked_stmt ir c \<longleftrightarrow> \<not> ie_wrap (expr_at ir (ist_expression (stmt_at ir c)))"

definition no_ranges :: "range_locals \<Rightarrow> range_locals" where
  "no_ranges locals = locals\<lparr>rl_values := map (\<lambda>_. no_range) (rl_values locals)\<rparr>"

lemma range_of_no_ranges: "range_has_local locals l \<Longrightarrow> range_of (no_ranges locals) l = no_range"
  by (auto simp: no_ranges_def range_has_local_def range_of_def)

lemma has_local_no_ranges [simp]: "range_has_local (no_ranges locals) l \<longleftrightarrow> range_has_local locals l"
  by (simp add: no_ranges_def range_has_local_def)

lemma range_statement_locals:
  assumes "range_has_local locals l" and "stored ir c \<noteq> l"
  shows "range_has_local (snd (range_statement pb c (ir, locals))) l"
    and "range_of locals l = no_range \<Longrightarrow> range_of (snd (range_statement pb c (ir, locals))) l = no_range"
  using assms range_of_no_ranges [OF assms(1)]
  by (auto simp: range_statement_def Let_def stored_def range_of_set_range no_ranges_def [symmetric])

lemma unknown_before:
  assumes "range_has_local locals l" and "range_of locals l = no_range" and "l \<notin> stored ir ` set cs"
    and "fold (range_statement pb) cs (ir, locals) = (ir', outer)"
  shows "range_has_local outer l \<and> range_of outer l = no_range"
proof -
  have "marks ir ir1 \<Longrightarrow> range_has_local ls l \<Longrightarrow> range_of ls l = no_range \<Longrightarrow> l \<notin> stored ir ` set cs \<Longrightarrow>
      fold (range_statement pb) cs (ir1, ls) = (ir', outer) \<Longrightarrow> range_has_local outer l \<and> range_of outer l = no_range" for ir1 ls
  proof (induction cs arbitrary: ir1 ls)
    case (Cons c cs)
    obtain ir2 ls2 where step: "range_statement pb c (ir1, ls) = (ir2, ls2)" by fastforce
    have "marks ir ir2" using marks_trans [OF Cons.prems(1) range_statement_marks] step by (metis fst_conv)
    moreover have "stored ir1 c \<noteq> l" using Cons.prems(1,4) by (auto simp: stored_def stmt_at_marks)
    then have "range_has_local ls2 l" "range_of ls2 l = no_range"
      using range_statement_locals [OF Cons.prems(2), of ir1 c pb] Cons.prems(3) step by simp_all
    ultimately show ?case using Cons.IH [of ir2 ls2] Cons.prems(4,5) step by simp
  qed simp
  then show ?thesis using assms marks_refl by blast
qed

text \<open>So the ranges that reach a loop of a function are fresh when the statements before it do not store to a local that
  the loop declares.\<close>

lemma fresh_before:
  assumes "fold (range_statement pb) cs (ir, \<lparr>rl_values = replicate n no_range, rl_start = s\<rparr>) = (ir', outer)"
    and "\<And>c. c \<in> set body \<Longrightarrow> ist_kind (stmt_at ir c) = DYN_STMT_LOCAL \<Longrightarrow> stored ir c \<notin> stored ir ` set cs"
    and "\<And>c. c \<in> set body \<Longrightarrow> ist_kind (stmt_at ir c) = DYN_STMT_LOCAL \<Longrightarrow> s \<le> stored ir c \<and> stored ir c < s + n"
  shows "fresh_locals ir body outer"
  unfolding fresh_locals_def list_all_iff
proof (intro ballI impI, elim conjE)
  fix c assume c: "c \<in> set body" "ist_kind (stmt_at ir c) = DYN_STMT_LOCAL"
  show "range_of outer (stored ir c) = no_range"
    using unknown_before [OF _ _ assms(2) [OF c] assms(1)] assms(3) [OF c]
    by (auto simp: range_has_local_def range_of_def)
qed

lemma filter_single:
  assumes "length (filter P xs) = 1" and "j < length xs" and "P (xs ! j)"
  shows "\<forall>x \<in> set (take j xs). \<not> P x" and "\<forall>x \<in> set (drop (Suc j) xs). \<not> P x"
proof -
  have "filter P xs = filter P (take j xs) @ [xs ! j] @ filter P (drop (Suc j) xs)"
    using arg_cong [OF id_take_nth_drop [OF assms(2)], of "filter P"] assms(3) by simp
  with assms(1) have "filter P (take j xs) = []" "filter P (drop (Suc j) xs) = []" by simp_all
  then show "\<forall>x \<in> set (take j xs). \<not> P x" "\<forall>x \<in> set (drop (Suc j) xs). \<not> P x"
    by (simp_all only: filter_empty_conv)
qed

lemma writes_once:
  assumes "writes_of ir (loop_body loop) outer l = 1" and "j < length (loop_body loop)"
    and "ist_kind (stmt_at ir (loop_body loop ! j)) = DYN_STMT_ASSIGN" and "stored ir (loop_body loop ! j) = l"
    and "range_has_local outer l" and "fresh_locals ir (loop_body loop) outer" and "simple_loop_body ir loop"
    and "range_of outer l \<noteq> no_range"
  shows "stored_once ir (loop_body loop) j l"
proof -
  let ?body = "loop_body loop"
  let ?P = "\<lambda>c. range_has_local outer (stored ir c) \<and> stored ir c = l \<and> ist_kind (stmt_at ir c) = DYN_STMT_ASSIGN"
  have "length (filter ?P ?body) = 1" using assms(1) by (simp add: writes_of_def stored_def Let_def)
  note single = filter_single [OF this assms(2)]
  have other: "stored ir c \<noteq> l" if "c \<in> set ?body" "\<not> ?P c" for c
  proof
    assume l: "stored ir c = l"
    then have "ist_kind (stmt_at ir c) \<noteq> DYN_STMT_ASSIGN" using that(2) assms(5) by simp
    then have "ist_kind (stmt_at ir c) = DYN_STMT_LOCAL"
      using simple_loop_kinds [OF assms(7), of "length ?body"] that(1) by (auto simp: list_all_iff)
    then show False using assms(5,6,8) that(1) l unfolding fresh_locals_def list_all_iff by blast
  qed
  show ?thesis unfolding stored_once_def
    using assms(2-5) single other by (fastforce dest: in_set_takeD in_set_dropD)
qed

lemma loop_shape_count:
  assumes "loop_shape ir loop outer pb = Some (ind_id, highest, iterations)"
  defines "cond \<equiv> expr_at ir (ist_expression loop)"
  defines "bound \<equiv> ur_value (loop_bound ir loop outer pb)" and "last_c \<equiv> last (loop_body loop)"
  defines "inc \<equiv> expr_at ir (ist_expression (stmt_at ir last_c))"
  defines "one \<equiv> uint_range ir (ie_right inc) (forget_writes ir (loop_body loop) outer) pb 0"
  shows "ur_exact (range_of outer ind_id)" "ur_value (range_of outer ind_id) \<le> bound"
    "ie_op cond = DYN_OP_LE \<Longrightarrow> bound < unsigned_max (ie_type (expr_at ir (ie_left cond))) pb"
    "iterations = bound - ur_value (range_of outer ind_id) + (if ie_op cond = DYN_OP_LE then 1 else 0)"
    "writes_of ir (loop_body loop) outer ind_id = 1" "loop_body loop \<noteq> []"
    "ist_kind (stmt_at ir last_c) = DYN_STMT_ASSIGN" "stored ir last_c = ind_id"
    "ie_kind inc = DYN_EXPR_BINARY" "ie_op inc = DYN_OP_ADD" "ie_kind (expr_at ir (ie_left inc)) = DYN_EXPR_NAME"
    "unat (ie_integer (expr_at ir (ie_left inc))) = ind_id" "ur_exact one" "ur_value one = 1"
  using assms(1) unfolding loop_shape_def Let_def loop_body_def [symmetric] loop_bound_def stored_def bound_def
    cond_def last_c_def one_def inc_def
  by (simp_all add: not_less not_le split: if_split_asm) auto

lemma simple_loop_in:
  assumes "simple_loop_body ir loop" and "c \<in> set (loop_body loop)"
  shows "unat (ist_expression (stmt_at ir c)) < length (p_expressions ir)"
proof -
  have "range_pure ir (ist_expression (stmt_at ir c)) 0"
    using assms unfolding simple_loop_body_def Let_def loop_body_def [symmetric] list_all_iff
    by (auto split: if_split_asm)
  then show ?thesis by (subst (asm) range_pure.simps) (auto split: if_split_asm)
qed

lemma checked_adds_to:
  assumes "analysable ir loop outer" and "simple_loop_body ir loop" and "checked_stmt ir c"
    and "c \<in> set (loop_body loop)"
    and "ie_kind (expr_at ir (ist_expression (stmt_at ir c))) = DYN_EXPR_BINARY"
    and "ie_op (expr_at ir (ist_expression (stmt_at ir c))) = DYN_OP_ADD"
    and "ie_kind (expr_at ir (ie_left (expr_at ir (ist_expression (stmt_at ir c))))) = DYN_EXPR_NAME"
    and "unat (ie_integer (expr_at ir (ie_left (expr_at ir (ist_expression (stmt_at ir c)))))) = l"
  shows "adds_to ir c l"
proof -
  have e: "unat (ist_expression (stmt_at ir c)) < length (p_expressions ir)" by (rule simple_loop_in [OF assms(2,4)])
  moreover have "unat (ie_left (expr_at ir (ist_expression (stmt_at ir c)))) < length (p_expressions ir)"
    using assms(5) by (intro operands_inD [OF analysableD(1) [OF assms(1)] e]) simp
  moreover have "\<not> ie_wrap (expr_at ir (ist_expression (stmt_at ir c)))"
    using assms(3) by (simp add: checked_stmt_def)
  ultimately show ?thesis using assms(5-8) by (simp add: adds_to_def Let_def)
qed

lemma induction_counts:
  assumes shape: "loop_shape ir loop outer pb = Some (ind_id, highest, iterations)"
    and wf: "analysable ir loop outer" "fresh_locals ir (loop_body loop) outer" "checked_stmt ir (last (loop_body loop))"
    and run: "described outer env0" "iterates ir pb loop k env0 env"
  shows "env ind_id = uint (ur_value (range_of outer ind_id)) + int k"
proof -
  let ?body = "loop_body loop"
  note count = loop_shape_count [OF shape] and simple = loop_shapeD(1) [OF shape]
  define j where "j = length ?body - 1"
  have last: "?body ! j = last ?body" and j: "j < length ?body" using count(6) by (simp_all add: j_def last_conv_nth)
  from j have c: "?body ! j \<in> set ?body" by (rule nth_mem)
  have once: "stored_once ir ?body j ind_id"
    by (rule writes_once [OF count(5) j _ _ ind_id_tracked [OF shape wf(1)] wf(2) simple]) (use last count in auto)
  have adds: "adds_to ir (?body ! j) ind_id"
    by (rule checked_adds_to [OF wf(1) simple _ c]) (simp_all add: last count wf(3))
  have one: "1 \<le> b \<and> b \<le> 1"
    if "iterates ir pb loop k env0 env" "runs ir pb (take j ?body) env env1"
      "evals ir pb env1 (summand ir (?body ! j)) b" for k env env1 b
  proof -
    have "described (forget_writes ir ?body outer) env1"
      by (rule runs_forget [OF that(2) set_take_subset iterates_forget [OF that(1) run(1)]])
    then have "in_range (uint_range ir (summand ir (?body ! j)) (forget_writes ir ?body outer) pb 0) b"
      by (rule uint_range_sound [OF that(3)])
    then show ?thesis using count(13,14) by (simp add: in_range_def summand_def last)
  qed
  have "env0 ind_id + int k * 1 \<le> env ind_id \<and> env ind_id \<le> env0 ind_id + int k * 1"
    by (rule iterates_sum [OF once adds one run(2)])
  moreover have "env0 ind_id = uint (ur_value (range_of outer ind_id))"
    using run(1) ind_id_tracked [OF shape wf(1)] count(1) by (auto simp: described_def in_range_def)
  ultimately show ?thesis by simp
qed

lemma iterations_bound:
  assumes shape: "loop_shape ir loop outer pb = Some (ind_id, highest, iterations)"
    and wf: "analysable ir loop outer" "fresh_locals ir (loop_body loop) outer" "checked_stmt ir (last (loop_body loop))"
    and run: "described outer env0" "iterates ir pb loop k env0 env" "enters ir pb loop env"
  shows "int k < uint iterations"
proof -
  let ?cond = "expr_at ir (ist_expression loop)"
  note count = loop_shape_count [OF shape] and facts = loop_shapeD [OF shape]
  let ?bound = "ur_value (loop_bound ir loop outer pb)" and ?start = "ur_value (range_of outer ind_id)"
  have ind: "env (unat (ie_integer (expr_at ir (ie_left ?cond)))) = uint ?start + int k"
    using induction_counts [OF shape wf run(1,2)] facts(5) ind_id_exact [OF facts(3) analysableD(4) [OF wf(1)]] by simp
  obtain b where b: "evals ir pb env (ie_right ?cond) b"
    and le: "if ie_op ?cond = DYN_OP_LE then uint ?start + int k \<le> b else uint ?start + int k < b"
    using run(3) unfolding enters_def Let_def ind by blast
  have "in_range (loop_bound ir loop outer pb) b"
    unfolding loop_bound_def by (rule uint_range_sound [OF b iterates_forget [OF run(2,1)]])
  with facts(6) have "b = uint ?bound" by (simp add: in_range_def)
  moreover have sub: "uint (?bound - ?start) = uint ?bound - uint ?start" using count(2) uint_minus_simple_alt by blast
  moreover have "uint (?bound - ?start + 1) = uint ?bound - uint ?start + 1" if "ie_op ?cond = DYN_OP_LE"
  proof -
    have "?bound < - 1" using count(3) [OF that] by (rule less_le_trans) (rule word_n1_ge)
    then have "uint ?bound < 2 ^ 64 - 1" by (simp add: word_less_def unsigned_minus_1_eq_mask mask_eq_exp_minus_1)
    then have "uint (?bound - ?start) + 1 < 2 ^ 64" using sub uint_ge_0 [of ?start] by linarith
    then show ?thesis using sub by (simp add: uint_word_ariths)
  qed
  ultimately show ?thesis unfolding count(4) using le by (auto split: if_split_asm)
qed

subsection \<open>Marked additions\<close>

text \<open>The test that marks the addition of statement \<open>c\<close>.\<close>

definition addition_proved ::
  "ir_program \<Rightarrow> range_locals \<Rightarrow> (nat \<Rightarrow> nat) \<Rightarrow> u64 \<Rightarrow> u32 \<Rightarrow> range_locals \<Rightarrow> nat \<Rightarrow> bool" where
  "addition_proved ir outer writes iterations pb inside c \<longleftrightarrow>
     (let e = expr_at ir (ist_expression (stmt_at ir c)); l = stored ir c; initial = range_of outer l;
          step = uint_range ir (ie_right e) (set_range inside l no_range) pb 0; limit = unsigned_max (ie_type e) pb in
      ist_kind (stmt_at ir c) = DYN_STMT_ASSIGN \<and> range_has_local inside l \<and> writes l = 1 \<and>
      ie_kind e = DYN_EXPR_BINARY \<and> ie_op e = DYN_OP_ADD \<and> ie_kind (expr_at ir (ie_left e)) = DYN_EXPR_NAME \<and>
      unat (ie_integer (expr_at ir (ie_left e))) = l \<and> unsigned_type (ie_type e) \<and> ur_valid initial \<and> ur_valid step \<and>
      (iterations = 0 \<or> ur_max step \<le> (- 1) div iterations) \<and> ur_max initial \<le> limit \<and>
      ur_max step * iterations \<le> limit - ur_max initial)"

lemma prove_statement_mark:
  fixes pb :: u32 and ins :: range_locals
  assumes m1: "marks ir ir1" and op: "operands_in ir"
    and e: "unat (ist_expression (stmt_at ir c)) < length (p_expressions ir)"
  defines "ir2 \<equiv> prove_array_bounds (length (p_expressions ir1)) ir1 (ist_expression (stmt_at ir c)) ins pb 0"
  shows "fst (prove_statement outer writes iterations pb c (ir1, ins)) =
    (if addition_proved ir outer writes iterations pb ins c then mark_expr ir2 (ist_expression (stmt_at ir c)) else ir2)"
proof -
  let ?e = "ist_expression (stmt_at ir c)"
  have m2: "marks ir ir2" unfolding ir2_def by (rule marks_trans [OF m1 prove_array_bounds_marks])
  note sel = marked_sel [OF marks_expr [OF m2 e]]
  have left: "ie_kind (expr_at ir2 (ie_left (expr_at ir ?e))) = ie_kind (expr_at ir (ie_left (expr_at ir ?e)))"
      "ie_integer (expr_at ir2 (ie_left (expr_at ir ?e))) = ie_integer (expr_at ir (ie_left (expr_at ir ?e)))"
    if "ie_kind (expr_at ir ?e) = DYN_EXPR_BINARY"
    using marked_sel(1,6) [OF marks_expr [OF m2 operands_inD [OF op e]]] that by simp_all
  show ?thesis
    unfolding prove_statement_def addition_proved_def prod.case Let_def
      stmt_at_marks [OF m1] ir2_def [symmetric] stored_def sel uint_range_marks [OF m2]
    by (auto simp: not_less not_le left)
qed

lemma addition_marked:
  assumes m1: "marks ir ir1" and op: "operands_in ir"
    and e: "unat (ist_expression (stmt_at ir c)) < length (p_expressions ir)"
    and m: "unat m < length (p_expressions ir)" "ie_kind (expr_at ir m) = DYN_EXPR_BINARY"
    and old: "\<not> ie_boolean (expr_at ir1 m)"
    and new: "ie_boolean (expr_at (fst (prove_statement outer writes iterations pb c (ir1, ins))) m)"
  shows "m = ist_expression (stmt_at ir c) \<and> addition_proved ir outer writes iterations pb ins c"
proof -
  let ?e = "ist_expression (stmt_at ir c)"
  let ?ir2 = "prove_array_bounds (length (p_expressions ir1)) ir1 ?e ins pb 0"
  have "new_marks ir1 ?ir2 (index_safe ir1 pb ins)" by (rule prove_array_bounds_new [OF operands_in_marks [OF m1 op]])
  moreover have "ie_kind (expr_at ir1 m) \<noteq> DYN_EXPR_INDEX"
    using marked_sel(1) [OF marks_expr [OF m1 m(1)]] m(2) by simp
  ultimately have old2: "\<not> ie_boolean (expr_at ?ir2 m)"
    using old m(1) marks_frame(1) [OF m1] by (auto simp: new_marks_def index_safe_def)
  then have proved: "addition_proved ir outer writes iterations pb ins c" "ie_boolean (expr_at (mark_expr ?ir2 ?e) m)"
    using new unfolding prove_statement_mark [OF m1 op e] by (auto split: if_split_asm)
  then have "unat m = unat ?e"
    using old2 by (cases "unat m = unat ?e") (auto simp: mark_expr_def expr_at_def)
  with proved show ?thesis by (simp add: word_unat_eq_iff)
qed

lemma addition_fits:
  assumes "0 \<le> a" and "a \<le> uint i + int k * uint s" and "0 \<le> b" and "b \<le> uint s" and "int k < uint n"
    and "n = 0 \<or> s \<le> (- 1) div (n :: u64)" and "i \<le> limit" and "s * n \<le> limit - i"
  shows "0 \<le> a + b \<and> a + b \<le> uint limit"
proof -
  have "uint (s * n) = uint s * uint n" using uint_mul_no_wrap [OF assms(6)] by (simp add: mult.commute)
  moreover have "uint (limit - i) = uint limit - uint i" using assms(7) uint_minus_simple_alt by blast
  ultimately have "uint i + uint s * uint n \<le> uint limit" using assms(8) by (simp add: word_le_def)
  moreover have "(int k + 1) * uint s \<le> uint n * uint s" using assms(5) by (intro mult_right_mono) auto
  ultimately show ?thesis using assms(1-4) by (simp add: algebra_simps)
qed

lemma tracked_before:
  "range_has_local (ranges_before ir loop outer pb ind_id highest j) l \<longleftrightarrow> range_has_local outer l"
proof -
  have step: "range_has_local (range_step ir pb c ins) l \<longleftrightarrow> range_has_local ins l" for c ins
    by (simp add: range_step_def Let_def)
  have "range_has_local (fold (range_step ir pb) cs ins) l \<longleftrightarrow> range_has_local ins l" for cs ins
    by (induction cs arbitrary: ins) (simp_all add: step)
  then show ?thesis by (simp add: ranges_before_def forget_frame)
qed

lemma addition_in_bounds:
  assumes shape: "loop_shape ir loop outer pb = Some (ind_id, highest, iterations)"
    and wf: "analysable ir loop outer" "fresh_locals ir (loop_body loop) outer" "checked_stmt ir (last (loop_body loop))" and j: "j < length (loop_body loop)"
    and checked: "checked_stmt ir (loop_body loop ! j)"
    and proved: "addition_proved ir outer (writes_of ir (loop_body loop) outer) iterations pb
      (ranges_before ir loop outer pb ind_id highest j) (loop_body loop ! j)"
    and run: "described outer env0" "iterates ir pb loop k env0 env" "enters ir pb loop env"
      "runs ir pb (take j (loop_body loop)) env env1"
      "evals ir pb env1 (ist_expression (stmt_at ir (loop_body loop ! j))) v"
  shows "fits (ie_type (expr_at ir (ist_expression (stmt_at ir (loop_body loop ! j))))) pb v"
proof -
  let ?c = "loop_body loop ! j" and ?ins = "ranges_before ir loop outer pb ind_id highest j"
  define l where "l = stored ir ?c"
  define s where "s = uint_range ir (summand ir ?c) (set_range ?ins l no_range) pb 0"
  note simple = loop_shapeD(1) [OF shape] and p = proved [unfolded addition_proved_def Let_def,
    folded l_def summand_def, folded s_def]
  have tracked: "range_has_local outer l" using p tracked_before by blast
  have once: "stored_once ir (loop_body loop) j l"
    by (rule writes_once [OF _ j _ _ tracked wf(2) simple]) (use p l_def in auto)
  have adds: "adds_to ir ?c l"
    by (rule checked_adds_to [OF wf(1) simple checked nth_mem [OF j]]) (use p in simp_all)
  have step: "0 \<le> b \<and> b \<le> uint (ur_max s)"
    if "iterates ir pb loop k env0 env" "enters ir pb loop env" "runs ir pb (take j (loop_body loop)) env env1"
      "evals ir pb env1 (summand ir ?c) b" for k env env1 b
  proof -
    have "described ?ins env1" by (rule inside_described [OF shape wf(1) run(1) that(1-3)])
    then have "described (set_range ?ins l no_range) (env1(l := env1 l))"
      using tracked by (intro described_set_range) (simp_all add: tracked_before)
    then have "in_range s b" unfolding s_def using uint_range_sound [OF that(4)] by simp
    with p show ?thesis by (simp add: in_range_def)
  qed
  obtain b where b: "evals ir pb env1 (summand ir ?c) b" "v = env1 l + b" using adds_to_evals [OF run(5) adds] by blast
  have "env1 l = env l" using runs_keeps [OF run(4)] once by (simp add: stored_once_def)
  moreover have "env0 l + int k * 0 \<le> env l \<and> env l \<le> env0 l + int k * uint (ur_max s)"
    by (rule iterates_sum [OF once adds step run(2)])
  moreover have "0 \<le> env0 l \<and> env0 l \<le> uint (ur_max (range_of outer l))"
    using run(1) tracked p by (auto simp: described_def in_range_def)
  ultimately have a: "0 \<le> env1 l" "env1 l \<le> uint (ur_max (range_of outer l)) + int k * uint (ur_max s)" by auto
  show ?thesis unfolding fits_def b(2)
    using addition_fits [OF a _ _ iterations_bound [OF shape wf run(1-3)]] step [OF run(2-4) b(1)] p by blast
qed

subsection \<open>The guarantee\<close>

text \<open>C15. An addition that the loop analysis marks as needing no overflow check, and that is not under \<open>#wrap\<close> anyway,
  is the expression of an assignment of the loop body, and whenever an execution of the loop, after any number of
  iterations, reaches that assignment, the sum it evaluates fits the unsigned type of the expression. The loop's own
  increment is not under \<open>#wrap\<close>, and a local that the body declares has no range before the loop.\<close>

theorem loop_additions_sound:
  assumes "analysable ir loop outer" and "fresh_locals ir (loop_body loop) outer"
    and "checked_stmt ir (last (loop_body loop))" and "unat m < length (p_expressions ir)"
    and "ie_kind (expr_at ir m) = DYN_EXPR_BINARY" and "\<not> ie_wrap (expr_at ir m)" and "\<not> ie_boolean (expr_at ir m)"
    and "ie_boolean (expr_at (prove_unsigned_loop ir loop outer pb) m)"
  shows "\<exists>j < length (loop_body loop). m = ist_expression (stmt_at ir (loop_body loop ! j)) \<and>
    (\<forall>k env0 env env1 v. described outer env0 \<and> iterates ir pb loop k env0 env \<and> enters ir pb loop env \<and>
       runs ir pb (take j (loop_body loop)) env env1 \<and> evals ir pb env1 m v \<longrightarrow>
       fits (ie_type (expr_at ir m)) pb v)"
proof -
  let ?body = "loop_body loop" and ?writes = "writes_of ir (loop_body loop) outer"
  obtain ind_id highest iterations where shape: "loop_shape ir loop outer pb = Some (ind_id, highest, iterations)"
    using assms(7,8) unfolding prove_unsigned_loop_def by (cases "loop_shape ir loop outer pb") auto
  note simple = loop_shapeD(1) [OF shape]
  obtain j ir1 where j: "j < length ?body" and m1: "marks ir ir1" and old: "\<not> ie_boolean (expr_at ir1 m)"
    and new: "ie_boolean (expr_at (fst (prove_statement outer ?writes iterations pb (?body ! j)
      (ir1, ranges_before ir loop outer pb ind_id highest j))) m)"
    by (rule loop_marked_at [OF shape assms(7,8)])
  let ?c = "?body ! j" and ?ins = "ranges_before ir loop outer pb ind_id highest j"
  have c: "?c \<in> set ?body" using j by (rule nth_mem)
  have m: "m = ist_expression (stmt_at ir ?c)" and proved: "addition_proved ir outer ?writes iterations pb ?ins ?c"
    using addition_marked [OF m1 analysableD(1) [OF assms(1)] simple_loop_in [OF simple c] assms(4,5) old new] by auto
  have "fits (ie_type (expr_at ir m)) pb v"
    if "described outer env0" "iterates ir pb loop k env0 env" "enters ir pb loop env"
      "runs ir pb (take j ?body) env env1" "evals ir pb env1 m v" for k env0 env env1 v
    using addition_in_bounds [OF shape assms(1-3) j _ proved that(1-4)] that(5) m assms(6) by (simp add: checked_stmt_def)
  with j m show ?thesis by blast
qed

subsection \<open>A sample loop\<close>

text \<open>In the sample loop of \<open>Ir_Loops\<close> the increment \<open>i = i + 1\<close> needs no overflow check.\<close>

lemma sample_addition_marked:
  "ie_boolean (expr_at (prove_unsigned_loop sample_loop_program sample_loop sample_outer 8) 8)"
proof -
  let ?ir = sample_loop_program and ?r = "\<lparr>ur_valid = True, ur_exact = False, ur_max = 7, ur_value = 0\<rparr>"
  let ?f = "prove_statement sample_outer (writes_of ?ir [0, 1] sample_outer) 8 8"
  define inside where "inside = set_range (forget_writes ?ir [0, 1] sample_outer) 1 ?r"
  obtain ir1 ins where S: "?f 0 (?ir, inside) = (ir1, ins)" by fastforce
  have "snd (?f 0 (?ir, inside)) = range_step ?ir 8 0 inside" by (rule prove_statement_ranges) simp
  moreover have "marks ?ir (fst (?f 0 (?ir, inside)))" by (rule prove_statement_marks)
  ultimately have ins: "ins = range_step ?ir 8 0 inside" and m1: "marks ?ir ir1" unfolding S by simp_all
  have "addition_proved ?ir sample_outer (writes_of ?ir [0, 1] sample_outer) 8 8 ins (Suc 0)"
    by (simp add: addition_proved_def ins sample_loop_tables sample_loop_exprs sample_ir_expr_def sample_body_stmt_def
        stored_def sample_literals writes_of_def range_step_def inside_def forget_writes_def sample_outer_def
        range_has_local_def range_of_def set_range_def unsigned_type_def unsigned_max_def)
  moreover have "operands_in ?ir" by (rule analysableD(1) [OF sample_analysable])
  ultimately have "fst (?f 1 (ir1, ins)) = mark_expr (prove_array_bounds (length (p_expressions ir1)) ir1 8 ins 8 0) 8"
    using prove_statement_mark [OF m1, of "Suc 0" sample_outer _ 8 8 ins]
    by (simp add: sample_loop_tables sample_body_stmt_def)
  moreover have "prove_unsigned_loop ?ir sample_loop sample_outer 8 = fst (?f 1 (ir1, ins))"
    unfolding prove_unsigned_loop_def sample_shape loop_body_def [symmetric] sample_loop_tables Let_def
    by (simp only: option.case prod.case inside_def [symmetric] fold_simps S)
  moreover have "length (p_expressions (prove_array_bounds (length (p_expressions ir1)) ir1 8 ins 8 0)) = 9"
    using marks_frame(1) [OF marks_trans [OF m1 prove_array_bounds_marks]] by (simp add: sample_loop_tables)
  ultimately show ?thesis by (simp add: mark_expr_def expr_at_def)
qed

theorem loop_additions_sound_witness:
  "(\<exists>j < length (loop_body sample_loop). 8 = ist_expression (stmt_at sample_loop_program ([0, 1] ! j)) \<and>
    (\<forall>k env0 env env1 v. described sample_outer env0 \<and> iterates sample_loop_program 8 sample_loop k env0 env \<and>
       enters sample_loop_program 8 sample_loop env \<and> runs sample_loop_program 8 (take j [0, 1]) env env1 \<and>
       evals sample_loop_program 8 env1 8 v \<longrightarrow> fits DYN_TYPE_U32 8 v)) \<and>
   described sample_outer (\<lambda>_. 0) \<and> iterates sample_loop_program 8 sample_loop 0 (\<lambda>_. 0) (\<lambda>_. 0) \<and>
   enters sample_loop_program 8 sample_loop (\<lambda>_. 0)"
proof -
  have "unat (8 :: expr_id) < length (p_expressions sample_loop_program)"
    "ie_kind (expr_at sample_loop_program 8) = DYN_EXPR_BINARY" "\<not> ie_boolean (expr_at sample_loop_program 8)"
    "\<not> ie_wrap (expr_at sample_loop_program 8)" "fresh_locals sample_loop_program (loop_body sample_loop) sample_outer"
    "checked_stmt sample_loop_program (last (loop_body sample_loop))"
    by (simp_all add: sample_loop_tables sample_loop_exprs sample_ir_expr_def fresh_locals_def checked_stmt_def sample_body_stmt_def
        stored_def sample_outer_def range_of_def)
  then have "\<exists>j < length (loop_body sample_loop). 8 = ist_expression (stmt_at sample_loop_program ([0, 1] ! j)) \<and>
    (\<forall>k env0 env env1 v. described sample_outer env0 \<and> iterates sample_loop_program 8 sample_loop k env0 env \<and>
       enters sample_loop_program 8 sample_loop env \<and> runs sample_loop_program 8 (take j [0, 1]) env env1 \<and>
       evals sample_loop_program 8 env1 8 v \<longrightarrow> fits DYN_TYPE_U32 8 v)"
    using loop_additions_sound [OF sample_analysable _ _ _ _ _ _ sample_addition_marked]
    by (simp add: sample_loop_tables sample_loop_exprs sample_ir_expr_def)
  then show ?thesis using sample_loop_enters by blast
qed

end
