(* ===== verification/Ir_Intrinsics.thy ===== *)
theory Ir_Intrinsics
  imports Name_Index Dyn_Ir Sema_Types
begin

text \<open>
  Recognition of standard library functions that have an intrinsic implementation
  (\<open>src/src/ir.c\<close>, lines 7-155). The operating system is a parameter: \<open>host\<close> gives the value of
  \<open>DYN_SDK\<close>, what \<open>realpath\<close> resolves a path to, and the path of the running executable (at most
  4095 bytes, as the buffer allows). The one-entry cache of canonical paths is \<open>realpath\<close> itself.
\<close>

record host =
  h_sdk :: "string option"
  h_realpath :: "string \<Rightarrow> string option"
  h_executable :: "string option"

definition dyn_path_join :: "string \<Rightarrow> string \<Rightarrow> string" where
  "dyn_path_join a b = a @ (if a \<noteq> [] \<and> last a \<noteq> CHR ''/'' then ''/'' else []) @ b"

text \<open>The library below the configured root; \<open>within\<close> refuses a path that leaves it.\<close>

definition within_root :: "string \<Rightarrow> string \<Rightarrow> bool" where
  "within_root root resolved \<longleftrightarrow> take (length root) resolved = root \<and>
     (length resolved = length root \<or> resolved ! length root = CHR ''/'')"

definition configured_path :: "host \<Rightarrow> string \<Rightarrow> string \<Rightarrow> string option" where
  "configured_path h configured path =
     (case h_realpath h configured of
        None \<Rightarrow> None
      | Some root \<Rightarrow>
          (case h_realpath h (dyn_path_join root path) of
             None \<Rightarrow> None
           | Some resolved \<Rightarrow> if within_root root resolved then Some resolved else None))"

fun first_resolved :: "host \<Rightarrow> string list \<Rightarrow> string option" where
  "first_resolved h [] = None"
| "first_resolved h (c # cs) =
     (if length c \<ge> 4096 then first_resolved h cs
      else case h_realpath h c of Some r \<Rightarrow> Some r | None \<Rightarrow> first_resolved h cs)"

definition executable_path :: "host \<Rightarrow> string \<Rightarrow> string option" where
  "executable_path h path =
     (case h_executable h of
        None \<Rightarrow> None
      | Some executable \<Rightarrow>
          if CHR ''/'' \<notin> set executable then None
          else
            let dir = directory executable in
            first_resolved h [dir @ ''/../compiler/'' @ path, dir @ ''/../'' @ path,
              dir @ ''/../share/dyn/'' @ drop 4 path])"

definition sdk_source_path :: "host \<Rightarrow> string \<Rightarrow> bool \<Rightarrow> string option" where
  "sdk_source_path h path strict_configured =
     (case h_sdk h of
        Some configured \<Rightarrow>
          if configured = [] then executable_path h path
          else (case configured_path h configured path of
                  Some resolved \<Rightarrow> Some resolved
                | None \<Rightarrow> if strict_configured then None else executable_path h path)
      | None \<Rightarrow> executable_path h path)"

definition canonical_path :: "host \<Rightarrow> string \<Rightarrow> string option" where
  "canonical_path h path = h_realpath h path"

text \<open>The identifier that starts at an offset of the original text.\<close>

definition is_word_byte :: "u8 \<Rightarrow> bool" where
  "is_word_byte c \<longleftrightarrow> (97 \<le> c \<and> c \<le> 122) \<or> (65 \<le> c \<and> c \<le> 90) \<or> (48 \<le> c \<and> c \<le> 57) \<or> c = 95"

definition identifier_at :: "source \<Rightarrow> nat \<Rightarrow> bytes" where
  "identifier_at s byte =
     (let p = dyn_source_position s byte
      in takeWhile is_word_byte (drop (pos_offset p) (source_text_of s (pos_text p))))"

text \<open>Name, arity and identity of the math functions; the last one is the generic \<open>fma\<close>.\<close>

definition math_names :: "(string \<times> u32 \<times> math_intrinsic) list" where
  "math_names = [(''sqrt64'', 1, DYN_MATH_INTRINSIC_SQRT), (''floor64'', 1, DYN_MATH_INTRINSIC_FLOOR),
     (''ceil64'', 1, DYN_MATH_INTRINSIC_CEIL), (''trunc64'', 1, DYN_MATH_INTRINSIC_TRUNC),
     (''round64'', 1, DYN_MATH_INTRINSIC_ROUND), (''copysign64'', 2, DYN_MATH_INTRINSIC_COPYSIGN),
     (''fma64'', 3, DYN_MATH_INTRINSIC_FMA), (''fma'', 3, DYN_MATH_INTRINSIC_FMA)]"

definition params_have_type :: "ir_param list \<Rightarrow> u32 \<Rightarrow> u32 \<Rightarrow> dyn_type \<Rightarrow> bool" where
  "params_have_type params start count t \<longleftrightarrow>
     list_all (\<lambda>j. ip_type (params ! unat (start + of_nat j)) = t) [0..<unat count]"

definition trusted_path :: "host \<Rightarrow> string \<Rightarrow> string option \<Rightarrow> bool" where
  "trusted_path h source_path sdk \<longleftrightarrow> sdk \<noteq> None \<and> canonical_path h source_path = sdk"

definition math_identity ::
  "host \<Rightarrow> source \<Rightarrow> string \<Rightarrow> string option \<Rightarrow> ir_param list \<Rightarrow> ir_function \<Rightarrow> math_intrinsic" where
  "math_identity h s source_path sdk params fn =
     (if sdk = None \<or> ifn_foreign fn \<or> ifn_variadic fn \<or> ifn_generic fn \<or> \<not> ifn_is_public fn \<or>
         (ifn_return_type fn \<noteq> DYN_TYPE_F32 \<and> ifn_return_type fn \<noteq> DYN_TYPE_F64) then DYN_MATH_INTRINSIC_NONE
      else if \<not> trusted_path h source_path sdk then DYN_MATH_INTRINSIC_NONE
      else
        let name = identifier_at s (unat (ifn_source_offset fn)) in
        case find (\<lambda>(n, _). cstr n = name) math_names of
          None \<Rightarrow> DYN_MATH_INTRINSIC_NONE
        | Some (n, count, identity) \<Rightarrow>
            let generic_fma = (n = ''fma'') in
            if ifn_instance fn \<noteq> generic_fma \<or> (\<not> generic_fma \<and> ifn_return_type fn \<noteq> DYN_TYPE_F64)
            then DYN_MATH_INTRINSIC_NONE
            else if ifn_param_count fn \<noteq> count \<or> unat (ifn_param_start fn) > length params \<or>
              unat count > length params - unat (ifn_param_start fn) then DYN_MATH_INTRINSIC_NONE
            else if \<not> params_have_type params (ifn_param_start fn) count (ifn_return_type fn)
            then DYN_MATH_INTRINSIC_NONE
            else identity)"

definition byte_const_slice :: "ast_program \<Rightarrow> dyn_type \<Rightarrow> bool" where
  "byte_const_slice a t =
     (case slice_info a t of None \<Rightarrow> False | Some sl \<Rightarrow> asl_is_const sl \<and> asl_element sl = DYN_TYPE_U8)"

definition byte_identity ::
  "host \<Rightarrow> source \<Rightarrow> string \<Rightarrow> string option \<Rightarrow> ast_program \<Rightarrow> ir_param list \<Rightarrow> ir_function \<Rightarrow> byte_intrinsic" where
  "byte_identity h s source_path sdk a params fn =
     (if sdk = None \<or> ifn_foreign fn \<or> ifn_variadic fn \<or> ifn_generic fn \<or> ifn_instance fn \<or> \<not> ifn_is_public fn \<or>
         ifn_return_type fn \<noteq> DYN_TYPE_USIZE \<or> ifn_param_count fn \<noteq> 2 \<or>
         unat (ifn_param_start fn) > length params \<or> 2 > length params - unat (ifn_param_start fn) \<or>
         \<not> byte_const_slice a (ip_type (params ! unat (ifn_param_start fn))) then DYN_BYTE_INTRINSIC_NONE
      else if \<not> trusted_path h source_path sdk then DYN_BYTE_INTRINSIC_NONE
      else
        let p = dyn_source_position s (unat (ifn_source_offset fn)) in
        if pos_offset p > pos_length p then DYN_BYTE_INTRINSIC_NONE
        else
          let name = identifier_at s (unat (ifn_source_offset fn));
              needle = ip_type (params ! unat (ifn_param_start fn + 1)) in
          if name = cstr ''find_byte'' \<and> needle = DYN_TYPE_U8 then DYN_BYTE_INTRINSIC_FIND_BYTE
          else if name = cstr ''find'' \<and> byte_const_slice a needle then DYN_BYTE_INTRINSIC_FIND
          else DYN_BYTE_INTRINSIC_NONE)"

definition json_byte_identity ::
  "host \<Rightarrow> source \<Rightarrow> string \<Rightarrow> string option \<Rightarrow> string option \<Rightarrow> ast_program \<Rightarrow> ir_param list \<Rightarrow> ir_function \<Rightarrow>
    byte_intrinsic" where
  "json_byte_identity h s source_path sdk mutable_sdk a params fn =
     (if (sdk = None \<and> mutable_sdk = None) \<or> ifn_foreign fn \<or> ifn_variadic fn \<or> ifn_generic fn \<or> ifn_instance fn \<or>
         ifn_is_public fn \<or> ifn_return_type fn \<noteq> DYN_TYPE_USIZE \<or> ifn_param_count fn \<noteq> 1 \<or>
         unat (ifn_param_start fn) \<ge> length params \<or>
         \<not> byte_const_slice a (ip_type (params ! unat (ifn_param_start fn))) then DYN_BYTE_INTRINSIC_NONE
      else if \<not> (trusted_path h source_path sdk \<or> trusted_path h source_path mutable_sdk) then DYN_BYTE_INTRINSIC_NONE
      else
        let p = dyn_source_position s (unat (ifn_source_offset fn));
            text = source_text_of s (pos_text p); offset = pos_offset p;
            name = cstr ''ascii_string_prefix''; n = length name in
        if offset > pos_length p \<or> n > pos_length p - offset \<or> take n (drop offset text) \<noteq> name
        then DYN_BYTE_INTRINSIC_NONE
        else if offset + n < pos_length p \<and> is_word_byte (text ! (offset + n)) then DYN_BYTE_INTRINSIC_NONE
        else DYN_BYTE_INTRINSIC_JSON_ASCII_PREFIX)"

end
