(* ===== verification/Ir_Lower.thy ===== *)
theory Ir_Lower
  imports Ir_Loops Ir_Intrinsics Type_Name
begin

text \<open>
  Lowering of the checked syntax tree to the intermediate representation (\<open>src/src/ir.c\<close>,
  \<open>lower_ir\<close> and its helpers, lines 157-191, 360-698 and 702-708), one definition per table in the
  order of the code, and the validation that ends it.

  Names are copied as bytes: the shared name pool is a matter of storage. Allocation failure is not
  modelled. \<open>Inl\<close> is the code's \<open>return false\<close>, or \<open>OutOfBounds\<close> when a debug name needs a type whose
  code lies outside its table. The depth given to the type formatter is the number of compound types,
  more than any type is deep. \<open>pb\<close> is the pointer size of the target, \<open>h\<close> the host of
  \<open>Ir_Intrinsics\<close>.
\<close>

subsection \<open>Helpers\<close>

definition copy_span :: "span \<Rightarrow> source \<Rightarrow> bytes" where
  "copy_span p s = span_bytes_of s p"

definition valid_expr_id :: "ir_program \<Rightarrow> expr_id \<Rightarrow> bool" where
  "valid_expr_id ir i \<longleftrightarrow> i = DYN_NO_EXPR \<or> unat i < length (p_expressions ir)"

definition lower_type :: "ast_program \<Rightarrow> dyn_type \<Rightarrow> dyn_type" where
  "lower_type a t = alias_loop (length (a_aliases a) + 1) a t"

subsection \<open>Tables\<close>

definition lower_expr :: "ast_program \<Rightarrow> ast_expr \<Rightarrow> ir_expr" where
  "lower_expr a e =
     (let r = \<lparr>ie_kind = ae_kind e, ie_type = lower_type a (ae_type e), ie_op = ae_op e, ie_left = ae_left e,
        ie_right = ae_right e, ie_integer = ae_integer e, ie_floating = ae_floating e, ie_boolean = ae_boolean e,
        ie_item_start = ae_item_start e, ie_item_count = ae_item_count e, ie_span = ae_span e, ie_wrap = ae_wrap e,
        ie_check_origin = 0\<rparr>
      in if ie_type r = DYN_TYPE_INFER
         then r\<lparr>ie_kind := DYN_EXPR_NIL, ie_type := DYN_TYPE_VOID, ie_left := DYN_NO_EXPR, ie_right := DYN_NO_EXPR\<rparr>
         else r)"

definition lower_item :: "ast_item \<Rightarrow> ir_item" where
  "lower_item i = \<lparr>it_expression = ai_expression i, it_field_index = ai_field_index i\<rparr>"

definition lower_field :: "ast_program \<Rightarrow> source \<Rightarrow> ast_field \<Rightarrow> ir_field" where
  "lower_field a s f = \<lparr>if_name = copy_span (af_name f) s, if_type = lower_type a (af_type f),
     if_default_expression = af_default_expression f\<rparr>"

definition lower_struct :: "source \<Rightarrow> ast_struct \<Rightarrow> ir_struct" where
  "lower_struct s t = \<lparr>is_name = copy_span (as_name t) s, is_span = as_span t, is_packed = as_packed t,
     is_is_public = as_is_public t, is_module_owner = as_module_owner t, is_field_start = as_field_start t,
     is_field_count = as_field_count t, is_size = as_size t, is_alignment = as_alignment t\<rparr>"

text \<open>The tag type is lowered at the end of the code, from the same value.\<close>

definition lower_enum :: "ast_program \<Rightarrow> source \<Rightarrow> ast_enum \<Rightarrow> ir_enum" where
  "lower_enum a s t = \<lparr>in_name = copy_span (an_name t) s, in_span = an_span t,
     in_tag_type = lower_type a (an_tag_type t), in_variant_start = an_variant_start t,
     in_variant_count = an_variant_count t, in_size = an_size t, in_alignment = an_alignment t,
     in_payload_size = an_payload_size t, in_payload_alignment = an_payload_alignment t,
     in_has_payload = an_has_payload t, in_is_public = an_is_public t, in_module_owner = an_module_owner t\<rparr>"

definition lower_variant :: "ast_program \<Rightarrow> source \<Rightarrow> ast_variant \<Rightarrow> ir_variant" where
  "lower_variant a s v = \<lparr>iv_name = copy_span (av_name v) s, iv_payload_type = lower_type a (av_payload_type v),
     iv_tag = av_tag v\<rparr>"

definition lower_param :: "ast_program \<Rightarrow> source \<Rightarrow> ast_param \<Rightarrow> ir_param" where
  "lower_param a s p = \<lparr>ip_name = copy_span (ap_name p) s, ip_type = lower_type a (ap_type p), ip_local_id = ap_local_id p\<rparr>"

subsection \<open>Functions\<close>

definition hex_digit :: "u64 \<Rightarrow> u8" where
  "hex_digit d = (if unat d < 10 then of_nat (48 + unat d) else of_nat (87 + unat d))"

definition hex16 :: "u64 \<Rightarrow> bytes" where
  "hex16 v = map (\<lambda>i. hex_digit (take_bit 4 (drop_bit (4 * (15 - i)) v))) [0..<16]"

definition type_depth :: "ast_program \<Rightarrow> nat" where
  "type_depth a = length (a_pointers a) + length (a_arrays a) + length (a_slices a) + length (a_fn_types a) + 1"

text \<open>The arguments of a debug name, while its buffer of 512 bytes has room.\<close>

fun debug_args :: "ast_program \<Rightarrow> source \<Rightarrow> nat \<Rightarrow> dyn_type list \<Rightarrow> bytes \<times> nat \<Rightarrow> (bytes \<times> nat) option" where
  "debug_args a s k [] st = Some st"
| "debug_args a s k (t # ts) (text, used) =
     (if used < 512 then
        Option.bind (dyn_type_format (type_depth a) a t s 256) (\<lambda>name.
          let piece = (if k \<noteq> 0 then comma else []) @ name
          in debug_args a s (Suc k) ts (text @ clip (512 - used) piece, used + length piece))
      else Some (text, used))"

definition debug_name :: "ast_program \<Rightarrow> source \<Rightarrow> bytes \<Rightarrow> dyn_type list \<Rightarrow> bytes option" where
  "debug_name a s name args =
     (let start = strip_module name @ cstr ''('' in
      Option.bind (debug_args a s 0 args (clip 512 start, length start)) (\<lambda>(text, used).
        Some (if used < 512 then text @ clip (512 - used) (cstr '')'') else text)))"

definition instance_name :: "ast_program \<Rightarrow> source \<Rightarrow> ast_fn \<Rightarrow> (bytes \<times> bytes option) result" where
  "instance_name a s f =
     (let name = span_bytes_of s (afn_name f) in
      if \<not> afn_is_instance f then Inr (name, None)
      else
        bind_r (index_r (a_instances a) (unat (afn_instance f))) (\<lambda>inst.
        bind_r (index_r (a_generics a) (unat (ain_generic inst))) (\<lambda>g.
        case debug_name a s name (take (unat (agn_type_param_count g)) (ain_args inst)) of
          None \<Rightarrow> Inl OutOfBounds
        | Some debug \<Rightarrow> Inr (name @ cstr ''__g'' @ hex16 (ain_hash inst), Some debug))))"

record sdk_paths =
  sdk_math :: "string option"
  sdk_bytes :: "string option"
  sdk_json :: "string option"
  sdk_mutable_json :: "string option"

definition find_sdk :: "host \<Rightarrow> bool \<Rightarrow> sdk_paths" where
  "find_sdk h proofs = \<lparr>
     sdk_math = (if proofs then sdk_source_path h ''std/math/float.dyn'' False else None),
     sdk_bytes = (if proofs then sdk_source_path h ''std/bytes/bytes.dyn'' True else None),
     sdk_json = (if proofs then sdk_source_path h ''std/encoding/json/read/read.dyn'' True else None),
     sdk_mutable_json = (if proofs then sdk_source_path h ''std/encoding/json/json.dyn'' True else None)\<rparr>"

definition locate :: "source \<Rightarrow> nat \<Rightarrow> string \<times> u32 \<times> u32" where
  "locate s byte = dyn_location_get (case dyn_location_build s of Some index \<Rightarrow> index | None \<Rightarrow> []) s byte"

definition lower_function ::
  "host \<Rightarrow> ast_program \<Rightarrow> source \<Rightarrow> sdk_paths \<Rightarrow> ir_param list \<Rightarrow> ast_fn \<Rightarrow> ir_function result" where
  "lower_function h a s sdk params f =
     bind_r (instance_name a s f) (\<lambda>(name, debug).
       let (source_path, line, column) = locate s (unat (start_byte (afn_name f)));
           fn = \<lparr>ifn_name = name, ifn_link_name = span_bytes_of s (afn_link_name f), ifn_debug_name = debug,
             ifn_return_type = afn_return_type f, ifn_param_start = afn_param_start f,
             ifn_param_count = afn_param_count f, ifn_body_start = afn_body_start f,
             ifn_body_count = afn_body_count f, ifn_local_start = afn_local_start f,
             ifn_local_count = afn_local_count f, ifn_variadic_local_id = afn_variadic_local_id f,
             ifn_source_line = line, ifn_source_offset = start_byte (afn_name f), ifn_is_main = afn_is_main f,
             ifn_foreign = afn_foreign f, ifn_variadic = afn_variadic f, ifn_is_public = afn_is_public f,
             ifn_generic = afn_is_generic f, ifn_instance = afn_is_instance f,
             ifn_module_owner = afn_module_owner f, ifn_variadic_type = lower_type a (afn_variadic_type f),
             ifn_math_intrinsic = DYN_MATH_INTRINSIC_NONE, ifn_byte_intrinsic = DYN_BYTE_INTRINSIC_NONE\<rparr>;
           math = math_identity h s source_path (sdk_math sdk) params fn;
           byte = byte_identity h s source_path (sdk_bytes sdk) a params fn;
           byte = (if byte = DYN_BYTE_INTRINSIC_NONE
                   then json_byte_identity h s source_path (sdk_json sdk) (sdk_mutable_json sdk) a params fn else byte)
       in Inr (fn\<lparr>ifn_math_intrinsic := math, ifn_byte_intrinsic := byte\<rparr>))"

subsection \<open>The remaining tables\<close>

definition lower_global :: "ast_program \<Rightarrow> source \<Rightarrow> ast_global \<Rightarrow> ir_global" where
  "lower_global a s g = \<lparr>ig_name = span_bytes_of s (ag_name g), ig_link_name = span_bytes_of s (ag_link_name g),
     ig_span = ag_name g, ig_type = lower_type a (ag_type g), ig_initializer = ag_initializer g,
     ig_is_const = ag_is_const g, ig_foreign = ag_foreign g, ig_is_public = ag_is_public g,
     ig_module_owner = ag_module_owner g\<rparr>"

definition lower_local :: "ast_program \<Rightarrow> source \<Rightarrow> ast_local \<Rightarrow> ir_local" where
  "lower_local a s l = \<lparr>ilo_name = copy_span (alo_name l) s, ilo_type = lower_type a (alo_type l)\<rparr>"

definition lower_stmt :: "ast_stmt \<Rightarrow> ir_stmt" where
  "lower_stmt st = \<lparr>ist_kind = ast_kind st, ist_expression = ast_expression st, ist_target = ast_target st,
     ist_assignment_op = ast_assignment_op st, ist_local_id = ast_local_id st, ist_body_start = ast_body_start st,
     ist_body_count = ast_body_count st, ist_else_start = ast_else_start st, ist_else_count = ast_else_count st,
     ist_loop_id = ast_loop_id st, ist_target_loop_id = ast_target_loop_id st,
     ist_case_arm_start = ast_case_arm_start st, ist_case_arm_count = ast_case_arm_count st,
     ist_defer_block = ast_defer_block st, ist_for_pointer = ast_for_pointer st, ist_for_const = ast_for_const st,
     ist_for_range = ast_for_range st, ist_for_inclusive = ast_for_inclusive st,
     ist_for_reverse = ast_for_reverse st, ist_span = ast_span st, ist_check_origin = 0\<rparr>"

definition lower_pattern :: "ast_program \<Rightarrow> ast_pattern \<Rightarrow> ir_pattern" where
  "lower_pattern a p = \<lparr>ipa_first = apa_first_value p, ipa_last = apa_last_value p,
     ipa_type = lower_type a (apa_type p), ipa_variant = apa_variant p, ipa_is_enum = apa_is_enum p,
     ipa_is_signed = apa_is_signed p, ipa_is_type = apa_is_type p\<rparr>"

definition lower_case_arm :: "ast_case_arm \<Rightarrow> ir_case_arm" where
  "lower_case_arm c = \<lparr>ic_pattern_start = ac_pattern_start c, ic_pattern_count = ac_pattern_count c,
     ic_body_start = ac_body_start c, ic_body_count = ac_body_count c, ic_local_id = ac_local_id c,
     ic_wildcard = ac_wildcard c, ic_pointer_binding = ac_pointer_binding c\<rparr>"

text \<open>A wildcard arm before the last one changes places with the last one.\<close>

definition wildcard_last :: "ir_stmt \<Rightarrow> ir_case_arm list \<Rightarrow> ir_case_arm list" where
  "wildcard_last st arms =
     (if ist_kind st \<noteq> DYN_STMT_CASE then arms
      else
        let final = unat (ist_case_arm_start st + ist_case_arm_count st - 1) in
        case find (\<lambda>j. ic_wildcard (arms ! unat (ist_case_arm_start st + of_nat j)))
          [0..<unat (ist_case_arm_count st) - 1] of
          None \<Rightarrow> arms
        | Some j \<Rightarrow>
            let at = unat (ist_case_arm_start st + of_nat j)
            in arms[at := arms ! final, final := arms ! at])"

text \<open>\<open>x op= e\<close> on a local becomes \<open>x = x op e\<close>, with a new name and a new binary expression.\<close>

definition expand_assignment ::
  "ir_local list \<Rightarrow> nat \<Rightarrow> ir_expr list \<times> ir_stmt list \<Rightarrow> ir_expr list \<times> ir_stmt list" where
  "expand_assignment locals i = (\<lambda>(es, sts).
     let st = sts ! i in
     if ist_assignment_op st = DYN_OP_NONE \<or> ist_target st \<noteq> DYN_NO_EXPR then (es, sts)
     else
       let left = of_nat (length es);
           blank = \<lparr>ie_kind = DYN_EXPR_INT, ie_type = 0, ie_op = DYN_OP_NONE, ie_left = 0, ie_right = 0,
             ie_integer = 0, ie_floating = 0, ie_boolean = False, ie_item_start = 0, ie_item_count = 0,
             ie_span = ist_span st, ie_wrap = False, ie_check_origin = 0\<rparr>;
           t = ilo_type (locals ! unat (ist_local_id st));
           name = blank\<lparr>ie_kind := DYN_EXPR_NAME, ie_type := t, ie_left := DYN_NO_EXPR, ie_right := DYN_NO_EXPR,
             ie_integer := ucast (ist_local_id st)\<rparr>;
           binary = blank\<lparr>ie_kind := DYN_EXPR_BINARY, ie_type := t, ie_op := ist_assignment_op st,
             ie_left := left, ie_right := ist_expression st\<rparr>
       in (es @ [name, binary],
           sts[i := st\<lparr>ist_expression := of_nat (length es + 1), ist_assignment_op := DYN_OP_NONE\<rparr>]))"

subsection \<open>Validation\<close>

definition valid_expr :: "ir_program \<Rightarrow> ir_expr \<Rightarrow> bool" where
  "valid_expr ir e \<longleftrightarrow>
     \<not> (ie_type e = DYN_TYPE_INFER \<or> ie_type e = DYN_TYPE_ERROR \<or> \<not> valid_expr_id ir (ie_left e) \<or>
        \<not> valid_expr_id ir (ie_right e) \<or> unat (ie_item_start e) + unat (ie_item_count e) > length (p_items ir)) \<and>
     \<not> (ie_kind e = DYN_EXPR_NAME \<and> unat (ie_integer e) \<ge> length (p_locals ir)) \<and>
     \<not> (ie_kind e = DYN_EXPR_GLOBAL \<and> unat (ie_integer e) \<ge> length (p_globals ir)) \<and>
     \<not> (ie_kind e = DYN_EXPR_CALL \<and> unat (ie_integer e) \<ge> length (p_functions ir)) \<and>
     \<not> (ie_kind e = DYN_EXPR_FUNCTION \<and> unat (ie_integer e) \<ge> length (p_functions ir)) \<and>
     \<not> (ie_kind e = DYN_EXPR_INDIRECT_CALL \<and> unat (ie_integer e) \<ge> length (p_fn_types ir)) \<and>
     \<not> (ie_kind e = DYN_EXPR_STRUCT \<and> unat (ie_integer e) \<ge> length (p_structs ir))"

definition valid_stmt :: "ir_program \<Rightarrow> ir_stmt \<Rightarrow> bool" where
  "valid_stmt ir st \<longleftrightarrow>
     \<not> (\<not> valid_expr_id ir (ist_expression st) \<or> \<not> valid_expr_id ir (ist_target st) \<or>
        (ist_assignment_op st \<noteq> DYN_OP_NONE \<and> ist_target st = DYN_NO_EXPR) \<or>
        unat (ist_case_arm_start st) + unat (ist_case_arm_count st) > length (p_case_arms ir)) \<and>
     \<not> ((ist_kind st = DYN_STMT_BREAK \<or> ist_kind st = DYN_STMT_CONTINUE) \<and>
        unat (ist_target_loop_id st) \<ge> length (p_statements ir)) \<and>
     \<not> (ist_kind st = DYN_STMT_FOR \<and> unat (ist_loop_id st) \<ge> length (p_statements ir))"

definition valid_case_arm :: "ir_program \<Rightarrow> ir_case_arm \<Rightarrow> bool" where
  "valid_case_arm ir c \<longleftrightarrow>
     \<not> (unat (ic_pattern_start c) + unat (ic_pattern_count c) > length (p_patterns ir) \<or>
        unat (ic_body_start c) + unat (ic_body_count c) > length (p_children ir))"

definition validate_ir :: "ir_program \<Rightarrow> bool" where
  "validate_ir ir \<longleftrightarrow> list_all (valid_expr ir) (p_expressions ir) \<and>
     list_all (\<lambda>i. valid_expr_id ir (it_expression i)) (p_items ir) \<and>
     list_all (\<lambda>c. unat c < length (p_statements ir)) (p_children ir) \<and>
     list_all (valid_stmt ir) (p_statements ir) \<and> list_all (valid_case_arm ir) (p_case_arms ir)"

subsection \<open>Lowering\<close>

definition lower_tables :: "host \<Rightarrow> ast_program \<Rightarrow> source \<Rightarrow> bool \<Rightarrow> ir_program result" where
  "lower_tables h a s proofs =
     (let params = map (lower_param a s) (a_params a);
          locals = map (lower_local a s) (a_locals a);
          stmts = map lower_stmt (a_statements a);
          arms = fold (\<lambda>i. wildcard_last (stmts ! i)) [0..<length stmts] (map lower_case_arm (a_case_arms a));
          (es, stmts) = fold (expand_assignment locals) [0..<length stmts] (map (lower_expr a) (a_expressions a), stmts)
      in bind_r (map_r (lower_function h a s (find_sdk h proofs) params) (a_functions a)) (\<lambda>fns.
        Inr \<lparr>p_expressions = es, p_items = map lower_item (a_items a),
          p_fields = map (lower_field a s) (a_fields a), p_structs = map (lower_struct s) (a_structs a),
          p_enums = map (lower_enum a s) (a_enums a), p_variants = map (lower_variant a s) (a_variants a),
          p_params = params,
          p_functions = map (\<lambda>fn. fn\<lparr>ifn_return_type := lower_type a (ifn_return_type fn)\<rparr>) fns,
          p_globals = map (lower_global a s) (a_globals a), p_global_init_order = a_global_init_order a,
          p_pointers = map (\<lambda>p. \<lparr>ipt_pointee = lower_type a (apt_pointee p), ipt_is_const = apt_is_const p\<rparr>) (a_pointers a),
          p_arrays = map (\<lambda>r. \<lparr>ia_element = lower_type a (aa_element r), ia_length = aa_length r\<rparr>) (a_arrays a),
          p_slices = map (\<lambda>r. \<lparr>isl_element = lower_type a (asl_element r), isl_is_const = asl_is_const r\<rparr>) (a_slices a),
          p_fn_types = map (\<lambda>r. \<lparr>ift_return_type = lower_type a (aft_return_type r),
            ift_param_start = aft_param_start r, ift_param_count = aft_param_count r,
            ift_variadic = aft_variadic r\<rparr>) (a_fn_types a),
          p_fn_type_params = map (lower_type a) (a_fn_type_params a), p_strings = a_strings a,
          p_statements = stmts, p_patterns = map (lower_pattern a) (a_patterns a), p_case_arms = arms,
          p_children = a_children a, p_locals = locals, p_unstable_locals = None, p_local_statements = None\<rparr>))"

definition lower_ir :: "host \<Rightarrow> ast_program \<Rightarrow> source \<Rightarrow> u32 \<Rightarrow> bool \<Rightarrow> ir_program result" where
  "lower_ir h a s pb proofs =
     bind_r (lower_tables h a s proofs) (\<lambda>ir.
       let ir = (if proofs then prove_unsigned_ranges ir pb else ir) in
       if \<not> list_all (\<lambda>fn. unat (ifn_body_start fn) + unat (ifn_body_count fn) \<le> length (p_children ir)) (p_functions ir)
       then Inl (Fail ''invalid IR'')
       else if \<not> validate_ir ir then Inl (Fail ''invalid IR'')
       else Inr ir)"

definition dyn_ir_lower :: "host \<Rightarrow> ast_program \<Rightarrow> source \<Rightarrow> u32 \<Rightarrow> ir_program result" where
  "dyn_ir_lower h a s pb = lower_ir h a s pb True"

definition dyn_ir_lower_structural :: "host \<Rightarrow> ast_program \<Rightarrow> source \<Rightarrow> u32 \<Rightarrow> ir_program result" where
  "dyn_ir_lower_structural h a s pb = lower_ir h a s pb False"

subsection \<open>Compound assignments\<close>

text \<open>What became of a statement after expansion: \<open>n\<close> is the number of expressions of the source.\<close>

definition expanded :: "nat \<Rightarrow> ir_local list \<Rightarrow> ir_expr list \<Rightarrow> ir_stmt \<Rightarrow> ir_stmt \<Rightarrow> bool" where
  "expanded n locals es st st' \<longleftrightarrow>
     (if ist_assignment_op st = DYN_OP_NONE \<or> ist_target st \<noteq> DYN_NO_EXPR then st' = st
      else \<exists>k. n \<le> k \<and> k + 1 < length es \<and>
        st' = st\<lparr>ist_expression := of_nat (k + 1), ist_assignment_op := DYN_OP_NONE\<rparr> \<and>
        ie_kind (es ! k) = DYN_EXPR_NAME \<and> ie_integer (es ! k) = ucast (ist_local_id st) \<and>
        ie_type (es ! k) = ilo_type (locals ! unat (ist_local_id st)) \<and>
        ie_kind (es ! (k + 1)) = DYN_EXPR_BINARY \<and> ie_op (es ! (k + 1)) = ist_assignment_op st \<and>
        ie_left (es ! (k + 1)) = of_nat k \<and> ie_right (es ! (k + 1)) = ist_expression st \<and>
        ie_type (es ! (k + 1)) = ie_type (es ! k))"

lemma expanded_append: "expanded n locals es st st' \<Longrightarrow> expanded n locals (es @ more_es) st st'"
  unfolding expanded_def by (auto simp: nth_append split: if_splits)

lemma expand_step:
  assumes "expand_assignment locals i (es, sts) = (es', sts')" and "i < length sts" and "n \<le> length es"
  shows "(\<exists>new. es' = es @ new) \<and> length sts' = length sts \<and> (\<forall>j. j \<noteq> i \<longrightarrow> sts' ! j = sts ! j) \<and>
    expanded n locals es' (sts ! i) (sts' ! i)"
proof (cases "ist_assignment_op (sts ! i) = DYN_OP_NONE \<or> ist_target (sts ! i) \<noteq> DYN_NO_EXPR")
  case True
  with assms(1) show ?thesis by (simp add: expand_assignment_def expanded_def)
next
  case False
  with assms show ?thesis
    by (auto simp: expand_assignment_def expanded_def Let_def nth_append intro!: exI [of _ "length es"])
qed

lemma expand_all:
  assumes "fold (expand_assignment locals) [0..<m] (es, sts) = (es', sts')" and "m \<le> length sts"
  shows "(\<exists>new. es' = es @ new) \<and> length sts' = length sts \<and> (\<forall>j \<ge> m. sts' ! j = sts ! j) \<and>
    (\<forall>i < m. expanded (length es) locals es' (sts ! i) (sts' ! i))"
  using assms
proof (induction m arbitrary: es' sts')
  case (Suc m)
  obtain es1 sts1 where mid: "fold (expand_assignment locals) [0..<m] (es, sts) = (es1, sts1)"
    by (cases "fold (expand_assignment locals) [0..<m] (es, sts)")
  then have ih: "\<exists>new. es1 = es @ new" "length sts1 = length sts" "\<forall>j \<ge> m. sts1 ! j = sts ! j"
    "\<forall>i < m. expanded (length es) locals es1 (sts ! i) (sts1 ! i)"
    using Suc.IH [of es1 sts1] Suc.prems(2) by auto
  have "expand_assignment locals m (es1, sts1) = (es', sts')" using Suc.prems(1) mid by simp
  from expand_step [OF this] ih(1,2) Suc.prems(2)
  have step: "\<exists>new. es' = es1 @ new" "length sts' = length sts1" "\<forall>j. j \<noteq> m \<longrightarrow> sts' ! j = sts1 ! j"
    "expanded (length es) locals es' (sts1 ! m) (sts' ! m)" by auto
  have "expanded (length es) locals es' (sts ! i) (sts' ! i)" if "i < Suc m" for i
    using that ih(3,4) step(1,3,4) expanded_append by (auto simp: less_Suc_eq)
  then show ?case using ih step by (auto simp: Suc_le_eq)
qed simp

lemma lower_ir_tables:
  assumes "lower_ir h a s pb proofs = Inr ir"
  obtains ir0 where "lower_tables h a s proofs = Inr ir0" "marks ir0 ir" "\<not> proofs \<Longrightarrow> ir = ir0" "validate_ir ir"
proof -
  obtain ir0 where ir0: "lower_tables h a s proofs = Inr ir0"
    and rest: "(let ir = (if proofs then prove_unsigned_ranges ir0 pb else ir0) in
       if \<not> list_all (\<lambda>fn. unat (ifn_body_start fn) + unat (ifn_body_count fn) \<le> length (p_children ir)) (p_functions ir)
       then Inl (Fail ''invalid IR'') else if \<not> validate_ir ir then Inl (Fail ''invalid IR'') else Inr ir) = Inr ir"
    using assms unfolding lower_ir_def bind_r_eq_Inr by blast
  have ir: "ir = (if proofs then prove_unsigned_ranges ir0 pb else ir0)" and valid: "validate_ir ir"
    using rest by (simp_all add: Let_def split: if_splits)
  show thesis
    by (rule that [OF ir0 _ _ valid]) (simp_all add: ir prove_unsigned_ranges_marks)
qed

lemma lower_tables_expand:
  assumes "lower_tables h a s proofs = Inr ir"
  shows "fold (expand_assignment (p_locals ir)) [0..<length (a_statements a)]
      (map (lower_expr a) (a_expressions a), map lower_stmt (a_statements a)) = (p_expressions ir, p_statements ir)"
  using assms by (auto simp: lower_tables_def Let_def bind_r_eq_Inr split: prod.splits)

text \<open>C31. A compound assignment to a local, \<open>x op= e\<close>, is lowered to \<open>x = x op e\<close>: the statement is a plain
  assignment to the same local of a new binary expression with the operator, the local and the original operand,
  and the expressions of the source keep their ids.\<close>

theorem compound_assignment_lowered:
  assumes "dyn_ir_lower_structural h a s pb = Inr ir" and "length (p_expressions ir) < 2 ^ 32"
    and "i < length (a_statements a)" and "ast_assignment_op (a_statements a ! i) \<noteq> DYN_OP_NONE"
    and "ast_target (a_statements a ! i) = DYN_NO_EXPR"
  shows "let source = a_statements a ! i; st = p_statements ir ! i; e = expr_at ir (ist_expression st);
      x = expr_at ir (ie_left e)
    in st = (lower_stmt source)\<lparr>ist_expression := ist_expression st, ist_assignment_op := DYN_OP_NONE\<rparr> \<and>
      ie_kind e = DYN_EXPR_BINARY \<and> ie_op e = ast_assignment_op source \<and> ie_right e = ast_expression source \<and>
      ie_kind x = DYN_EXPR_NAME \<and> unat (ie_integer x) = unat (ast_local_id source) \<and> ie_type e = ie_type x \<and>
      take (length (a_expressions a)) (p_expressions ir) = map (lower_expr a) (a_expressions a)"
proof -
  have tables: "lower_tables h a s False = Inr ir"
    using assms(1) unfolding dyn_ir_lower_structural_def by (auto elim: lower_ir_tables)
  let ?st = "lower_stmt (a_statements a ! i)"
  from expand_all [OF lower_tables_expand [OF tables]]
  have ex: "expanded (length (a_expressions a)) (p_locals ir) (p_expressions ir) ?st (p_statements ir ! i)"
    and prefix: "\<exists>new. p_expressions ir = map (lower_expr a) (a_expressions a) @ new"
    using assms(3) by auto
  have "ist_assignment_op ?st \<noteq> DYN_OP_NONE" "ist_target ?st = DYN_NO_EXPR"
    using assms(4,5) by (simp_all add: lower_stmt_def)
  with ex obtain k where k: "k + 1 < length (p_expressions ir)"
    "p_statements ir ! i = ?st\<lparr>ist_expression := of_nat (k + 1), ist_assignment_op := DYN_OP_NONE\<rparr>"
    and es: "ie_kind (p_expressions ir ! k) = DYN_EXPR_NAME" "ie_integer (p_expressions ir ! k) = ucast (ist_local_id ?st)"
    "ie_kind (p_expressions ir ! (k + 1)) = DYN_EXPR_BINARY" "ie_op (p_expressions ir ! (k + 1)) = ist_assignment_op ?st"
    "ie_left (p_expressions ir ! (k + 1)) = of_nat k" "ie_right (p_expressions ir ! (k + 1)) = ist_expression ?st"
    "ie_type (p_expressions ir ! (k + 1)) = ie_type (p_expressions ir ! k)"
    by (auto simp: expanded_def)
  have "unat (of_nat k :: u32) = k" "unat (of_nat (k + 1) :: u32) = k + 1"
    using k(1) assms(2) by (simp_all only: unat_of_nat) (simp_all add: take_bit_nat_eq_self)
  then have at: "expr_at ir (of_nat k) = p_expressions ir ! k" "expr_at ir (of_nat (k + 1)) = p_expressions ir ! (k + 1)"
    by (simp_all only: expr_at_def)
  have sel: "ist_expression (p_statements ir ! i) = of_nat (k + 1)" unfolding k(2) by simp
  show ?thesis
    unfolding Let_def sel at es(5) using prefix es k(2) by (auto simp: lower_stmt_def simp del: of_nat_Suc)
qed

text \<open>All types an IR program mentions.\<close>

definition ir_types :: "ir_program \<Rightarrow> dyn_type set" where
  "ir_types ir = ie_type ` set (p_expressions ir) \<union> if_type ` set (p_fields ir) \<union>
     iv_payload_type ` set (p_variants ir) \<union> in_tag_type ` set (p_enums ir) \<union> ip_type ` set (p_params ir) \<union>
     ifn_return_type ` set (p_functions ir) \<union> ifn_variadic_type ` set (p_functions ir) \<union> ig_type ` set (p_globals ir) \<union>
     ipt_pointee ` set (p_pointers ir) \<union> ia_element ` set (p_arrays ir) \<union> isl_element ` set (p_slices ir) \<union>
     ift_return_type ` set (p_fn_types ir) \<union> set (p_fn_type_params ir) \<union> ipa_type ` set (p_patterns ir) \<union>
     ilo_type ` set (p_locals ir)"

lemma marks_map:
  assumes "marks ir ir'" and "\<And>e e'. marked e e' \<Longrightarrow> f e' = f e"
  shows "map f (p_expressions ir') = map f (p_expressions ir)"
proof -
  obtain es where es: "ir' = ir\<lparr>p_expressions := es\<rparr>" "list_all2 marked (p_expressions ir) es"
    using assms(1) by (auto simp: marks_def)
  have "map f es = map f (p_expressions ir)"
    using es(2) by (induction rule: list_all2_induct) (simp_all add: assms(2))
  then show ?thesis by (simp add: es(1))
qed

lemma marks_types:
  assumes "marks ir ir'"
  shows "ir_types ir' = ir_types ir"
proof -
  have "ie_type ` set (p_expressions ir') = ie_type ` set (p_expressions ir)"
    using marks_map [OF assms, of ie_type] marked_sel(2) by (metis list.set_map)
  moreover obtain es where "ir' = ir\<lparr>p_expressions := es\<rparr>" using assms by (auto simp: marks_def)
  ultimately show ?thesis by (simp add: ir_types_def)
qed

text \<open>An expression that expansion adds has the type of a local that some name expression refers to.\<close>

definition local_typed :: "ir_local list \<Rightarrow> ir_expr list \<Rightarrow> dyn_type \<Rightarrow> bool" where
  "local_typed locals es t \<longleftrightarrow> (\<exists>i :: u32. t = ilo_type (locals ! unat i) \<and>
     (\<exists>x \<in> set es. ie_kind x = DYN_EXPR_NAME \<and> ie_integer x = ucast i))"

lemma expand_types:
  "fold (expand_assignment locals) is (es, sts) = (es', sts') \<Longrightarrow>
    set es \<subseteq> set es' \<and> (\<forall>e \<in> set es'. e \<in> set es \<or> local_typed locals es' (ie_type e))"
proof (induction "is" arbitrary: es sts)
  case (Cons i "is")
  obtain es1 sts1 where step: "expand_assignment locals i (es, sts) = (es1, sts1)"
    by (cases "expand_assignment locals i (es, sts)")
  have one: "set es \<subseteq> set es1 \<and> (\<forall>e \<in> set es1. e \<in> set es \<or> local_typed locals es1 (ie_type e))"
  proof (cases "ist_assignment_op (sts ! i) = DYN_OP_NONE \<or> ist_target (sts ! i) \<noteq> DYN_NO_EXPR")
    case True
    with step show ?thesis by (simp add: expand_assignment_def)
  next
    case False
    let ?t = "ilo_type (locals ! unat (ist_local_id (sts ! i)))"
    obtain x y where new: "es1 = es @ [x, y]" and x: "ie_kind x = DYN_EXPR_NAME"
      "ie_integer x = ucast (ist_local_id (sts ! i))" "ie_type x = ?t" "ie_type y = ?t"
      using step False by (auto simp: expand_assignment_def Let_def)
    have "local_typed locals es1 ?t"
      unfolding local_typed_def new using x by (intro exI [of _ "ist_local_id (sts ! i)"]) simp
    then show ?thesis using x by (auto simp: new)
  qed
  have rest: "set es1 \<subseteq> set es' \<and> (\<forall>e \<in> set es'. e \<in> set es1 \<or> local_typed locals es' (ie_type e))"
    using Cons.IH [of es1 sts1] Cons.prems step by simp
  have "local_typed locals es' t" if "local_typed locals es1 t" for t
    using that rest unfolding local_typed_def by blast
  with one rest show ?case by blast
qed simp

lemma lower_type_plain: "alias_ranked a rank \<Longrightarrow> \<not> dyn_type_is_distinct (lower_type a t)"
  using underlying_ends by (simp add: lower_type_def underlying_type_def)

lemma lower_function_types:
  assumes "lower_function h a s sdk params f = Inr fn"
  shows "ifn_variadic_type fn = lower_type a (afn_variadic_type f)"
proof -
  obtain path line col where "locate s (unat (start_byte (afn_name f))) = (path, line, col)"
    by (cases "locate s (unat (start_byte (afn_name f)))")
  then show ?thesis using assms by (auto simp: lower_function_def bind_r_eq_Inr Let_def)
qed

lemma void_plain: "\<not> dyn_type_is_distinct DYN_TYPE_VOID"
  by (simp add: dyn_type_is_distinct_def)

lemma lower_expr_type: "ie_type (lower_expr a e) = DYN_TYPE_VOID \<or> ie_type (lower_expr a e) = lower_type a (ae_type e)"
  by (simp add: lower_expr_def Let_def)

lemma lower_tables_types:
  assumes "lower_tables h a s proofs = Inr ir" and "alias_ranked a rank" and "t \<in> ir_types ir"
  shows "\<not> dyn_type_is_distinct t \<or> local_typed (p_locals ir) (p_expressions ir) t"
    and "\<forall>l \<in> set (p_locals ir). \<not> dyn_type_is_distinct (ilo_type l)"
proof -
  note plain = lower_type_plain [OF assms(2)]
  obtain fns where fns: "map_r (lower_function h a s (find_sdk h proofs) (map (lower_param a s) (a_params a)))
      (a_functions a) = Inr fns"
    and fs: "p_functions ir = map (\<lambda>fn. fn\<lparr>ifn_return_type := lower_type a (ifn_return_type fn)\<rparr>) fns"
    using assms(1) by (auto simp: lower_tables_def Let_def bind_r_eq_Inr split: prod.splits)
  have rest: "p_fields ir = map (lower_field a s) (a_fields a)" "p_variants ir = map (lower_variant a s) (a_variants a)"
    "p_enums ir = map (lower_enum a s) (a_enums a)" "p_params ir = map (lower_param a s) (a_params a)"
    "p_globals ir = map (lower_global a s) (a_globals a)"
    "p_pointers ir = map (\<lambda>p. \<lparr>ipt_pointee = lower_type a (apt_pointee p), ipt_is_const = apt_is_const p\<rparr>) (a_pointers a)"
    "p_arrays ir = map (\<lambda>r. \<lparr>ia_element = lower_type a (aa_element r), ia_length = aa_length r\<rparr>) (a_arrays a)"
    "p_slices ir = map (\<lambda>r. \<lparr>isl_element = lower_type a (asl_element r), isl_is_const = asl_is_const r\<rparr>) (a_slices a)"
    "p_fn_types ir = map (\<lambda>r. \<lparr>ift_return_type = lower_type a (aft_return_type r), ift_param_start = aft_param_start r,
       ift_param_count = aft_param_count r, ift_variadic = aft_variadic r\<rparr>) (a_fn_types a)"
    "p_fn_type_params ir = map (lower_type a) (a_fn_type_params a)"
    "p_patterns ir = map (lower_pattern a) (a_patterns a)" "p_locals ir = map (lower_local a s) (a_locals a)"
    using assms(1) by (auto simp: lower_tables_def Let_def bind_r_eq_Inr split: prod.splits)
  show locals: "\<forall>l \<in> set (p_locals ir). \<not> dyn_type_is_distinct (ilo_type l)"
    by (auto simp: rest lower_local_def plain)
  have vt: "\<forall>fn \<in> set fns. \<not> dyn_type_is_distinct (ifn_variadic_type fn)"
    using map_r_all [OF fns, where P = "\<lambda>fn. \<not> dyn_type_is_distinct (ifn_variadic_type fn)"]
    by (simp add: lower_function_types plain)
  have es: "\<not> dyn_type_is_distinct (ie_type e) \<or> local_typed (p_locals ir) (p_expressions ir) (ie_type e)"
    if "e \<in> set (p_expressions ir)" for e
  proof -
    have "e \<in> set (map (lower_expr a) (a_expressions a)) \<or> local_typed (p_locals ir) (p_expressions ir) (ie_type e)"
      using expand_types [OF lower_tables_expand [OF assms(1)]] that by blast
    then show ?thesis
    proof
      assume "e \<in> set (map (lower_expr a) (a_expressions a))"
      then obtain x where "e = lower_expr a x" by auto
      then show ?thesis using lower_expr_type [of a x] plain void_plain by metis
    qed simp
  qed
  show "\<not> dyn_type_is_distinct t \<or> local_typed (p_locals ir) (p_expressions ir) t"
    using assms(3) es vt
    by (auto simp: ir_types_def fs rest plain lower_field_def lower_variant_def lower_enum_def lower_param_def
        lower_global_def lower_pattern_def lower_local_def)
qed

text \<open>C32. When the aliases have no cycle, no distinct type survives lowering: every type in every table of a
  program that lowering accepts is a builtin or structural type.\<close>

theorem lowering_erases_aliases:
  assumes "lower_ir h a s pb proofs = Inr ir" and "alias_ranked a rank"
  shows "\<forall>t \<in> ir_types ir. \<not> dyn_type_is_distinct t"
proof
  fix t assume "t \<in> ir_types ir"
  obtain ir0 where tables: "lower_tables h a s proofs = Inr ir0" and m: "marks ir0 ir" and valid: "validate_ir ir"
    using lower_ir_tables [OF assms(1)] by metis
  have t: "t \<in> ir_types ir0" using \<open>t \<in> ir_types ir\<close> marks_types [OF m] by simp
  have locals: "p_locals ir = p_locals ir0" using m by (auto simp: marks_def)
  have "\<not> dyn_type_is_distinct t" if typed: "local_typed (p_locals ir0) (p_expressions ir0) t"
  proof -
    obtain i :: u32 and x where i: "t = ilo_type (p_locals ir0 ! unat i)"
      and x: "x \<in> set (p_expressions ir0)" "ie_kind x = DYN_EXPR_NAME" "ie_integer x = ucast i"
      using typed by (auto simp: local_typed_def)
    have "map (\<lambda>e. (ie_kind e, ie_integer e)) (p_expressions ir) = map (\<lambda>e. (ie_kind e, ie_integer e)) (p_expressions ir0)"
      by (rule marks_map [OF m]) (simp add: marked_sel)
    then have "(DYN_EXPR_NAME, ucast i) \<in> (\<lambda>e. (ie_kind e, ie_integer e)) ` set (p_expressions ir)"
      using x by (metis (mono_tags, lifting) image_eqI list.set_map)
    then obtain y where "y \<in> set (p_expressions ir)" "ie_kind y = DYN_EXPR_NAME" "ie_integer y = ucast i" by auto
    then have "unat i < length (p_locals ir0)"
      using valid by (auto simp: validate_ir_def valid_expr_def list_all_iff locals not_le)
    then show ?thesis using lower_tables_types(2) [OF tables assms(2) t] i by simp
  qed
  then show "\<not> dyn_type_is_distinct t" using lower_tables_types(1) [OF tables assms(2) t] by blast
qed

subsection \<open>A sample\<close>

text \<open>\<open>x += 1\<close> for a local of a distinct type over \<open>u32\<close>.\<close>

definition sample_host :: host where
  "sample_host = \<lparr>h_sdk = None, h_realpath = (\<lambda>_. None), h_executable = None\<rparr>"

definition sample_span :: span where
  "sample_span = \<lparr>start_byte = 0, end_byte = 1\<rparr>"

definition sample_compound :: ast_program where
  "sample_compound = sample_aliases\<lparr>
     a_expressions := [\<lparr>ae_kind = DYN_EXPR_INT, ae_type = DYN_TYPE_DISTINCT_BASE, ae_span = sample_span,
       ae_op = DYN_OP_NONE, ae_left = DYN_NO_EXPR, ae_right = DYN_NO_EXPR, ae_integer = 1, ae_floating = 0,
       ae_boolean = False, ae_item_start = 0, ae_item_count = 0, ae_wrap = False\<rparr>],
     a_locals := [\<lparr>alo_name = sample_span, alo_type = DYN_TYPE_DISTINCT_BASE, alo_active = True, alo_is_const = False,
       alo_owner_function = 0\<rparr>],
     a_statements := [\<lparr>ast_kind = DYN_STMT_ASSIGN, ast_span = sample_span, ast_name = sample_span,
       ast_label = sample_span, ast_control_label = sample_span, ast_declared_type = DYN_TYPE_INFER,
       ast_expression = 0, ast_target = DYN_NO_EXPR, ast_assignment_op = DYN_OP_ADD, ast_local_id = 0,
       ast_body_start = 0, ast_body_count = 0, ast_else_start = 0, ast_else_count = 0, ast_loop_depth = 0,
       ast_loop_id = 0, ast_target_loop_id = 0, ast_case_arm_start = 0, ast_case_arm_count = 0,
       ast_defer_block = False, ast_for_pointer = False, ast_for_const = False, ast_is_const = False,
       ast_for_range = False, ast_for_inclusive = False, ast_for_reverse = False\<rparr>],
     a_children := [0]\<rparr>"

definition lowered :: "'a result \<Rightarrow> ('a \<Rightarrow> bool) \<Rightarrow> bool" where
  "lowered r P = (case r of Inl _ \<Rightarrow> False | Inr x \<Rightarrow> P x)"

lemma sample_lowers:
  "lowered (dyn_ir_lower_structural sample_host sample_compound sample_alias_text 8) (\<lambda>ir. length (p_expressions ir) = 3)"
  by code_simp

theorem compound_assignment_lowered_witness:
  "lowered (dyn_ir_lower_structural sample_host sample_compound sample_alias_text 8) (\<lambda>ir.
     let e = expr_at ir (ist_expression (p_statements ir ! 0)) in
     ie_kind e = DYN_EXPR_BINARY \<and> ie_op e = DYN_OP_ADD \<and> ie_kind (expr_at ir (ie_left e)) = DYN_EXPR_NAME)"
proof -
  obtain ir where ir: "dyn_ir_lower_structural sample_host sample_compound sample_alias_text 8 = Inr ir"
    and len: "length (p_expressions ir) = 3"
    using sample_lowers by (auto simp: lowered_def split: sum.splits)
  have stmt: "0 < length (a_statements sample_compound)"
    "ast_assignment_op (a_statements sample_compound ! 0) = DYN_OP_ADD"
    "ast_target (a_statements sample_compound ! 0) = DYN_NO_EXPR"
    by (simp_all add: sample_compound_def)
  then show ?thesis
    using compound_assignment_lowered [OF ir _ stmt(1)] by (simp add: ir lowered_def len Let_def)
qed

theorem lowering_erases_aliases_witness:
  "lowered (lower_ir sample_host sample_compound sample_alias_text 8 False)
     (\<lambda>ir. \<forall>t \<in> ir_types ir. \<not> dyn_type_is_distinct t)"
proof -
  obtain ir where ir: "lower_ir sample_host sample_compound sample_alias_text 8 False = Inr ir"
    using sample_lowers by (auto simp: lowered_def dyn_ir_lower_structural_def split: sum.splits)
  have "alias_ranked sample_compound (\<lambda>_. 0)"
    by (simp add: alias_ranked_def sample_compound_def sample_aliases_def Let_def alias_index_def
        type_class_defs less_Suc_eq)
  then show ?thesis
    using lowering_erases_aliases [OF ir] by (simp add: ir lowered_def)
qed

end
