(* ===== verification/Ir_Reach.thy ===== *)
theory Ir_Reach
  imports Ir_Ranges
begin

text \<open>
  Pruning of unreachable functions (\<open>src/src/ir_reachability.inc\<close> and \<open>dyn_ir_prune_functions\<close> of
  \<open>src/src/ir.c\<close>): marking starts at \<open>main\<close>, foreign functions and global initializers and follows
  calls, function values, statements and blocks.

  \<open>Inl\<close> stands for \<open>return false\<close>; the code's depth limit of 1024 is kept, so the functions are total.
  Reads through indices that the code does not check first (\<open>p->live[id]\<close> after its test, for
  instance) use \<open>!\<close>, and the mark arrays have the lengths of the tables they belong to.
\<close>

record reach =
  re_live :: "bool list"
  re_expressions :: "bool list"
  re_statements :: "bool list"
  re_queue :: "nat list"

abbreviation invalid_ir :: "fault + 'a" where
  "invalid_ir \<equiv> Inl (Fail ''invalid IR'')"

definition reachable_function :: "ir_program \<Rightarrow> nat \<Rightarrow> reach \<Rightarrow> reach result" where
  "reachable_function ir f p =
     (if f \<ge> length (p_functions ir) then invalid_ir
      else if \<not> re_live p ! f \<and> \<not> ifn_generic (p_functions ir ! f)
      then Inr (p\<lparr>re_live := (re_live p)[f := True], re_queue := re_queue p @ [f]\<rparr>)
      else Inr p)"

definition leaf_kind :: "expr_kind \<Rightarrow> bool" where
  "leaf_kind k \<longleftrightarrow> k \<in> {DYN_EXPR_INT, DYN_EXPR_FLOAT, DYN_EXPR_BOOL, DYN_EXPR_CHAR, DYN_EXPR_STRING,
     DYN_EXPR_NIL, DYN_EXPR_GLOBAL, DYN_EXPR_NAME}"

definition item_of :: "ir_program \<Rightarrow> ir_expr \<Rightarrow> nat \<Rightarrow> expr_id" where
  "item_of ir e i = it_expression (p_items ir ! unat (ie_item_start e + of_nat i))"

definition mark_expression :: "expr_id \<Rightarrow> reach \<Rightarrow> reach" where
  "mark_expression i p = p\<lparr>re_expressions := (re_expressions p)[unat i := True]\<rparr>"

definition mark_statement :: "nat \<Rightarrow> reach \<Rightarrow> reach" where
  "mark_statement s p = p\<lparr>re_statements := (re_statements p)[s := True]\<rparr>"

lemma fold_r_cong [fundef_cong]:
  assumes "xs = ys" and "s = t" and "\<And>x s. x \<in> set ys \<Longrightarrow> f x s = g x s"
  shows "fold_r f xs s = fold_r g ys t"
  using assms(3) unfolding assms(1,2)
  by (induction ys arbitrary: t) (auto intro: bind_r_cong)

function reachable_expression :: "ir_program \<Rightarrow> expr_id \<Rightarrow> nat \<Rightarrow> reach \<Rightarrow> reach result" where
  "reachable_expression ir i depth p =
     (if i = DYN_NO_EXPR then Inr p
      else if unat i \<ge> length (p_expressions ir) \<or> depth > 1024 then invalid_ir
      else if re_expressions p ! unat i then Inr p
      else
        let p = mark_expression i p; e = expr_at ir i in
        if ie_kind e = DYN_EXPR_FUNCTION then reachable_function ir (unat (ie_integer e)) p
        else if leaf_kind (ie_kind e) then Inr p
        else
          bind_r (if ie_kind e = DYN_EXPR_CALL then reachable_function ir (unat (ie_integer e)) p else Inr p) (\<lambda>p.
          bind_r (reachable_expression ir (ie_left e) (depth + 1) p) (\<lambda>p.
          bind_r (reachable_expression ir (ie_right e) (depth + 1) p) (\<lambda>p.
          bind_r (if ie_kind e = DYN_EXPR_SLICE
                  then reachable_expression ir (ucast (ie_integer e)) (depth + 1) p else Inr p) (\<lambda>p.
          if unat (ie_item_start e) + unat (ie_item_count e) > length (p_items ir) then invalid_ir
          else fold_r (\<lambda>k p. reachable_expression ir (item_of ir e k) (depth + 1) p)
                 [0..<unat (ie_item_count e)] p)))))"
  by pat_completeness auto
termination
  by (relation "measure (\<lambda>(ir, i, depth, p). 1025 - depth)") auto

declare reachable_expression.simps [simp del]

definition child_of :: "ir_program \<Rightarrow> u32 \<Rightarrow> nat \<Rightarrow> nat" where
  "child_of ir start i = unat (p_children ir ! unat (start + of_nat i))"

definition arm_of :: "ir_program \<Rightarrow> ir_stmt \<Rightarrow> nat \<Rightarrow> ir_case_arm" where
  "arm_of ir st a = p_case_arms ir ! unat (ist_case_arm_start st + of_nat a)"

function reachable_block :: "ir_program \<Rightarrow> u32 \<Rightarrow> u32 \<Rightarrow> nat \<Rightarrow> reach \<Rightarrow> reach result" where
  "reachable_block ir start count depth p =
     (if depth > 1024 \<or> unat start + unat count > length (p_children ir) then invalid_ir
      else fold_r (\<lambda>i p.
        let s = child_of ir start i in
        if s \<ge> length (p_statements ir) then invalid_ir
        else if re_statements p ! s then Inr p
        else
          let st = p_statements ir ! s in
          bind_r (reachable_expression ir (ist_expression st) 0 (mark_statement s p)) (\<lambda>p.
          bind_r (reachable_expression ir (ist_target st) 0 p) (\<lambda>p.
          bind_r (reachable_block ir (ist_body_start st) (ist_body_count st) (depth + 1) p) (\<lambda>p.
          bind_r (reachable_block ir (ist_else_start st) (ist_else_count st) (depth + 1) p) (\<lambda>p.
          if unat (ist_case_arm_start st) + unat (ist_case_arm_count st) > length (p_case_arms ir) then invalid_ir
          else fold_r (\<lambda>a p. reachable_block ir (ic_body_start (arm_of ir st a)) (ic_body_count (arm_of ir st a))
                 (depth + 1) p) [0..<unat (ist_case_arm_count st)] p)))))
        [0..<unat count] p)"
  by pat_completeness auto
termination
  by (relation "measure (\<lambda>(ir, start, count, depth, p). 1025 - depth)") auto

declare reachable_block.simps [simp del]

text \<open>
  The work list: \<open>queue[at]\<close> is processed while \<open>at < count\<close>. Each function enters the queue once, so
  at most as many rounds as there are functions are needed; \<open>rounds\<close> counts down from there.
\<close>

fun process_queue :: "ir_program \<Rightarrow> nat \<Rightarrow> nat \<Rightarrow> reach \<Rightarrow> reach result" where
  "process_queue ir at 0 p = Inr p"
| "process_queue ir at (Suc rounds) p =
     (if at < length (re_queue p) then
        let f = p_functions ir ! (re_queue p ! at) in
        bind_r (if \<not> ifn_foreign f then reachable_block ir (ifn_body_start f) (ifn_body_count f) 0 p else Inr p)
          (process_queue ir (Suc at) rounds)
      else Inr p)"

definition reachable_collect :: "ir_program \<Rightarrow> bool \<Rightarrow> bool \<Rightarrow> reach \<Rightarrow> reach result" where
  "reachable_collect ir public_roots all_roots p =
     bind_r (fold_r (\<lambda>i p.
         let f = p_functions ir ! i in
         if ifn_is_main f \<or> (public_roots \<and> ifn_is_public f) \<or> ifn_foreign f \<or> all_roots
         then reachable_function ir i p else Inr p) [0..<length (p_functions ir)] p) (\<lambda>p.
     bind_r (fold_r (\<lambda>g. reachable_expression ir (ig_initializer g) 0) (p_globals ir) p)
       (process_queue ir 0 (length (p_functions ir))))"

definition dyn_ir_prune_functions :: "ir_program \<Rightarrow> reach result" where
  "dyn_ir_prune_functions ir = reachable_collect ir False False
     \<lparr>re_live = replicate (length (p_functions ir)) False,
      re_expressions = replicate (length (p_expressions ir)) False,
      re_statements = replicate (length (p_statements ir)) False, re_queue = []\<rparr>"

subsection \<open>What a program needs\<close>

text \<open>
  The nodes of the program and the operands, calls, function values and nested statements of each. A generic
  function is a template that is never executed, so it is not a node; its instances are. The default
  expressions of struct fields are not operands of a struct literal here, as they are not in the code;
  \<open>default_function_pruned\<close> shows what that means.
\<close>

datatype node = Fn nat | Ex expr_id | St nat

definition fn_nodes :: "ir_program \<Rightarrow> nat \<Rightarrow> node list" where
  "fn_nodes ir f = (if ifn_generic (p_functions ir ! f) then [] else [Fn f])"

definition expr_nodes :: "expr_id \<Rightarrow> node list" where
  "expr_nodes i = (if i = DYN_NO_EXPR then [] else [Ex i])"

definition block_nodes :: "ir_program \<Rightarrow> u32 \<Rightarrow> u32 \<Rightarrow> node list" where
  "block_nodes ir start count = concat (map (\<lambda>i. [St (child_of ir start i)]) [0..<unat count])"

definition operand_nodes :: "ir_program \<Rightarrow> ir_expr \<Rightarrow> node list" where
  "operand_nodes ir e = expr_nodes (ie_left e) @ expr_nodes (ie_right e) @
     (if ie_kind e = DYN_EXPR_SLICE then expr_nodes (ucast (ie_integer e)) else []) @
     concat (map (\<lambda>k. expr_nodes (item_of ir e k)) [0..<unat (ie_item_count e)])"

definition expr_successors :: "ir_program \<Rightarrow> ir_expr \<Rightarrow> node list" where
  "expr_successors ir e =
     (if ie_kind e = DYN_EXPR_FUNCTION then fn_nodes ir (unat (ie_integer e))
      else if leaf_kind (ie_kind e) then []
      else (if ie_kind e = DYN_EXPR_CALL then fn_nodes ir (unat (ie_integer e)) else []) @ operand_nodes ir e)"

definition stmt_successors :: "ir_program \<Rightarrow> ir_stmt \<Rightarrow> node list" where
  "stmt_successors ir st = expr_nodes (ist_expression st) @ expr_nodes (ist_target st) @
     block_nodes ir (ist_body_start st) (ist_body_count st) @ block_nodes ir (ist_else_start st) (ist_else_count st) @
     concat (map (\<lambda>a. block_nodes ir (ic_body_start (arm_of ir st a)) (ic_body_count (arm_of ir st a)))
       [0..<unat (ist_case_arm_count st)])"

fun successors :: "ir_program \<Rightarrow> node \<Rightarrow> node list" where
  "successors ir (Ex i) = expr_successors ir (expr_at ir i)"
| "successors ir (St s) = stmt_successors ir (p_statements ir ! s)"
| "successors ir (Fn f) = (if ifn_foreign (p_functions ir ! f) then []
     else block_nodes ir (ifn_body_start (p_functions ir ! f)) (ifn_body_count (p_functions ir ! f)))"

inductive needed :: "ir_program \<Rightarrow> node \<Rightarrow> bool" for ir where
  main: "f < length (p_functions ir) \<Longrightarrow> ifn_is_main (p_functions ir ! f) \<or> ifn_foreign (p_functions ir ! f) \<Longrightarrow>
    n \<in> set (fn_nodes ir f) \<Longrightarrow> needed ir n"
| initializer: "g \<in> set (p_globals ir) \<Longrightarrow> n \<in> set (expr_nodes (ig_initializer g)) \<Longrightarrow> needed ir n"
| step: "needed ir n \<Longrightarrow> m \<in> set (successors ir n) \<Longrightarrow> needed ir m"

subsection \<open>Marking\<close>

fun seen :: "reach \<Rightarrow> node \<Rightarrow> bool" where
  "seen p (Fn f) \<longleftrightarrow> f < length (re_live p) \<and> re_live p ! f"
| "seen p (Ex i) \<longleftrightarrow> unat i < length (re_expressions p) \<and> re_expressions p ! unat i"
| "seen p (St s) \<longleftrightarrow> s < length (re_statements p) \<and> re_statements p ! s"

text \<open>The mark arrays fit the program, and the queue holds the live functions, each once.\<close>

definition fitting :: "ir_program \<Rightarrow> reach \<Rightarrow> bool" where
  "fitting ir p \<longleftrightarrow> length (re_live p) = length (p_functions ir) \<and>
     length (re_expressions p) = length (p_expressions ir) \<and>
     length (re_statements p) = length (p_statements ir) \<and>
     distinct (re_queue p) \<and> (\<forall>f. f \<in> set (re_queue p) \<longleftrightarrow> seen p (Fn f))"

text \<open>
  \<open>visits ir P N p q\<close>: marking went from \<open>p\<close> to \<open>q\<close>, lost no mark, marked every node of \<open>N\<close>, marked only
  nodes in \<open>P\<close>, and left no new expression or statement with an unmarked successor.
\<close>

definition visits :: "ir_program \<Rightarrow> (node \<Rightarrow> bool) \<Rightarrow> node list \<Rightarrow> reach \<Rightarrow> reach \<Rightarrow> bool" where
  "visits ir P N p q \<longleftrightarrow> fitting ir q \<and> (\<forall>n. seen p n \<longrightarrow> seen q n) \<and>
     (\<exists>new. re_queue q = re_queue p @ new) \<and> (\<forall>n \<in> set N. seen q n) \<and>
     (\<forall>n. seen q n \<and> \<not> seen p n \<longrightarrow> P n \<and> ((\<exists>f. n = Fn f) \<or> (\<forall>m \<in> set (successors ir n). seen q m)))"

lemma visits_refl: "fitting ir p \<Longrightarrow> visits ir P [] p p"
  by (simp add: visits_def)

lemma visits_trans:
  assumes "visits ir P N p q" and "visits ir P M q r"
  shows "visits ir P (N @ M) p r"
  using assms unfolding visits_def by (auto 4 4)

lemma visits_fitting: "visits ir P N p q \<Longrightarrow> fitting ir q"
  by (simp add: visits_def)

lemma visits_fold:
  assumes "\<And>x p q. x \<in> set xs \<Longrightarrow> fitting ir p \<Longrightarrow> f x p = Inr q \<Longrightarrow> visits ir P (N x) p q"
    and "fold_r f xs p = Inr q" and "fitting ir p"
  shows "visits ir P (concat (map N xs)) p q"
  using assms
proof (induction xs arbitrary: p)
  case (Cons x xs)
  then obtain r where r: "f x p = Inr r" "fold_r f xs r = Inr q" by (auto simp: bind_simps)
  have one: "visits ir P (N x) p r" using Cons.prems(1) [OF _ Cons.prems(3) r(1)] by simp
  have "visits ir P (concat (map N xs)) r q"
    using Cons.prems(1) by (intro Cons.IH [OF _ r(2) visits_fitting [OF one]]) simp
  with one show ?case by (simp add: visits_trans)
qed (simp add: visits_refl)

lemma seen_mark_expression:
  "fitting ir p \<Longrightarrow> unat i < length (p_expressions ir) \<Longrightarrow> seen (mark_expression i p) n \<longleftrightarrow> seen p n \<or> n = Ex i"
  by (cases n) (auto simp: mark_expression_def fitting_def nth_list_update word_unat_eq_iff)

lemma seen_mark_statement:
  "fitting ir p \<Longrightarrow> s < length (p_statements ir) \<Longrightarrow> seen (mark_statement s p) n \<longleftrightarrow> seen p n \<or> n = St s"
  by (cases n) (auto simp: mark_statement_def fitting_def nth_list_update)

lemma fitting_mark:
  "fitting ir p \<Longrightarrow> fitting ir (mark_expression i p)" "fitting ir p \<Longrightarrow> fitting ir (mark_statement s p)"
  by (simp_all add: fitting_def mark_expression_def mark_statement_def)

lemma visits_marked:
  assumes "\<And>m. seen p' m \<longleftrightarrow> seen p m \<or> m = n" and "re_queue p' = re_queue p" and "P n"
    and "visits ir P (successors ir n) p' q"
  shows "visits ir P [n] p q"
  using assms unfolding visits_def by auto

lemma visits_skip: "fitting ir p \<Longrightarrow> \<forall>n \<in> set N. seen p n \<Longrightarrow> visits ir P N p p"
  by (simp add: visits_def)

lemma visits_function:
  assumes "reachable_function ir f p = Inr q" and "fitting ir p" and "\<forall>n \<in> set (fn_nodes ir f). P n"
  shows "visits ir P (fn_nodes ir f) p q"
proof (cases "\<not> re_live p ! f \<and> \<not> ifn_generic (p_functions ir ! f)")
  case True
  have f: "f < length (p_functions ir)" using assms(1) by (simp add: reachable_function_def split: if_splits)
  with True assms(1) have q: "q = p\<lparr>re_live := (re_live p)[f := True], re_queue := re_queue p @ [f]\<rparr>"
    by (simp add: reachable_function_def)
  have seen: "seen q n \<longleftrightarrow> seen p n \<or> n = Fn f" for n
    using f assms(2) by (cases n) (auto simp: q fitting_def nth_list_update)
  moreover have "fitting ir q"
    using assms(2) True f unfolding fitting_def by (auto simp: q nth_list_update)
  moreover have "\<exists>new. re_queue q = re_queue p @ new" by (simp add: q)
  ultimately show ?thesis
    unfolding visits_def fn_nodes_def using True assms(3) by (auto simp: fn_nodes_def simp del: seen.simps)
next
  case False
  then have q: "q = p" and f: "f < length (p_functions ir)"
    using assms(1) by (auto simp: reachable_function_def split: if_splits)
  have "\<forall>n \<in> set (fn_nodes ir f). seen p n"
    using False assms(2) f by (auto simp: fn_nodes_def fitting_def)
  then show ?thesis unfolding q by (rule visits_skip [OF assms(2)])
qed

lemma reachable_expression_none: "reachable_expression ir DYN_NO_EXPR depth p = Inr p"
  by (subst reachable_expression.simps) simp

lemma reachable_expression_bounds:
  assumes "reachable_expression ir i depth p = Inr q" and "i \<noteq> DYN_NO_EXPR"
  shows "unat i < length (p_expressions ir) \<and> depth \<le> 1024"
  using assms unfolding reachable_expression.simps [of ir i depth p] by (simp add: not_le split: if_splits)

lemma reachable_expression_seen:
  assumes "unat i < length (p_expressions ir)" and "depth \<le> 1024" and "re_expressions p ! unat i"
  shows "reachable_expression ir i depth p = Inr p"
  using assms unfolding reachable_expression.simps [of ir i depth p] by simp

text \<open>One statement of a block, with the visit of its nested blocks as a parameter.\<close>

definition statement_step ::
  "ir_program \<Rightarrow> (u32 \<Rightarrow> u32 \<Rightarrow> reach \<Rightarrow> reach result) \<Rightarrow> nat \<Rightarrow> reach \<Rightarrow> reach result" where
  "statement_step ir block s p =
     (if s \<ge> length (p_statements ir) then invalid_ir
      else if re_statements p ! s then Inr p
      else
        let st = p_statements ir ! s in
        bind_r (reachable_expression ir (ist_expression st) 0 (mark_statement s p)) (\<lambda>p.
        bind_r (reachable_expression ir (ist_target st) 0 p) (\<lambda>p.
        bind_r (block (ist_body_start st) (ist_body_count st) p) (\<lambda>p.
        bind_r (block (ist_else_start st) (ist_else_count st) p) (\<lambda>p.
        if unat (ist_case_arm_start st) + unat (ist_case_arm_count st) > length (p_case_arms ir) then invalid_ir
        else fold_r (\<lambda>a. block (ic_body_start (arm_of ir st a)) (ic_body_count (arm_of ir st a)))
               [0..<unat (ist_case_arm_count st)] p)))))"

lemma reachable_block_steps:
  "reachable_block ir start count depth p =
     (if depth > 1024 \<or> unat start + unat count > length (p_children ir) then invalid_ir
      else fold_r (\<lambda>i. statement_step ir (\<lambda>start count. reachable_block ir start count (depth + 1)) (child_of ir start i))
        [0..<unat count] p)"
  unfolding reachable_block.simps [of ir start count depth p] statement_step_def Let_def by simp

text \<open>
  The marking operations, for a set of nodes that is closed under successors.
\<close>

locale marking =
  fixes ir :: ir_program and P :: "node \<Rightarrow> bool"
  assumes closed: "P n \<Longrightarrow> m \<in> set (successors ir n) \<Longrightarrow> P m"
begin

lemma visit_operands:
  assumes "\<And>j p q. \<forall>n \<in> set (expr_nodes j). P n \<Longrightarrow> fitting ir p \<Longrightarrow> vis j p = Inr q \<Longrightarrow> visits ir P (expr_nodes j) p q"
    and "\<forall>n \<in> set (operand_nodes ir e). P n" and "fitting ir p"
    and "bind_r (vis (ie_left e) p) (\<lambda>p. bind_r (vis (ie_right e) p) (\<lambda>p.
        bind_r (if ie_kind e = DYN_EXPR_SLICE then vis (ucast (ie_integer e)) p else Inr p) (\<lambda>p.
        if unat (ie_item_start e) + unat (ie_item_count e) > length (p_items ir) then invalid_ir
        else fold_r (\<lambda>k. vis (item_of ir e k)) [0..<unat (ie_item_count e)] p))) = Inr q"
  shows "visits ir P (operand_nodes ir e) p q"
proof -
  obtain p1 p2 p3 where steps: "vis (ie_left e) p = Inr p1" "vis (ie_right e) p1 = Inr p2"
    "(if ie_kind e = DYN_EXPR_SLICE then vis (ucast (ie_integer e)) p2 else Inr p2) = Inr p3"
    "(if unat (ie_item_start e) + unat (ie_item_count e) > length (p_items ir) then invalid_ir
      else fold_r (\<lambda>k. vis (item_of ir e k)) [0..<unat (ie_item_count e)] p3) = Inr q"
    using assms(4) unfolding bind_r_eq_Inr by blast
  then have items: "fold_r (\<lambda>k. vis (item_of ir e k)) [0..<unat (ie_item_count e)] p3 = Inr q"
    by (simp split: if_splits)
  have P: "\<forall>n \<in> set (expr_nodes (ie_left e)). P n" "\<forall>n \<in> set (expr_nodes (ie_right e)). P n"
    "ie_kind e = DYN_EXPR_SLICE \<Longrightarrow> \<forall>n \<in> set (expr_nodes (ucast (ie_integer e))). P n"
    "\<And>k. k < unat (ie_item_count e) \<Longrightarrow> \<forall>n \<in> set (expr_nodes (item_of ir e k)). P n"
    using assms(2) by (auto simp: operand_nodes_def)
  have 1: "visits ir P (expr_nodes (ie_left e)) p p1" by (rule assms(1) [OF P(1) assms(3) steps(1)])
  have 2: "visits ir P (expr_nodes (ie_right e)) p1 p2"
    by (rule assms(1) [OF P(2) visits_fitting [OF 1] steps(2)])
  have 3: "visits ir P (if ie_kind e = DYN_EXPR_SLICE then expr_nodes (ucast (ie_integer e)) else []) p2 p3"
    using steps(3) assms(1) [OF P(3) visits_fitting [OF 2]] visits_refl [OF visits_fitting [OF 2]]
    by (simp split: if_splits)
  have 4: "visits ir P (concat (map (\<lambda>k. expr_nodes (item_of ir e k)) [0..<unat (ie_item_count e)])) p3 q"
    using assms(1) [OF P(4)] by (intro visits_fold [OF _ items visits_fitting [OF 3]]) auto
  show ?thesis unfolding operand_nodes_def
    by (rule visits_trans [OF 1 visits_trans [OF 2 visits_trans [OF 3 4]]])
qed

lemma visit_successors:
  assumes "\<And>j p q. \<forall>n \<in> set (expr_nodes j). P n \<Longrightarrow> fitting ir p \<Longrightarrow>
      reachable_expression ir j (depth + 1) p = Inr q \<Longrightarrow> visits ir P (expr_nodes j) p q"
    and "i \<noteq> DYN_NO_EXPR" and "P (Ex i)" and "fitting ir p" and "\<not> re_expressions p ! unat i"
    and "reachable_expression ir i depth p = Inr q"
  shows "visits ir P (successors ir (Ex i)) (mark_expression i p) q"
proof -
  let ?e = "expr_at ir i" and ?p = "mark_expression i p"
  have bounds: "unat i < length (p_expressions ir)" "depth \<le> 1024"
    using reachable_expression_bounds [OF assms(6,2)] by auto
  have fit: "fitting ir ?p" using assms(4) by (rule fitting_mark)
  have P: "\<forall>n \<in> set (expr_successors ir ?e). P n" using closed [OF assms(3)] by simp
  have run: "(if ie_kind ?e = DYN_EXPR_FUNCTION then reachable_function ir (unat (ie_integer ?e)) ?p
      else if leaf_kind (ie_kind ?e) then Inr ?p
      else bind_r (if ie_kind ?e = DYN_EXPR_CALL then reachable_function ir (unat (ie_integer ?e)) ?p else Inr ?p) (\<lambda>p.
        bind_r (reachable_expression ir (ie_left ?e) (depth + 1) p) (\<lambda>p.
        bind_r (reachable_expression ir (ie_right ?e) (depth + 1) p) (\<lambda>p.
        bind_r (if ie_kind ?e = DYN_EXPR_SLICE
                then reachable_expression ir (ucast (ie_integer ?e)) (depth + 1) p else Inr p) (\<lambda>p.
        if unat (ie_item_start ?e) + unat (ie_item_count ?e) > length (p_items ir) then invalid_ir
        else fold_r (\<lambda>k p. reachable_expression ir (item_of ir ?e k) (depth + 1) p)
               [0..<unat (ie_item_count ?e)] p))))) = Inr q"
    using assms(2,5,6) bounds unfolding reachable_expression.simps [of ir i depth p] Let_def by simp
  consider (fun_value) "ie_kind ?e = DYN_EXPR_FUNCTION" | (leaf) "leaf_kind (ie_kind ?e)"
    | (inner) "ie_kind ?e \<noteq> DYN_EXPR_FUNCTION" "\<not> leaf_kind (ie_kind ?e)" by blast
  then show ?thesis
  proof cases
    case fun_value
    then show ?thesis
      using visits_function [of ir _ ?p q P] run P fit by (simp add: expr_successors_def)
  next
    case leaf
    then have "ie_kind ?e \<noteq> DYN_EXPR_FUNCTION" by (auto simp: leaf_kind_def)
    with leaf show ?thesis using run fit by (simp add: expr_successors_def visits_refl)
  next
    case inner
    then obtain p1 where p1: "(if ie_kind ?e = DYN_EXPR_CALL then reachable_function ir (unat (ie_integer ?e)) ?p
        else Inr ?p) = Inr p1" and rest: "bind_r (reachable_expression ir (ie_left ?e) (depth + 1) p1) (\<lambda>p.
        bind_r (reachable_expression ir (ie_right ?e) (depth + 1) p) (\<lambda>p.
        bind_r (if ie_kind ?e = DYN_EXPR_SLICE
                then reachable_expression ir (ucast (ie_integer ?e)) (depth + 1) p else Inr p) (\<lambda>p.
        if unat (ie_item_start ?e) + unat (ie_item_count ?e) > length (p_items ir) then invalid_ir
        else fold_r (\<lambda>k p. reachable_expression ir (item_of ir ?e k) (depth + 1) p)
               [0..<unat (ie_item_count ?e)] p))) = Inr q"
      using run unfolding if_not_P [OF inner(1)] if_not_P [OF inner(2)] bind_r_eq_Inr [of "if _ then _ else _"] by blast
    have call: "visits ir P (if ie_kind ?e = DYN_EXPR_CALL then fn_nodes ir (unat (ie_integer ?e)) else []) ?p p1"
      using p1 P inner visits_function [of ir _ ?p p1 P] fit visits_refl [OF fit]
      by (auto simp: expr_successors_def split: if_splits)
    have "visits ir P (operand_nodes ir ?e) p1 q"
      using P inner by (intro visit_operands [OF assms(1) _ visits_fitting [OF call] rest])
        (auto simp: expr_successors_def)
    with call show ?thesis using inner visits_trans by (simp add: expr_successors_def)
  qed
qed

lemma visit_expression:
  "\<forall>n \<in> set (expr_nodes i). P n \<Longrightarrow> fitting ir p \<Longrightarrow> reachable_expression ir i depth p = Inr q \<Longrightarrow>
    visits ir P (expr_nodes i) p q"
proof (induction "1025 - depth" arbitrary: i depth p q rule: less_induct)
  case less
  show ?case
  proof (cases "i = DYN_NO_EXPR")
    case True
    then show ?thesis
      using less.prems by (simp add: expr_nodes_def reachable_expression_none visits_refl)
  next
    case False
    then have i: "unat i < length (p_expressions ir)" "depth \<le> 1024"
      using reachable_expression_bounds [OF less.prems(3)] by auto
    have Pi: "P (Ex i)" using less.prems(1) False by (simp add: expr_nodes_def)
    show ?thesis
    proof (cases "re_expressions p ! unat i")
      case True
      then have q: "q = p" using less.prems(3) reachable_expression_seen [OF i] by simp
      have "\<forall>n \<in> set (expr_nodes i). seen p n"
        using less.prems(2) i(1) True by (simp add: expr_nodes_def fitting_def)
      then show ?thesis unfolding q by (rule visits_skip [OF less.prems(2)])
    next
      case new: False
      have "1025 - (depth + 1) < 1025 - depth" using i(2) by simp
      then have "visits ir P (successors ir (Ex i)) (mark_expression i p) q"
        by (rule visit_successors [OF less.hyps False Pi less.prems(2) new less.prems(3)])
      then have "visits ir P [Ex i] p q"
        by (intro visits_marked [where n = "Ex i" and P = P, OF seen_mark_expression [OF less.prems(2) i(1)] _ Pi])
          (simp add: mark_expression_def)
      then show ?thesis using False by (simp add: expr_nodes_def)
    qed
  qed
qed

lemma visit_statement:
  assumes "\<And>start count p q. \<forall>n \<in> set (block_nodes ir start count). P n \<Longrightarrow> fitting ir p \<Longrightarrow>
      block start count p = Inr q \<Longrightarrow> visits ir P (block_nodes ir start count) p q"
    and "P (St s)" and "fitting ir p" and "statement_step ir block s p = Inr q"
  shows "visits ir P [St s] p q"
proof (cases "re_statements p ! s")
  case True
  then have q: "q = p" and s: "s < length (p_statements ir)"
    using assms(4) by (auto simp: statement_step_def split: if_splits)
  have "\<forall>n \<in> set [St s]. seen p n" using True s assms(3) by (simp add: fitting_def)
  then show ?thesis unfolding q by (rule visits_skip [OF assms(3)])
next
  case False
  have s: "s < length (p_statements ir)" using assms(4) by (auto simp: statement_step_def split: if_splits)
  let ?st = "p_statements ir ! s" and ?p = "mark_statement s p"
  obtain p1 p2 p3 p4 where steps: "reachable_expression ir (ist_expression ?st) 0 ?p = Inr p1"
    "reachable_expression ir (ist_target ?st) 0 p1 = Inr p2"
    "block (ist_body_start ?st) (ist_body_count ?st) p2 = Inr p3"
    "block (ist_else_start ?st) (ist_else_count ?st) p3 = Inr p4"
    "(if unat (ist_case_arm_start ?st) + unat (ist_case_arm_count ?st) > length (p_case_arms ir) then invalid_ir
      else fold_r (\<lambda>a. block (ic_body_start (arm_of ir ?st a)) (ic_body_count (arm_of ir ?st a)))
        [0..<unat (ist_case_arm_count ?st)] p4) = Inr q"
    using assms(4) unfolding statement_step_def Let_def if_not_P [OF iffD2 [OF not_le s]] if_not_P [OF False] bind_r_eq_Inr
    by blast
  have arms: "fold_r (\<lambda>a. block (ic_body_start (arm_of ir ?st a)) (ic_body_count (arm_of ir ?st a)))
      [0..<unat (ist_case_arm_count ?st)] p4 = Inr q" using steps(5) by (simp split: if_splits)
  have P: "\<forall>n \<in> set (stmt_successors ir ?st). P n" using closed [OF assms(2)] by simp
  then have Ps: "\<forall>n \<in> set (expr_nodes (ist_expression ?st)). P n" "\<forall>n \<in> set (expr_nodes (ist_target ?st)). P n"
    "\<forall>n \<in> set (block_nodes ir (ist_body_start ?st) (ist_body_count ?st)). P n"
    "\<forall>n \<in> set (block_nodes ir (ist_else_start ?st) (ist_else_count ?st)). P n"
    "\<And>a. a < unat (ist_case_arm_count ?st) \<Longrightarrow>
      \<forall>n \<in> set (block_nodes ir (ic_body_start (arm_of ir ?st a)) (ic_body_count (arm_of ir ?st a))). P n"
    by (auto simp: stmt_successors_def)
  have fit: "fitting ir ?p" using assms(3) by (rule fitting_mark)
  note 1 = visit_expression [OF Ps(1) fit steps(1)]
  note 2 = visit_expression [OF Ps(2) visits_fitting [OF 1] steps(2)]
  note 3 = assms(1) [OF Ps(3) visits_fitting [OF 2] steps(3)]
  note 4 = assms(1) [OF Ps(4) visits_fitting [OF 3] steps(4)]
  have 5: "visits ir P (concat (map (\<lambda>a. block_nodes ir (ic_body_start (arm_of ir ?st a))
      (ic_body_count (arm_of ir ?st a))) [0..<unat (ist_case_arm_count ?st)])) p4 q"
    using assms(1) [OF Ps(5)] by (intro visits_fold [OF _ arms visits_fitting [OF 4]]) auto
  have "visits ir P (successors ir (St s)) ?p q" unfolding successors.simps stmt_successors_def
    by (rule visits_trans [OF 1 visits_trans [OF 2 visits_trans [OF 3 visits_trans [OF 4 5]]]])
  then show ?thesis
    by (intro visits_marked [where n = "St s" and P = P, OF seen_mark_statement [OF assms(3) s] _ assms(2)])
      (simp add: mark_statement_def)
qed

lemma visit_block:
  "\<forall>n \<in> set (block_nodes ir start count). P n \<Longrightarrow> fitting ir p \<Longrightarrow> reachable_block ir start count depth p = Inr q \<Longrightarrow>
    visits ir P (block_nodes ir start count) p q"
proof (induction "1025 - depth" arbitrary: start count depth p q rule: less_induct)
  case less
  let ?block = "\<lambda>start count. reachable_block ir start count (depth + 1)"
  have depth: "depth \<le> 1024" and run: "fold_r (\<lambda>i. statement_step ir ?block (child_of ir start i)) [0..<unat count] p = Inr q"
    using less.prems(3) unfolding reachable_block_steps [of ir start count depth p] by (auto simp: not_le split: if_splits)
  have lt: "1025 - (depth + 1) < 1025 - depth" using depth by simp
  have P: "P (St (child_of ir start i))" if "i < unat count" for i
    using less.prems(1) that by (auto simp: block_nodes_def)
  show ?case unfolding block_nodes_def
    using P by (intro visits_fold [OF _ run less.prems(2)] visit_statement [OF less.hyps [OF lt]]) auto
qed

text \<open>
  \<open>settled at p\<close>: every marked expression and statement, and the first \<open>at\<close> functions of the queue,
  have their successors marked.
\<close>

definition settled :: "nat \<Rightarrow> reach \<Rightarrow> bool" where
  "settled at p \<longleftrightarrow> fitting ir p \<and> at \<le> length (re_queue p) \<and> (\<forall>n. seen p n \<longrightarrow> P n) \<and>
     (\<forall>n. seen p n \<and> (\<forall>f. n \<noteq> Fn f) \<longrightarrow> (\<forall>m \<in> set (successors ir n). seen p m)) \<and>
     (\<forall>k < at. \<forall>m \<in> set (successors ir (Fn (re_queue p ! k))). seen p m)"

lemma settled_visits:
  assumes "settled at p" and "visits ir P N p q"
  shows "settled at q"
proof -
  obtain new where new: "re_queue q = re_queue p @ new" using assms(2) by (auto simp: visits_def)
  have "re_queue q ! k = re_queue p ! k" if "k < at" for k
    using that assms(1) by (simp add: new nth_append settled_def)
  then show ?thesis using assms unfolding settled_def visits_def by (simp add: new) blast
qed

lemma settled_function:
  assumes "settled at p" and "at < length (re_queue p)" and "visits ir P (successors ir (Fn (re_queue p ! at))) p q"
  shows "settled (Suc at) q"
proof -
  have q: "settled at q" by (rule settled_visits [OF assms(1,3)])
  obtain new where new: "re_queue q = re_queue p @ new" using assms(3) by (auto simp: visits_def)
  have "re_queue q ! at = re_queue p ! at" using assms(2) by (simp add: new nth_append)
  moreover have "\<forall>m \<in> set (successors ir (Fn (re_queue p ! at))). seen q m" using assms(3) unfolding visits_def by blast
  moreover have "Suc at \<le> length (re_queue q)" using assms(2) by (simp add: new)
  ultimately show ?thesis using q unfolding settled_def less_Suc_eq by (auto simp del: successors.simps seen.simps)
qed

lemma queue_length: "fitting ir p \<Longrightarrow> length (re_queue p) \<le> length (p_functions ir)"
proof -
  assume p: "fitting ir p"
  have "f < length (p_functions ir)" if "f \<in> set (re_queue p)" for f
    using p that by (simp add: fitting_def)
  then have "set (re_queue p) \<subseteq> {..<length (p_functions ir)}" by blast
  then have "card (set (re_queue p)) \<le> card {..<length (p_functions ir)}" by (intro card_mono) simp_all
  then show ?thesis using p by (simp add: fitting_def distinct_card)
qed

lemma process_settles:
  assumes "process_queue ir at rounds p = Inr q" and "settled at p" and "at + rounds = length (p_functions ir)"
  shows "settled (length (re_queue q)) q \<and> (\<forall>n. seen p n \<longrightarrow> seen q n)"
  using assms
proof (induction rounds arbitrary: at p)
  case 0
  then have "at = length (re_queue p)" using queue_length [of p] by (simp add: settled_def)
  then show ?case using 0 by simp
next
  case (Suc rounds)
  show ?case
  proof (cases "at < length (re_queue p)")
    case True
    let ?f = "p_functions ir ! (re_queue p ! at)"
    obtain r where r: "(if \<not> ifn_foreign ?f then reachable_block ir (ifn_body_start ?f) (ifn_body_count ?f) 0 p
        else Inr p) = Inr r" "process_queue ir (Suc at) rounds r = Inr q"
      using Suc.prems(1) True by (auto simp: bind_r_eq_Inr Let_def)
    have fit: "fitting ir p" using Suc.prems(2) by (simp add: settled_def)
    have "seen p (Fn (re_queue p ! at))" using fit nth_mem [OF True] unfolding fitting_def by blast
    then have "P (Fn (re_queue p ! at))" using Suc.prems(2) by (simp add: settled_def del: seen.simps)
    then have P: "\<forall>m \<in> set (successors ir (Fn (re_queue p ! at))). P m" using closed by blast
    have v: "visits ir P (successors ir (Fn (re_queue p ! at))) p r"
      using r(1) P visit_block [OF _ fit] visits_refl [OF fit] by (simp split: if_splits)
    have "settled (length (re_queue q)) q \<and> (\<forall>n. seen r n \<longrightarrow> seen q n)"
      using Suc.prems(3) by (intro Suc.IH [OF r(2) settled_function [OF Suc.prems(2) True v]]) simp
    then show ?thesis using v by (simp add: visits_def)
  next
    case False
    then have "at = length (re_queue p)" using Suc.prems(2) by (simp add: settled_def)
    then show ?thesis using Suc.prems(1,2) by simp
  qed
qed

end

subsection \<open>Pruning keeps exactly what is needed\<close>

interpretation pruning: marking ir "needed ir" for ir
  by unfold_locales (rule needed.step)

definition unmarked :: "ir_program \<Rightarrow> reach" where
  "unmarked ir = \<lparr>re_live = replicate (length (p_functions ir)) False,
      re_expressions = replicate (length (p_expressions ir)) False,
      re_statements = replicate (length (p_statements ir)) False, re_queue = []\<rparr>"

lemma not_seen_unmarked: "\<not> seen (unmarked ir) n"
  by (cases n) (auto simp: unmarked_def)

lemma fitting_unmarked: "fitting ir (unmarked ir)"
  by (auto simp: fitting_def unmarked_def)

definition root_nodes :: "ir_program \<Rightarrow> nat \<Rightarrow> node list" where
  "root_nodes ir i = (if ifn_is_main (p_functions ir ! i) \<or> ifn_foreign (p_functions ir ! i) then fn_nodes ir i else [])"

lemma prune_settled:
  assumes "dyn_ir_prune_functions ir = Inr q"
  shows "pruning.settled ir (length (re_queue q)) q"
    and "\<forall>n \<in> set (concat (map (root_nodes ir) [0..<length (p_functions ir)]) @
      concat (map (\<lambda>g. expr_nodes (ig_initializer g)) (p_globals ir))). seen q n"
proof -
  obtain p1 p2 where steps: "fold_r (\<lambda>i p. let f = p_functions ir ! i in
         if ifn_is_main f \<or> (False \<and> ifn_is_public f) \<or> ifn_foreign f \<or> False
         then reachable_function ir i p else Inr p) [0..<length (p_functions ir)] (unmarked ir) = Inr p1"
    "fold_r (\<lambda>g. reachable_expression ir (ig_initializer g) 0) (p_globals ir) p1 = Inr p2"
    "process_queue ir 0 (length (p_functions ir)) p2 = Inr q"
    using assms unfolding dyn_ir_prune_functions_def reachable_collect_def unmarked_def [symmetric] bind_r_eq_Inr
    by blast
  have 1: "visits ir (needed ir) (concat (map (root_nodes ir) [0..<length (p_functions ir)])) (unmarked ir) p1"
  proof (rule visits_fold [OF _ steps(1) fitting_unmarked])
    fix i p q assume i: "i \<in> set [0..<length (p_functions ir)]" and fit: "fitting ir p"
      and run: "(let f = p_functions ir ! i in if ifn_is_main f \<or> (False \<and> ifn_is_public f) \<or> ifn_foreign f \<or> False
        then reachable_function ir i p else Inr p) = Inr q"
    show "visits ir (needed ir) (root_nodes ir i) p q"
    proof (cases "ifn_is_main (p_functions ir ! i) \<or> ifn_foreign (p_functions ir ! i)")
      case True
      then have "\<forall>n \<in> set (fn_nodes ir i). needed ir n" using i by (auto intro: needed.main)
      then show ?thesis using visits_function [OF _ fit] run True by (simp add: root_nodes_def Let_def)
    next
      case False
      then show ?thesis using run visits_refl [OF fit] by (auto simp: root_nodes_def Let_def)
    qed
  qed
  have 2: "visits ir (needed ir) (concat (map (\<lambda>g. expr_nodes (ig_initializer g)) (p_globals ir))) p1 p2"
    by (rule visits_fold [OF pruning.visit_expression steps(2) visits_fitting [OF 1]]) (auto intro: needed.initializer)
  note 3 = visits_trans [OF 1 2]
  have "pruning.settled ir 0 p2"
    using 3 not_seen_unmarked unfolding pruning.settled_def visits_def by blast
  from pruning.process_settles [OF steps(3) this]
  have fin: "pruning.settled ir (length (re_queue q)) q \<and> (\<forall>n. seen p2 n \<longrightarrow> seen q n)" by simp
  then show "pruning.settled ir (length (re_queue q)) q" by blast
  from fin 3 show "\<forall>n \<in> set (concat (map (root_nodes ir) [0..<length (p_functions ir)]) @
      concat (map (\<lambda>g. expr_nodes (ig_initializer g)) (p_globals ir))). seen q n"
    unfolding visits_def by blast
qed

lemma settled_closed:
  assumes "pruning.settled ir (length (re_queue q)) q" and "seen q n" and "m \<in> set (successors ir n)"
  shows "seen q m"
proof (cases "\<exists>f. n = Fn f")
  case True
  then obtain f where n: "n = Fn f" by blast
  then have "f \<in> set (re_queue q)" using assms(1,2) by (simp add: pruning.settled_def fitting_def)
  then show ?thesis using assms(1,3) unfolding n pruning.settled_def by (metis in_set_conv_nth)
next
  case False
  then show ?thesis using assms unfolding pruning.settled_def by blast
qed

text \<open>C30. Pruning marks exactly what the program needs: a function is live if and only if it can be reached from
  \<open>main\<close>, a foreign function or a global initializer through calls, function values and the statements that
  contain them, and likewise for expressions and statements.\<close>

theorem prune_exact:
  assumes "dyn_ir_prune_functions ir = Inr q"
  shows "seen q n \<longleftrightarrow> needed ir n"
proof
  show "needed ir n" if "seen q n" using that prune_settled(1) [OF assms] by (simp add: pruning.settled_def)
  show "seen q n" if "needed ir n"
    using that
  proof induction
    case (main f n)
    then have "n \<in> set (concat (map (root_nodes ir) [0..<length (p_functions ir)]))"
      by (auto simp: root_nodes_def)
    then show ?case using prune_settled(2) [OF assms] by simp
  next
    case (initializer g n)
    then show ?case using prune_settled(2) [OF assms] by auto
  next
    case (step n m)
    then show ?case using settled_closed [OF prune_settled(1) [OF assms]] by blast
  qed
qed

text \<open>A sample: \<open>main\<close> calls the second function, nothing calls the third.\<close>

definition sample_function :: "bool \<Rightarrow> u32 \<Rightarrow> ir_function" where
  "sample_function is_main count = \<lparr>ifn_name = [], ifn_link_name = [], ifn_debug_name = None,
     ifn_return_type = DYN_TYPE_VOID, ifn_param_start = 0, ifn_param_count = 0, ifn_body_start = 0,
     ifn_body_count = count, ifn_local_start = 0, ifn_local_count = 0, ifn_variadic_local_id = 0,
     ifn_source_line = 0, ifn_source_offset = 0, ifn_is_main = is_main, ifn_foreign = False, ifn_variadic = False,
     ifn_is_public = False, ifn_generic = False, ifn_instance = False, ifn_module_owner = 0,
     ifn_variadic_type = DYN_TYPE_VOID, ifn_math_intrinsic = DYN_MATH_INTRINSIC_NONE,
     ifn_byte_intrinsic = DYN_BYTE_INTRINSIC_NONE\<rparr>"

definition sample_statement :: "stmt_kind \<Rightarrow> expr_id \<Rightarrow> ir_stmt" where
  "sample_statement k e = \<lparr>ist_kind = k, ist_expression = e, ist_target = DYN_NO_EXPR,
     ist_assignment_op = DYN_OP_NONE, ist_local_id = 0, ist_body_start = 0, ist_body_count = 0, ist_else_start = 0,
     ist_else_count = 0, ist_loop_id = 0, ist_target_loop_id = 0, ist_case_arm_start = 0, ist_case_arm_count = 0,
     ist_defer_block = False, ist_for_pointer = False, ist_for_const = False, ist_for_range = False,
     ist_for_inclusive = False, ist_for_reverse = False, ist_span = \<lparr>start_byte = 0, end_byte = 0\<rparr>,
     ist_check_origin = 0\<rparr>"

definition sample_calls :: ir_program where
  "sample_calls = sample_program\<lparr>
     p_expressions := [sample_ir_expr DYN_EXPR_CALL DYN_TYPE_VOID DYN_OP_NONE DYN_NO_EXPR DYN_NO_EXPR 1],
     p_statements := [sample_statement DYN_STMT_EXPR 0], p_children := [0],
     p_functions := [sample_function True 1, sample_function False 0, sample_function False 0]\<rparr>"

lemma sample_calls_tables:
  "p_functions sample_calls = [sample_function True 1, sample_function False 0, sample_function False 0]"
  "p_statements sample_calls = [sample_statement DYN_STMT_EXPR 0]" "p_children sample_calls = [0]"
  "p_globals sample_calls = []" "p_items sample_calls = []" "p_case_arms sample_calls = []"
  "p_expressions sample_calls = [sample_ir_expr DYN_EXPR_CALL DYN_TYPE_VOID DYN_OP_NONE DYN_NO_EXPR DYN_NO_EXPR 1]"
  by (simp_all add: sample_calls_def sample_program_def)

lemma empty_block: "depth \<le> 1024 \<Longrightarrow> reachable_block ir 0 0 depth p = Inr p"
  by (subst reachable_block.simps) simp

lemma sample_block:
  "reachable_block sample_calls 0 1 0 \<lparr>re_live = [True, False, False], re_expressions = [False],
      re_statements = [False], re_queue = [0]\<rparr> =
   Inr \<lparr>re_live = [True, True, False], re_expressions = [True], re_statements = [True], re_queue = [0, 1]\<rparr>"
proof -
  have "reachable_expression sample_calls 0 0 \<lparr>re_live = [True, False, False], re_expressions = [False],
      re_statements = [True], re_queue = [0]\<rparr> =
    Inr \<lparr>re_live = [True, True, False], re_expressions = [True], re_statements = [True], re_queue = [0, 1]\<rparr>"
    unfolding reachable_expression.simps [of sample_calls 0]
    by (simp add: sample_calls_tables sample_ir_expr_def expr_at_def mark_expression_def leaf_kind_def
        reachable_function_def sample_function_def reachable_expression_none)
  then show ?thesis
    unfolding reachable_block_steps [of sample_calls 0 1 0]
    by (simp add: sample_calls_tables statement_step_def child_of_def sample_statement_def mark_statement_def
        reachable_expression_none empty_block)
qed

lemma sample_prune:
  "dyn_ir_prune_functions sample_calls =
   Inr \<lparr>re_live = [True, True, False], re_expressions = [True], re_statements = [True], re_queue = [0, 1]\<rparr>"
  unfolding dyn_ir_prune_functions_def reachable_collect_def sample_calls_tables
  by (simp add: sample_calls_tables sample_function_def reachable_function_def sample_block empty_block
      numeral_3_eq_3 upt_rec)

theorem prune_exact_witness:
  "needed sample_calls (Fn 1) \<and> \<not> needed sample_calls (Fn 2)"
  using prune_exact [OF sample_prune, of "Fn 1"] prune_exact [OF sample_prune, of "Fn 2"] by simp

text \<open>A sample: \<open>main\<close> evaluates a struct literal without items; its field has the second function as default.\<close>

definition sample_defaults :: ir_program where
  "sample_defaults = sample_program\<lparr>
     p_expressions := [sample_ir_expr DYN_EXPR_STRUCT DYN_TYPE_STRUCT_BASE DYN_OP_NONE DYN_NO_EXPR DYN_NO_EXPR 0,
       sample_ir_expr DYN_EXPR_FUNCTION DYN_TYPE_POINTER_BASE DYN_OP_NONE DYN_NO_EXPR DYN_NO_EXPR 1],
     p_structs := [\<lparr>is_name = [], is_span = \<lparr>start_byte = 0, end_byte = 0\<rparr>, is_packed = False, is_is_public = False,
       is_module_owner = 0, is_field_start = 0, is_field_count = 1, is_size = 8, is_alignment = 8\<rparr>],
     p_fields := [\<lparr>if_name = [], if_type = DYN_TYPE_POINTER_BASE, if_default_expression = 1\<rparr>],
     p_statements := [sample_statement DYN_STMT_EXPR 0], p_children := [0],
     p_functions := [sample_function True 1, sample_function False 0]\<rparr>"

lemma sample_defaults_tables:
  "p_functions sample_defaults = [sample_function True 1, sample_function False 0]"
  "p_statements sample_defaults = [sample_statement DYN_STMT_EXPR 0]" "p_children sample_defaults = [0]"
  "p_globals sample_defaults = []" "p_items sample_defaults = []" "p_case_arms sample_defaults = []"
  "p_expressions sample_defaults =
     [sample_ir_expr DYN_EXPR_STRUCT DYN_TYPE_STRUCT_BASE DYN_OP_NONE DYN_NO_EXPR DYN_NO_EXPR 0,
      sample_ir_expr DYN_EXPR_FUNCTION DYN_TYPE_POINTER_BASE DYN_OP_NONE DYN_NO_EXPR DYN_NO_EXPR 1]"
  "p_fields sample_defaults = [\<lparr>if_name = [], if_type = DYN_TYPE_POINTER_BASE, if_default_expression = 1\<rparr>]"
  by (simp_all add: sample_defaults_def sample_program_def)

lemma sample_defaults_block:
  "reachable_block sample_defaults 0 1 0 \<lparr>re_live = [True, False], re_expressions = [False, False],
      re_statements = [False], re_queue = [0]\<rparr> =
   Inr \<lparr>re_live = [True, False], re_expressions = [True, False], re_statements = [True], re_queue = [0]\<rparr>"
proof -
  have "reachable_expression sample_defaults 0 0 \<lparr>re_live = [True, False], re_expressions = [False, False],
      re_statements = [True], re_queue = [0]\<rparr> =
    Inr \<lparr>re_live = [True, False], re_expressions = [True, False], re_statements = [True], re_queue = [0]\<rparr>"
    unfolding reachable_expression.simps [of sample_defaults 0]
    by (simp add: sample_defaults_tables sample_ir_expr_def expr_at_def mark_expression_def leaf_kind_def
        reachable_expression_none)
  then show ?thesis
    unfolding reachable_block_steps [of sample_defaults 0 1 0]
    by (simp add: sample_defaults_tables statement_step_def child_of_def sample_statement_def mark_statement_def
        reachable_expression_none empty_block)
qed

text \<open>A function that occurs only as the default value of a struct field is pruned, although the struct
  literal in the body of \<open>main\<close> evaluates that default.\<close>

lemma default_function_pruned:
  "(\<exists>q. dyn_ir_prune_functions sample_defaults = Inr q \<and> seen q (Fn 0) \<and> seen q (Ex 0) \<and> \<not> seen q (Fn 1)) \<and>
   ie_kind (expr_at sample_defaults 0) = DYN_EXPR_STRUCT \<and>
   ie_kind (expr_at sample_defaults (if_default_expression (p_fields sample_defaults ! 0))) = DYN_EXPR_FUNCTION \<and>
   ie_integer (expr_at sample_defaults (if_default_expression (p_fields sample_defaults ! 0))) = 1"
proof -
  have "dyn_ir_prune_functions sample_defaults =
    Inr \<lparr>re_live = [True, False], re_expressions = [True, False], re_statements = [True], re_queue = [0]\<rparr>"
    unfolding dyn_ir_prune_functions_def reachable_collect_def sample_defaults_tables
    by (simp add: sample_defaults_tables sample_function_def reachable_function_def sample_defaults_block upt_rec
        eval_nat_numeral)
  then show ?thesis
    by (simp add: sample_defaults_tables expr_at_def sample_ir_expr_def)
qed

end
