(* ===== verification/Opt_Arith.thy ===== *)
theory Opt_Arith
  imports Ir_Ranges
begin

text \<open>
  The scalar arithmetic of the native optimiser (\<open>src/src/native_opt.c\<close>, lines 18-47, 108-202): widths, sign
  extension, and the operators with their overflow tests, on 64-bit words. \<open>wrap_int\<close> and \<open>int_binary\<close> are the
  reference: checked and wrapping arithmetic on mathematical integers.
\<close>

unbundle bit_operations_syntax

subsection \<open>Operators on words\<close>

definition scalar_width :: "nat \<Rightarrow> dyn_type \<Rightarrow> nat" where
  "scalar_width pointer_bits t =
     (if t = DYN_TYPE_BOOL then 1
      else if t = DYN_TYPE_I8 \<or> t = DYN_TYPE_U8 then 8
      else if t = DYN_TYPE_I16 \<or> t = DYN_TYPE_U16 then 16
      else if t = DYN_TYPE_I32 \<or> t = DYN_TYPE_U32 then 32
      else if t = DYN_TYPE_I64 \<or> t = DYN_TYPE_U64 then 64
      else if t = DYN_TYPE_ISIZE \<or> t = DYN_TYPE_USIZE then pointer_bits
      else 0)"

definition signed_type :: "dyn_type \<Rightarrow> bool" where
  "signed_type t \<longleftrightarrow> (t \<ge> DYN_TYPE_I8 \<and> t \<le> DYN_TYPE_I64) \<or> t = DYN_TYPE_ISIZE"

definition bits_mask :: "nat \<Rightarrow> u64" where
  "bits_mask bits = drop_bit (64 - bits) (- 1)"

definition high_bit :: "nat \<Rightarrow> u64" where
  "high_bit bits = push_bit (bits - 1) 1"

definition normalize_bits :: "u64 \<Rightarrow> nat \<Rightarrow> bool \<Rightarrow> u64" where
  "normalize_bits x bits sign =
     (let m = bits_mask bits; x = x AND m in
      if sign \<and> x AND high_bit bits \<noteq> 0 then x OR (NOT m) else x)"

text \<open>The unary operators; \<open>None\<close> when the operand overflows or the operator is not a scalar one.\<close>

definition unary_value :: "dyn_operator \<Rightarrow> nat \<Rightarrow> bool \<Rightarrow> bool \<Rightarrow> u64 \<Rightarrow> u64 option" where
  "unary_value opr bits sign wrap a =
     (let a = a AND bits_mask bits in
      if opr = DYN_OP_NOT then Some (of_bool (a = 0))
      else if opr = DYN_OP_BIT_NOT then Some (NOT a)
      else if opr = DYN_OP_NEG then
        if \<not> wrap \<and> (if sign then a = high_bit bits else a \<noteq> 0) then None else Some (0 - a)
      else None)"

text \<open>
  The binary operators on operands of \<open>obits\<close> bits: the result and whether it overflowed. \<open>bits\<close> and \<open>sign\<close> belong
  to the type of the result, \<open>osign\<close> to that of the operands.
\<close>

definition binary_value ::
  "dyn_operator \<Rightarrow> nat \<Rightarrow> bool \<Rightarrow> nat \<Rightarrow> bool \<Rightarrow> u64 \<Rightarrow> u64 \<Rightarrow> (u64 \<times> bool) option" where
  "binary_value opr bits sign obits osign a b =
     (let m = bits_mask bits; high = high_bit bits; omask = bits_mask obits; ohigh = high_bit obits;
          a = a AND omask; b = b AND omask;
          x = (if osign then a XOR ohigh else a); y = (if osign then b XOR ohigh else b) in
      case opr of
        DYN_OP_ADD \<Rightarrow>
          let r = (a + b) AND m
          in Some (r, if sign then (NOT (a XOR b)) AND (a XOR r) AND high \<noteq> 0 else b > m - a)
      | DYN_OP_SUB \<Rightarrow>
          let r = (a - b) AND m
          in Some (r, if sign then (a XOR b) AND (a XOR r) AND high \<noteq> 0 else a < b)
      | DYN_OP_MUL \<Rightarrow>
          let r = (a * b) AND m;
              aa = (if sign \<and> a AND high \<noteq> 0 then (0 - a) AND m else a);
              bb = (if sign \<and> b AND high \<noteq> 0 then (0 - b) AND m else b);
              limit = (if sign then if (a XOR b) AND high \<noteq> 0 then high else high - 1 else m)
          in Some (r, bb \<noteq> 0 \<and> aa > limit div bb)
      | DYN_OP_BIT_AND \<Rightarrow> Some (a AND b, False)
      | DYN_OP_BIT_OR \<Rightarrow> Some (a OR b, False)
      | DYN_OP_BIT_XOR \<Rightarrow> Some (a XOR b, False)
      | DYN_OP_EQ \<Rightarrow> Some (of_bool (a = b), False)
      | DYN_OP_NE \<Rightarrow> Some (of_bool (a \<noteq> b), False)
      | DYN_OP_LT \<Rightarrow> Some (of_bool (x < y), False)
      | DYN_OP_LE \<Rightarrow> Some (of_bool (x \<le> y), False)
      | DYN_OP_GT \<Rightarrow> Some (of_bool (x > y), False)
      | DYN_OP_GE \<Rightarrow> Some (of_bool (x \<ge> y), False)
      | DYN_OP_LOGICAL_AND \<Rightarrow> Some (of_bool (a \<noteq> 0 \<and> b \<noteq> 0), False)
      | DYN_OP_LOGICAL_OR \<Rightarrow> Some (of_bool (a \<noteq> 0 \<or> b \<noteq> 0), False)
      | _ \<Rightarrow> None)"

subsection \<open>The reference\<close>

definition wrap_int :: "nat \<Rightarrow> bool \<Rightarrow> int \<Rightarrow> int" where
  "wrap_int bits sign v = (if sign then signed_take_bit (bits - 1) v else take_bit bits v)"

definition in_type :: "nat \<Rightarrow> bool \<Rightarrow> int \<Rightarrow> bool" where
  "in_type bits sign v \<longleftrightarrow> (if sign then - (2 ^ (bits - 1)) \<le> v \<and> v < 2 ^ (bits - 1) else 0 \<le> v \<and> v < 2 ^ bits)"

definition checked :: "nat \<Rightarrow> bool \<Rightarrow> bool \<Rightarrow> int \<Rightarrow> int option" where
  "checked bits sign wrap v = (if in_type bits sign v \<or> wrap then Some (wrap_int bits sign v) else None)"

definition int_unary :: "dyn_operator \<Rightarrow> nat \<Rightarrow> bool \<Rightarrow> bool \<Rightarrow> int \<Rightarrow> int option" where
  "int_unary opr bits sign wrap a =
     (if opr = DYN_OP_NOT then Some (of_bool (a = 0))
      else if opr = DYN_OP_BIT_NOT then Some (wrap_int bits sign (NOT a))
      else if opr = DYN_OP_NEG then checked bits sign wrap (- a)
      else None)"

definition int_binary :: "dyn_operator \<Rightarrow> nat \<Rightarrow> bool \<Rightarrow> bool \<Rightarrow> int \<Rightarrow> int \<Rightarrow> int option" where
  "int_binary opr bits sign wrap a b =
     (case opr of
        DYN_OP_ADD \<Rightarrow> checked bits sign wrap (a + b)
      | DYN_OP_SUB \<Rightarrow> checked bits sign wrap (a - b)
      | DYN_OP_MUL \<Rightarrow> checked bits sign wrap (a * b)
      | DYN_OP_BIT_AND \<Rightarrow> Some (a AND b)
      | DYN_OP_BIT_OR \<Rightarrow> Some (a OR b)
      | DYN_OP_BIT_XOR \<Rightarrow> Some (a XOR b)
      | DYN_OP_EQ \<Rightarrow> Some (of_bool (a = b))
      | DYN_OP_NE \<Rightarrow> Some (of_bool (a \<noteq> b))
      | DYN_OP_LT \<Rightarrow> Some (of_bool (a < b))
      | DYN_OP_LE \<Rightarrow> Some (of_bool (a \<le> b))
      | DYN_OP_GT \<Rightarrow> Some (of_bool (a > b))
      | DYN_OP_GE \<Rightarrow> Some (of_bool (a \<ge> b))
      | DYN_OP_LOGICAL_AND \<Rightarrow> Some (of_bool (a \<noteq> 0 \<and> b \<noteq> 0))
      | DYN_OP_LOGICAL_OR \<Rightarrow> Some (of_bool (a \<noteq> 0 \<or> b \<noteq> 0))
      | _ \<Rightarrow> None)"

lemma in_type_wrap: "0 < bits \<Longrightarrow> in_type bits sign v \<longleftrightarrow> wrap_int bits sign v = v"
  by (simp add: in_type_def wrap_int_def signed_take_bit_int_eq_self_iff take_bit_int_eq_self_iff)

lemma wrap_int_in_type: "0 < bits \<Longrightarrow> in_type bits sign (wrap_int bits sign v)"
  by (simp add: in_type_wrap) (simp add: wrap_int_def)

lemma wrap_int_cong: "0 < bits \<Longrightarrow> take_bit bits x = take_bit bits y \<Longrightarrow> wrap_int bits sign x = wrap_int bits sign y"
  by (simp add: wrap_int_def signed_take_bit_eq_iff_take_bit_eq)

lemma wrap_int_take_bit: "0 < bits \<Longrightarrow> bits \<le> n \<Longrightarrow> wrap_int bits sign (take_bit n v) = wrap_int bits sign v"
  by (rule wrap_int_cong) (simp_all add: min_def)

subsection \<open>Words and integers\<close>

lemma bits_mask: "bits \<le> 64 \<Longrightarrow> bits_mask bits = mask bits"
  by (simp add: bits_mask_def drop_bit_of_minus_1_eq)

lemma high_bit_and: "0 < bits \<Longrightarrow> bits \<le> 64 \<Longrightarrow> (w AND high_bit bits \<noteq> 0) \<longleftrightarrow> bit w (bits - 1)"
  by (simp add: high_bit_def push_bit_of_1 and_exp_eq_0_iff_not_bit)

lemma normalize_word:
  assumes "0 < bits" and "bits \<le> 64"
  shows "normalize_bits (word_of_int v) bits sign = word_of_int (wrap_int bits sign v)"
proof (rule bit_word_eqI)
  fix n assume "n < LENGTH(64)"
  then show "bit (normalize_bits (word_of_int v) bits sign) n \<longleftrightarrow> bit (word_of_int (wrap_int bits sign v) :: u64) n"
    using assms by (cases bits)
      (auto simp: normalize_bits_def Let_def high_bit_and bits_mask wrap_int_def bit_simps min_def not_le le_less_Suc_eq
        dest: Suc_leI)
qed

lemma normalize_masked: "bits \<le> 64 \<Longrightarrow> normalize_bits (x AND bits_mask bits) bits sign = normalize_bits x bits sign"
  by (simp add: normalize_bits_def and.assoc)

lemma masked_word: "bits \<le> 64 \<Longrightarrow> (word_of_int v :: u64) AND bits_mask bits = word_of_int (take_bit bits v)"
  by (rule bit_word_eqI) (auto simp: bits_mask bit_simps)

lemma uint_small:
  assumes "bits \<le> 64" and "0 \<le> v" and "v < 2 ^ bits"
  shows "uint (word_of_int v :: u64) = v"
proof -
  have "(2 :: int) ^ bits \<le> 2 ^ 64" using assms(1) by (intro power_increasing) simp_all
  with assms(3) have "v < 2 ^ 64" by linarith
  with assms(2) show ?thesis by (simp add: uint_word_of_int_eq take_bit_int_eq_self)
qed

lemma bit_of_range:
  assumes "- (2 * 2 ^ n) \<le> s" and "s < 2 * 2 ^ n"
  shows "bit (s :: int) n \<longleftrightarrow> - (2 ^ n) \<le> s \<and> s < 0 \<or> 2 ^ n \<le> s"
proof -
  let ?H = "2 ^ n :: int"
  have q: "s div ?H = q" if "?H * q \<le> s" "s < ?H * q + ?H" for q
    using that by (intro int_div_pos_eq [of s ?H q "s - ?H * q"]) simp_all
  have H: "0 < ?H" by simp
  consider "s < - ?H" | "- ?H \<le> s" "s < 0" | "0 \<le> s" "s < ?H" | "?H \<le> s" by linarith
  then show ?thesis
  proof cases
    case 1
    then have "s div ?H = - 2" using assms by (intro q) simp_all
    moreover have "\<not> ?H \<le> s" using 1 H by linarith
    ultimately show ?thesis using 1 by (simp add: bit_iff_odd)
  next
    case 2
    then have "s div ?H = - 1" by (intro q) simp_all
    then show ?thesis using 2 by (simp add: bit_iff_odd)
  next
    case 3
    then have "s div ?H = 0" by (intro q) simp_all
    then show ?thesis using 3 by (simp add: bit_iff_odd)
  next
    case 4
    then have "s div ?H = 1" using assms by (intro q) simp_all
    then show ?thesis using 4 by (simp add: bit_iff_odd)
  qed
qed

lemma bit_negative: "in_type bits True v \<Longrightarrow> bit v (bits - 1) \<longleftrightarrow> v < 0"
  using bit_of_range [of "bits - 1" v] by (auto simp: in_type_def)

lemma two_power_bits: "0 < bits \<Longrightarrow> (2 :: int) ^ bits = 2 * 2 ^ (bits - 1)"
  by (cases bits) simp_all

subsection \<open>Overflow tests\<close>

text \<open>The sign tests of addition and subtraction.\<close>

lemma signed_add_overflow:
  assumes "0 < bits" and "in_type bits True a" and "in_type bits True b"
  shows "(bit a (bits - 1) \<longleftrightarrow> bit b (bits - 1)) \<and> bit a (bits - 1) \<noteq> bit (a + b) (bits - 1) \<longleftrightarrow> \<not> in_type bits True (a + b)"
  unfolding bit_negative [OF assms(2)] bit_negative [OF assms(3)]
  using assms(2,3) bit_of_range [of "bits - 1" "a + b"] by (auto simp: in_type_def)

lemma signed_sub_overflow:
  assumes "0 < bits" and "in_type bits True a" and "in_type bits True b"
  shows "bit a (bits - 1) \<noteq> bit b (bits - 1) \<and> bit a (bits - 1) \<noteq> bit (a - b) (bits - 1) \<longleftrightarrow> \<not> in_type bits True (a - b)"
  unfolding bit_negative [OF assms(2)] bit_negative [OF assms(3)]
  using assms(2,3) bit_of_range [of "bits - 1" "a - b"] by (auto simp: in_type_def)

lemma signed_mul_overflow:
  assumes "in_type bits True a" and "in_type bits True b"
  shows "\<bar>a\<bar> * \<bar>b\<bar> > (if (a < 0) \<noteq> (b < 0) then 2 ^ (bits - 1) else 2 ^ (bits - 1) - 1) \<longleftrightarrow> \<not> in_type bits True (a * b)"
proof (cases "(a < 0) \<noteq> (b < 0)")
  case True
  then have "a * b = - (\<bar>a\<bar> * \<bar>b\<bar>)" "0 \<le> \<bar>a\<bar> * \<bar>b\<bar>" by auto
  moreover have "(0 :: int) < 2 ^ (bits - 1)" by simp
  ultimately show ?thesis using True unfolding in_type_def if_P [OF TrueI] if_P [OF True] by linarith
next
  case False
  then have "a * b = \<bar>a\<bar> * \<bar>b\<bar>" "0 \<le> \<bar>a\<bar> * \<bar>b\<bar>" by (auto simp: mult_neg_neg)
  moreover have "(0 :: int) < 2 ^ (bits - 1)" by simp
  ultimately show ?thesis unfolding in_type_def if_P [OF TrueI] if_not_P [OF False] by linarith
qed

text \<open>Reading the masked operands.\<close>

lemma masked_uint:
  assumes "bits \<le> 64"
  shows "uint ((word_of_int v :: u64) AND bits_mask bits) = take_bit bits v"
  unfolding masked_word [OF assms] by (rule uint_small [OF assms]) simp_all

lemma take_bit_unsigned: "in_type bits False v \<Longrightarrow> take_bit bits v = v"
  by (simp add: in_type_def take_bit_int_eq_self)

lemma masked_bit:
  assumes "0 < bits" and "bits \<le> 64"
  shows "bit ((word_of_int v :: u64) AND bits_mask bits) (bits - 1) \<longleftrightarrow> bit v (bits - 1)"
  using assms by (auto simp: bits_mask bit_simps)

lemma magnitude:
  assumes bits: "0 < bits" "bits \<le> 64" and v: "in_type bits sign v"
  defines "a \<equiv> (word_of_int v :: u64) AND bits_mask bits"
  shows "uint (if sign \<and> a AND high_bit bits \<noteq> 0 then (0 - a) AND bits_mask bits else a) = \<bar>v\<bar>"
proof (cases "sign \<and> v < 0")
  case True
  then have "bit a (bits - 1)" using bit_negative v masked_bit [OF bits] by (simp add: a_def)
  moreover have "0 - a = word_of_int (- take_bit bits v)" by (simp add: a_def masked_word [OF bits(2)])
  then have "uint ((0 - a) AND bits_mask bits) = take_bit bits (- take_bit bits v)"
    by (simp only: masked_uint [OF bits(2)])
  moreover have "take_bit bits (- take_bit bits v) = - v"
  proof -
    have "take_bit bits (- take_bit bits v) = take_bit bits (- v)" by (simp add: take_bit_minus)
    also have "\<dots> = - v" using True v two_power_bits [OF bits(1)] by (intro take_bit_int_eq_self) (auto simp: in_type_def)
    finally show ?thesis .
  qed
  ultimately show ?thesis using True by (simp add: high_bit_and [OF bits])
next
  case False
  then have nonneg: "0 \<le> v" "v < 2 ^ bits" using v two_power_bits [OF bits(1)] by (auto simp: in_type_def split: if_split_asm)
  then have "uint a = \<bar>v\<bar>" by (simp add: a_def masked_uint [OF bits(2)] take_bit_int_eq_self)
  moreover have "\<not> bit a (bits - 1)" if sign
    using that False bit_negative v masked_bit [OF bits] by (simp add: a_def)
  ultimately show ?thesis by (auto simp: high_bit_and [OF bits])
qed

subsection \<open>The operators are exact\<close>

lemma normalize_of_bool: "0 < bits \<Longrightarrow> bits \<le> 64 \<Longrightarrow> sign \<longrightarrow> 1 < bits \<Longrightarrow> normalize_bits (of_bool p) bits sign = word_of_int (of_bool p)"
proof -
  assume bits: "0 < bits" "bits \<le> 64" "sign \<longrightarrow> 1 < bits"
  have "(1 :: int) < 2 ^ bits" "sign \<Longrightarrow> (1 :: int) < 2 ^ (bits - 1)"
    using bits by (simp_all add: one_less_power)
  then have "in_type bits sign (of_bool p)" by (auto simp: in_type_def)
  then have "wrap_int bits sign (of_bool p) = of_bool p" using in_type_wrap [OF bits(1)] by blast
  then show ?thesis using normalize_word [OF bits(1,2), of "of_bool p" sign] by simp
qed

text \<open>A sum, difference or product of masked operands, normalised.\<close>

lemma normalize_arith:
  fixes va vb :: int
  assumes bits: "0 < bits" "bits \<le> 64"
  defines "a \<equiv> (word_of_int va :: u64) AND bits_mask bits" and "b \<equiv> word_of_int vb AND bits_mask bits"
  shows "normalize_bits ((a + b) AND bits_mask bits) bits sign = word_of_int (wrap_int bits sign (va + vb))"
    and "normalize_bits ((a - b) AND bits_mask bits) bits sign = word_of_int (wrap_int bits sign (va - vb))"
    and "normalize_bits ((a * b) AND bits_mask bits) bits sign = word_of_int (wrap_int bits sign (va * vb))"
proof -
  let ?A = "take_bit bits va" and ?B = "take_bit bits vb"
  have ab: "a = word_of_int ?A" "b = word_of_int ?B" by (simp_all add: a_def b_def masked_word [OF bits(2)])
  note cong = wrap_int_cong [OF bits(1)]
  have eq: "wrap_int bits sign (?A + ?B) = wrap_int bits sign (va + vb)"
    "wrap_int bits sign (?A - ?B) = wrap_int bits sign (va - vb)"
    "wrap_int bits sign (?A * ?B) = wrap_int bits sign (va * vb)"
    by (rule cong, simp add: take_bit_add take_bit_diff take_bit_mult)+
  show "normalize_bits ((a + b) AND bits_mask bits) bits sign = word_of_int (wrap_int bits sign (va + vb))"
    unfolding normalize_masked [OF bits(2)] ab of_int_add [symmetric] of_int_diff [symmetric] of_int_mult [symmetric] normalize_word [OF bits] eq ..
  show "normalize_bits ((a - b) AND bits_mask bits) bits sign = word_of_int (wrap_int bits sign (va - vb))"
    unfolding normalize_masked [OF bits(2)] ab of_int_add [symmetric] of_int_diff [symmetric] of_int_mult [symmetric] normalize_word [OF bits] eq ..
  show "normalize_bits ((a * b) AND bits_mask bits) bits sign = word_of_int (wrap_int bits sign (va * vb))"
    unfolding normalize_masked [OF bits(2)] ab of_int_add [symmetric] of_int_diff [symmetric] of_int_mult [symmetric] normalize_word [OF bits] eq ..
qed

lemma bit_ops_in_type:
  assumes "0 < bits" and "in_type bits sign a" and "in_type bits sign b"
  shows "wrap_int bits sign (a AND b) = a AND b" "wrap_int bits sign (a OR b) = a OR b"
    "wrap_int bits sign (a XOR b) = a XOR b"
proof -
  have w: "wrap_int bits sign a = a" "wrap_int bits sign b = b" using assms by (simp_all only: in_type_wrap)
  have "wrap_int bits sign (a AND b) = wrap_int bits sign a AND wrap_int bits sign b"
    "wrap_int bits sign (a OR b) = wrap_int bits sign a OR wrap_int bits sign b"
    "wrap_int bits sign (a XOR b) = wrap_int bits sign a XOR wrap_int bits sign b"
    by (auto simp: wrap_int_def intro!: bit_eqI simp: bit_simps)
  then show "wrap_int bits sign (a AND b) = a AND b" "wrap_int bits sign (a OR b) = a OR b"
    "wrap_int bits sign (a XOR b) = a XOR b" by (simp_all only: w)
qed

lemma normalize_bit_ops:
  assumes bits: "0 < bits" "bits \<le> 64" and v: "in_type bits sign va" "in_type bits sign vb"
  defines "a \<equiv> (word_of_int va :: u64) AND bits_mask bits" and "b \<equiv> word_of_int vb AND bits_mask bits"
  shows "normalize_bits (a AND b) bits sign = word_of_int (va AND vb)"
    and "normalize_bits (a OR b) bits sign = word_of_int (va OR vb)"
    and "normalize_bits (a XOR b) bits sign = word_of_int (va XOR vb)"
proof -
  have ops: "a AND b = word_of_int (va AND vb) AND bits_mask bits" "a OR b = word_of_int (va OR vb) AND bits_mask bits"
    "a XOR b = word_of_int (va XOR vb) AND bits_mask bits"
    by (rule bit_word_eqI; auto simp: a_def b_def bits_mask [OF bits(2)] bit_simps)+
  show "normalize_bits (a AND b) bits sign = word_of_int (va AND vb)"
    unfolding ops normalize_masked [OF bits(2)] normalize_word [OF bits] bit_ops_in_type [OF bits(1) v] ..
  show "normalize_bits (a OR b) bits sign = word_of_int (va OR vb)"
    unfolding ops normalize_masked [OF bits(2)] normalize_word [OF bits] bit_ops_in_type [OF bits(1) v] ..
  show "normalize_bits (a XOR b) bits sign = word_of_int (va XOR vb)"
    unfolding ops normalize_masked [OF bits(2)] normalize_word [OF bits] bit_ops_in_type [OF bits(1) v] ..
qed

text \<open>Comparisons flip the sign bit and compare as unsigned.\<close>

lemma flipped_uint:
  assumes bits: "0 < bits" "bits \<le> 64" and v: "in_type bits True v"
  shows "uint (((word_of_int v :: u64) AND bits_mask bits) XOR high_bit bits) = v + 2 ^ (bits - 1)"
proof -
  have "((word_of_int v :: u64) AND bits_mask bits) XOR high_bit bits = word_of_int (v + 2 ^ (bits - 1))"
  proof -
    have "((word_of_int v :: u64) AND bits_mask bits) XOR high_bit bits =
        word_of_int (take_bit bits v XOR push_bit (bits - 1) 1)"
      by (rule bit_word_eqI) (auto simp: masked_word [OF bits(2)] high_bit_def bit_simps)
    also have "take_bit bits v XOR push_bit (bits - 1) 1 = flip_bit (bits - 1) (take_bit bits v)"
      by (simp only: flip_bit_eq_xor)
    also have "\<dots> = v + 2 ^ (bits - 1)"
    proof -
      have "v = take_bit bits v - 2 ^ bits * of_bool (bit v (bits - 1))"
        using v bits(1) signed_take_bit_eq_take_bit_minus [of "bits - 1" v] in_type_wrap [OF bits(1), of True v]
        by (simp add: wrap_int_def)
      then show ?thesis using bits two_power_bits [OF bits(1)]
        by (cases "bit v (bits - 1)") (simp_all add: flip_bit_eq_if unset_bit_eq set_bit_eq bit_take_bit_iff)
    qed
    finally show ?thesis .
  qed
  moreover have "uint (word_of_int (v + 2 ^ (bits - 1)) :: u64) = v + 2 ^ (bits - 1)"
    using v two_power_bits [OF bits(1)] by (intro uint_small [OF bits(2)]) (auto simp: in_type_def)
  ultimately show ?thesis by simp
qed

lemma sign_tests:
  fixes va vb :: int
  assumes bits: "0 < bits" "bits \<le> 64"
  defines "a \<equiv> (word_of_int va :: u64) AND bits_mask bits" and "b \<equiv> word_of_int vb AND bits_mask bits"
  shows "(NOT (a XOR b)) AND (a XOR ((a + b) AND bits_mask bits)) AND high_bit bits \<noteq> 0 \<longleftrightarrow>
      (bit va (bits - 1) \<longleftrightarrow> bit vb (bits - 1)) \<and> bit va (bits - 1) \<noteq> bit (va + vb) (bits - 1)"
    and "(a XOR b) AND (a XOR ((a - b) AND bits_mask bits)) AND high_bit bits \<noteq> 0 \<longleftrightarrow>
      bit va (bits - 1) \<noteq> bit vb (bits - 1) \<and> bit va (bits - 1) \<noteq> bit (va - vb) (bits - 1)"
    and "(a XOR b) AND high_bit bits \<noteq> 0 \<longleftrightarrow> bit va (bits - 1) \<noteq> bit vb (bits - 1)"
proof -
  have n: "bits - 1 < 64" using bits by linarith
  have cong: "bit x (bits - 1) \<longleftrightarrow> bit y (bits - 1)" if "take_bit bits x = take_bit bits (y :: int)" for x y
    using arg_cong [OF that, of "\<lambda>z. bit z (bits - 1)"] bits by (simp add: bit_take_bit_iff)
  have "(a + b) AND bits_mask bits = word_of_int (take_bit bits va + take_bit bits vb) AND bits_mask bits"
    "(a - b) AND bits_mask bits = word_of_int (take_bit bits va - take_bit bits vb) AND bits_mask bits"
    by (simp_all add: a_def b_def masked_word [OF bits(2)])
  then have "bit ((a + b) AND bits_mask bits) (bits - 1) \<longleftrightarrow> bit (take_bit bits va + take_bit bits vb) (bits - 1)"
    "bit ((a - b) AND bits_mask bits) (bits - 1) \<longleftrightarrow> bit (take_bit bits va - take_bit bits vb) (bits - 1)"
    by (simp_all only: masked_bit [OF bits])
  moreover have "bit (take_bit bits va + take_bit bits vb) (bits - 1) \<longleftrightarrow> bit (va + vb) (bits - 1)"
    "bit (take_bit bits va - take_bit bits vb) (bits - 1) \<longleftrightarrow> bit (va - vb) (bits - 1)"
    by (rule cong, simp add: take_bit_add take_bit_diff)+
  moreover have "bit a (bits - 1) \<longleftrightarrow> bit va (bits - 1)" "bit b (bits - 1) \<longleftrightarrow> bit vb (bits - 1)"
    unfolding a_def b_def by (rule masked_bit [OF bits])+
  ultimately show "(NOT (a XOR b)) AND (a XOR ((a + b) AND bits_mask bits)) AND high_bit bits \<noteq> 0 \<longleftrightarrow>
      (bit va (bits - 1) \<longleftrightarrow> bit vb (bits - 1)) \<and> bit va (bits - 1) \<noteq> bit (va + vb) (bits - 1)"
    "(a XOR b) AND (a XOR ((a - b) AND bits_mask bits)) AND high_bit bits \<noteq> 0 \<longleftrightarrow>
      bit va (bits - 1) \<noteq> bit vb (bits - 1) \<and> bit va (bits - 1) \<noteq> bit (va - vb) (bits - 1)"
    "(a XOR b) AND high_bit bits \<noteq> 0 \<longleftrightarrow> bit va (bits - 1) \<noteq> bit vb (bits - 1)"
    unfolding and.assoc [symmetric] high_bit_and [OF bits] bit_and_iff bit_xor_iff bit_not_iff
    using n by auto
qed

definition folded :: "nat \<Rightarrow> bool \<Rightarrow> bool \<Rightarrow> (u64 \<times> bool) option \<Rightarrow> u64 option" where
  "folded bits sign wrap x =
     (case x of None \<Rightarrow> None
      | Some (r, overflow) \<Rightarrow> if overflow \<and> \<not> wrap then None else Some (normalize_bits r bits sign))"

lemma folded_checked:
  "normalize_bits r bits sign = word_of_int (wrap_int bits sign v) \<Longrightarrow> (overflow \<longleftrightarrow> \<not> in_type bits sign v) \<Longrightarrow>
    folded bits sign wrap (Some (r, overflow)) = map_option word_of_int (checked bits sign wrap v)"
  by (auto simp: folded_def checked_def)

lemma mul_limit:
  assumes "uint (aa :: u64) = x" and "uint bb = y" and "uint limit = l"
  shows "bb \<noteq> 0 \<and> aa > limit div bb \<longleftrightarrow> x * y > l"
proof (cases "bb = 0")
  case False
  then have "0 < y" using assms(2) uint_ge_0 [of bb] by (auto simp: order_le_less uint_0_iff)
  then have "l div y < x \<longleftrightarrow> l < x * y"
    using pos_imp_zdiv_neg_iff [of y "l - x * y"] div_mult_self1 [of y l "- x"] by simp
  then show ?thesis using False by (simp add: word_less_def uint_div assms)
next
  case True
  then have "y = 0" using assms(2) by simp
  then show ?thesis using True assms(3) uint_ge_0 [of limit] by simp
qed

text \<open>The operators whose result has the type of the operands.\<close>

definition typed_like_operands :: "dyn_operator \<Rightarrow> bool" where
  "typed_like_operands opr \<longleftrightarrow> opr \<in> {DYN_OP_ADD, DYN_OP_SUB, DYN_OP_MUL, DYN_OP_BIT_AND, DYN_OP_BIT_OR, DYN_OP_BIT_XOR}"

lemma if_test: "(p \<Longrightarrow> x = z) \<Longrightarrow> (\<not> p \<Longrightarrow> y = z) \<Longrightarrow> (if p then x else y) = z"
  by simp

lemma fold_add:
  assumes bits: "0 < bits" "bits \<le> 64" and v: "in_type bits sign va" "in_type bits sign vb"
  shows "folded bits sign wrap (binary_value DYN_OP_ADD bits sign bits sign (word_of_int va) (word_of_int vb)) =
    map_option word_of_int (int_binary DYN_OP_ADD bits sign wrap va vb)"
proof -
  let ?a = "(word_of_int va :: u64) AND bits_mask bits" and ?b = "(word_of_int vb :: u64) AND bits_mask bits"
  have unsigned: "?b > bits_mask bits - ?a \<longleftrightarrow> \<not> in_type bits sign (va + vb)" if "\<not> sign"
  proof -
    have u: "uint ?a = va" "uint ?b = vb" using v that by (simp_all add: masked_uint [OF bits(2)] take_bit_unsigned)
    have m: "uint (bits_mask bits) = 2 ^ bits - 1"
      using masked_uint [OF bits(2), of "- 1"] by (simp add: mask_eq_exp_minus_1)
    have "?a \<le> bits_mask bits" using v(1) that by (simp add: word_le_def u m in_type_def)
    then have "uint (bits_mask bits - ?a) = 2 ^ bits - 1 - va" using uint_minus_simple_alt u m by metis
    then show ?thesis using v that by (auto simp: word_less_def u in_type_def)
  qed
  have signed: "(NOT (?a XOR ?b)) AND (?a XOR ((?a + ?b) AND bits_mask bits)) AND high_bit bits \<noteq> 0 \<longleftrightarrow> \<not> in_type bits sign (va + vb)" if sign
    unfolding sign_tests(1) [OF bits] using v that by (simp only: signed_add_overflow [OF bits(1)])
  show ?thesis unfolding binary_value_def int_binary_def Let_def dyn_operator.case
    by (rule folded_checked [OF normalize_arith(1) [OF bits]]) (rule if_test, erule signed, erule unsigned)
qed

lemma fold_sub:
  assumes bits: "0 < bits" "bits \<le> 64" and v: "in_type bits sign va" "in_type bits sign vb"
  shows "folded bits sign wrap (binary_value DYN_OP_SUB bits sign bits sign (word_of_int va) (word_of_int vb)) =
    map_option word_of_int (int_binary DYN_OP_SUB bits sign wrap va vb)"
proof -
  let ?a = "(word_of_int va :: u64) AND bits_mask bits" and ?b = "(word_of_int vb :: u64) AND bits_mask bits"
  have unsigned: "?a < ?b \<longleftrightarrow> \<not> in_type bits sign (va - vb)" if "\<not> sign"
  proof -
    have u: "uint ?a = va" "uint ?b = vb" using v that by (simp_all add: masked_uint [OF bits(2)] take_bit_unsigned)
    show ?thesis using v that by (auto simp: word_less_def u in_type_def)
  qed
  have signed: "(?a XOR ?b) AND (?a XOR ((?a - ?b) AND bits_mask bits)) AND high_bit bits \<noteq> 0 \<longleftrightarrow> \<not> in_type bits sign (va - vb)" if sign
    unfolding sign_tests(2) [OF bits] using v that by (simp only: signed_sub_overflow [OF bits(1)])
  show ?thesis unfolding binary_value_def int_binary_def Let_def dyn_operator.case
    by (rule folded_checked [OF normalize_arith(2) [OF bits]]) (rule if_test, erule signed, erule unsigned)
qed

lemma fold_mul:
  assumes bits: "0 < bits" "bits \<le> 64" and v: "in_type bits sign va" "in_type bits sign vb"
  shows "folded bits sign wrap (binary_value DYN_OP_MUL bits sign bits sign (word_of_int va) (word_of_int vb)) =
    map_option word_of_int (int_binary DYN_OP_MUL bits sign wrap va vb)"
proof -
  let ?a = "(word_of_int va :: u64) AND bits_mask bits" and ?b = "(word_of_int vb :: u64) AND bits_mask bits"
  let ?limit = "if sign then if (?a XOR ?b) AND high_bit bits \<noteq> 0 then high_bit bits else high_bit bits - 1 else bits_mask bits"
  have m: "uint (bits_mask bits) = 2 ^ bits - 1"
    using masked_uint [OF bits(2), of "- 1"] by (simp add: mask_eq_exp_minus_1)
  have high: "uint (high_bit bits) = 2 ^ (bits - 1)" "uint (high_bit bits - 1) = 2 ^ (bits - 1) - 1"
  proof -
    have h: "high_bit bits = word_of_int (2 ^ (bits - 1))" by (simp add: high_bit_def push_bit_of_1)
    then have "high_bit bits - 1 = word_of_int (2 ^ (bits - 1) - 1)" by simp
    then show "uint (high_bit bits - 1) = 2 ^ (bits - 1) - 1"
      by (rule ssubst)
        (rule uint_small [OF bits(2)]; use two_power_bits [OF bits(1)] one_le_power [of "2 :: int" "bits - 1"] in linarith)
    show "uint (high_bit bits) = 2 ^ (bits - 1)"
      unfolding h by (rule uint_small [OF bits(2)], use two_power_bits [OF bits(1)] in simp_all)
  qed
  have limit: "uint ?limit = (if sign then if (va < 0) \<noteq> (vb < 0) then 2 ^ (bits - 1) else 2 ^ (bits - 1) - 1 else 2 ^ bits - 1)"
  proof (cases sign)
    case True
    then have "bit va (bits - 1) \<longleftrightarrow> va < 0" "bit vb (bits - 1) \<longleftrightarrow> vb < 0" using v by (simp_all only: bit_negative)
    then show ?thesis using True by (simp add: sign_tests(3) [OF bits] high del: One_nat_def)
  qed (simp add: m)
  have test: "\<bar>va\<bar> * \<bar>vb\<bar> > uint ?limit \<longleftrightarrow> \<not> in_type bits sign (va * vb)"
    using v signed_mul_overflow [of bits va vb] unfolding limit by (cases sign) (auto simp: in_type_def)
  show ?thesis unfolding binary_value_def int_binary_def Let_def dyn_operator.case
    by (rule folded_checked [OF normalize_arith(3) [OF bits]])
      (simp only: mul_limit [OF magnitude [OF bits v(1)] magnitude [OF bits v(2)] refl] test)
qed

lemma fold_bit_ops:
  assumes bits: "0 < bits" "bits \<le> 64" and v: "in_type bits sign va" "in_type bits sign vb"
  shows "folded bits sign wrap (binary_value DYN_OP_BIT_AND bits sign bits sign (word_of_int va) (word_of_int vb)) =
      map_option word_of_int (int_binary DYN_OP_BIT_AND bits sign wrap va vb)"
    and "folded bits sign wrap (binary_value DYN_OP_BIT_OR bits sign bits sign (word_of_int va) (word_of_int vb)) =
      map_option word_of_int (int_binary DYN_OP_BIT_OR bits sign wrap va vb)"
    and "folded bits sign wrap (binary_value DYN_OP_BIT_XOR bits sign bits sign (word_of_int va) (word_of_int vb)) =
      map_option word_of_int (int_binary DYN_OP_BIT_XOR bits sign wrap va vb)"
  unfolding binary_value_def int_binary_def Let_def dyn_operator.case folded_def
  by (simp_all only: option.case prod.case normalize_bit_ops [OF bits v] simp_thms if_False option.map)

lemma fold_compare:
  assumes bits: "0 < obits" "obits \<le> 64" and v: "in_type obits osign va" "in_type obits osign vb"
  defines "a \<equiv> (word_of_int va :: u64) AND bits_mask obits" and "b \<equiv> (word_of_int vb :: u64) AND bits_mask obits"
  shows "(if osign then a XOR high_bit obits else a) < (if osign then b XOR high_bit obits else b) \<longleftrightarrow> va < vb"
    and "(if osign then a XOR high_bit obits else a) \<le> (if osign then b XOR high_bit obits else b) \<longleftrightarrow> va \<le> vb"
    and "a = b \<longleftrightarrow> va = vb" and "a = 0 \<longleftrightarrow> va = 0"
proof -
  have u: "osign \<Longrightarrow> uint (a XOR high_bit obits) = va + 2 ^ (obits - 1)" "osign \<Longrightarrow> uint (b XOR high_bit obits) = vb + 2 ^ (obits - 1)"
    "\<not> osign \<Longrightarrow> uint a = va" "\<not> osign \<Longrightarrow> uint b = vb"
    using v flipped_uint [OF bits] by (simp_all add: a_def b_def masked_uint [OF bits(2)] take_bit_unsigned)
  then show "(if osign then a XOR high_bit obits else a) < (if osign then b XOR high_bit obits else b) \<longleftrightarrow> va < vb"
    "(if osign then a XOR high_bit obits else a) \<le> (if osign then b XOR high_bit obits else b) \<longleftrightarrow> va \<le> vb"
    by (cases osign; simp add: word_less_def word_le_def)+
  have "take_bit obits va = take_bit obits vb \<longleftrightarrow> va = vb"
    using wrap_int_cong [OF bits(1), of va vb osign] v in_type_wrap [OF bits(1)] by metis
  then show "a = b \<longleftrightarrow> va = vb" by (metis a_def b_def masked_uint [OF bits(2)] word_uint_eq_iff)
  have "in_type obits osign 0" by (simp add: in_type_def)
  then have "take_bit obits va = 0 \<longleftrightarrow> va = 0"
    using wrap_int_cong [OF bits(1), of va 0 osign] v(1) in_type_wrap [OF bits(1)] by (metis take_bit_of_0)
  then show "a = 0 \<longleftrightarrow> va = 0" by (metis a_def masked_uint [OF bits(2)] uint_0_iff)
qed

text \<open>The evaluator's operators compute exactly the checked integer operators.\<close>

lemma binary_value_exact:
  assumes bits: "0 < bits" "bits \<le> 64" "sign \<longrightarrow> 1 < bits" and obits: "0 < obits" "obits \<le> 64"
    and v: "in_type obits osign va" "in_type obits osign vb"
    and like: "typed_like_operands opr \<Longrightarrow> obits = bits \<and> osign = sign"
  shows "folded bits sign wrap (binary_value opr bits sign obits osign (word_of_int va) (word_of_int vb)) =
    map_option word_of_int (int_binary opr bits sign wrap va vb)"
proof (cases "typed_like_operands opr")
  case True
  with like have "obits = bits" "osign = sign" by simp_all
  with v have v: "in_type bits sign va" "in_type bits sign vb" and "obits = bits" "osign = sign" by simp_all
  moreover have "opr \<in> {DYN_OP_ADD, DYN_OP_SUB, DYN_OP_MUL, DYN_OP_BIT_AND, DYN_OP_BIT_OR, DYN_OP_BIT_XOR}"
    using True by (simp only: typed_like_operands_def)
  ultimately show ?thesis
    using fold_add [OF bits(1,2) v] fold_sub [OF bits(1,2) v] fold_mul [OF bits(1,2) v] fold_bit_ops [OF bits(1,2) v]
    by (elim insertE emptyE) simp_all
next
  case False
  note cmp = fold_compare [OF obits v] fold_compare [OF obits v(2,1)]
  have b: "folded bits sign wrap (Some (of_bool p, False)) = map_option word_of_int (Some (of_bool p))" for p
    using normalize_of_bool [OF bits] by (simp add: folded_def)
  show ?thesis using False
    by (cases opr) (simp_all only: binary_value_def int_binary_def Let_def dyn_operator.case cmp b
        typed_like_operands_def insert_iff simp_thms, simp_all add: folded_def)
qed

lemma unary_value_exact:
  assumes bits: "0 < bits" "bits \<le> 64" "sign \<longrightarrow> 1 < bits" and v: "in_type bits sign va"
  shows "map_option (\<lambda>r. normalize_bits r bits sign) (unary_value opr bits sign wrap (word_of_int va)) =
    map_option word_of_int (int_unary opr bits sign wrap va)"
proof -
  let ?a = "(word_of_int va :: u64) AND bits_mask bits"
  have a: "?a = word_of_int (take_bit bits va)" by (rule masked_word [OF bits(2)])
  have "NOT ?a AND bits_mask bits = word_of_int (NOT va) AND bits_mask bits"
    by (rule bit_word_eqI) (auto simp: bits_mask [OF bits(2)] bit_simps)
  then have bit_not: "normalize_bits (NOT ?a) bits sign = word_of_int (wrap_int bits sign (NOT va))"
    using normalize_masked [OF bits(2)] normalize_word [OF bits(1,2)] by metis
  have neg: "normalize_bits (0 - ?a) bits sign = word_of_int (wrap_int bits sign (- va))"
  proof -
    have "normalize_bits (0 - ?a) bits sign = word_of_int (wrap_int bits sign (- take_bit bits va))"
      unfolding a using normalize_word [OF bits(1,2), of "- take_bit bits va" sign] by simp
    also have "wrap_int bits sign (- take_bit bits va) = wrap_int bits sign (- va)"
      by (rule wrap_int_cong [OF bits(1)]) (simp add: take_bit_minus)
    finally show ?thesis .
  qed
  have overflow: "(if sign then ?a = high_bit bits else ?a \<noteq> 0) \<longleftrightarrow> \<not> in_type bits sign (- va)"
  proof (cases sign)
    case True
    let ?h = "- (2 ^ (bits - 1)) :: int"
    have h: "in_type bits sign ?h" using True by (simp add: in_type_def)
    have "?h = 2 ^ (bits - 1) - 2 ^ bits" using two_power_bits [OF bits(1)] by simp
    then have "take_bit bits ?h = take_bit bits (2 ^ (bits - 1))" by (simp only: take_bit_eq_mod minus_mod_self2)
    also have "\<dots> = 2 ^ (bits - 1)" using bits(1) by (intro take_bit_int_eq_self) simp_all
    finally have "high_bit bits = word_of_int ?h AND bits_mask bits"
      unfolding masked_word [OF bits(2)] by (simp add: high_bit_def push_bit_of_1)
    then have "?a = high_bit bits \<longleftrightarrow> va = ?h" using fold_compare(3) [OF bits(1,2) v h] by simp
    then show ?thesis using True v by (auto simp: in_type_def)
  next
    case False
    then show ?thesis using fold_compare(4) [OF bits(1,2) v v] v by (auto simp: in_type_def)
  qed
  have neg_fold: "map_option (\<lambda>r. normalize_bits r bits sign)
      (if \<not> wrap \<and> (if sign then ?a = high_bit bits else ?a \<noteq> 0) then None else Some (0 - ?a)) =
    map_option word_of_int (checked bits sign wrap (- va))"
    unfolding overflow checked_def using neg by simp
  consider "opr = DYN_OP_NOT" | "opr = DYN_OP_BIT_NOT" | "opr = DYN_OP_NEG"
    | "opr \<noteq> DYN_OP_NOT" "opr \<noteq> DYN_OP_BIT_NOT" "opr \<noteq> DYN_OP_NEG" by blast
  then show ?thesis
  proof cases
    case 1
    then show ?thesis unfolding unary_value_def int_unary_def Let_def if_P [OF 1] fold_compare(4) [OF bits(1,2) v v]
      by (simp only: option.map normalize_of_bool [OF bits])
  next
    case 2
    then show ?thesis unfolding unary_value_def int_unary_def Let_def
      by (simp only: dyn_operator.distinct if_False if_True option.map bit_not simp_thms)
  next
    case 3
    then show ?thesis unfolding unary_value_def int_unary_def Let_def
      by (simp only: dyn_operator.distinct if_False if_True neg_fold simp_thms)
  qed (simp add: unary_value_def int_unary_def)
qed

lemma of_bool_in_type: "0 < bits \<Longrightarrow> sign \<longrightarrow> 1 < bits \<Longrightarrow> in_type bits sign (of_bool p)"
  using one_less_power [of "2 :: int" bits] one_less_power [of "2 :: int" "bits - 1"]
    order_trans [OF _ zero_le_power [of "2 :: int" "bits - 1"], of "- 1"]
  by (cases p; cases sign; simp add: in_type_def)

lemma checked_in_type: "0 < bits \<Longrightarrow> checked bits sign wrap x = Some v \<Longrightarrow> in_type bits sign v"
  using wrap_int_in_type by (auto simp: checked_def split: if_split_asm)

lemma int_binary_in_type:
  assumes "int_binary opr bits sign wrap a b = Some v" and "0 < bits" and "sign \<longrightarrow> 1 < bits"
    and like: "typed_like_operands opr \<Longrightarrow> in_type bits sign a \<and> in_type bits sign b"
  shows "in_type bits sign v"
proof (cases "typed_like_operands opr")
  case True
  have bits: "in_type bits sign (a AND b)" "in_type bits sign (a OR b)" "in_type bits sign (a XOR b)"
    using bit_ops_in_type [OF assms(2)] like [OF True] by (simp_all only: in_type_wrap [OF assms(2)])
  from True have "opr \<in> {DYN_OP_ADD, DYN_OP_SUB, DYN_OP_MUL, DYN_OP_BIT_AND, DYN_OP_BIT_OR, DYN_OP_BIT_XOR}"
    by (simp only: typed_like_operands_def)
  then show ?thesis using assms(1) checked_in_type [OF assms(2)] bits
    by (elim insertE emptyE) (auto simp: int_binary_def)
next
  case False
  then show ?thesis using assms(1) of_bool_in_type [OF assms(2,3)]
    by (cases opr) (auto simp: int_binary_def typed_like_operands_def simp del: of_bool_eq_iff)
qed

lemma int_unary_in_type:
  assumes "int_unary opr bits sign wrap a = Some v" and "0 < bits" and "sign \<longrightarrow> 1 < bits"
  shows "in_type bits sign v"
  using assms(1) checked_in_type [OF assms(2)] wrap_int_in_type [OF assms(2)] of_bool_in_type [OF assms(2,3)]
  unfolding int_unary_def by (metis option.distinct(1) option.inject)

end
