(* ===== verification/Opt_Eval.thy ===== *)
theory Opt_Eval
  imports Opt_Arith
begin

text \<open>
  The scalar evaluator of the native optimiser (\<open>src/src/native_opt.c\<close>, lines 9-204), the pass that folds
  expressions and branches with it (lines 1289-1345), and a reference semantics of scalar expressions over
  mathematical integers.

  A result is \<open>Some (value, remaining)\<close>, with the budget that is left; \<open>None\<close> is the code's \<open>false\<close>, after which
  every caller gives up too. The depth limit of the code makes the evaluator total.
\<close>

unbundle bit_operations_syntax

subsection \<open>The evaluator\<close>

record eval =
  ev_level :: nat
  ev_pointer_bits :: nat
  ev_function :: "ir_function option"
  ev_arguments :: "u64 list"
  ev_samples :: "u64 list option"

text \<open>The parameter whose local is named, and the statement that declares a stable local.\<close>

definition param_at :: "ir_program \<Rightarrow> ir_function \<Rightarrow> nat \<Rightarrow> ir_param" where
  "param_at ir f k = p_params ir ! unat (ifn_param_start f + of_nat k)"

definition param_index :: "ir_program \<Rightarrow> ir_function \<Rightarrow> u64 \<Rightarrow> nat option" where
  "param_index ir f l = find (\<lambda>k. ucast (ip_local_id (param_at ir f k)) = l) [0..<unat (ifn_param_count f)]"

definition stable_init :: "ir_program \<Rightarrow> u64 \<Rightarrow> expr_id option" where
  "stable_init ir l =
     (if unat l \<ge> length (p_locals ir) then None
      else case p_unstable_locals ir of
        None \<Rightarrow> None
      | Some unstable \<Rightarrow>
          if unstable ! unat l then None
          else case p_local_statements ir of
            None \<Rightarrow> None
          | Some statements \<Rightarrow>
              let st = statements ! unat l
              in if st \<noteq> 0 \<and> unat st \<le> length (p_statements ir)
                 then Some (ist_expression (p_statements ir ! (unat st - 1))) else None)"

text \<open>A function that is one \<open>return\<close>, with as many parameters as the call has arguments: its expression.\<close>

definition call_body :: "ir_program \<Rightarrow> ir_expr \<Rightarrow> expr_id option" where
  "call_body ir e =
     (let f = p_functions ir ! unat (ie_integer e) in
      if ifn_foreign f \<or> ifn_variadic f \<or> ifn_body_count f \<noteq> 1 \<or> ifn_param_count f > 32 \<or>
         ifn_param_count f \<noteq> ie_item_count e \<or> unat (ifn_body_start f) \<ge> length (p_children ir) then None
      else let s = stmt_at ir (unat (ifn_body_start f))
           in if ist_kind s \<noteq> DYN_STMT_RETURN then None else Some (ist_expression s))"

definition call_items :: "ir_program \<Rightarrow> ir_expr \<Rightarrow> expr_id list" where
  "call_items ir e = map (\<lambda>k. it_expression (p_items ir ! unat (ie_item_start e + of_nat k))) [0..<unat (ie_item_count e)]"

definition call_budget :: "eval \<Rightarrow> u64 \<Rightarrow> nat \<Rightarrow> nat" where
  "call_budget c f remaining =
     (case ev_samples c of None \<Rightarrow> remaining | Some s \<Rightarrow> if s ! unat f \<ge> 100 then 1024 else 16)"

function value_of :: "ir_program \<Rightarrow> eval \<Rightarrow> nat \<Rightarrow> expr_id \<Rightarrow> nat \<Rightarrow> (u64 \<times> nat) option"
  and values_of :: "ir_program \<Rightarrow> eval \<Rightarrow> nat \<Rightarrow> expr_id list \<Rightarrow> nat \<Rightarrow> (u64 list \<times> nat) option" where
  "value_of ir c remaining i depth =
     (if depth > 64 \<or> remaining = 0 \<or> unat i \<ge> length (p_expressions ir) then None
      else
        let remaining = remaining - 1; e = expr_at ir i; bits = scalar_width (ev_pointer_bits c) (ie_type e);
            sign = signed_type (ie_type e) in
        if bits = 0 then None
        else if ie_kind e = DYN_EXPR_INT \<or> ie_kind e = DYN_EXPR_CHAR \<or> ie_kind e = DYN_EXPR_BOOL then
          Some (normalize_bits (if ie_kind e = DYN_EXPR_BOOL then of_bool (ie_boolean e) else ie_integer e) bits sign,
            remaining)
        else if ie_kind e = DYN_EXPR_NAME then
          (case ev_function c of
             Some f \<Rightarrow> (case param_index ir f (ie_integer e) of None \<Rightarrow> None
                       | Some k \<Rightarrow> Some (ev_arguments c ! k, remaining))
           | None \<Rightarrow>
               if ev_level c < 2 then None
               else case stable_init ir (ie_integer e) of None \<Rightarrow> None
                 | Some init \<Rightarrow> value_of ir c remaining init (depth + 1))
        else if ie_kind e = DYN_EXPR_CALL \<and> ev_level c \<ge> 3 \<and> ev_function c = None \<and>
                unat (ie_integer e) < length (p_functions ir) then
          (case call_body ir e of None \<Rightarrow> None
           | Some body \<Rightarrow>
               case values_of ir c remaining (call_items ir e) (depth + 1) of None \<Rightarrow> None
               | Some (args, remaining) \<Rightarrow>
                   let nested = c\<lparr>ev_function := Some (p_functions ir ! unat (ie_integer e)), ev_arguments := args\<rparr>
                   in case value_of ir nested (call_budget c (ie_integer e) remaining) body (depth + 1) of None \<Rightarrow> None
                      | Some (r, _) \<Rightarrow> Some (r, remaining))
        else if ie_kind e = DYN_EXPR_UNARY then
          (case value_of ir c remaining (ie_left e) (depth + 1) of None \<Rightarrow> None
           | Some (a, remaining) \<Rightarrow>
               case unary_value (ie_op e) bits sign (ie_wrap e) a of None \<Rightarrow> None
               | Some r \<Rightarrow> Some (normalize_bits r bits sign, remaining))
        else if ie_kind e = DYN_EXPR_BINARY then
          (case value_of ir c remaining (ie_left e) (depth + 1) of None \<Rightarrow> None
           | Some (a, remaining) \<Rightarrow>
               if ie_op e = DYN_OP_LOGICAL_AND \<and> a = 0 then Some (0, remaining)
               else if ie_op e = DYN_OP_LOGICAL_OR \<and> a \<noteq> 0 then Some (1, remaining)
               else case value_of ir c remaining (ie_right e) (depth + 1) of None \<Rightarrow> None
                 | Some (b, remaining) \<Rightarrow>
                     let left = expr_at ir (ie_left e); obits = scalar_width (ev_pointer_bits c) (ie_type left) in
                     if obits = 0 \<or> ie_type left \<noteq> ie_type (expr_at ir (ie_right e)) then None
                     else case binary_value (ie_op e) bits sign obits (signed_type (ie_type left)) a b of None \<Rightarrow> None
                       | Some (r, overflow) \<Rightarrow>
                           if overflow \<and> \<not> ie_wrap e then None
                           else Some (normalize_bits r bits sign, remaining))
        else None)"
| "values_of ir c remaining [] depth = Some ([], remaining)"
| "values_of ir c remaining (i # is) depth =
     (case value_of ir c remaining i depth of None \<Rightarrow> None
      | Some (a, remaining) \<Rightarrow>
          case values_of ir c remaining is depth of None \<Rightarrow> None
          | Some (as, remaining) \<Rightarrow> Some (a # as, remaining))"
  by pat_completeness auto
termination
  by (relation "inv_image (less_than <*lex*> less_than)
        (\<lambda>x. case x of Inl (ir, c, remaining, i, depth) \<Rightarrow> (65 - depth, 0)
             | Inr (ir, c, remaining, is, depth) \<Rightarrow> (65 - depth, Suc (length is)))") auto

declare value_of.simps [simp del]

text \<open>How the evaluator succeeds.\<close>

lemma value_of_cases [consumes 2]:
  assumes "value_of ir c remaining i depth = Some (r, remaining')"
    and pb: "ev_pointer_bits c = pb"
  defines "e \<equiv> expr_at ir i"
  defines "bits \<equiv> scalar_width pb (ie_type e)" and "sign \<equiv> signed_type (ie_type e)"
  obtains (lit) "ie_kind e = DYN_EXPR_INT \<or> ie_kind e = DYN_EXPR_CHAR" "r = normalize_bits (ie_integer e) bits sign"
  | (bool) "ie_kind e = DYN_EXPR_BOOL" "r = normalize_bits (of_bool (ie_boolean e)) bits sign"
  | (param) f k where "ie_kind e = DYN_EXPR_NAME" "ev_function c = Some f" "param_index ir f (ie_integer e) = Some k"
      "r = ev_arguments c ! k"
  | (local) init rem where "ie_kind e = DYN_EXPR_NAME" "ev_function c = None" "stable_init ir (ie_integer e) = Some init"
      "value_of ir c rem init (depth + 1) = Some (r, remaining')"
  | (call) body rem args rem' rem'' rem3 where "ie_kind e = DYN_EXPR_CALL" "ev_function c = None"
      "unat (ie_integer e) < length (p_functions ir)" "call_body ir e = Some body"
      "values_of ir c rem (call_items ir e) (depth + 1) = Some (args, rem')"
      "value_of ir (c\<lparr>ev_function := Some (p_functions ir ! unat (ie_integer e)), ev_arguments := args\<rparr>) rem'' body
        (depth + 1) = Some (r, rem3)"
  | (unary) rem a rem' r' where "ie_kind e = DYN_EXPR_UNARY" "value_of ir c rem (ie_left e) (depth + 1) = Some (a, rem')"
      "unary_value (ie_op e) bits sign (ie_wrap e) a = Some r'" "r = normalize_bits r' bits sign"
  | (conj) rem rem' where "ie_kind e = DYN_EXPR_BINARY" "ie_op e = DYN_OP_LOGICAL_AND"
      "value_of ir c rem (ie_left e) (depth + 1) = Some (0, rem')" "r = 0"
  | (disj) rem a rem' where "ie_kind e = DYN_EXPR_BINARY" "ie_op e = DYN_OP_LOGICAL_OR"
      "value_of ir c rem (ie_left e) (depth + 1) = Some (a, rem')" "a \<noteq> 0" "r = 1"
  | (binary) rem a rem1 rem2 b rem3 where "ie_kind e = DYN_EXPR_BINARY"
      "value_of ir c rem (ie_left e) (depth + 1) = Some (a, rem1)"
      "\<not> (ie_op e = DYN_OP_LOGICAL_AND \<and> a = 0)" "\<not> (ie_op e = DYN_OP_LOGICAL_OR \<and> a \<noteq> 0)"
      "value_of ir c rem2 (ie_right e) (depth + 1) = Some (b, rem3)"
      "scalar_width pb (ie_type (expr_at ir (ie_left e))) \<noteq> 0"
      "ie_type (expr_at ir (ie_left e)) = ie_type (expr_at ir (ie_right e))"
      "folded bits sign (ie_wrap e) (binary_value (ie_op e) bits sign
        (scalar_width pb (ie_type (expr_at ir (ie_left e))))
        (signed_type (ie_type (expr_at ir (ie_left e)))) a b) = Some r"
  using assms(1) unfolding value_of.simps [of ir c remaining i depth] Let_def e_def [symmetric] pb bits_def [symmetric]
    sign_def [symmetric]
  by (auto split: if_split_asm option.split_asm prod.split_asm simp: folded_def)

lemma value_of_guard:
  "value_of ir c remaining i depth = Some x \<Longrightarrow> depth \<le> 64 \<and> unat i < length (p_expressions ir) \<and>
    scalar_width (ev_pointer_bits c) (ie_type (expr_at ir i)) \<noteq> 0"
  unfolding value_of.simps [of ir c remaining i depth] Let_def by (auto split: if_split_asm)

subsection \<open>The reference semantics\<close>

text \<open>
  \<open>sem ir pb env i v\<close>: with \<open>env\<close> the values of the locals, expression \<open>i\<close> evaluates to \<open>v\<close> and no check fails.
  A failing check has no rule. The relation covers the scalar expressions: literals, names, the operators of
  \<open>int_unary\<close> and \<open>int_binary\<close> and calls of functions that consist of one return statement.
\<close>

definition scalar_in :: "nat \<Rightarrow> dyn_type \<Rightarrow> int \<Rightarrow> bool" where
  "scalar_in pb t v \<longleftrightarrow> in_type (scalar_width pb t) (signed_type t) v"

definition param_env :: "ir_program \<Rightarrow> ir_function \<Rightarrow> int list \<Rightarrow> (nat \<Rightarrow> int) \<Rightarrow> nat \<Rightarrow> int" where
  "param_env ir f vs env l = (case param_index ir f (of_nat l) of Some k \<Rightarrow> vs ! k | None \<Rightarrow> env l)"

definition scalar_expr :: "ir_program \<Rightarrow> nat \<Rightarrow> expr_id \<Rightarrow> bool" where
  "scalar_expr ir pb i \<longleftrightarrow> unat i < length (p_expressions ir) \<and> scalar_width pb (ie_type (expr_at ir i)) \<noteq> 0"

inductive sem :: "ir_program \<Rightarrow> nat \<Rightarrow> (nat \<Rightarrow> int) \<Rightarrow> expr_id \<Rightarrow> int \<Rightarrow> bool"
  and sems :: "ir_program \<Rightarrow> nat \<Rightarrow> (nat \<Rightarrow> int) \<Rightarrow> expr_id list \<Rightarrow> int list \<Rightarrow> bool" for ir pb where
  lit: "scalar_expr ir pb i \<Longrightarrow> ie_kind (expr_at ir i) \<in> {DYN_EXPR_INT, DYN_EXPR_CHAR} \<Longrightarrow>
    sem ir pb env i (wrap_int (scalar_width pb (ie_type (expr_at ir i))) (signed_type (ie_type (expr_at ir i)))
      (uint (ie_integer (expr_at ir i))))"
| bool: "scalar_expr ir pb i \<Longrightarrow> ie_kind (expr_at ir i) = DYN_EXPR_BOOL \<Longrightarrow>
    sem ir pb env i (of_bool (ie_boolean (expr_at ir i)))"
| name: "scalar_expr ir pb i \<Longrightarrow> ie_kind (expr_at ir i) = DYN_EXPR_NAME \<Longrightarrow>
    sem ir pb env i (env (unat (ie_integer (expr_at ir i))))"
| call: "scalar_expr ir pb i \<Longrightarrow> ie_kind (expr_at ir i) = DYN_EXPR_CALL \<Longrightarrow>
    unat (ie_integer (expr_at ir i)) < length (p_functions ir) \<Longrightarrow> call_body ir (expr_at ir i) = Some body \<Longrightarrow>
    sems ir pb env (call_items ir (expr_at ir i)) vs \<Longrightarrow>
    sem ir pb (param_env ir (p_functions ir ! unat (ie_integer (expr_at ir i))) vs env) body v \<Longrightarrow> sem ir pb env i v"
| unary: "scalar_expr ir pb i \<Longrightarrow> ie_kind (expr_at ir i) = DYN_EXPR_UNARY \<Longrightarrow>
    sem ir pb env (ie_left (expr_at ir i)) a \<Longrightarrow>
    int_unary (ie_op (expr_at ir i)) (scalar_width pb (ie_type (expr_at ir i))) (signed_type (ie_type (expr_at ir i)))
      (ie_wrap (expr_at ir i)) a = Some v \<Longrightarrow> sem ir pb env i v"
| conj: "scalar_expr ir pb i \<Longrightarrow> ie_kind (expr_at ir i) = DYN_EXPR_BINARY \<Longrightarrow>
    ie_op (expr_at ir i) = DYN_OP_LOGICAL_AND \<Longrightarrow> sem ir pb env (ie_left (expr_at ir i)) 0 \<Longrightarrow> sem ir pb env i 0"
| disj: "scalar_expr ir pb i \<Longrightarrow> ie_kind (expr_at ir i) = DYN_EXPR_BINARY \<Longrightarrow>
    ie_op (expr_at ir i) = DYN_OP_LOGICAL_OR \<Longrightarrow> sem ir pb env (ie_left (expr_at ir i)) a \<Longrightarrow> a \<noteq> 0 \<Longrightarrow>
    sem ir pb env i 1"
| binary: "scalar_expr ir pb i \<Longrightarrow> ie_kind (expr_at ir i) = DYN_EXPR_BINARY \<Longrightarrow>
    sem ir pb env (ie_left (expr_at ir i)) a \<Longrightarrow> \<not> (ie_op (expr_at ir i) = DYN_OP_LOGICAL_AND \<and> a = 0) \<Longrightarrow>
    \<not> (ie_op (expr_at ir i) = DYN_OP_LOGICAL_OR \<and> a \<noteq> 0) \<Longrightarrow> sem ir pb env (ie_right (expr_at ir i)) b \<Longrightarrow>
    int_binary (ie_op (expr_at ir i)) (scalar_width pb (ie_type (expr_at ir i))) (signed_type (ie_type (expr_at ir i)))
      (ie_wrap (expr_at ir i)) a b = Some v \<Longrightarrow> sem ir pb env i v"
| nil: "sems ir pb env [] []"
| cons: "sem ir pb env i v \<Longrightarrow> sems ir pb env is vs \<Longrightarrow> sems ir pb env (i # is) (v # vs)"

inductive_cases semE: "sem ir pb env i v"
inductive_cases sems_nilE: "sems ir pb env [] vs"
inductive_cases sems_consE: "sems ir pb env (i # is) vs"

lemma sem_determ:
  "sem ir pb env i v \<Longrightarrow> sem ir pb env i v' \<Longrightarrow> v = v'"
  "sems ir pb env is vs \<Longrightarrow> sems ir pb env is vs' \<Longrightarrow> vs = vs'"
proof (induction arbitrary: v' and vs' rule: sem_sems.inducts)
  case (lit i env)
  from lit.prems show ?case by (rule semE) (use lit.IH in auto)
next
  case (bool i env)
  from bool.prems show ?case by (rule semE) (use bool.IH in auto)
next
  case (name i env)
  from name.prems show ?case by (rule semE) (use name.IH in auto)
next
  case (call i body env vs v)
  from call.prems show ?case
  proof (rule semE)
    fix body' vs'
    assume "call_body ir (expr_at ir i) = Some body'" "sems ir pb env (call_items ir (expr_at ir i)) vs'"
      "sem ir pb (param_env ir (p_functions ir ! unat (ie_integer (expr_at ir i))) vs' env) body' v'"
    moreover from this have "body' = body" "vs' = vs" using call.IH(4,6) by auto
    ultimately show "v = v'" using call.IH(8) by blast
  qed (use call.IH(2) in auto)
next
  case (unary i env a v)
  from unary.prems show ?case
  proof (rule semE)
    fix a' assume "sem ir pb env (ie_left (expr_at ir i)) a'" and v': "int_unary (ie_op (expr_at ir i))
      (scalar_width pb (ie_type (expr_at ir i))) (signed_type (ie_type (expr_at ir i))) (ie_wrap (expr_at ir i)) a' = Some v'"
    then have "a = a'" using unary.IH(4) by blast
    with v' unary.IH(5) show "v = v'" by simp
  qed (use unary.IH(2) in auto)
next
  case (conj i env)
  have left: "a' = 0" if "sem ir pb env (ie_left (expr_at ir i)) a'" for a' using conj.IH that by blast
  have "ie_kind (expr_at ir i) = DYN_EXPR_BINARY" "ie_op (expr_at ir i) = DYN_OP_LOGICAL_AND" using conj.IH by blast+
  with conj.prems show ?case by - (erule semE; auto dest: left)
next
  case (disj i env a)
  have left: "a' = a" if "sem ir pb env (ie_left (expr_at ir i)) a'" for a' using disj.IH that by blast
  have "ie_kind (expr_at ir i) = DYN_EXPR_BINARY" "ie_op (expr_at ir i) = DYN_OP_LOGICAL_OR" "a \<noteq> 0"
    using disj by blast+
  with disj.prems show ?case by - (erule semE; auto dest: left)
next
  case (binary i env a b v)
  from binary.prems show ?case
  proof (rule semE)
    fix a' b' assume "sem ir pb env (ie_left (expr_at ir i)) a'" "sem ir pb env (ie_right (expr_at ir i)) b'"
      and v': "int_binary (ie_op (expr_at ir i)) (scalar_width pb (ie_type (expr_at ir i)))
        (signed_type (ie_type (expr_at ir i))) (ie_wrap (expr_at ir i)) a' b' = Some v'"
    then have "a = a'" "b = b'" using binary.IH(4,8) by blast+
    with v' binary.IH(9) show "v = v'" by simp
  qed (use binary.IH(2,4-6) in auto)
next
  case (nil env)
  then show ?case by (auto elim: sems_nilE)
next
  case (cons env i v "is" vs)
  from cons.prems show ?case by (rule sems_consE) (use cons.IH in auto)
qed

subsection \<open>Evaluation is sound\<close>

text \<open>
  What semantic analysis guarantees about the types of scalar expressions: operators of one type, a name typed like the
  declaration of its local or its parameter, a call typed like the function.
\<close>

definition expr_typed :: "ir_program \<Rightarrow> ir_expr \<Rightarrow> bool" where
  "expr_typed ir e \<longleftrightarrow>
     (ie_kind e = DYN_EXPR_UNARY \<and> ie_op e \<in> {DYN_OP_NOT, DYN_OP_BIT_NOT, DYN_OP_NEG} \<longrightarrow>
        ie_type (expr_at ir (ie_left e)) = ie_type e) \<and>
     (ie_kind e = DYN_EXPR_BINARY \<and> typed_like_operands (ie_op e) \<longrightarrow> ie_type (expr_at ir (ie_left e)) = ie_type e) \<and>
     (ie_kind e = DYN_EXPR_NAME \<longrightarrow>
        (case stable_init ir (ie_integer e) of None \<Rightarrow> True | Some init \<Rightarrow> ie_type (expr_at ir init) = ie_type e) \<and>
        list_all (\<lambda>f. case param_index ir f (ie_integer e) of None \<Rightarrow> True
          | Some k \<Rightarrow> ip_type (param_at ir f k) = ie_type e) (p_functions ir)) \<and>
     (ie_kind e = DYN_EXPR_CALL \<and> unat (ie_integer e) < length (p_functions ir) \<longrightarrow>
        (case call_body ir e of None \<Rightarrow> True
         | Some body \<Rightarrow> ie_type (expr_at ir body) = ie_type e \<and>
             map (\<lambda>i. ie_type (expr_at ir i)) (call_items ir e) =
             map (\<lambda>k. ip_type (param_at ir (p_functions ir ! unat (ie_integer e)) k)) [0..<unat (ie_item_count e)]))"

definition scalar_typed :: "ir_program \<Rightarrow> bool" where
  "scalar_typed ir \<longleftrightarrow> list_all (expr_typed ir) (p_expressions ir)"

lemma scalar_typedD: "scalar_typed ir \<Longrightarrow> unat i < length (p_expressions ir) \<Longrightarrow> expr_typed ir (expr_at ir i)"
  by (simp add: scalar_typed_def list_all_length expr_at_def)

text \<open>
  \<open>S\<close> is a set of states of the locals of a program. A local that only its declaration assigns has the value of its
  initialiser, whenever the initialiser has the same value in all states. Nothing is asked of the other locals: those
  that are assigned again, and those whose initialiser reads such a local, is not scalar, fails a check or is missing.
\<close>

definition stable_states :: "ir_program \<Rightarrow> nat \<Rightarrow> (nat \<Rightarrow> int) set \<Rightarrow> bool" where
  "stable_states ir pb S \<longleftrightarrow> (\<forall>env \<in> S. \<forall>l init v. stable_init ir l = Some init \<and>
     (\<forall>env0 \<in> S. sem ir pb env0 init v) \<longrightarrow> env (unat l) = v)"

definition eval_context :: "ir_program \<Rightarrow> nat \<Rightarrow> (nat \<Rightarrow> int) set \<Rightarrow> eval \<Rightarrow> (nat \<Rightarrow> int) \<Rightarrow> bool" where
  "eval_context ir pb S c env \<longleftrightarrow> ev_pointer_bits c = pb \<and>
     (case ev_function c of None \<Rightarrow> env \<in> S
      | Some f \<Rightarrow> f \<in> set (p_functions ir) \<and> (\<exists>vs env0. env = param_env ir f vs env0 \<and>
          ev_arguments c = map word_of_int vs \<and> length vs = unat (ifn_param_count f) \<and>
          (\<forall>k < length vs. scalar_in pb (ip_type (param_at ir f k)) (vs ! k))))"

lemma width_bounds:
  assumes "pb = 32 \<or> pb = 64" and "scalar_width pb t \<noteq> 0"
  shows "0 < scalar_width pb t" "scalar_width pb t \<le> 64" "signed_type t \<longrightarrow> 1 < scalar_width pb t"
  using assms by (auto simp: scalar_width_def signed_type_def)

definition evaluates :: "ir_program \<Rightarrow> nat \<Rightarrow> (nat \<Rightarrow> int) \<Rightarrow> expr_id \<Rightarrow> u64 \<Rightarrow> bool" where
  "evaluates ir pb env i r \<longleftrightarrow> (\<exists>v. sem ir pb env i v \<and> r = word_of_int v \<and> scalar_in pb (ie_type (expr_at ir i)) v)"

lemma evaluates_list:
  "list_all2 (evaluates ir pb env) is rs \<Longrightarrow> \<exists>vs. sems ir pb env is vs \<and> rs = map word_of_int vs \<and>
    list_all2 (\<lambda>i v. scalar_in pb (ie_type (expr_at ir i)) v) is vs"
proof (induction rule: list_all2_induct)
  case Nil
  then show ?case using sem_sems.nil by fastforce
next
  case (Cons i "is" r rs)
  then obtain v vs where "sem ir pb env i v" "r = word_of_int v" "scalar_in pb (ie_type (expr_at ir i)) v"
    "sems ir pb env is vs" "rs = map word_of_int vs" "list_all2 (\<lambda>i v. scalar_in pb (ie_type (expr_at ir i)) v) is vs"
    by (auto simp: evaluates_def)
  then show ?case by (intro exI [of _ "v # vs"]) (simp add: sem_sems.cons)
qed

lemma values_of_all:
  assumes "\<And>remaining i r remaining'. value_of ir c remaining i depth = Some (r, remaining') \<Longrightarrow> P i r"
  shows "values_of ir c remaining is depth = Some (rs, remaining') \<Longrightarrow> list_all2 P is rs"
proof (induction "is" arbitrary: remaining rs)
  case (Cons i "is")
  then show ?case using assms by (auto split: option.split_asm prod.split_asm)
qed simp

lemma scalar_inject:
  assumes "pb = 32 \<or> pb = 64" and "scalar_width pb t \<noteq> 0" and "scalar_in pb t v" and "scalar_in pb t w"
    and "word_of_int v = (word_of_int w :: u64)"
  shows "v = w"
proof -
  note bits = width_bounds [OF assms(1,2)]
  let ?b = "scalar_width pb t"
  have "take_bit 64 v = take_bit 64 w" using arg_cong [OF assms(5), of uint] by (simp add: uint_word_of_int_eq)
  then have "take_bit ?b v = take_bit ?b w" using bits(2) by (metis min.absorb1 take_bit_take_bit)
  then have "wrap_int ?b (signed_type t) v = wrap_int ?b (signed_type t) w" by (rule wrap_int_cong [OF bits(1)])
  then show ?thesis using assms(3,4) in_type_wrap [OF bits(1), of "signed_type t"] by (simp add: scalar_in_def)
qed

lemma scalar_zero:
  assumes "pb = 32 \<or> pb = 64" and "scalar_width pb t \<noteq> 0" and "scalar_in pb t v" and "word_of_int v = (0 :: u64)"
  shows "v = 0"
proof -
  have "scalar_in pb t 0" using width_bounds [OF assms(1,2)] by (simp add: scalar_in_def in_type_def)
  then show ?thesis using scalar_inject [OF assms(1-3), of 0] assms(4) by simp
qed

lemma value_of_sound:
  assumes pb: "pb = 32 \<or> pb = 64" and typed: "scalar_typed ir" and stable: "stable_states ir pb S"
  shows "value_of ir c remaining i depth = Some (r, remaining') \<Longrightarrow> eval_context ir pb S c env \<Longrightarrow> evaluates ir pb env i r"
proof (induction "65 - depth" arbitrary: c remaining i depth r remaining' env rule: less_induct)
  case less
  let ?e = "expr_at ir i"
  let ?bits = "scalar_width pb (ie_type ?e)" and ?sign = "signed_type (ie_type ?e)"
  have c: "ev_pointer_bits c = pb" using less.prems(2) by (simp add: eval_context_def)
  note guard = value_of_guard [OF less.prems(1), unfolded c]
  then have scalar: "scalar_expr ir pb i" and i: "unat i < length (p_expressions ir)" and width: "?bits \<noteq> 0"
    and "65 - (depth + 1) < 65 - depth" by (auto simp: scalar_expr_def)
  note IH = less.hyps [OF this(4)]
  note bits = width_bounds [OF pb width] and typed_e = scalar_typedD [OF typed i, unfolded expr_typed_def]
  from less.prems(1) c show ?case
  proof (cases rule: value_of_cases)
    case lit
    let ?v = "wrap_int ?bits ?sign (uint (ie_integer ?e))"
    have "sem ir pb env i ?v" using lit(1) by (intro sem_sems.lit [OF scalar]) blast
    moreover have "r = word_of_int ?v" using normalize_word [OF bits(1,2), of "uint (ie_integer ?e)"] lit(2) by simp
    ultimately show ?thesis using wrap_int_in_type [OF bits(1)] by (auto simp: evaluates_def scalar_in_def)
  next
    case bool
    then show ?thesis using sem_sems.bool [OF scalar] normalize_of_bool [OF bits] of_bool_in_type [OF bits(1,3)]
      unfolding evaluates_def scalar_in_def by blast
  next
    case (param f k)
    from less.prems(2) param(2) obtain vs env0 where f: "f \<in> set (p_functions ir)" "env = param_env ir f vs env0"
        "ev_arguments c = map word_of_int vs" "length vs = unat (ifn_param_count f)"
        "\<forall>k < length vs. scalar_in pb (ip_type (param_at ir f k)) (vs ! k)"
      by (auto simp: eval_context_def)
    have k: "k < length vs" using param(3) f(4) by (auto simp: param_index_def find_Some_iff)
    have "env (unat (ie_integer ?e)) = vs ! k" using f(2) param(3) by (simp add: param_env_def)
    moreover have "ip_type (param_at ir f k) = ie_type ?e" using typed_e param(1,3) f(1) by (auto simp: list_all_iff)
    moreover have "scalar_in pb (ip_type (param_at ir f k)) (vs ! k)" using f(5) k by blast
    moreover have "r = word_of_int (vs ! k)" using f(3) k param(4) by simp
    ultimately show ?thesis using sem_sems.name [OF scalar param(1), of env] by (auto simp: evaluates_def)
  next
    case (local init rem)
    have "env \<in> S" using less.prems(2) local(2) by (simp add: eval_context_def)
    let ?l = "ie_integer ?e" and ?t = "ie_type (expr_at ir init)"
    have width': "scalar_width pb ?t \<noteq> 0" using value_of_guard [OF local(4)] c by simp
    have all: "evaluates ir pb env0 init r" if "env0 \<in> S" for env0
      by (rule IH [OF local(4)]) (use that local(2) c in \<open>simp add: eval_context_def\<close>)
    obtain v where v: "sem ir pb env init v" "r = word_of_int v" "scalar_in pb ?t v"
      using all [OF \<open>env \<in> S\<close>] by (auto simp: evaluates_def)
    have "sem ir pb env0 init v" if "env0 \<in> S" for env0
      using all [OF that] scalar_inject [OF pb width' v(3)] v(2) by (auto simp: evaluates_def)
    then have "env (unat ?l) = v" using stable local(3) \<open>env \<in> S\<close> unfolding stable_states_def by blast
    moreover have "?t = ie_type ?e" using typed_e local(1,3) by simp
    ultimately show ?thesis using sem_sems.name [OF scalar local(1), of env] v(2,3) by (auto simp: evaluates_def)
  next
    case (call body rem args rem' rem'' rem3)
    let ?f = "p_functions ir ! unat (ie_integer ?e)"
    have "list_all2 (evaluates ir pb env) (call_items ir ?e) args"
      by (rule values_of_all [OF _ call(5)]) (rule IH [OF _ less.prems(2)])
    then obtain vs where vs: "sems ir pb env (call_items ir ?e) vs" "args = map word_of_int vs"
        "list_all2 (\<lambda>i v. scalar_in pb (ie_type (expr_at ir i)) v) (call_items ir ?e) vs"
      using evaluates_list by blast
    have types: "ie_type (expr_at ir body) = ie_type ?e" "map (\<lambda>i. ie_type (expr_at ir i)) (call_items ir ?e) =
        map (\<lambda>k. ip_type (param_at ir ?f k)) [0..<unat (ie_item_count ?e)]"
      using typed_e call(1,3,4) by simp_all
    have n: "length vs = unat (ifn_param_count ?f)"
      using list_all2_lengthD [OF vs(3)] call(4) by (auto simp: call_items_def call_body_def Let_def split: if_split_asm)
    moreover have "scalar_in pb (ip_type (param_at ir ?f k)) (vs ! k)" if "k < length vs" for k
    proof -
      have k: "k < length (call_items ir ?e)" using that list_all2_lengthD [OF vs(3)] by simp
      have "scalar_in pb (ie_type (expr_at ir (call_items ir ?e ! k))) (vs ! k)" using list_all2_nthD [OF vs(3) k] .
      then show ?thesis using arg_cong [OF types(2), of "\<lambda>xs. xs ! k"] k by (simp add: call_items_def)
    qed
    ultimately have "eval_context ir pb S (c\<lparr>ev_function := Some ?f, ev_arguments := args\<rparr>) (param_env ir ?f vs env)"
      using c call(3) vs(2) by (auto simp: eval_context_def)
    then have "evaluates ir pb (param_env ir ?f vs env) body r" by (rule IH [OF call(6)])
    then show ?thesis using sem_sems.call [OF scalar call(1,3,4) vs(1)] types(1) by (auto simp: evaluates_def)
  next
    case (unary rem a rem' r')
    obtain v where v: "sem ir pb env (ie_left ?e) v" "a = word_of_int v" "scalar_in pb (ie_type (expr_at ir (ie_left ?e))) v"
      using IH [OF unary(2) less.prems(2)] by (auto simp: evaluates_def)
    have "ie_op ?e \<in> {DYN_OP_NOT, DYN_OP_BIT_NOT, DYN_OP_NEG}"
      using unary(3) by (auto simp: unary_value_def Let_def split: if_split_asm)
    then have "ie_type (expr_at ir (ie_left ?e)) = ie_type ?e" using typed_e unary(1) by blast
    then have "in_type ?bits ?sign v" using v(3) by (simp add: scalar_in_def)
    from unary_value_exact [OF bits this, of "ie_op ?e" "ie_wrap ?e"] unary(3,4) v(2)
    have "map_option word_of_int (int_unary (ie_op ?e) ?bits ?sign (ie_wrap ?e) v) = Some r" by simp
    then obtain w where "int_unary (ie_op ?e) ?bits ?sign (ie_wrap ?e) v = Some w" "r = word_of_int w" by auto
    then show ?thesis using sem_sems.unary [OF scalar unary(1) v(1)] int_unary_in_type [OF _ bits(1,3)]
      by (auto simp: evaluates_def scalar_in_def)
  next
    case (conj rem rem')
    obtain v where v: "sem ir pb env (ie_left ?e) v" "word_of_int v = (0 :: u64)" "scalar_in pb (ie_type (expr_at ir (ie_left ?e))) v"
      using IH [OF conj(3) less.prems(2)] by (auto simp: evaluates_def)
    then have "v = 0" using value_of_guard [OF conj(3)] scalar_zero [OF pb] c by metis
    then have "sem ir pb env i 0" using sem_sems.conj [OF scalar conj(1,2)] v(1) by simp
    then show ?thesis using of_bool_in_type [OF bits(1,3), of False] conj(4) by (auto simp: evaluates_def scalar_in_def)
  next
    case (disj rem a rem')
    obtain v where v: "sem ir pb env (ie_left ?e) v" "a = word_of_int v" using IH [OF disj(3) less.prems(2)] by (auto simp: evaluates_def)
    then have "v \<noteq> 0" using disj(4) by auto
    then have "sem ir pb env i 1" using sem_sems.disj [OF scalar disj(1,2) v(1)] by simp
    then show ?thesis using of_bool_in_type [OF bits(1,3), of True] disj(5) by (auto simp: evaluates_def scalar_in_def)
  next
    case (binary rem a rem1 rem2 b rem3)
    let ?t = "ie_type (expr_at ir (ie_left ?e))"
    obtain v w where v: "sem ir pb env (ie_left ?e) v" "a = word_of_int v" "scalar_in pb ?t v"
      and w: "sem ir pb env (ie_right ?e) w" "b = word_of_int w" "scalar_in pb ?t w"
      using IH [OF binary(2) less.prems(2)] IH [OF binary(5) less.prems(2)] binary(7) by (auto simp: evaluates_def)
    note obits = width_bounds [OF pb binary(6)]
    have in_t: "in_type (scalar_width pb ?t) (signed_type ?t) v" "in_type (scalar_width pb ?t) (signed_type ?t) w"
      using v(3) w(3) by (simp_all add: scalar_in_def)
    have like: "typed_like_operands (ie_op ?e) \<Longrightarrow> ?t = ie_type ?e" using typed_e binary(1) by blast
    have "map_option word_of_int (int_binary (ie_op ?e) ?bits ?sign (ie_wrap ?e) v w) = Some r"
      using binary_value_exact [OF bits obits(1,2) in_t, of "ie_op ?e" "ie_wrap ?e"] like binary(8) v(2) w(2) by auto
    then obtain u where u: "int_binary (ie_op ?e) ?bits ?sign (ie_wrap ?e) v w = Some u" "r = word_of_int u" by auto
    have "\<not> (ie_op ?e = DYN_OP_LOGICAL_AND \<and> v = 0)" using binary(3) v(2) by auto
    moreover have "\<not> (ie_op ?e = DYN_OP_LOGICAL_OR \<and> v \<noteq> 0)"
      using binary(4) v(2) scalar_zero [OF pb binary(6) v(3)] by auto
    ultimately have "sem ir pb env i u" by (rule sem_sems.binary [OF scalar binary(1) v(1) _ _ w(1) u(1)])
    moreover have "in_type ?bits ?sign u" by (rule int_binary_in_type [OF u(1) bits(1,3)]) (metis like in_t)
    ultimately show ?thesis using u(2) by (auto simp: evaluates_def scalar_in_def)
  qed
qed

end
