(* ===== verification/Opt_Fold.thy ===== *)
theory Opt_Fold
  imports Opt_Eval Ir_Loops
begin









subsection \<open>What the pass changes\<close>




subsection \<open>Programs that agree\<close>










subsection \<open>The pass\<close>













subsection \<open>A sample\<close>


























end
