(* ===== verification/Elf_Class.thy ===== *)
theory Elf_Class
  imports Dyn_Prelude
begin

text \<open>
  Conversion between ELF32 and ELF64 files (\<open>src/src/elf_class.h\<close>): \<open>dyn_elf_narrow\<close> turns a finished ELF64 file of a
  32-bit target into ELF32, \<open>dyn_elf_widen\<close> an ELF32 object into ELF64. The output buffer is a byte list of the
  allocated size: every access outside of it or of the input is the fault \<open>OutOfBounds\<close>, the code's \<open>false\<close> is
  \<open>Fail\<close>. Positions are naturals, values keep the width the code gives them. Allocation failure is not modelled.
\<close>

unbundle bit_operations_syntax

subsection \<open>Little-endian access\<close>

definition elf_class_read16 :: "bytes \<Rightarrow> nat \<Rightarrow> u16 result" where
  "elf_class_read16 bs p =
     bind_r (index_r bs p) (\<lambda>a. bind_r (index_r bs (p + 1)) (\<lambda>b. Inr (ucast a OR push_bit 8 (ucast b))))"

definition elf_class_read32 :: "bytes \<Rightarrow> nat \<Rightarrow> u32 result" where
  "elf_class_read32 bs p =
     bind_r (elf_class_read16 bs p) (\<lambda>a. bind_r (elf_class_read16 bs (p + 2)) (\<lambda>b.
       Inr (ucast a OR push_bit 16 (ucast b))))"

definition elf_class_read64 :: "bytes \<Rightarrow> nat \<Rightarrow> u64 result" where
  "elf_class_read64 bs p =
     bind_r (elf_class_read32 bs p) (\<lambda>a. bind_r (elf_class_read32 bs (p + 4)) (\<lambda>b.
       Inr (ucast a OR push_bit 32 (ucast b))))"

definition elf_class_write16 :: "bytes \<Rightarrow> nat \<Rightarrow> u64 \<Rightarrow> bytes result" where
  "elf_class_write16 bs p v =
     bind_r (update_r bs p (ucast v)) (\<lambda>bs. update_r bs (p + 1) (ucast (drop_bit 8 v)))"

definition elf_class_write32 :: "bytes \<Rightarrow> nat \<Rightarrow> u64 \<Rightarrow> bytes result" where
  "elf_class_write32 bs p v =
     bind_r (elf_class_write16 bs p v) (\<lambda>bs. elf_class_write16 bs (p + 2) (drop_bit 16 v))"

definition elf_class_write64 :: "bytes \<Rightarrow> nat \<Rightarrow> u64 \<Rightarrow> bytes result" where
  "elf_class_write64 bs p v =
     bind_r (elf_class_write32 bs p v) (\<lambda>bs. elf_class_write32 bs (p + 4) (drop_bit 32 v))"

definition elf_class_inside :: "u64 \<Rightarrow> u64 \<Rightarrow> u64 \<Rightarrow> bool" where
  "elf_class_inside file offset len \<longleftrightarrow> offset \<le> file \<and> len \<le> file - offset"

definition elf_class_fits :: "u64 \<Rightarrow> bool" where
  "elf_class_fits v \<longleftrightarrow> v \<le> 0xFFFFFFFF"

text \<open>\<open>memcpy\<close> and \<open>memset\<close>.\<close>

definition memcpy_r :: "bytes \<Rightarrow> nat \<Rightarrow> bytes \<Rightarrow> nat \<Rightarrow> nat \<Rightarrow> bytes result" where
  "memcpy_r o1 at src from n =
     (if at + n \<le> length o1 \<and> from + n \<le> length src
      then Inr (take at o1 @ take n (drop from src) @ drop (at + n) o1) else Inl OutOfBounds)"

definition memset_r :: "bytes \<Rightarrow> nat \<Rightarrow> nat \<Rightarrow> bytes result" where
  "memset_r o1 at n =
     (if at + n \<le> length o1 then Inr (take at o1 @ replicate n 0 @ drop (at + n) o1) else Inl OutOfBounds)"

subsection \<open>Narrowing\<close>

abbreviation "SHT_SYMTAB \<equiv> 2 :: u32"
abbreviation "SHT_RELA \<equiv> 4 :: u32"
abbreviation "SHT_NOBITS \<equiv> 8 :: u32"
abbreviation "SHT_REL \<equiv> 9 :: u32"
abbreviation "SHT_DYNSYM \<equiv> 11 :: u32"

text \<open>The end of the sections' bytes.\<close>

definition narrow_end :: "bytes \<Rightarrow> u64 \<Rightarrow> nat \<Rightarrow> u64 result" where
  "narrow_end inp shoff shnum =
     for_r 0 shnum (\<lambda>i end.
       let s = unat shoff + i * 64 in
       bind_r (elf_class_read64 inp (s + 24)) (\<lambda>at.
       bind_r (elf_class_read64 inp (s + 32)) (\<lambda>len.
       bind_r (elf_class_read32 inp (s + 4)) (\<lambda>type.
         Inr (if type \<noteq> SHT_NOBITS \<and> at + len > end then at + len else end)))))
     (if shnum \<noteq> 0 then shoff else of_nat (length inp))"

definition narrow_header :: "bytes \<Rightarrow> bytes \<Rightarrow> u64 \<Rightarrow> nat \<Rightarrow> u64 \<Rightarrow> nat \<Rightarrow> (bytes \<times> bool) result" where
  "narrow_header inp o1 phoff phnum headers shnum =
     bind_r (memset_r o1 0 64) (\<lambda>o1.
     bind_r (memcpy_r o1 0 inp 0 16) (\<lambda>o1.
     bind_r (update_r o1 4 1) (\<lambda>o1.
     bind_r (elf_class_read64 inp 24) (\<lambda>entry.
     bind_r (elf_class_read16 inp 16) (\<lambda>v. bind_r (elf_class_write16 o1 16 (ucast v)) (\<lambda>o1.
     bind_r (elf_class_read16 inp 18) (\<lambda>v. bind_r (elf_class_write16 o1 18 (ucast v)) (\<lambda>o1.
     bind_r (elf_class_read32 inp 20) (\<lambda>v. bind_r (elf_class_write32 o1 20 (ucast v)) (\<lambda>o1.
     bind_r (elf_class_write32 o1 24 entry) (\<lambda>o1.
     bind_r (elf_class_write32 o1 28 (if phnum \<noteq> 0 then phoff else 0)) (\<lambda>o1.
     bind_r (elf_class_write32 o1 32 (if shnum \<noteq> 0 then headers else 0)) (\<lambda>o1.
     bind_r (elf_class_read32 inp 48) (\<lambda>v. bind_r (elf_class_write32 o1 36 (ucast v)) (\<lambda>o1.
     bind_r (elf_class_write16 o1 40 52) (\<lambda>o1.
     bind_r (elf_class_write16 o1 42 (if phnum \<noteq> 0 then 32 else 0)) (\<lambda>o1.
     bind_r (elf_class_write16 o1 44 (of_nat phnum)) (\<lambda>o1.
     bind_r (elf_class_write16 o1 46 (if shnum \<noteq> 0 then 40 else 0)) (\<lambda>o1.
     bind_r (elf_class_write16 o1 48 (of_nat shnum)) (\<lambda>o1.
     bind_r (elf_class_read16 inp 62) (\<lambda>v. bind_r (elf_class_write16 o1 50 (ucast v)) (\<lambda>o1.
       Inr (o1, elf_class_fits entry \<and> elf_class_fits phoff)))))))))))))))))))))))"

definition narrow_program_header :: "bytes \<Rightarrow> u64 \<Rightarrow> nat \<Rightarrow> bytes \<times> bool \<Rightarrow> (bytes \<times> bool) result" where
  "narrow_program_header inp phoff i = (\<lambda>(o1, fine).
     if \<not> fine then Inr (o1, fine)
     else
       let p = unat phoff + i * 56; q = unat phoff + i * 32 in
       bind_r (elf_class_read32 inp p) (\<lambda>v0.
       bind_r (elf_class_read32 inp (p + 4)) (\<lambda>v4.
       bind_r (elf_class_read64 inp (p + 8)) (\<lambda>v8.
       bind_r (elf_class_read64 inp (p + 16)) (\<lambda>v16.
       bind_r (elf_class_read64 inp (p + 24)) (\<lambda>v24.
       bind_r (elf_class_read64 inp (p + 32)) (\<lambda>v32.
       bind_r (elf_class_read64 inp (p + 40)) (\<lambda>v40.
       bind_r (elf_class_read64 inp (p + 48)) (\<lambda>v48.
       bind_r (elf_class_write32 o1 q (ucast v0)) (\<lambda>o1.
       bind_r (elf_class_write32 o1 (q + 4) v8) (\<lambda>o1.
       bind_r (elf_class_write32 o1 (q + 8) v16) (\<lambda>o1.
       bind_r (elf_class_write32 o1 (q + 12) v24) (\<lambda>o1.
       bind_r (elf_class_write32 o1 (q + 16) v32) (\<lambda>o1.
       bind_r (elf_class_write32 o1 (q + 20) v40) (\<lambda>o1.
       bind_r (elf_class_write32 o1 (q + 24) (ucast v4)) (\<lambda>o1.
       bind_r (elf_class_write32 o1 (q + 28) v48) (\<lambda>o1.
         Inr (o1, list_all elf_class_fits [v8, v16, v24, v32, v40, v48]))))))))))))))))))"

definition narrow_symbol :: "bytes \<Rightarrow> nat \<Rightarrow> nat \<Rightarrow> bytes \<times> bool \<Rightarrow> (bytes \<times> bool) result" where
  "narrow_symbol inp from to = (\<lambda>(o1, fine).
     bind_r (elf_class_read64 inp (from + 8)) (\<lambda>v.
     bind_r (elf_class_read64 inp (from + 16)) (\<lambda>size.
     bind_r (elf_class_read32 inp from) (\<lambda>name. bind_r (elf_class_write32 o1 to (ucast name)) (\<lambda>o1.
     bind_r (elf_class_write32 o1 (to + 4) v) (\<lambda>o1.
     bind_r (elf_class_write32 o1 (to + 8) size) (\<lambda>o1.
     bind_r (index_r inp (from + 4)) (\<lambda>b. bind_r (update_r o1 (to + 12) b) (\<lambda>o1.
     bind_r (index_r inp (from + 5)) (\<lambda>b. bind_r (update_r o1 (to + 13) b) (\<lambda>o1.
     bind_r (elf_class_read16 inp (from + 6)) (\<lambda>sec. bind_r (elf_class_write16 o1 (to + 14) (ucast sec)) (\<lambda>o1.
       Inr (o1, fine \<and> elf_class_fits v \<and> elf_class_fits size))))))))))))))"

definition narrow_relocation :: "bool \<Rightarrow> bytes \<Rightarrow> nat \<Rightarrow> nat \<Rightarrow> bytes \<times> bool \<Rightarrow> (bytes \<times> bool) result" where
  "narrow_relocation addend inp from to = (\<lambda>(o1, fine).
     bind_r (elf_class_read64 inp from) (\<lambda>offset.
     bind_r (elf_class_read64 inp (from + 8)) (\<lambda>info.
       let symbol = drop_bit 32 info; kind = info AND 0xFFFFFFFF;
           fine = (fine \<and> elf_class_fits offset \<and> symbol < 2 ^ 24 \<and> kind < 256) in
       bind_r (elf_class_write32 o1 to offset) (\<lambda>o1.
       bind_r (elf_class_write32 o1 (to + 4) (push_bit 8 symbol OR kind)) (\<lambda>o1.
         if addend then
           bind_r (elf_class_read64 inp (from + 16)) (\<lambda>v.
           bind_r (elf_class_write32 o1 (to + 8) (ucast (ucast v :: u32))) (\<lambda>o1.
             Inr (o1, fine \<and> - (2 ^ 31) \<le> sint v \<and> sint v < 2 ^ 31)))
         else Inr (o1, fine))))))"

definition narrow_content :: "bytes \<Rightarrow> u32 \<Rightarrow> u64 \<Rightarrow> u64 \<Rightarrow> u64 \<Rightarrow> bytes \<Rightarrow> bool \<Rightarrow> (bytes \<times> bool \<times> u64 \<times> u64) result" where
  "narrow_content inp type at len entsize o1 fine =
     (if (type = SHT_SYMTAB \<or> type = SHT_DYNSYM) \<and> entsize = 24 then
        let count = unat (len div 24) in
        bind_r (memset_r o1 (unat at) (unat len)) (\<lambda>o1.
        bind_r (for_r 0 count (\<lambda>k. narrow_symbol inp (unat at + k * 24) (unat at + k * 16)) (o1, fine)) (\<lambda>(o1, fine).
          Inr (o1, fine, of_nat count * 16, 16)))
      else if type = SHT_RELA \<and> entsize = 24 \<or> type = SHT_REL \<and> entsize = 16 then
        let addend = (type = SHT_RELA); count = unat (len div entsize); width = (if addend then 12 else 8) in
        bind_r (memset_r o1 (unat at) (unat len)) (\<lambda>o1.
        bind_r (for_r 0 count (\<lambda>k. narrow_relocation addend inp (unat at + k * unat entsize) (unat at + k * width))
          (o1, fine)) (\<lambda>(o1, fine). Inr (o1, fine, of_nat (count * width), of_nat width)))
      else Inr (o1, fine, len, entsize))"

definition narrow_section :: "bytes \<Rightarrow> u64 \<Rightarrow> u64 \<Rightarrow> nat \<Rightarrow> bytes \<times> bool \<Rightarrow> (bytes \<times> bool) result" where
  "narrow_section inp shoff headers i = (\<lambda>(o1, fine).
     if \<not> fine then Inr (o1, fine)
     else
       let s = unat shoff + i * 64; h = unat headers + i * 40 in
       bind_r (elf_class_read32 inp (s + 4)) (\<lambda>type.
       bind_r (elf_class_read64 inp (s + 24)) (\<lambda>at.
       bind_r (elf_class_read64 inp (s + 32)) (\<lambda>len.
       bind_r (elf_class_read64 inp (s + 56)) (\<lambda>entsize.
         if type \<noteq> SHT_NOBITS \<and> \<not> elf_class_inside (of_nat (length inp)) at len then Inr (o1, False)
         else
           bind_r (narrow_content inp type at len entsize o1 fine) (\<lambda>(o1, fine, narrowed, narrowed_entsize).
           bind_r (elf_class_read64 inp (s + 8)) (\<lambda>flags.
           bind_r (elf_class_read64 inp (s + 16)) (\<lambda>address.
           bind_r (elf_class_read64 inp (s + 48)) (\<lambda>align.
           bind_r (elf_class_read32 inp s) (\<lambda>v. bind_r (elf_class_write32 o1 h (ucast v)) (\<lambda>o1.
           bind_r (elf_class_write32 o1 (h + 4) (ucast type)) (\<lambda>o1.
           bind_r (elf_class_write32 o1 (h + 8) flags) (\<lambda>o1.
           bind_r (elf_class_write32 o1 (h + 12) address) (\<lambda>o1.
           bind_r (elf_class_write32 o1 (h + 16) at) (\<lambda>o1.
           bind_r (elf_class_write32 o1 (h + 20) narrowed) (\<lambda>o1.
           bind_r (elf_class_read32 inp (s + 40)) (\<lambda>v. bind_r (elf_class_write32 o1 (h + 24) (ucast v)) (\<lambda>o1.
           bind_r (elf_class_read32 inp (s + 44)) (\<lambda>v. bind_r (elf_class_write32 o1 (h + 28) (ucast v)) (\<lambda>o1.
           bind_r (elf_class_write32 o1 (h + 32) align) (\<lambda>o1.
           bind_r (elf_class_write32 o1 (h + 36) narrowed_entsize) (\<lambda>o1.
             Inr (o1, fine \<and> list_all elf_class_fits [flags, address, at, narrowed, align, narrowed_entsize])))))))))))))))))))))))"

text \<open>The output, once its size and the place of the section headers are known.\<close>

definition narrow_write :: "bytes \<Rightarrow> u64 \<Rightarrow> nat \<Rightarrow> u64 \<Rightarrow> nat \<Rightarrow> nat \<Rightarrow> u64 \<Rightarrow> nat \<Rightarrow> bytes result" where
  "narrow_write inp phoff phnum shoff shnum end headers tsize =
     bind_r (memcpy_r (replicate tsize 0) 0 inp 0 (min end (length inp))) (\<lambda>o1.
     bind_r (narrow_header inp o1 phoff phnum headers shnum) (\<lambda>(o1, fine).
     bind_r (for_r 0 phnum (narrow_program_header inp phoff) (o1, fine)) (\<lambda>(o1, fine).
     bind_r (if phnum \<noteq> 0 then memset_r o1 (unat phoff + phnum * 32) (phnum * 24) else Inr o1) (\<lambda>o1.
     bind_r (for_r 0 shnum (narrow_section inp shoff headers) (o1, fine)) (\<lambda>(o1, fine).
       if \<not> fine then Inl (Fail ''value does not fit'') else Inr o1)))))"

definition elf_magic :: bytes where
  "elf_magic = [0x7F, 0x45, 0x4C, 0x46]"

definition dyn_elf_narrow :: "bytes \<Rightarrow> bytes result" where
  "dyn_elf_narrow inp =
     (if length inp < 64 \<or> take 4 inp \<noteq> elf_magic \<or> inp ! 4 \<noteq> 2 \<or> inp ! 5 \<noteq> 1 then Inl (Fail ''not an ELF64 file'')
      else
        bind_r (elf_class_read64 inp 32) (\<lambda>phoff.
        bind_r (elf_class_read64 inp 40) (\<lambda>shoff.
        bind_r (elf_class_read16 inp 56) (\<lambda>phnum16.
        bind_r (elf_class_read16 inp 60) (\<lambda>shnum16.
          let phnum = unat phnum16; shnum = unat shnum16; size = of_nat (length inp) in
          if phnum \<noteq> 0 \<and> \<not> elf_class_inside size phoff (of_nat (phnum * 56)) \<or>
             shnum \<noteq> 0 \<and> \<not> elf_class_inside size shoff (of_nat (shnum * 64)) then Inl (Fail ''table outside the file'')
          else
            bind_r (narrow_end inp shoff shnum) (\<lambda>end.
              let headers = (end + 3) AND NOT 3; total = headers + of_nat (shnum * 40) in
              if \<not> elf_class_fits total \<or> total < 52 then Inl (Fail ''size'')
              else
                narrow_write inp phoff phnum shoff shnum (unat end) headers (unat total)))))))"

subsection \<open>Widening\<close>

text \<open>The size and alignment a section gets.\<close>

definition widened_size :: "u32 \<Rightarrow> u32 \<Rightarrow> u32 \<Rightarrow> u32 \<Rightarrow> u64 \<times> u32" where
  "widened_size type len entsize align =
     (if (type = SHT_SYMTAB \<or> type = SHT_DYNSYM) \<and> entsize = 16 then (ucast (len div 16) * 24, 8)
      else if type = SHT_RELA \<and> entsize = 12 then (ucast (len div 12) * 24, 8)
      else if type = SHT_REL \<and> entsize = 8 then (ucast (len div 8) * 16, 8)
      else (ucast len, align))"

definition widen_layout :: "bytes \<Rightarrow> u32 \<Rightarrow> nat \<Rightarrow> u64 \<times> u64 list \<times> u64 list \<Rightarrow> (u64 \<times> u64 list \<times> u64 list) result" where
  "widen_layout inp shoff i = (\<lambda>(cursor, offsets, lengths).
     let s = unat shoff + i * 40 in
     bind_r (elf_class_read32 inp (s + 4)) (\<lambda>type.
     bind_r (elf_class_read32 inp (s + 20)) (\<lambda>len.
     bind_r (elf_class_read32 inp (s + 36)) (\<lambda>entsize.
     bind_r (elf_class_read32 inp (s + 32)) (\<lambda>align.
     bind_r (elf_class_read32 inp (s + 16)) (\<lambda>at.
       let (widened, align) = widened_size type len entsize align in
       if type \<noteq> SHT_NOBITS \<and> type \<noteq> 0 \<and> \<not> elf_class_inside (of_nat (length inp)) (ucast at) (ucast len)
       then Inl (Fail ''section outside the file'')
       else
         let cursor = (if align > 1 then (cursor + ucast align - 1) div ucast align * ucast align else cursor);
             lengths = lengths[i := widened] in
         if type \<noteq> SHT_NOBITS \<and> type \<noteq> 0 then Inr (cursor + widened, offsets[i := cursor], lengths)
         else Inr (cursor, offsets, lengths)))))))"

definition widen_symbol :: "bytes \<Rightarrow> nat \<Rightarrow> nat \<Rightarrow> bytes \<Rightarrow> bytes result" where
  "widen_symbol inp from e o1 =
     bind_r (elf_class_read32 inp from) (\<lambda>v. bind_r (elf_class_write32 o1 e (ucast v)) (\<lambda>o1.
     bind_r (index_r inp (from + 12)) (\<lambda>b. bind_r (update_r o1 (e + 4) b) (\<lambda>o1.
     bind_r (index_r inp (from + 13)) (\<lambda>b. bind_r (update_r o1 (e + 5) b) (\<lambda>o1.
     bind_r (elf_class_read16 inp (from + 14)) (\<lambda>v. bind_r (elf_class_write16 o1 (e + 6) (ucast v)) (\<lambda>o1.
     bind_r (elf_class_read32 inp (from + 4)) (\<lambda>v. bind_r (elf_class_write64 o1 (e + 8) (ucast v)) (\<lambda>o1.
     bind_r (elf_class_read32 inp (from + 8)) (\<lambda>v. elf_class_write64 o1 (e + 16) (ucast v))))))))))))"

definition widen_relocation :: "bool \<Rightarrow> bytes \<Rightarrow> nat \<Rightarrow> nat \<Rightarrow> bytes \<Rightarrow> bytes result" where
  "widen_relocation addend inp from e o1 =
     bind_r (elf_class_read32 inp (from + 4)) (\<lambda>info.
     bind_r (elf_class_read32 inp from) (\<lambda>v. bind_r (elf_class_write64 o1 e (ucast v)) (\<lambda>o1.
     bind_r (elf_class_write64 o1 (e + 8) (push_bit 32 (ucast (drop_bit 8 info)) OR ucast (info AND 0xFF))) (\<lambda>o1.
       if addend then bind_r (elf_class_read32 inp (from + 8)) (\<lambda>v. elf_class_write64 o1 (e + 16) (scast v))
       else Inr o1))))"

definition widen_content :: "bytes \<Rightarrow> u32 \<Rightarrow> u32 \<Rightarrow> u32 \<Rightarrow> u32 \<Rightarrow> u32 \<Rightarrow> nat \<Rightarrow> bytes \<Rightarrow> (bytes \<times> u32 \<times> u32) result" where
  "widen_content inp type at len entsize align to o1 =
     (if (type = SHT_SYMTAB \<or> type = SHT_DYNSYM) \<and> entsize = 16 then
        bind_r (for_r 0 (unat (len div 16)) (\<lambda>k. widen_symbol inp (unat at + k * 16) (to + k * 24)) o1) (\<lambda>o1.
          Inr (o1, 24, 8))
      else if type = SHT_RELA \<and> entsize = 12 \<or> type = SHT_REL \<and> entsize = 8 then
        let addend = (type = SHT_RELA); width = (if addend then 24 else 16) in
        bind_r (for_r 0 (unat (len div entsize)) (\<lambda>k. widen_relocation addend inp (unat at + k * unat entsize) (to + k * width)) o1)
          (\<lambda>o1. Inr (o1, of_nat width, 8))
      else if type \<noteq> SHT_NOBITS \<and> type \<noteq> 0 \<and> len \<noteq> 0 then
        bind_r (memcpy_r o1 to inp (unat at) (unat len)) (\<lambda>o1. Inr (o1, entsize, align))
      else Inr (o1, entsize, align))"

definition widen_section :: "bytes \<Rightarrow> u32 \<Rightarrow> u64 \<Rightarrow> u64 list \<Rightarrow> u64 list \<Rightarrow> nat \<Rightarrow> bytes \<Rightarrow> bytes result" where
  "widen_section inp shoff headers offsets lengths i o1 =
     (let s = unat shoff + i * 40; h = unat headers + i * 64; to = unat (offsets ! i) in
     bind_r (elf_class_read32 inp (s + 4)) (\<lambda>type.
     bind_r (elf_class_read32 inp (s + 16)) (\<lambda>at.
     bind_r (elf_class_read32 inp (s + 20)) (\<lambda>len.
     bind_r (elf_class_read32 inp (s + 36)) (\<lambda>entsize.
     bind_r (elf_class_read32 inp (s + 32)) (\<lambda>align.
     bind_r (widen_content inp type at len entsize align to o1) (\<lambda>(o1, entsize, align).
     bind_r (elf_class_read32 inp s) (\<lambda>v. bind_r (elf_class_write32 o1 h (ucast v)) (\<lambda>o1.
     bind_r (elf_class_write32 o1 (h + 4) (ucast type)) (\<lambda>o1.
     bind_r (elf_class_read32 inp (s + 8)) (\<lambda>v. bind_r (elf_class_write64 o1 (h + 8) (ucast v)) (\<lambda>o1.
     bind_r (elf_class_read32 inp (s + 12)) (\<lambda>v. bind_r (elf_class_write64 o1 (h + 16) (ucast v)) (\<lambda>o1.
     bind_r (elf_class_write64 o1 (h + 24) (offsets ! i)) (\<lambda>o1.
     bind_r (elf_class_write64 o1 (h + 32) (lengths ! i)) (\<lambda>o1.
     bind_r (elf_class_read32 inp (s + 24)) (\<lambda>v. bind_r (elf_class_write32 o1 (h + 40) (ucast v)) (\<lambda>o1.
     bind_r (elf_class_read32 inp (s + 28)) (\<lambda>v. bind_r (elf_class_write32 o1 (h + 44) (ucast v)) (\<lambda>o1.
     bind_r (elf_class_write64 o1 (h + 48) (ucast (align :: u32))) (\<lambda>o1.
       elf_class_write64 o1 (h + 56) (ucast (entsize :: u32)))))))))))))))))))))))"

definition widen_header :: "bytes \<Rightarrow> u64 \<Rightarrow> nat \<Rightarrow> bytes \<Rightarrow> bytes result" where
  "widen_header inp headers shnum o1 =
     bind_r (memcpy_r o1 0 inp 0 16) (\<lambda>o1.
     bind_r (update_r o1 4 2) (\<lambda>o1.
     bind_r (elf_class_read16 inp 16) (\<lambda>v. bind_r (elf_class_write16 o1 16 (ucast v)) (\<lambda>o1.
     bind_r (elf_class_read16 inp 18) (\<lambda>v. bind_r (elf_class_write16 o1 18 (ucast v)) (\<lambda>o1.
     bind_r (elf_class_read32 inp 20) (\<lambda>v. bind_r (elf_class_write32 o1 20 (ucast v)) (\<lambda>o1.
     bind_r (elf_class_read32 inp 24) (\<lambda>v. bind_r (elf_class_write64 o1 24 (ucast v)) (\<lambda>o1.
     bind_r (elf_class_write64 o1 40 headers) (\<lambda>o1.
     bind_r (elf_class_read32 inp 36) (\<lambda>v. bind_r (elf_class_write32 o1 48 (ucast v)) (\<lambda>o1.
     bind_r (elf_class_write16 o1 52 64) (\<lambda>o1.
     bind_r (elf_class_write16 o1 58 64) (\<lambda>o1.
     bind_r (elf_class_write16 o1 60 (of_nat shnum)) (\<lambda>o1.
     bind_r (elf_class_read16 inp 50) (\<lambda>v. elf_class_write16 o1 62 (ucast v))))))))))))))))))"

definition dyn_elf_widen :: "bytes \<Rightarrow> bytes result" where
  "dyn_elf_widen inp =
     (if length inp < 52 \<or> take 4 inp \<noteq> elf_magic \<or> inp ! 4 \<noteq> 1 \<or> inp ! 5 \<noteq> 1 then Inl (Fail ''not an ELF32 object'')
      else
        bind_r (elf_class_read16 inp 16) (\<lambda>type.
        if type \<noteq> 1 then Inl (Fail ''not an ELF32 object'') else
        bind_r (elf_class_read32 inp 32) (\<lambda>shoff.
        bind_r (elf_class_read16 inp 48) (\<lambda>shnum16.
          let shnum = unat shnum16 in
          if shnum = 0 \<or> \<not> elf_class_inside (of_nat (length inp)) (ucast shoff) (of_nat (shnum * 40))
          then Inl (Fail ''no sections'')
          else
            bind_r (for_r 0 shnum (widen_layout inp shoff) (64, replicate shnum 0, replicate shnum 0))
              (\<lambda>(cursor, offsets, lengths).
              let headers = (cursor + 7) AND NOT 7; total = headers + of_nat (shnum * 64) in
              bind_r (widen_header inp headers shnum (replicate (unat total) 0)) (\<lambda>o1.
                for_r 0 shnum (widen_section inp shoff headers offsets lengths) o1)))))) "

subsection \<open>Sample files\<close>

definition sample_small_file :: bytes where
  "sample_small_file = elf_magic @ [2, 1] @ replicate 34 0 @ [16] @ replicate 19 0 @ [1] @ replicate 19 0"

text \<open>An ELF32 object: the header, one symbol, the null section and the symbol table.\<close>

definition sample_object32 :: bytes where
  "sample_object32 = elf_magic @ [1, 1] @ replicate 10 0 @ [1, 0] @ replicate 14 0 @ [68] @ replicate 15 0 @ [2] @ replicate 3 0 @
     [1, 0, 0, 0, 16, 0, 0, 0, 4, 0, 0, 0, 18, 0, 1, 0] @ replicate 40 0 @
     [0, 0, 0, 0, 2] @ replicate 11 0 @ [52, 0, 0, 0, 16, 0, 0, 0] @ replicate 12 0 @ [16, 0, 0, 0]"

text \<open>The same object in the ELF64 form.\<close>

definition sample_object64 :: bytes where
  "sample_object64 = elf_magic @ [2, 1] @ replicate 10 0 @ [1, 0] @ replicate 22 0 @ [88] @ replicate 19 0 @ [2] @ replicate 3 0 @
     [1, 0, 0, 0, 18, 0, 1, 0, 16, 0, 0, 0, 0, 0, 0, 0, 4, 0, 0, 0, 0, 0, 0, 0] @ replicate 64 0 @
     [0, 0, 0, 0, 2] @ replicate 19 0 @ [64] @ replicate 7 0 @ [24] @ replicate 23 0 @ [24] @ replicate 7 0"

text \<open>A relocation of kind 2 against symbol 5 with the addend \<open>-4\<close>.\<close>

definition sample_rela :: bytes where
  "sample_rela = [32, 1, 0, 0, 0, 0, 0, 0, 2, 0, 0, 0, 5, 0, 0, 0, 252, 255, 255, 255, 255, 255, 255, 255]"

definition sample_rela32 :: bytes where
  "sample_rela32 = [32, 1, 0, 0, 2, 5, 0, 0, 252, 255, 255, 255]"

subsection \<open>Accesses as values\<close>

definition le16 :: "bytes \<Rightarrow> nat \<Rightarrow> u16" where
  "le16 bs p = ucast (bs ! p) OR push_bit 8 (ucast (bs ! (p + 1)))"

definition le32 :: "bytes \<Rightarrow> nat \<Rightarrow> u32" where
  "le32 bs p = ucast (le16 bs p) OR push_bit 16 (ucast (le16 bs (p + 2)))"

definition le64 :: "bytes \<Rightarrow> nat \<Rightarrow> u64" where
  "le64 bs p = ucast (le32 bs p) OR push_bit 32 (ucast (le32 bs (p + 4)))"

definition put16 :: "bytes \<Rightarrow> nat \<Rightarrow> u64 \<Rightarrow> bytes" where
  "put16 bs p v = bs[p := ucast v, p + 1 := ucast (drop_bit 8 v)]"

definition put32 :: "bytes \<Rightarrow> nat \<Rightarrow> u64 \<Rightarrow> bytes" where
  "put32 bs p v = put16 (put16 bs p v) (p + 2) (drop_bit 16 v)"

definition put64 :: "bytes \<Rightarrow> nat \<Rightarrow> u64 \<Rightarrow> bytes" where
  "put64 bs p v = put32 (put32 bs p v) (p + 4) (drop_bit 32 v)"

lemma length_put [simp]:
  "length (put16 bs p v) = length bs" "length (put32 bs p v) = length bs" "length (put64 bs p v) = length bs"
  by (simp_all add: put16_def put32_def put64_def)

lemma ok_read [simp]:
  "ok (elf_class_read16 bs p) Q \<longleftrightarrow> p + 2 \<le> length bs \<and> Q (le16 bs p)"
  "ok (elf_class_read32 bs p) R \<longleftrightarrow> p + 4 \<le> length bs \<and> R (le32 bs p)"
  "ok (elf_class_read64 bs p) S \<longleftrightarrow> p + 8 \<le> length bs \<and> S (le64 bs p)"
proof -
  show r16: "ok (elf_class_read16 bs p) Q \<longleftrightarrow> p + 2 \<le> length bs \<and> Q (le16 bs p)" for p Q
    by (auto simp: elf_class_read16_def le16_def)
  show r32: "ok (elf_class_read32 bs p) R \<longleftrightarrow> p + 4 \<le> length bs \<and> R (le32 bs p)" for p R
    by (auto simp: elf_class_read32_def le32_def r16)
  show "ok (elf_class_read64 bs p) S \<longleftrightarrow> p + 8 \<le> length bs \<and> S (le64 bs p)"
    by (auto simp: elf_class_read64_def le64_def r32)
qed

lemma ok_write [simp]:
  "ok (elf_class_write16 bs p v) Q \<longleftrightarrow> p + 2 \<le> length bs \<and> Q (put16 bs p v)"
  "ok (elf_class_write32 bs p v) Q \<longleftrightarrow> p + 4 \<le> length bs \<and> Q (put32 bs p v)"
  "ok (elf_class_write64 bs p v) Q \<longleftrightarrow> p + 8 \<le> length bs \<and> Q (put64 bs p v)"
proof -
  show w16: "ok (elf_class_write16 bs p v) Q \<longleftrightarrow> p + 2 \<le> length bs \<and> Q (put16 bs p v)" for bs p v Q
    by (auto simp: elf_class_write16_def put16_def)
  show w32: "ok (elf_class_write32 bs p v) Q \<longleftrightarrow> p + 4 \<le> length bs \<and> Q (put32 bs p v)" for bs p v Q
    by (auto simp: elf_class_write32_def put32_def w16)
  show "ok (elf_class_write64 bs p v) Q \<longleftrightarrow> p + 8 \<le> length bs \<and> Q (put64 bs p v)"
    by (auto simp: elf_class_write64_def put64_def w32)
qed

lemma ok_mem [simp]:
  "ok (memcpy_r o1 at src from n) Q \<longleftrightarrow> at + n \<le> length o1 \<and> from + n \<le> length src \<and>
     Q (take at o1 @ take n (drop from src) @ drop (at + n) o1)"
  "ok (memset_r o1 at n) Q \<longleftrightarrow> at + n \<le> length o1 \<and> Q (take at o1 @ replicate n 0 @ drop (at + n) o1)"
  by (auto simp: memcpy_r_def memset_r_def)

lemma inside_bytes:
  assumes "elf_class_inside (of_nat (length inp)) offset len" and "length inp < 2 ^ 64"
  shows "unat offset + unat len \<le> length inp"
proof -
  have n: "unat (of_nat (length inp) :: u64) = length inp" using assms(2) by (simp add: unat_of_nat)
  have "offset \<le> of_nat (length inp)" "len \<le> of_nat (length inp) - offset" using assms(1) by (simp_all add: elf_class_inside_def)
  then have "unat offset \<le> length inp" "unat len \<le> unat (of_nat (length inp) - offset)" using n by (simp_all add: word_le_nat_alt)
  moreover have "unat (of_nat (length inp) - offset) = length inp - unat offset"
    using \<open>offset \<le> of_nat (length inp)\<close> n by (simp add: unat_sub)
  ultimately show ?thesis by linarith
qed

subsection \<open>Memory safety of widening\<close>

text \<open>No sum of the layout wraps: an object has at most 65535 sections of less than 4 GiB each.\<close>

lemma align_up_bounds:
  fixes c :: u64 and a :: u32
  assumes "1 < a" and "unat c \<le> 2 ^ 60"
  defines "r \<equiv> (c + ucast a - 1) div ucast a * ucast a"
  shows "unat c \<le> unat r" and "unat r < unat c + 2 ^ 32"
proof -
  have a: "1 < unat a" "unat a < 2 ^ 32"
    using assms(1) unsigned_less [of a, where 'a = nat] by (simp_all add: word_less_nat_alt)
  have ua: "unat (ucast a :: u64) = unat a" by simp
  have "unat (c + ucast a) = unat c + unat a"
    using a assms(2) ua by (simp add: unat_word_ariths)
  then have up: "unat (c + ucast a - 1) = unat c + unat a - 1"
    using a by (subst unat_sub) (simp_all add: word_le_nat_alt)
  define q where "q = (unat c + unat a - 1) div unat a"
  have q: "q * unat a \<le> unat c + unat a - 1" by (simp add: q_def)
  have "unat r = q * unat a mod 2 ^ 64" by (simp add: r_def unat_word_ariths unat_div up ua q_def mod_mult_left_eq)
  also have "\<dots> = q * unat a" using q a assms(2) by simp
  finally have r: "unat r = q * unat a" .
  have "unat c + unat a - 1 < q * unat a + unat a"
    using a dividend_less_div_times [of "unat a" "unat c + unat a - 1"] by (simp add: q_def add.commute)
  then show "unat c \<le> unat r" using r by linarith
  show "unat r < unat c + 2 ^ 32" using r q a by linarith
qed

lemma unat_scaled:
  fixes n :: u32
  assumes "k \<le> 24"
  shows "unat (ucast n * (of_nat k :: u64)) = unat n * k"
proof -
  have "unat n * k \<le> 2 ^ 32 * 24" using unsigned_less [of n, where 'a = nat] assms by (intro mult_le_mono) simp_all
  then show ?thesis using assms by (simp add: unat_word_ariths unat_of_nat)
qed

lemma widened_size_cases:
  "type = SHT_SYMTAB \<or> type = SHT_DYNSYM \<Longrightarrow> unat (fst (widened_size type len 16 align)) = unat len div 16 * 24"
  "unat (fst (widened_size SHT_RELA len 12 align)) = unat len div 12 * 24"
  "unat (fst (widened_size SHT_REL len 8 align)) = unat len div 8 * 16"
  using unat_scaled [of 24 "len div 16"] unat_scaled [of 24 "len div 12"] unat_scaled [of 16 "len div 8"]
  by (auto simp: widened_size_def unat_div)

lemma widened_size_other:
  "\<not> ((type = SHT_SYMTAB \<or> type = SHT_DYNSYM) \<and> entsize = 16) \<Longrightarrow> \<not> (type = SHT_RELA \<and> entsize = 12) \<Longrightarrow>
   \<not> (type = SHT_REL \<and> entsize = 8) \<Longrightarrow> widened_size type len entsize align = (ucast len, align)"
  by (auto simp: widened_size_def)

lemma widened_size_bound: "unat (fst (widened_size type len entsize align)) \<le> 2 * unat len"
proof -
  have "unat len div 16 * 24 \<le> 2 * unat len" "unat len div 12 * 24 \<le> 2 * unat len" "unat len div 8 * 16 \<le> 2 * unat len"
    by linarith+
  then show ?thesis
    using widened_size_cases(1) [of type len align] widened_size_cases(2) [of len align] widened_size_cases(3) [of len align]
      widened_size_other [of type entsize len align]
    by (cases "(type = SHT_SYMTAB \<or> type = SHT_DYNSYM) \<and> entsize = 16"; cases "type = SHT_RELA \<and> entsize = 12";
        cases "type = SHT_REL \<and> entsize = 8") auto
qed

text \<open>
  \<open>laid_out inp shoff k\<close>: what the layout loop knows after \<open>k\<close> sections. Every section with bytes lies inside the
  input and got a range of the output below the cursor.
\<close>

definition has_bytes :: "u32 \<Rightarrow> bool" where
  "has_bytes type \<longleftrightarrow> type \<noteq> SHT_NOBITS \<and> type \<noteq> 0"

definition placed :: "bytes \<Rightarrow> nat \<Rightarrow> u64 \<Rightarrow> nat \<Rightarrow> bool" where
  "placed inp s to limit \<longleftrightarrow>
     (has_bytes (le32 inp (s + 4)) \<longrightarrow>
        unat (le32 inp (s + 16)) + unat (le32 inp (s + 20)) \<le> length inp \<and>
        unat to + unat (fst (widened_size (le32 inp (s + 4)) (le32 inp (s + 20)) (le32 inp (s + 36)) (le32 inp (s + 32)))) \<le> limit)"

definition laid_out :: "bytes \<Rightarrow> u32 \<Rightarrow> nat \<Rightarrow> nat \<Rightarrow> u64 \<times> u64 list \<times> u64 list \<Rightarrow> bool" where
  "laid_out inp shoff shnum k = (\<lambda>(cursor, offsets, lengths).
     length offsets = shnum \<and> length lengths = shnum \<and> 64 \<le> unat cursor \<and> unat cursor \<le> 64 + k * 2 ^ 34 \<and>
     (\<forall>j<k. placed inp (unat shoff + j * 40) (offsets ! j) (unat cursor)))"

lemma placed_mono: "placed inp s to limit \<Longrightarrow> limit \<le> limit' \<Longrightarrow> placed inp s to limit'"
  by (auto simp: placed_def)

lemma ok_widen_symbol:
  "from + 16 \<le> length inp \<Longrightarrow> e + 24 \<le> length o1 \<Longrightarrow> ok (widen_symbol inp from e o1) (\<lambda>o2. length o2 = length o1)"
  by (simp add: widen_symbol_def)

lemma ok_widen_relocation:
  "from + (if addend then 12 else 8) \<le> length inp \<Longrightarrow> e + (if addend then 24 else 16) \<le> length o1 \<Longrightarrow>
   ok (widen_relocation addend inp from e o1) (\<lambda>o2. length o2 = length o1)"
  by (cases addend) (simp_all add: widen_relocation_def)

lemma ok_widen_layout:
  assumes "laid_out inp shoff shnum k st" and "k < shnum" and "shnum < 2 ^ 16"
    and "unat shoff + shnum * 40 \<le> length inp" and "length inp < 2 ^ 64"
  shows "ok (widen_layout inp shoff k st) (laid_out inp shoff shnum (Suc k))"
proof -
  obtain cursor offsets lengths where st: "st = (cursor, offsets, lengths)" by (cases st)
  define s where "s = unat shoff + k * 40"
  define ty len es al at where fields: "ty = le32 inp (s + 4)" "len = le32 inp (s + 20)" "es = le32 inp (s + 36)"
    "al = le32 inp (s + 32)" "at = le32 inp (s + 16)"
  obtain widened align where w: "widened_size ty len es al = (widened, align)" by (cases "widened_size ty len es al")
  define up where "up = (if align > 1 then (cursor + ucast align - 1) div ucast align * ucast align else cursor)"
  have s: "s + 40 \<le> length inp"
    using assms(2,4) mult_le_mono1 [of "Suc k" shnum 40] by (simp add: s_def)
  have inv: "length offsets = shnum" "length lengths = shnum" "64 \<le> unat cursor" "unat cursor \<le> 64 + k * 2 ^ 34"
    "\<And>j. j < k \<Longrightarrow> placed inp (unat shoff + j * 40) (offsets ! j) (unat cursor)"
    using assms(1) by (simp_all add: laid_out_def st)
  have c: "unat cursor \<le> 2 ^ 51" using inv(4) assms(2,3) by simp
  have up: "unat cursor \<le> unat up" "unat up \<le> unat cursor + 2 ^ 32"
    using align_up_bounds [of align cursor] c by (auto simp: up_def)
  have "unat widened \<le> 2 * unat len" using widened_size_bound [of ty len es al] w by simp
  then have wb: "unat widened \<le> 2 ^ 33" using unsigned_less [of len, where 'a = nat] by simp
  then have sum: "unat (up + widened) = unat up + unat widened"
    using up c by (simp add: unat_word_ariths)
  have old: "placed inp (unat shoff + j * 40) (offsets ! j) limit" if "j < k" "unat cursor \<le> limit" for j limit
    using placed_mono [OF inv(5) [OF that(1)] that(2)] .
  show ?thesis
  proof (cases "has_bytes ty")
    case True
    have new: "placed inp (unat shoff + k * 40) up (unat (up + widened))" if "elf_class_inside (of_nat (length inp)) (ucast at) (ucast len)"
      using inside_bytes [OF that assms(5)] w sum by (simp add: placed_def fields s_def)
    have "laid_out inp shoff shnum (Suc k) (up + widened, offsets[k := up], lengths[k := widened])"
      if "elf_class_inside (of_nat (length inp)) (ucast at) (ucast len)"
      using inv up wb sum new [OF that] old assms(2) by (auto simp: laid_out_def nth_list_update less_Suc_eq)
    then show ?thesis using True s w
      by (auto simp: widen_layout_def st Let_def has_bytes_def up_def [symmetric] s_def fields)
  next
    case False
    then have "laid_out inp shoff shnum (Suc k) (up, offsets, lengths[k := widened])"
      using inv up old assms(2) by (auto simp: laid_out_def less_Suc_eq placed_def fields s_def)
    then show ?thesis using False s w
      by (auto simp: widen_layout_def st Let_def has_bytes_def up_def [symmetric] s_def fields)
  qed
qed

lemma entry_fits: "k < n div w \<Longrightarrow> at + n \<le> (l :: nat) \<Longrightarrow> at + k * w + w \<le> l"
proof -
  assume "k < n div w" and l: "at + n \<le> l"
  then have "Suc k * w \<le> n div w * w" by (intro mult_le_mono1) simp
  also have "\<dots> \<le> n" by simp
  finally show ?thesis using l by simp
qed

lemma table_fits: "k < n \<Longrightarrow> to + n * w \<le> (l :: nat) \<Longrightarrow> to + k * w + w \<le> l"
  using mult_le_mono1 [of "Suc k" n w] by simp

text \<open>Both kinds of table, entry by entry.\<close>

lemma ok_widen_table:
  fixes o1 :: bytes
  assumes "\<And>k o1. k < n div w \<Longrightarrow> at + k * w + w \<le> length inp \<Longrightarrow> to + k * w' + w' \<le> length o1 \<Longrightarrow>
      ok (step k o1) (\<lambda>o2. length o2 = length o1)"
    and "at + n \<le> length inp" and "to + n div w * w' \<le> length o1"
  shows "ok (for_r 0 (n div w) step o1) (\<lambda>o2. length o2 = length o1)"
proof (rule ok_for [where I = "\<lambda>o2. length o2 = length o1"])
  fix k :: nat and o2 :: bytes
  assume k: "k < 0 + n div w" and len: "length o2 = length o1"
  have "ok (step k o2) (\<lambda>o3. length o3 = length o2)"
    by (rule assms(1)) (use k len assms(2,3) entry_fits [of k n w at] table_fits [of k "n div w" to w'] in simp_all)
  then show "ok (step k o2) (\<lambda>o3. length o3 = length o1)" by (simp add: len)
qed simp_all

lemma ok_widen_content:
  assumes "has_bytes type \<Longrightarrow> unat at + unat len \<le> length inp"
    and "has_bytes type \<Longrightarrow> to + unat (fst (widened_size type len entsize align)) \<le> length o1"
  shows "ok (widen_content inp type at len entsize align to o1) (\<lambda>(o2, _). length o2 = length o1)"
proof -
  consider (sym) "type = SHT_SYMTAB \<or> type = SHT_DYNSYM" "entsize = 16" | (rela) "type = SHT_RELA" "entsize = 12"
    | (rel) "type = SHT_REL" "entsize = 8"
    | (other) "\<not> ((type = SHT_SYMTAB \<or> type = SHT_DYNSYM) \<and> entsize = 16)" "\<not> (type = SHT_RELA \<and> entsize = 12)"
      "\<not> (type = SHT_REL \<and> entsize = 8)"
    by blast
  then show ?thesis
  proof cases
    case sym
    then have "has_bytes type" by (auto simp: has_bytes_def)
    note fits = assms(1) [OF this] assms(2) [OF this, unfolded sym(2) widened_size_cases(1) [OF sym(1)]]
    have "ok (for_r 0 (unat len div 16) (\<lambda>k. widen_symbol inp (unat at + k * 16) (to + k * 24)) o1) (\<lambda>o2. length o2 = length o1)"
      by (rule ok_widen_table [OF ok_widen_symbol fits])
    then show ?thesis using sym by (simp add: widen_content_def unat_div)
  next
    case rela
    then have "has_bytes type" by (auto simp: has_bytes_def)
    note fits = assms(1) [OF this] assms(2) [OF this, unfolded rela widened_size_cases(2)]
    have "ok (for_r 0 (unat len div 12) (\<lambda>k. widen_relocation True inp (unat at + k * 12) (to + k * 24)) o1) (\<lambda>o2. length o2 = length o1)"
      by (rule ok_widen_table [OF ok_widen_relocation fits]) simp_all
    then show ?thesis using rela by (simp add: widen_content_def unat_div)
  next
    case rel
    then have "has_bytes type" by (auto simp: has_bytes_def)
    note fits = assms(1) [OF this] assms(2) [OF this, unfolded rel widened_size_cases(3)]
    have "ok (for_r 0 (unat len div 8) (\<lambda>k. widen_relocation False inp (unat at + k * 8) (to + k * 16)) o1) (\<lambda>o2. length o2 = length o1)"
      by (rule ok_widen_table [OF ok_widen_relocation fits]) simp_all
    then show ?thesis using rel by (simp add: widen_content_def unat_div)
  next
    case other
    then show ?thesis
      using assms widened_size_other [OF other] by (auto simp: widen_content_def has_bytes_def)
  qed
qed

lemma ok_widen_section:
  assumes "placed inp (unat shoff + i * 40) (offsets ! i) (unat headers)"
    and "unat shoff + i * 40 + 40 \<le> length inp" and "unat headers + i * 64 + 64 \<le> length o1"
  shows "ok (widen_section inp shoff headers offsets lengths i o1) (\<lambda>o2. length o2 = length o1)"
proof -
  define s where "s = unat shoff + i * 40"
  have "ok (widen_content inp (le32 inp (s + 4)) (le32 inp (s + 16)) (le32 inp (s + 20)) (le32 inp (s + 36)) (le32 inp (s + 32))
      (unat (offsets ! i)) o1) (\<lambda>(o2, _). length o2 = length o1)"
    by (rule ok_widen_content) (use assms(1,3) in \<open>simp_all add: placed_def s_def\<close>)
  moreover have "s + 40 \<le> length inp" using assms(2) by (simp add: s_def)
  ultimately show ?thesis
    using assms(3) unfolding widen_section_def Let_def s_def [symmetric]
    by (auto elim!: ok_mono)
qed

lemma headers_bounds:
  fixes c :: u64
  assumes "unat c \<le> 2 ^ 60"
  shows "unat c \<le> unat ((c + 7) AND NOT 7)" and "unat ((c + 7) AND NOT 7) \<le> unat c + 7"
proof -
  have "unat ((c + 7) AND NOT (mask 3)) = unat (c + 7) div 8 * 8" by (simp only: unat_and_not_mask) simp
  moreover have "mask 3 = (7 :: u64)" by (simp add: mask_eq_exp_minus_1)
  moreover have "unat (c + 7) = unat c + 7" using assms by (simp add: unat_word_ariths)
  ultimately have "unat ((c + 7) AND NOT 7) = (unat c + 7) div 8 * 8" by metis
  moreover have "unat c \<le> (unat c + 7) div 8 * 8" "(unat c + 7) div 8 * 8 \<le> unat c + 7" by linarith+
  ultimately show "unat c \<le> unat ((c + 7) AND NOT 7)" and "unat ((c + 7) AND NOT 7) \<le> unat c + 7" by metis+
qed

lemma unat_table: "n < 2 ^ 16 \<Longrightarrow> w \<le> 64 \<Longrightarrow> unat (of_nat (n * w) :: u64) = n * w"
proof -
  assume "n < 2 ^ 16" "w \<le> 64"
  then have "n * w \<le> 2 ^ 16 * 64" by (intro mult_le_mono) simp_all
  then show ?thesis by (simp add: unat_of_nat del: of_nat_mult)
qed

lemma ok_widen_file:
  assumes "laid_out inp shoff shnum shnum (cursor, offsets, lengths)" and "shnum < 2 ^ 16" and "0 < shnum"
    and "unat shoff + shnum * 40 \<le> length inp" and "52 \<le> length inp"
  defines "headers \<equiv> (cursor + 7) AND NOT 7"
  shows "ok (bind_r (widen_header inp headers shnum (replicate (unat (headers + of_nat (shnum * 64))) 0))
           (for_r 0 shnum (widen_section inp shoff headers offsets lengths)))
         (\<lambda>o1. length o1 = unat headers + shnum * 64)"
proof -
  have c: "64 \<le> unat cursor" "unat cursor \<le> 2 ^ 51" "\<And>j. j < shnum \<Longrightarrow> placed inp (unat shoff + j * 40) (offsets ! j) (unat cursor)"
    using assms(1,2) by (simp_all add: laid_out_def)
  have h: "unat cursor \<le> unat headers" "unat headers \<le> 2 ^ 52"
    using headers_bounds [of cursor] c(2) by (simp_all add: headers_def)
  have "unat (of_nat (shnum * 64) :: u64) = shnum * 64" using assms(2) by (intro unat_table) simp_all
  then have total: "unat (headers + of_nat (shnum * 64)) = unat headers + shnum * 64"
    using h(2) assms(2) by (simp add: unat_word_ariths)
  have sections: "ok (for_r 0 shnum (widen_section inp shoff headers offsets lengths) o1) (\<lambda>o2. length o2 = length o1)"
    if "length o1 = unat headers + shnum * 64" for o1
  proof (rule ok_for [where I = "\<lambda>o2. length o2 = length o1"])
    fix i and o2 :: bytes
    assume i: "i < 0 + shnum" and len: "length o2 = length o1"
    have "ok (widen_section inp shoff headers offsets lengths i o2) (\<lambda>o3. length o3 = length o2)"
    proof (rule ok_widen_section)
      show "placed inp (unat shoff + i * 40) (offsets ! i) (unat headers)" using placed_mono [OF c(3) h(1)] i by simp
      show "unat shoff + i * 40 + 40 \<le> length inp" using table_fits [of i shnum "unat shoff" 40] i assms(4) by simp
      show "unat headers + i * 64 + 64 \<le> length o2" using table_fits [of i shnum "unat headers" 64] i len that by simp
    qed
    then show "ok (widen_section inp shoff headers offsets lengths i o2) (\<lambda>o3. length o3 = length o1)" by (simp add: len)
  qed simp_all
  have "ok (widen_header inp headers shnum (replicate (unat headers + shnum * 64) 0)) (\<lambda>o1. length o1 = unat headers + shnum * 64)"
    using h c(1) assms(5) by (simp add: widen_header_def)
  then show ?thesis unfolding total ok_simps by (rule ok_mono) (use sections in \<open>simp\<close>)
qed

text \<open>C36. Widening is memory safe: for every input of less than 16 EiB, \<open>dyn_elf_widen\<close> reads no byte outside of the file and
  writes no byte outside of the buffer whose size its layout loop computed, whatever the section headers say.
\<close>

theorem widen_memory_safe:
  assumes "length inp < 2 ^ 64"
  shows "dyn_elf_widen inp \<noteq> Inl OutOfBounds"
proof -
  define shoff shnum where "shoff = le32 inp 32" and "shnum = unat (le16 inp 48)"
  have n: "shnum < 2 ^ 16" using unsigned_less [of "le16 inp 48", where 'a = nat] by (simp add: shnum_def)
  have layout: "ok (for_r 0 shnum (widen_layout inp shoff) (64, replicate shnum 0, replicate shnum 0)) (laid_out inp shoff shnum shnum)"
    if "unat shoff + shnum * 40 \<le> length inp"
    by (rule ok_for_index [where I = "laid_out inp shoff shnum"])
      (use ok_widen_layout n that assms in \<open>auto simp: laid_out_def\<close>)
  have inside: "unat shoff + shnum * 40 \<le> length inp"
    if "elf_class_inside (of_nat (length inp)) (ucast shoff) (of_nat (shnum * 40))"
    using inside_bytes [OF that assms] n unat_table [of shnum 40] by simp
  have "ok (dyn_elf_widen inp) (\<lambda>_. True)"
  proof (cases "length inp < 52 \<or> shnum = 0 \<or> \<not> elf_class_inside (of_nat (length inp)) (ucast shoff) (of_nat (shnum * 40))")
    case True
    then show ?thesis by (auto simp: dyn_elf_widen_def Let_def shoff_def shnum_def)
  next
    case False
    then have in1: "unat shoff + shnum * 40 \<le> length inp" using inside by simp
    have rest: "ok (bind_r (widen_header inp ((cursor + 7) AND NOT 7) shnum
             (replicate (unat (((cursor + 7) AND NOT 7) + of_nat (shnum * 64))) 0))
           (for_r 0 shnum (widen_section inp shoff ((cursor + 7) AND NOT 7) offsets lengths))) (\<lambda>_. True)"
      if "laid_out inp shoff shnum shnum (cursor, offsets, lengths)" for cursor offsets lengths
      by (rule ok_mono [OF ok_widen_file [OF that n _ in1]]) (use False in simp_all)
    then have "ok (for_r 0 shnum (widen_layout inp shoff) (64, replicate shnum 0, replicate shnum 0)) (\<lambda>(cursor, offsets, lengths).
        ok (bind_r (widen_header inp ((cursor + 7) AND NOT 7) shnum
             (replicate (unat (((cursor + 7) AND NOT 7) + of_nat (shnum * 64))) 0))
           (for_r 0 shnum (widen_section inp shoff ((cursor + 7) AND NOT 7) offsets lengths))) (\<lambda>_. True))"
      by (intro ok_mono [OF layout [OF in1]]) blast
    then show ?thesis using False
      by (auto simp: dyn_elf_widen_def Let_def shoff_def [symmetric] shnum_def [symmetric] elim!: ok_mono)
  qed
  then show ?thesis by (rule ok_no_fault)
qed

subsection \<open>Reading back what was written\<close>

lemma bit_le:
  "bit (le16 bs p) n \<longleftrightarrow> n < 16 \<and> bit (bs ! (p + n div 8)) (n mod 8)"
  "bit (le32 bs p) n \<longleftrightarrow> n < 32 \<and> bit (bs ! (p + n div 8)) (n mod 8)"
  "bit (le64 bs p) n \<longleftrightarrow> n < 64 \<and> bit (bs ! (p + n div 8)) (n mod 8)"
proof -
  have u8: "bit (w :: u8) m \<Longrightarrow> m < 8" for w m using bit_imp_le_length [of w m] by simp
  show b16: "bit (le16 bs p) n \<longleftrightarrow> n < 16 \<and> bit (bs ! (p + n div 8)) (n mod 8)" for p n
  proof (cases "n < 8")
    case False
    show ?thesis
    proof (cases "n < 16")
      case True
      then have "n div 8 = 1" "n mod 8 = n - 8" using False by (simp_all add: div_nat_eqI mod_if)
      then show ?thesis using True False u8 by (auto simp: le16_def bit_simps)
    qed (auto simp: le16_def bit_simps dest: u8)
  qed (auto simp: le16_def bit_simps)
  show b32: "bit (le32 bs p) n \<longleftrightarrow> n < 32 \<and> bit (bs ! (p + n div 8)) (n mod 8)" for p n
  proof (cases "n < 16")
    case False
    then obtain m where n: "n = 16 + m" using le_Suc_ex [of 16 n] by auto
    then have "n div 8 = 2 + m div 8" "n mod 8 = m mod 8" by presburger+
    then show ?thesis using n by (auto simp: le32_def bit_simps b16)
  qed (auto simp: le32_def bit_simps b16)
  show "bit (le64 bs p) n \<longleftrightarrow> n < 64 \<and> bit (bs ! (p + n div 8)) (n mod 8)"
  proof (cases "n < 32")
    case False
    then obtain m where n: "n = 32 + m" using le_Suc_ex [of 32 n] by auto
    then have "n div 8 = 4 + m div 8" "n mod 8 = m mod 8" by presburger+
    then show ?thesis using n by (auto simp: le64_def bit_simps b32 algebra_simps)
  qed (auto simp: le64_def bit_simps b32)
qed

lemma le_frame:
  "(\<And>i. p \<le> i \<Longrightarrow> i < p + 2 \<Longrightarrow> as ! i = bs ! i) \<Longrightarrow> le16 as p = le16 bs p"
  "(\<And>i. p \<le> i \<Longrightarrow> i < p + 4 \<Longrightarrow> as ! i = bs ! i) \<Longrightarrow> le32 as p = le32 bs p"
  "(\<And>i. p \<le> i \<Longrightarrow> i < p + 8 \<Longrightarrow> as ! i = bs ! i) \<Longrightarrow> le64 as p = le64 bs p"
  by (rule bit_word_eqI; auto simp: bit_le)+

lemma nth_put:
  "p + 2 \<le> length bs \<Longrightarrow> put16 bs p v ! i = (if p \<le> i \<and> i < p + 2 then ucast (drop_bit (8 * (i - p)) v) else bs ! i)"
  "p + 4 \<le> length bs \<Longrightarrow> put32 bs p v ! i = (if p \<le> i \<and> i < p + 4 then ucast (drop_bit (8 * (i - p)) v) else bs ! i)"
  "p + 8 \<le> length bs \<Longrightarrow> put64 bs p v ! i = (if p \<le> i \<and> i < p + 8 then ucast (drop_bit (8 * (i - p)) v) else bs ! i)"
proof -
  show p16: "p + 2 \<le> length bs \<Longrightarrow> put16 bs p v ! i = (if p \<le> i \<and> i < p + 2 then ucast (drop_bit (8 * (i - p)) v) else bs ! i)"
    for bs p v by (auto simp: put16_def nth_list_update)
  show p32: "p + 4 \<le> length bs \<Longrightarrow> put32 bs p v ! i = (if p \<le> i \<and> i < p + 4 then ucast (drop_bit (8 * (i - p)) v) else bs ! i)"
    for bs p v by (auto simp: put32_def p16 drop_bit_drop_bit diff_mult_distrib2)
  show "p + 8 \<le> length bs \<Longrightarrow> put64 bs p v ! i = (if p \<le> i \<and> i < p + 8 then ucast (drop_bit (8 * (i - p)) v) else bs ! i)"
    by (auto simp: put64_def p32 diff_mult_distrib2)
qed

lemma le_put_same:
  "p + 2 \<le> length bs \<Longrightarrow> le16 (put16 bs p v) p = ucast v"
  "p + 4 \<le> length bs \<Longrightarrow> le32 (put32 bs p v) p = ucast v"
  "p + 8 \<le> length bs \<Longrightarrow> le64 (put64 bs p v) p = v"
  by (rule bit_word_eqI; auto simp: bit_le nth_put bit_simps)+

text \<open>Writes elsewhere do not matter.\<close>

lemma le16_put [simp]:
  "q + 2 \<le> length bs \<Longrightarrow> p + 2 \<le> q \<or> q + 2 \<le> p \<Longrightarrow> le16 (put16 bs q v) p = le16 bs p"
  "q + 4 \<le> length bs \<Longrightarrow> p + 2 \<le> q \<or> q + 4 \<le> p \<Longrightarrow> le16 (put32 bs q v) p = le16 bs p"
  "q + 8 \<le> length bs \<Longrightarrow> p + 2 \<le> q \<or> q + 8 \<le> p \<Longrightarrow> le16 (put64 bs q v) p = le16 bs p"
  "i < p \<or> p + 2 \<le> i \<Longrightarrow> le16 (bs[i := b]) p = le16 bs p"
  by (rule le_frame; auto simp: nth_put nth_list_update)+

lemma le32_put [simp]:
  "q + 2 \<le> length bs \<Longrightarrow> p + 4 \<le> q \<or> q + 2 \<le> p \<Longrightarrow> le32 (put16 bs q v) p = le32 bs p"
  "q + 4 \<le> length bs \<Longrightarrow> p + 4 \<le> q \<or> q + 4 \<le> p \<Longrightarrow> le32 (put32 bs q v) p = le32 bs p"
  "q + 8 \<le> length bs \<Longrightarrow> p + 4 \<le> q \<or> q + 8 \<le> p \<Longrightarrow> le32 (put64 bs q v) p = le32 bs p"
  "i < p \<or> p + 4 \<le> i \<Longrightarrow> le32 (bs[i := b]) p = le32 bs p"
  by (rule le_frame; auto simp: nth_put nth_list_update)+

lemma le64_put [simp]:
  "q + 8 \<le> length bs \<Longrightarrow> p + 8 \<le> q \<or> q + 8 \<le> p \<Longrightarrow> le64 (put64 bs q v) p = le64 bs p"
  by (rule le_frame; auto simp: nth_put)

declare le_put_same [simp]

lemma fits_ucast: "elf_class_fits v \<Longrightarrow> ucast (ucast v :: u32) = v"
proof -
  assume "elf_class_fits v"
  then have "unat v \<le> unat (0xFFFFFFFF :: u64)" by (simp add: elf_class_fits_def word_le_nat_alt)
  then have "unat v < 2 ^ 32" by simp
  then show ?thesis by (intro word_unat_eq_iff [THEN iffD2]) (simp add: unat_ucast_down)
qed

text \<open>The values the two narrowed entries hold.\<close>

lemma narrow_symbol_value:
  assumes "narrow_symbol inp from to (o1, fine) = Inr (o2, True)" and "from + 24 \<le> length inp" and "to + 16 \<le> length o1"
  shows "o2 = put16 ((put32 (put32 (put32 o1 to (ucast (le32 inp from))) (to + 4) (le64 inp (from + 8))) (to + 8) (le64 inp (from + 16)))
      [to + 12 := inp ! (from + 4), to + 13 := inp ! (from + 5)]) (to + 14) (ucast (le16 inp (from + 6)))"
    and "elf_class_fits (le64 inp (from + 8))" and "elf_class_fits (le64 inp (from + 16))"
proof -
  have "ok (narrow_symbol inp from to (o1, fine)) (\<lambda>r. r = (put16 ((put32 (put32 (put32 o1 to (ucast (le32 inp from))) (to + 4)
      (le64 inp (from + 8))) (to + 8) (le64 inp (from + 16))) [to + 12 := inp ! (from + 4), to + 13 := inp ! (from + 5)]) (to + 14)
      (ucast (le16 inp (from + 6))), fine \<and> elf_class_fits (le64 inp (from + 8)) \<and> elf_class_fits (le64 inp (from + 16))))"
    using assms(2,3) by (simp add: narrow_symbol_def)
  note okD [OF this assms(1)]
  then show "o2 = put16 ((put32 (put32 (put32 o1 to (ucast (le32 inp from))) (to + 4) (le64 inp (from + 8))) (to + 8) (le64 inp (from + 16)))
      [to + 12 := inp ! (from + 4), to + 13 := inp ! (from + 5)]) (to + 14) (ucast (le16 inp (from + 6)))"
    and "elf_class_fits (le64 inp (from + 8))" and "elf_class_fits (le64 inp (from + 16))" by simp_all
qed

lemma read_value:
  "p + 2 \<le> length bs \<Longrightarrow> elf_class_read16 bs p = Inr (le16 bs p)"
  "p + 4 \<le> length bs \<Longrightarrow> elf_class_read32 bs p = Inr (le32 bs p)"
  "p + 8 \<le> length bs \<Longrightarrow> elf_class_read64 bs p = Inr (le64 bs p)"
  by (simp_all add: elf_class_read16_def elf_class_read32_def elf_class_read64_def le16_def le32_def le64_def index_r_def)

lemma write_value:
  "p + 2 \<le> length bs \<Longrightarrow> elf_class_write16 bs p v = Inr (put16 bs p v)"
  "p + 4 \<le> length bs \<Longrightarrow> elf_class_write32 bs p v = Inr (put32 bs p v)"
  "p + 8 \<le> length bs \<Longrightarrow> elf_class_write64 bs p v = Inr (put64 bs p v)"
  by (simp_all add: elf_class_write16_def elf_class_write32_def elf_class_write64_def put16_def put32_def put64_def update_r_def)

lemma ucast_back [simp]: "ucast (ucast (v :: u32) :: u64) = v" "ucast (ucast (w :: u16) :: u64) = w"
  by (rule bit_word_eqI; simp add: bit_simps)+

text \<open>Equal values are equal bytes.\<close>

lemma le_bytes:
  "le16 as p = le16 bs q \<Longrightarrow> i < 2 \<Longrightarrow> as ! (p + i) = bs ! (q + i)"
  "le32 as p = le32 bs q \<Longrightarrow> i < 4 \<Longrightarrow> as ! (p + i) = bs ! (q + i)"
  "le64 as p = le64 bs q \<Longrightarrow> i < 8 \<Longrightarrow> as ! (p + i) = bs ! (q + i)"
proof -
  have at: "(8 * i + n) div 8 = i" "(8 * i + n) mod 8 = n" if "n < 8" for n using that by simp_all
  show "as ! (p + i) = bs ! (q + i)" if "le16 as p = le16 bs q" "i < 2"
  proof (rule bit_word_eqI)
    fix n assume "n < LENGTH(8)"
    then show "bit (as ! (p + i)) n = bit (bs ! (q + i)) n"
      using bit_le(1) [of as p "8 * i + n"] bit_le(1) [of bs q "8 * i + n"] that at [of n] by simp
  qed
  show "as ! (p + i) = bs ! (q + i)" if "le32 as p = le32 bs q" "i < 4"
  proof (rule bit_word_eqI)
    fix n assume "n < LENGTH(8)"
    then show "bit (as ! (p + i)) n = bit (bs ! (q + i)) n"
      using bit_le(2) [of as p "8 * i + n"] bit_le(2) [of bs q "8 * i + n"] that at [of n] by simp
  qed
  show "as ! (p + i) = bs ! (q + i)" if "le64 as p = le64 bs q" "i < 8"
  proof (rule bit_word_eqI)
    fix n assume "n < LENGTH(8)"
    then show "bit (as ! (p + i)) n = bit (bs ! (q + i)) n"
      using bit_le(3) [of as p "8 * i + n"] bit_le(3) [of bs q "8 * i + n"] that at [of n] by simp
  qed
qed

definition same_bytes :: "nat \<Rightarrow> bytes \<Rightarrow> nat \<Rightarrow> bytes \<Rightarrow> nat \<Rightarrow> bool" where
  "same_bytes n as p bs q \<longleftrightarrow> (\<forall>i<n. as ! (p + i) = bs ! (q + i))"

lemma same_bytes_add:
  assumes "same_bytes m as p bs q" and "same_bytes n as (p + m) bs (q + m)"
  shows "same_bytes (m + n) as p bs q"
  unfolding same_bytes_def
proof (intro allI impI)
  fix i assume "i < m + n"
  then show "as ! (p + i) = bs ! (q + i)"
    using assms by (cases "i < m") (auto simp: same_bytes_def dest: spec [of _ "i - m"])
qed

lemma same_bytes_le:
  "le16 as p = le16 bs q \<Longrightarrow> same_bytes 2 as p bs q" "le32 as p = le32 bs q \<Longrightarrow> same_bytes 4 as p bs q"
  "le64 as p = le64 bs q \<Longrightarrow> same_bytes 8 as p bs q" "as ! p = bs ! q \<Longrightarrow> same_bytes 1 as p bs q"
  by (auto simp: same_bytes_def intro: le_bytes)

lemma same_bytes_slice:
  "same_bytes n as p bs q \<Longrightarrow> p + n \<le> length as \<Longrightarrow> q + n \<le> length bs \<Longrightarrow> take n (drop p as) = take n (drop q bs)"
  by (rule nth_equalityI) (auto simp: same_bytes_def)

text \<open>A symbol survives the trip to ELF32 and back: when narrowing accepts the entry, widening the narrowed entry, wherever
  the two are placed, writes back the 24 bytes of the original.
\<close>

lemma symbol_roundtrip:
  assumes "narrow_symbol inp from to (o1, fine) = Inr (o2, True)"
    and "from + 24 \<le> length inp" and "to + 16 \<le> length o1" and "e + 24 \<le> length o3"
  shows "\<exists>o4. widen_symbol o2 to e o3 = Inr o4 \<and> take 24 (drop e o4) = take 24 (drop from inp)"
proof -
  note n = narrow_symbol_value [OF assms(1-3)]
  have len: "length o2 = length o1" by (simp add: n(1))
  have f: "le32 o2 to = le32 inp from" "o2 ! (to + 12) = inp ! (from + 4)" "o2 ! (to + 13) = inp ! (from + 5)"
    "le16 o2 (to + 14) = le16 inp (from + 6)" "ucast (le32 o2 (to + 4)) = le64 inp (from + 8)"
    "ucast (le32 o2 (to + 8)) = le64 inp (from + 16)"
    unfolding n(1) using assms(3) n(2,3) by (simp_all add: nth_put fits_ucast)
  define o4 where "o4 = put64 (put64 (put16 ((put32 o3 e (ucast (le32 inp from)))[e + 4 := inp ! (from + 4), e + 5 := inp ! (from + 5)])
    (e + 6) (ucast (le16 inp (from + 6)))) (e + 8) (le64 inp (from + 8))) (e + 16) (le64 inp (from + 16))"
  have "widen_symbol o2 to e o3 = Inr o4"
    using assms(3,4) len by (simp add: widen_symbol_def read_value write_value index_r_def update_r_def f o4_def)
  moreover have "take 24 (drop e o4) = take 24 (drop from inp)"
  proof (rule same_bytes_slice)
    have "same_bytes 4 o4 e inp from" "same_bytes 1 o4 (e + 4) inp (from + 4)" "same_bytes 1 o4 (e + 5) inp (from + 5)"
      "same_bytes 2 o4 (e + 6) inp (from + 6)" "same_bytes 8 o4 (e + 8) inp (from + 8)" "same_bytes 8 o4 (e + 16) inp (from + 16)"
      by (intro same_bytes_le; use assms(4) in \<open>simp add: o4_def nth_put\<close>)+
    then have "same_bytes (4 + (1 + (1 + (2 + (8 + 8))))) o4 e inp from"
      by (intro same_bytes_add) (simp_all only: add.assoc numeral_plus_numeral add_num_simps one_plus_numeral numeral_plus_one)
    then show "same_bytes 24 o4 e inp from" by simp
  qed (use assms in \<open>simp_all add: o4_def\<close>)
  ultimately show ?thesis by blast
qed

lemma bit_small:
  assumes "unat (x :: u64) < 2 ^ n" and "bit x k"
  shows "k < n"
proof -
  have "take_bit n (unat x) = unat x" using assms(1) by (simp add: take_bit_nat_eq_self_iff)
  moreover have "bit (unat x) k" using assms(2) by (simp add: bit_unsigned_iff bit_imp_le_length)
  ultimately show ?thesis by (metis bit_take_bit_iff)
qed

lemma info_roundtrip:
  fixes info :: u64
  assumes "drop_bit 32 info < 2 ^ 24" and "info AND 0xFFFFFFFF < 256"
  defines "n \<equiv> ucast (push_bit 8 (drop_bit 32 info) OR (info AND 0xFFFFFFFF)) :: u32"
  shows "push_bit 32 (ucast (drop_bit 8 n)) OR ucast (n AND 0xFF) = info"
proof -
  have m32: "(0xFFFFFFFF :: u64) = mask 32" and m8: "(0xFF :: u32) = mask 8" by (simp_all add: mask_eq_exp_minus_1)
  have high: "bit info (32 + k) \<Longrightarrow> k < 24" for k
    using bit_small [of "drop_bit 32 info" 24 k] assms(1) by (simp add: word_less_nat_alt bit_simps)
  have low: "bit info k \<Longrightarrow> k < 32 \<Longrightarrow> k < 8" for k
    using bit_small [of "info AND 0xFFFFFFFF" 8 k] assms(2) by (simp add: word_less_nat_alt m32 bit_simps)
  show ?thesis unfolding n_def m32 m8
  proof (rule bit_word_eqI)
    fix k
    assume "k < LENGTH(64)"
    show "bit (push_bit 32 (ucast (drop_bit 8 (ucast (push_bit 8 (drop_bit 32 info) OR info AND mask 32) :: u32))) OR
        ucast ((ucast (push_bit 8 (drop_bit 32 info) OR info AND mask 32) :: u32) AND mask 8) :: u64) k = bit info k"
    proof (cases "k < 32")
      case True
      then show ?thesis using low [of k] by (auto simp: bit_simps)
    next
      case False
      then obtain m where k: "k = 32 + m" using le_Suc_ex [of 32 k] by auto
      show ?thesis using high [of m] low [of "8 + m"] \<open>k < LENGTH(64)\<close> unfolding k by (auto simp: bit_simps add.commute)
    qed
  qed
qed

lemma addend_roundtrip:
  fixes v :: u64
  assumes "- (2 ^ 31) \<le> sint v" and "sint v < 2 ^ 31"
  shows "scast (ucast v :: u32) = v"
proof -
  have "sint (ucast v :: u32) = signed_take_bit 31 (uint v)" by (subst signed_ucast_eq) simp
  also have "\<dots> = signed_take_bit 31 (sint v)" unfolding sint_uint [of v] by simp
  also have "\<dots> = sint v" using assms by (simp add: signed_take_bit_int_eq_self)
  finally show ?thesis by (simp add: scast_eq)
qed

text \<open>C38. A relocation survives the trip to ELF32 and back, with or without addend: when narrowing accepts the entry, its symbol
  number, kind and offset fit the ELF32 form and the addend fits 32 signed bits, so widening the narrowed entry writes back
  the bytes of the original.
\<close>

theorem relocation_roundtrip:
  assumes "narrow_relocation addend inp from to (o1, fine) = Inr (o2, True)"
    and "w = (if addend then 24 else 16)" and "from + w \<le> length inp"
    and "to + (if addend then 12 else 8) \<le> length o1" and "e + w \<le> length o3"
  shows "\<exists>o4. widen_relocation addend o2 to e o3 = Inr o4 \<and> take w (drop e o4) = take w (drop from inp)"
proof -
  define offset info v where "offset = le64 inp from" and "info = le64 inp (from + 8)" and "v = le64 inp (from + 16)"
  define info32 where "info32 = push_bit 8 (drop_bit 32 info) OR (info AND 0xFFFFFFFF)"
  have "ok (narrow_relocation addend inp from to (o1, fine)) (\<lambda>(o2, fine).
      o2 = (let o2 = put32 (put32 o1 to offset) (to + 4) info32 in if addend then put32 o2 (to + 8) (ucast (ucast v :: u32)) else o2) \<and>
      (fine \<longrightarrow> elf_class_fits offset \<and> drop_bit 32 info < 2 ^ 24 \<and> info AND 0xFFFFFFFF < 256 \<and>
        (addend \<longrightarrow> - (2 ^ 31) \<le> sint v \<and> sint v < 2 ^ 31)))"
    using assms(2-4) by (cases addend) (simp_all add: narrow_relocation_def Let_def offset_def info_def v_def info32_def)
  from okD [OF this assms(1)] have o2: "o2 = (let o2 = put32 (put32 o1 to offset) (to + 4) info32
      in if addend then put32 o2 (to + 8) (ucast (ucast v :: u32)) else o2)"
    and fits: "elf_class_fits offset" "drop_bit 32 info < 2 ^ 24" "info AND 0xFFFFFFFF < 256"
    and range: "addend \<Longrightarrow> - (2 ^ 31) \<le> sint v \<and> sint v < 2 ^ 31" by simp_all
  have len: "length o2 = length o1" by (simp add: o2 Let_def)
  have f: "ucast (le32 o2 to) = offset" "le32 o2 (to + 4) = ucast info32" "addend \<Longrightarrow> scast (le32 o2 (to + 8)) = v"
    using assms(4) fits(1) range by (auto simp: o2 Let_def fits_ucast addend_roundtrip)
  define o4 where "o4 = (let o4 = put64 (put64 o3 e offset) (e + 8) info in if addend then put64 o4 (e + 16) v else o4)"
  have "widen_relocation addend o2 to e o3 = Inr o4"
    using assms(2,4,5) len info_roundtrip [OF fits(2,3)] f
    by (auto simp: widen_relocation_def read_value write_value Let_def o4_def info32_def)
  moreover have "take w (drop e o4) = take w (drop from inp)"
  proof (rule same_bytes_slice)
    have g: "same_bytes 8 o4 e inp from" "same_bytes 8 o4 (e + 8) inp (from + 8)"
      by (intro same_bytes_le; use assms(2,5) in \<open>cases addend; simp add: o4_def Let_def offset_def info_def\<close>)+
    show "same_bytes w o4 e inp from"
    proof (cases addend)
      case True
      then have "same_bytes 8 o4 (e + 16) inp (from + 16)"
        by (intro same_bytes_le) (use assms(2,5) in \<open>simp add: o4_def Let_def v_def\<close>)
      then have "same_bytes (8 + (8 + 8)) o4 e inp from"
        using g by (intro same_bytes_add) (simp_all only: add.assoc numeral_plus_numeral add_num_simps)
      then show ?thesis using True by (simp add: assms(2))
    next
      case False
      have "same_bytes (8 + 8) o4 e inp from" by (rule same_bytes_add [OF g])
      then show ?thesis using False by (simp add: assms(2))
    qed
  qed (use assms in \<open>cases addend; simp add: o4_def Let_def\<close>)+
  ultimately show ?thesis by blast
qed

subsection \<open>Memory safety of narrowing\<close>

text \<open>
  What the files that the backend and the linkers write satisfy: the section header table follows the ELF header and the
  program headers, and no section with bytes reaches out of the file.
\<close>

definition section_inside :: "bytes \<Rightarrow> nat \<Rightarrow> bool" where
  "section_inside inp s \<longleftrightarrow> le32 inp (s + 4) \<noteq> SHT_NOBITS \<longrightarrow> unat (le64 inp (s + 24)) + unat (le64 inp (s + 32)) \<le> length inp"

definition well_placed :: "bytes \<Rightarrow> bool" where
  "well_placed inp \<longleftrightarrow> length inp < 2 ^ 60 \<and>
     (let phoff = unat (le64 inp 32); shoff = unat (le64 inp 40); phnum = unat (le16 inp 56); shnum = unat (le16 inp 60) in
      shnum \<noteq> 0 \<longrightarrow> 64 \<le> shoff \<and> (phnum \<noteq> 0 \<longrightarrow> phoff + phnum * 56 \<le> shoff) \<and>
        list_all (\<lambda>i. section_inside inp (shoff + i * 64)) [0..<shnum])"

lemma ok_narrow_symbol:
  "from + 24 \<le> length inp \<Longrightarrow> to + 16 \<le> length (fst st) \<Longrightarrow>
   ok (narrow_symbol inp from to st) (\<lambda>st'. length (fst st') = length (fst st))"
  by (cases st) (simp add: narrow_symbol_def)

lemma ok_narrow_relocation:
  "from + (if addend then 24 else 16) \<le> length inp \<Longrightarrow> to + (if addend then 12 else 8) \<le> length (fst st) \<Longrightarrow>
   ok (narrow_relocation addend inp from to st) (\<lambda>st'. length (fst st') = length (fst st))"
  by (cases st; cases addend) (simp_all add: narrow_relocation_def Let_def)

lemma ok_narrow_table:
  fixes st :: "bytes \<times> bool"
  assumes "\<And>k st. k < n div w \<Longrightarrow> at + k * w + w \<le> length inp \<Longrightarrow> at + k * w' + w' \<le> length (fst st) \<Longrightarrow>
      ok (step k st) (\<lambda>st'. length (fst st') = length (fst st))"
    and "at + n \<le> length inp" and "at + n \<le> length (fst st)" and "w' \<le> (w :: nat)"
  shows "ok (for_r 0 (n div w) step st) (\<lambda>st'. length (fst st') = length (fst st))"
proof (rule ok_for [where I = "\<lambda>st'. length (fst st') = length (fst st)"])
  fix k :: nat and st' :: "bytes \<times> bool"
  assume k: "k < 0 + n div w" and len: "length (fst st') = length (fst st)"
  have "at + k * w' + w' \<le> at + k * w + w" using assms(4) by (intro add_mono mult_le_mono) simp_all
  also have "\<dots> \<le> length (fst st')" using entry_fits [of k n w at] k len assms(3) by simp
  finally have "ok (step k st') (\<lambda>st''. length (fst st'') = length (fst st'))"
    using k entry_fits [of k n w at "length inp"] assms(2) by (intro assms(1)) simp_all
  then show "ok (step k st') (\<lambda>st''. length (fst st'') = length (fst st))" by (simp add: len)
qed simp_all

lemma ok_narrow_content:
  assumes "type \<noteq> SHT_NOBITS \<Longrightarrow> unat at + unat len \<le> length inp" and "type \<noteq> SHT_NOBITS \<Longrightarrow> unat at + unat len \<le> length o1"
  shows "ok (narrow_content inp type at len entsize o1 fine) (\<lambda>(o2, _). length o2 = length o1)"
proof -
  define zeroed where "zeroed = take (unat at) o1 @ replicate (unat len) 0 @ drop (unat at + unat len) o1"
  have z: "length zeroed = length o1" if "unat at + unat len \<le> length o1" using that by (simp add: zeroed_def)
  consider (sym) "type = SHT_SYMTAB \<or> type = SHT_DYNSYM" "entsize = 24" | (rela) "type = SHT_RELA" "entsize = 24"
    | (rel) "type = SHT_REL" "entsize = 16"
    | (other) "\<not> ((type = SHT_SYMTAB \<or> type = SHT_DYNSYM) \<and> entsize = 24)" "\<not> (type = SHT_RELA \<and> entsize = 24)"
      "\<not> (type = SHT_REL \<and> entsize = 16)"
    by blast
  then show ?thesis
  proof cases
    case sym
    then have "type \<noteq> SHT_NOBITS" by auto
    note fits = assms [OF this]
    have "ok (for_r 0 (unat len div 24) (\<lambda>k. narrow_symbol inp (unat at + k * 24) (unat at + k * 16)) (zeroed, fine))
        (\<lambda>st. length (fst st) = length (fst (zeroed, fine)))"
      by (rule ok_narrow_table [where w = 24 and w' = 16, OF ok_narrow_symbol]) (use fits in \<open>simp_all add: zeroed_def\<close>)
    then show ?thesis using sym fits by (auto simp: narrow_content_def unat_div Let_def zeroed_def [symmetric] z elim!: ok_mono)
  next
    case rela
    then have "type \<noteq> SHT_NOBITS" by auto
    note fits = assms [OF this]
    have "ok (for_r 0 (unat len div 24) (\<lambda>k. narrow_relocation True inp (unat at + k * 24) (unat at + k * 12)) (zeroed, fine))
        (\<lambda>st. length (fst st) = length (fst (zeroed, fine)))"
      by (rule ok_narrow_table [where w = 24 and w' = 12, OF ok_narrow_relocation]) (use fits in \<open>simp_all add: zeroed_def\<close>)
    then show ?thesis using rela fits by (auto simp: narrow_content_def unat_div Let_def zeroed_def [symmetric] z elim!: ok_mono)
  next
    case rel
    then have "type \<noteq> SHT_NOBITS" by auto
    note fits = assms [OF this]
    have "ok (for_r 0 (unat len div 16) (\<lambda>k. narrow_relocation False inp (unat at + k * 16) (unat at + k * 8)) (zeroed, fine))
        (\<lambda>st. length (fst st) = length (fst (zeroed, fine)))"
      by (rule ok_narrow_table [where w = 16 and w' = 8, OF ok_narrow_relocation]) (use fits in \<open>simp_all add: zeroed_def\<close>)
    then show ?thesis using rel fits by (auto simp: narrow_content_def unat_div Let_def zeroed_def [symmetric] z elim!: ok_mono)
  next
    case other
    then show ?thesis by (auto simp: narrow_content_def)
  qed
qed

lemma ok_narrow_section:
  assumes "length inp < 2 ^ 64" and "unat shoff + i * 64 + 64 \<le> length inp" and "unat headers + i * 40 + 40 \<le> length (fst st)"
    and "le32 inp (unat shoff + i * 64 + 4) \<noteq> SHT_NOBITS \<Longrightarrow>
      unat (le64 inp (unat shoff + i * 64 + 24)) + unat (le64 inp (unat shoff + i * 64 + 32)) \<le> length (fst st)"
  shows "ok (narrow_section inp shoff headers i st) (\<lambda>st'. length (fst st') = length (fst st))"
proof -
  define s where "s = unat shoff + i * 64"
  obtain o1 fine where st: "st = (o1, fine)" by (cases st)
  have "ok (narrow_content inp (le32 inp (s + 4)) (le64 inp (s + 24)) (le64 inp (s + 32)) (le64 inp (s + 56)) o1 fine)
      (\<lambda>(o2, _). length o2 = length o1)"
    if "le32 inp (s + 4) \<noteq> SHT_NOBITS \<Longrightarrow> elf_class_inside (of_nat (length inp)) (le64 inp (s + 24)) (le64 inp (s + 32))"
    by (rule ok_narrow_content) (use that assms inside_bytes in \<open>auto simp: s_def st\<close>)
  moreover have "s + 64 \<le> length inp" "unat headers + i * 40 + 40 \<le> length o1" using assms(2,3) by (simp_all add: s_def st)
  ultimately show ?thesis unfolding st narrow_section_def Let_def s_def [symmetric]
    by (auto elim!: ok_mono)
qed

lemma ok_narrow_header:
  "64 \<le> length inp \<Longrightarrow> 64 \<le> length o1 \<Longrightarrow>
   ok (narrow_header inp o1 phoff phnum headers shnum) (\<lambda>st. length (fst st) = length o1)"
  by (simp add: narrow_header_def) arith

lemma ok_narrow_program_header:
  "unat phoff + i * 56 + 56 \<le> length inp \<Longrightarrow> unat phoff + i * 32 + 32 \<le> length (fst st) \<Longrightarrow>
   ok (narrow_program_header inp phoff i st) (\<lambda>st'. length (fst st') = length (fst st))"
  by (cases st) (simp add: narrow_program_header_def Let_def)

text \<open>The end of the sections' bytes.\<close>

lemma ok_narrow_end:
  assumes "length inp < 2 ^ 60" and "shnum \<noteq> 0 \<Longrightarrow> unat shoff + shnum * 64 \<le> length inp"
    and "\<And>i. i < shnum \<Longrightarrow> section_inside inp (unat shoff + i * 64)"
  shows "ok (narrow_end inp shoff shnum) (\<lambda>end. unat end \<le> length inp \<and>
    (if shnum = 0 then unat end = length inp else unat shoff \<le> unat end) \<and>
    (\<forall>i < shnum. le32 inp (unat shoff + i * 64 + 4) \<noteq> SHT_NOBITS \<longrightarrow>
       unat (le64 inp (unat shoff + i * 64 + 24)) + unat (le64 inp (unat shoff + i * 64 + 32)) \<le> unat end))"
  unfolding narrow_end_def
proof (rule ok_for_index [where I = "\<lambda>k end. unat end \<le> length inp \<and>
    (if shnum = 0 then unat end = length inp else unat shoff \<le> unat end) \<and>
    (\<forall>i<k. le32 inp (unat shoff + i * 64 + 4) \<noteq> SHT_NOBITS \<longrightarrow>
       unat (le64 inp (unat shoff + i * 64 + 24)) + unat (le64 inp (unat shoff + i * 64 + 32)) \<le> unat end)"], goal_cases)
  case 1
  then show ?case using assms(1,2) by (auto simp: unat_of_nat)
next
  case (2 k e)
  define s where "s = unat shoff + k * 64"
  define at len where fields: "at = le64 inp (s + 24)" "len = le64 inp (s + 32)"
  have s: "s + 64 \<le> length inp" using table_fits [of k shnum "unat shoff" 64] 2 assms(2) by (simp add: s_def)
  have "unat at + unat len \<le> length inp" if "le32 inp (s + 4) \<noteq> SHT_NOBITS"
    using assms(3) [of k] 2 that by (simp add: section_inside_def s_def fields)
  moreover have "unat (at + len) = unat at + unat len" if "unat at + unat len \<le> length inp"
    using that assms(1) by (simp add: unat_word_ariths)
  ultimately show ?case
    using 2 s by (auto simp: Let_def s_def [symmetric] fields [symmetric] less_Suc_eq word_less_nat_alt)
qed simp

lemma narrow_headers_bounds:
  fixes e :: u64
  assumes "unat e \<le> 2 ^ 60"
  shows "unat e \<le> unat ((e + 3) AND NOT 3)" and "unat ((e + 3) AND NOT 3) \<le> unat e + 3"
proof -
  have "unat ((e + 3) AND NOT (mask 2)) = unat (e + 3) div 4 * 4" by (simp only: unat_and_not_mask) simp
  moreover have "mask 2 = (3 :: u64)" by (simp add: mask_eq_exp_minus_1)
  moreover have "unat (e + 3) = unat e + 3" using assms by (simp add: unat_word_ariths)
  ultimately have "unat ((e + 3) AND NOT 3) = (unat e + 3) div 4 * 4" by metis
  moreover have "unat e \<le> (unat e + 3) div 4 * 4" "(unat e + 3) div 4 * 4 \<le> unat e + 3" by linarith+
  ultimately show "unat e \<le> unat ((e + 3) AND NOT 3)" and "unat ((e + 3) AND NOT 3) \<le> unat e + 3" by metis+
qed

text \<open>Everything after the size of the output is known; \<open>e\<close> is the end of the sections' bytes.\<close>

lemma ok_narrow_file:
  fixes tsize :: nat
  assumes inp: "64 \<le> length inp" "length inp < 2 ^ 60" and e: "unat e \<le> length inp" "64 \<le> unat e" "unat e \<le> unat headers"
    and ph: "phnum \<noteq> 0 \<Longrightarrow> unat phoff + phnum * 56 \<le> unat e" and sh: "shnum \<noteq> 0 \<Longrightarrow> unat shoff + shnum * 64 \<le> length inp"
    and total: "tsize = unat headers + shnum * 40"
    and sections: "\<And>i. i < shnum \<Longrightarrow> le32 inp (unat shoff + i * 64 + 4) \<noteq> SHT_NOBITS \<Longrightarrow>
       unat (le64 inp (unat shoff + i * 64 + 24)) + unat (le64 inp (unat shoff + i * 64 + 32)) \<le> unat e"
  shows "ok (narrow_write inp phoff phnum shoff shnum (unat e) headers tsize) (\<lambda>o1. length o1 = tsize)"
proof -
  have programs: "ok (for_r 0 phnum (narrow_program_header inp phoff) st) (\<lambda>st'. length (fst st') = tsize)" if "length (fst st) = tsize" for st
  proof (rule ok_for [where I = "\<lambda>st'. length (fst st') = tsize"])
    fix i and st' :: "bytes \<times> bool"
    assume i: "i < 0 + phnum" and len: "length (fst st') = tsize"
    have fit: "unat phoff + i * 56 + 56 \<le> unat e" using table_fits [of i phnum "unat phoff" 56 "unat e"] ph i by simp
    have "ok (narrow_program_header inp phoff i st') (\<lambda>st''. length (fst st'') = length (fst st'))"
      by (rule ok_narrow_program_header) (use fit e len total in linarith)+
    then show "ok (narrow_program_header inp phoff i st') (\<lambda>st''. length (fst st'') = tsize)" by (simp add: len)
  qed (use that in simp_all)
  have tables: "ok (for_r 0 shnum (narrow_section inp shoff headers) st) (\<lambda>st'. length (fst st') = tsize)" if "length (fst st) = tsize" for st
  proof (rule ok_for [where I = "\<lambda>st'. length (fst st') = tsize"])
    fix i and st' :: "bytes \<times> bool"
    assume i: "i < 0 + shnum" and len: "length (fst st') = tsize"
    have fit: "unat shoff + i * 64 + 64 \<le> length inp" "unat headers + i * 40 + 40 \<le> tsize"
      using table_fits [of i shnum "unat shoff" 64 "length inp"] table_fits [of i shnum "unat headers" 40 tsize] sh i total by simp_all
    have "ok (narrow_section inp shoff headers i st') (\<lambda>st''. length (fst st'') = length (fst st'))"
      by (rule ok_narrow_section) (use fit i inp e len total sections [of i] in auto)
    then show "ok (narrow_section inp shoff headers i st') (\<lambda>st''. length (fst st'') = tsize)" by (simp add: len)
  qed (use that in simp_all)
  have header: "ok (narrow_header inp o1 phoff phnum headers shnum) (\<lambda>st. length (fst st) = tsize)" if "length o1 = tsize" for o1
    using ok_narrow_header [of inp o1] inp e total that by simp
  have zero: "ok (if phnum \<noteq> 0 then memset_r o1 (unat phoff + phnum * 32) (phnum * 24) else Inr o1) (\<lambda>o1. length o1 = tsize)"
    if "length o1 = tsize" for o1
    using that ph e total by (auto simp: algebra_simps)
  have last: "ok (bind_r (for_r 0 shnum (narrow_section inp shoff headers) (o1, fine)) (\<lambda>(o1, fine).
       if \<not> fine then Inl (Fail ''value does not fit'') else Inr o1)) (\<lambda>o1. length o1 = tsize)" if "length o1 = tsize" for o1 fine
    unfolding ok_simps by (rule ok_mono [OF tables]) (use that in auto)
  have copy: "ok (memcpy_r (replicate tsize 0) 0 inp 0 (min (unat e) (length inp))) (\<lambda>o1. length o1 = tsize)"
    using e total by simp
  show ?thesis
    unfolding narrow_write_def ok_simps(4)
  proof (rule ok_mono [OF copy], rule ok_mono [OF header], assumption)
    fix st :: "bytes \<times> bool"
    assume st: "length (fst st) = tsize"
    show "ok (case st of (o1, fine) \<Rightarrow>
        bind_r (for_r 0 phnum (narrow_program_header inp phoff) (o1, fine)) (\<lambda>(o1, fine).
        bind_r (if phnum \<noteq> 0 then memset_r o1 (unat phoff + phnum * 32) (phnum * 24) else Inr o1) (\<lambda>o1.
        bind_r (for_r 0 shnum (narrow_section inp shoff headers) (o1, fine)) (\<lambda>(o1, fine).
          if \<not> fine then Inl (Fail ''value does not fit'') else Inr o1)))) (\<lambda>o1. length o1 = tsize)"
      unfolding prod.case_eq_if ok_simps(4)
    proof (rule ok_mono [OF programs])
      fix st' :: "bytes \<times> bool"
      assume "length (fst st') = tsize"
      then show "ok (if phnum \<noteq> 0 then memset_r (fst st') (unat phoff + phnum * 32) (phnum * 24) else Inr (fst st'))
         (\<lambda>o1. ok (for_r 0 shnum (narrow_section inp shoff headers) (o1, snd st')) (\<lambda>st.
           ok (if \<not> snd st then Inl (Fail ''value does not fit'') else Inr (fst st)) (\<lambda>o1. length o1 = tsize)))"
        using ok_mono [OF zero last] by (simp add: prod.case_eq_if)
    qed (use st in simp)
  qed
qed

text \<open>C37. Narrowing is memory safe on the files it is meant for: when the section header table follows the ELF header and the
  program headers and the sections with bytes lie inside the file, every read is inside the input and every write inside the
  output buffer. Without that the code does write past its buffer (\<open>narrow_overflow\<close>).
\<close>

theorem narrow_memory_safe:
  assumes "well_placed inp"
  shows "dyn_elf_narrow inp \<noteq> Inl OutOfBounds"
proof -
  define phoff shoff phnum shnum where fields: "phoff = le64 inp 32" "shoff = le64 inp 40" "phnum = unat (le16 inp 56)" "shnum = unat (le16 inp 60)"
  define tables where "tables \<longleftrightarrow> \<not> (phnum \<noteq> 0 \<and> \<not> elf_class_inside (of_nat (length inp)) phoff (of_nat (phnum * 56)) \<or>
    shnum \<noteq> 0 \<and> \<not> elf_class_inside (of_nat (length inp)) shoff (of_nat (shnum * 64)))"
  have n: "phnum < 2 ^ 16" "shnum < 2 ^ 16" using unsigned_less [of "le16 inp 56", where 'a = nat] unsigned_less [of "le16 inp 60", where 'a = nat]
    by (simp_all add: fields)
  have len: "length inp < 2 ^ 60" and place: "shnum \<noteq> 0 \<Longrightarrow> 64 \<le> unat shoff" "shnum \<noteq> 0 \<Longrightarrow> phnum \<noteq> 0 \<Longrightarrow> unat phoff + phnum * 56 \<le> unat shoff"
    "\<And>i. i < shnum \<Longrightarrow> section_inside inp (unat shoff + i * 64)"
    using assms by (auto simp: well_placed_def Let_def fields [symmetric] list_all_iff)
  have ph: "phnum \<noteq> 0 \<Longrightarrow> unat phoff + phnum * 56 \<le> length inp" and sh: "shnum \<noteq> 0 \<Longrightarrow> unat shoff + shnum * 64 \<le> length inp" if "tables"
    using that inside_bytes [of inp phoff "of_nat (phnum * 56)"] inside_bytes [of inp shoff "of_nat (shnum * 64)"] len n
      unat_table [of phnum 56] unat_table [of shnum 64] by (auto simp: tables_def)
  have narrowed: "ok (narrow_write inp phoff phnum shoff shnum (unat e) ((e + 3) AND NOT 3) (unat (((e + 3) AND NOT 3) + of_nat (shnum * 40)))) (\<lambda>_. True)"
    if "64 \<le> length inp" "tables" and e: "unat e \<le> length inp" "if shnum = 0 then unat e = length inp else unat shoff \<le> unat e"
      "\<forall>i < shnum. le32 inp (unat shoff + i * 64 + 4) \<noteq> SHT_NOBITS \<longrightarrow>
         unat (le64 inp (unat shoff + i * 64 + 24)) + unat (le64 inp (unat shoff + i * 64 + 32)) \<le> unat e" for e
  proof (rule ok_mono [OF ok_narrow_file], goal_cases)
    case 8
    have "unat ((e + 3) AND NOT 3) \<le> unat e + 3" using narrow_headers_bounds(2) [of e] e(1) len by simp
    then show ?case using unat_table [of shnum 40] n e(1) len by (simp add: unat_word_ariths del: of_nat_mult)
  qed (use that place ph sh len narrow_headers_bounds(1) [of e] in \<open>auto split: if_splits\<close>)
  have "ok (dyn_elf_narrow inp) (\<lambda>_. True)"
  proof (cases "64 \<le> length inp \<and> tables")
    case True
    then have "ok (narrow_end inp shoff shnum) (\<lambda>e.
        ok (narrow_write inp phoff phnum shoff shnum (unat e) ((e + 3) AND NOT 3) (unat (((e + 3) AND NOT 3) + of_nat (shnum * 40)))) (\<lambda>_. True))"
      using narrowed by (intro ok_mono [OF ok_narrow_end [OF len sh place(3)]]) blast+
    then show ?thesis using True
      by (auto simp: dyn_elf_narrow_def Let_def fields [symmetric] tables_def elim!: ok_mono)
  next
    case False
    then show ?thesis by (auto simp: dyn_elf_narrow_def Let_def fields tables_def)
  qed
  then show ?thesis by (rule ok_no_fault)
qed

text \<open>Without the placement condition narrowing writes past its buffer: for an 80-byte ELF64 file whose only section header
  overlaps the ELF header the output gets 56 bytes, and clearing the 64 bytes of the ELF64 header runs over its end.
\<close>

lemma narrow_overflow: "length sample_small_file = 80 \<and> dyn_elf_narrow sample_small_file = Inl OutOfBounds"
  by code_simp

subsection \<open>Samples\<close>

theorem widen_memory_safe_witness:
  "length sample_object32 < 2 ^ 64 \<and> dyn_elf_widen sample_object32 \<noteq> Inl OutOfBounds"
  using widen_memory_safe [of sample_object32] by (simp add: sample_object32_def elf_magic_def)

theorem narrow_memory_safe_witness: "well_placed sample_object64 \<and> dyn_elf_narrow sample_object64 \<noteq> Inl OutOfBounds"
proof -
  have "length sample_object64 < 2 ^ 60" by (simp add: sample_object64_def elf_magic_def)
  moreover have "let phoff = unat (le64 sample_object64 32); shoff = unat (le64 sample_object64 40);
      phnum = unat (le16 sample_object64 56); shnum = unat (le16 sample_object64 60) in
      shnum \<noteq> 0 \<longrightarrow> 64 \<le> shoff \<and> (phnum \<noteq> 0 \<longrightarrow> phoff + phnum * 56 \<le> shoff) \<and>
        list_all (\<lambda>i. section_inside sample_object64 (shoff + i * 64)) [0..<shnum]" by code_simp
  ultimately have "well_placed sample_object64" by (simp only: well_placed_def)
  then show ?thesis using narrow_memory_safe [of sample_object64] by simp
qed

text \<open>Both samples convert.\<close>

lemma samples_convert:
  "\<not> isl (dyn_elf_widen sample_object32)"
  "\<not> isl (dyn_elf_narrow sample_object64)"
  by code_simp+

theorem relocation_roundtrip_witness:
  "narrow_relocation True sample_rela 0 0 (replicate 12 0, True) = Inr (sample_rela32, True) \<and>
   (\<exists>o4. widen_relocation True sample_rela32 0 0 (replicate 24 0) = Inr o4 \<and> take 24 (drop 0 o4) = take 24 (drop 0 sample_rela))"
proof -
  have n: "narrow_relocation True sample_rela 0 0 (replicate 12 0, True) = Inr (sample_rela32, True)" by code_simp
  have "length sample_rela = 24" by (simp add: sample_rela_def)
  then show ?thesis using relocation_roundtrip [OF n, of 24 0 "replicate 24 0"] n by simp
qed

end
