(* ===== verification/Global_Init.thy ===== *)
theory Global_Init
  imports Sema_Types
begin

text \<open>
  The order in which global variables are initialized (\<open>src/src/sema_globals.c\<close>): a depth-first walk over the
  initializers that follows calls into function bodies. The C functions return a boolean and change the graph also when
  they fail, so a visit is a function from graphs to a boolean and a graph. \<open>g->depth\<close> is an argument, because every
  function restores it. The answers of \<open>dyn_work_step\<close> (\<open>dyn.h\<close>), which depend on the clock and on cancellation by the
  editor, are the parameter \<open>work\<close>: \<open>work n\<close> is the answer to the \<open>n\<close>-th call. Item, statement and case arm indices
  are those of the parser, which the code does not check either. Allocation failure is not modelled.
\<close>

record init_graph =
  ig_state :: "nat list"
  ig_functions :: "bool list"
  ig_order :: "nat list"
  ig_errors :: nat
  ig_stopped :: bool
  ig_steps :: nat

type_synonym visit = "init_graph \<Rightarrow> bool \<times> init_graph"

text \<open>\<open>and_v\<close> is C's \<open>&&\<close> of two visits, \<open>all_v\<close> the loop that returns at the first failure.\<close>

definition and_v :: "visit \<Rightarrow> visit \<Rightarrow> visit" where
  "and_v m k g = (let (r, g') = m g in if r then k g' else (False, g'))"

fun all_v :: "('a \<Rightarrow> visit) \<Rightarrow> 'a list \<Rightarrow> visit" where
  "all_v f [] g = (True, g)"
| "all_v f (x # xs) g = (let (r, g') = f x g in if r then all_v f xs g' else (False, g'))"

lemma and_v_cong [fundef_cong]:
  assumes "g = g'" and "m g' = m' g'" and "\<And>h. k h = k' h"
  shows "and_v m k g = and_v m' k' g'"
  using assms by (simp add: and_v_def Let_def split: prod.split)

lemma all_v_cong [fundef_cong]:
  assumes "xs = ys" and "g = g'" and "\<And>x h. x \<in> set ys \<Longrightarrow> f x h = f' x h"
  shows "all_v f xs g = all_v f' ys g'"
  using assms(3) unfolding assms(1,2) by (induction ys arbitrary: g') (auto simp: Let_def split: prod.split)

definition enter_graph :: "(nat \<Rightarrow> bool) \<Rightarrow> nat \<Rightarrow> visit" where
  "enter_graph work depth g =
     (if ig_stopped g then (False, g)
      else if depth \<ge> 512 then (False, g\<lparr>ig_stopped := True, ig_errors := ig_errors g + 1\<rparr>)
      else
        let g' = g\<lparr>ig_steps := ig_steps g + 1\<rparr> in
        if \<not> work (ig_steps g) then (False, g'\<lparr>ig_stopped := True, ig_errors := ig_errors g + 1\<rparr>)
        else (True, g'))"

definition cycle_error :: "init_graph \<Rightarrow> init_graph" where
  "cycle_error g = g\<lparr>ig_errors := ig_errors g + 1\<rparr>"

definition item_expr :: "ast_program \<Rightarrow> ast_expr \<Rightarrow> nat \<Rightarrow> expr_id" where
  "item_expr a e i = ai_expression (a_items a ! unat (ae_item_start e + of_nat i))"

definition child_stmt :: "ast_program \<Rightarrow> u32 \<Rightarrow> nat \<Rightarrow> nat" where
  "child_stmt a start i = unat (a_children a ! unat (start + of_nat i))"

definition arm_at :: "ast_program \<Rightarrow> ast_stmt \<Rightarrow> nat \<Rightarrow> ast_case_arm" where
  "arm_at a st i = a_case_arms a ! unat (ast_case_arm_start st + of_nat i)"

definition ref_id :: "ast_expr \<Rightarrow> nat" where
  "ref_id e = unat (ucast (ae_integer e) :: u32)"

function visit_expr :: "ast_program \<Rightarrow> (nat \<Rightarrow> bool) \<Rightarrow> nat \<Rightarrow> expr_id \<Rightarrow> visit"
  and visit_function :: "ast_program \<Rightarrow> (nat \<Rightarrow> bool) \<Rightarrow> nat \<Rightarrow> nat \<Rightarrow> visit"
  and visit_stmt :: "ast_program \<Rightarrow> (nat \<Rightarrow> bool) \<Rightarrow> nat \<Rightarrow> nat \<Rightarrow> visit"
  and visit_block :: "ast_program \<Rightarrow> (nat \<Rightarrow> bool) \<Rightarrow> nat \<Rightarrow> u32 \<Rightarrow> u32 \<Rightarrow> visit"
  and visit_global :: "ast_program \<Rightarrow> (nat \<Rightarrow> bool) \<Rightarrow> nat \<Rightarrow> nat \<Rightarrow> visit"
where
  "visit_expr a work depth i g =
     (if i = DYN_NO_EXPR then (True, g)
      else
        let (entered, g) = enter_graph work depth g in
        if \<not> entered then (False, g)
        else if unat i \<ge> length (a_expressions a) then (True, g)
        else
          let e = a_expressions a ! unat i in
          and_v (\<lambda>g. if ae_kind e = DYN_EXPR_GLOBAL then visit_global a work (Suc depth) (ref_id e) g else (True, g))
          (and_v (\<lambda>g. if ae_kind e = DYN_EXPR_CALL then visit_function a work (Suc depth) (ref_id e) g else (True, g))
          (and_v (visit_expr a work (Suc depth) (ae_left e))
          (and_v (visit_expr a work (Suc depth) (ae_right e))
             (all_v (\<lambda>k. visit_expr a work (Suc depth) (item_expr a e k)) [0..<unat (ae_item_count e)])))) g)"
| "visit_function a work depth f g =
     (if f \<ge> length (a_functions a) \<or> ig_functions g ! f then (True, g)
      else visit_block a work depth (afn_body_start (a_functions a ! f)) (afn_body_count (a_functions a ! f))
        (g\<lparr>ig_functions := (ig_functions g)[f := True]\<rparr>))"
| "visit_stmt a work depth s g =
     (let st = a_statements a ! s in
      and_v (visit_expr a work depth (ast_expression st))
      (and_v (visit_expr a work depth (ast_target st))
      (and_v (visit_block a work depth (ast_body_start st) (ast_body_count st))
      (and_v (visit_block a work depth (ast_else_start st) (ast_else_count st))
         (all_v (\<lambda>k. visit_block a work depth (ac_body_start (arm_at a st k)) (ac_body_count (arm_at a st k)))
            [0..<unat (ast_case_arm_count st)])))) g)"
| "visit_block a work depth start count g =
     (if count = 0 then (True, g)
      else
        let (entered, g) = enter_graph work depth g in
        if \<not> entered then (False, g)
        else all_v (\<lambda>k. visit_stmt a work (Suc depth) (child_stmt a start k)) [0..<unat count] g)"
| "visit_global a work depth h g =
     (if h \<ge> length (a_globals a) then (False, g)
      else if ig_state g ! h = 2 then (True, g)
      else if ig_state g ! h = 1 then (False, cycle_error g)
      else
        let saved = ig_functions g;
            g = g\<lparr>ig_state := (ig_state g)[h := 1], ig_functions := replicate (length (a_functions a)) False\<rparr>;
            (r, g) = visit_expr a work depth (ag_initializer (a_globals a ! h)) g;
            g = g\<lparr>ig_functions := saved\<rparr> in
        if \<not> r then (False, g\<lparr>ig_state := (ig_state g)[h := 0]\<rparr>)
        else
          let g = g\<lparr>ig_state := (ig_state g)[h := 2]\<rparr> in
          (True, if ag_initializer (a_globals a ! h) \<noteq> DYN_NO_EXPR then g\<lparr>ig_order := ig_order g @ [h]\<rparr> else g))"
  by pat_completeness auto
termination
  by (relation "measure (\<lambda>x. case x of
      Inl (Inl (a, work, depth, i, g)) \<Rightarrow> 2 * (513 - depth)
    | Inl (Inr (a, work, depth, f, g)) \<Rightarrow> 2 * (513 - depth) + 1
    | Inr (Inl (a, work, depth, s, g)) \<Rightarrow> 2 * (513 - depth) + 1
    | Inr (Inr (Inl (a, work, depth, start, count, g))) \<Rightarrow> 2 * (513 - depth)
    | Inr (Inr (Inr (a, work, depth, h, g))) \<Rightarrow> 2 * (513 - depth) + 1)")
    (auto simp: enter_graph_def Let_def split: if_splits)

declare visit_expr.simps [simp del] visit_function.simps [simp del] visit_stmt.simps [simp del]
  visit_block.simps [simp del] visit_global.simps [simp del]

text \<open>All globals are visited, also after a failure, unless the walk was stopped.\<close>

fun visit_globals :: "ast_program \<Rightarrow> (nat \<Rightarrow> bool) \<Rightarrow> nat list \<Rightarrow> visit" where
  "visit_globals a work [] g = (True, g)"
| "visit_globals a work (h # hs) g =
     (let (r, g) = visit_global a work 0 h g in
      if r then visit_globals a work hs g
      else if ig_stopped g then (False, g)
      else (False, snd (visit_globals a work hs g)))"

definition order_initializers :: "ast_program \<Rightarrow> (nat \<Rightarrow> bool) \<Rightarrow> nat list option \<times> init_graph" where
  "order_initializers a work =
     (let n = length (a_globals a);
          g = \<lparr>ig_state = replicate n 0, ig_functions = [], ig_order = [], ig_errors = 0, ig_stopped = False, ig_steps = 0\<rparr>;
          (r, g) = visit_globals a work [0..<n] g
      in (if r then Some (ig_order g) else None, g))"

subsection \<open>What an initializer uses\<close>

datatype node = Expr expr_id | Stmt nat | Func nat | Global nat

definition block_nodes :: "ast_program \<Rightarrow> u32 \<Rightarrow> u32 \<Rightarrow> node list" where
  "block_nodes a start count = map (\<lambda>k. Stmt (child_stmt a start k)) [0..<unat count]"

definition body_nodes :: "ast_program \<Rightarrow> nat \<Rightarrow> node list" where
  "body_nodes a f = block_nodes a (afn_body_start (a_functions a ! f)) (afn_body_count (a_functions a ! f))"

definition stmt_nodes :: "ast_program \<Rightarrow> ast_stmt \<Rightarrow> node list" where
  "stmt_nodes a st = [Expr (ast_expression st)] @ [Expr (ast_target st)] @ block_nodes a (ast_body_start st) (ast_body_count st) @
     block_nodes a (ast_else_start st) (ast_else_count st) @
     concat (map (\<lambda>k. block_nodes a (ac_body_start (arm_at a st k)) (ac_body_count (arm_at a st k))) [0..<unat (ast_case_arm_count st)])"

definition expr_nodes :: "ast_program \<Rightarrow> ast_expr \<Rightarrow> node list" where
  "expr_nodes a e = (if ae_kind e = DYN_EXPR_GLOBAL then [Global (ref_id e)] else []) @
     (if ae_kind e = DYN_EXPR_CALL \<and> ref_id e < length (a_functions a) then [Func (ref_id e)] else []) @
     [Expr (ae_left e)] @ [Expr (ae_right e)] @
     concat (map (\<lambda>k. [Expr (item_expr a e k)]) [0..<unat (ae_item_count e)])"

text \<open>The parts of expressions and statements; function bodies and initializers are entered only in \<open>uses\<close>.\<close>

fun parts :: "ast_program \<Rightarrow> node \<Rightarrow> node list" where
  "parts a (Expr i) = (if i = DYN_NO_EXPR \<or> unat i \<ge> length (a_expressions a) then [] else expr_nodes a (a_expressions a ! unat i))"
| "parts a (Stmt s) = stmt_nodes a (a_statements a ! s)"
| "parts a (Func f) = []"
| "parts a (Global h) = []"

definition part_edges :: "ast_program \<Rightarrow> (node \<times> node) set" where
  "part_edges a = {(n, m). m \<in> set (parts a n)}"

definition call_edges :: "ast_program \<Rightarrow> (node \<times> node) set" where
  "call_edges a = {(Func f, m) | f m. m \<in> set (body_nodes a f)}"

definition init_node :: "ast_program \<Rightarrow> nat \<Rightarrow> node" where
  "init_node a h = Expr (ag_initializer (a_globals a ! h))"

definition init_edges :: "ast_program \<Rightarrow> (node \<times> node) set" where
  "init_edges a = {(Global h, init_node a h) | h. h < length (a_globals a)}"

text \<open>The initializer of \<open>h\<close> mentions \<open>k\<close>, directly or in a function it calls.\<close>

definition uses :: "ast_program \<Rightarrow> nat \<Rightarrow> nat \<Rightarrow> bool" where
  "uses a h k \<longleftrightarrow> (init_node a h, Global k) \<in> (part_edges a \<union> call_edges a)\<^sup>*"

definition has_init :: "ast_program \<Rightarrow> nat \<Rightarrow> bool" where
  "has_init a h \<longleftrightarrow> h < length (a_globals a) \<and> ag_initializer (a_globals a ! h) \<noteq> DYN_NO_EXPR"

subsection \<open>The contract of a visit\<close>

definition fits :: "ast_program \<Rightarrow> init_graph \<Rightarrow> bool" where
  "fits a g \<longleftrightarrow> length (ig_state g) = length (a_globals a) \<and> length (ig_functions g) = length (a_functions a)"

fun good :: "init_graph \<Rightarrow> node \<Rightarrow> bool" where
  "good g (Global h) \<longleftrightarrow> h < length (ig_state g) \<and> ig_state g ! h = 2"
| "good g (Func f) \<longleftrightarrow> f < length (ig_functions g) \<and> ig_functions g ! f"
| "good g (Expr _) \<longleftrightarrow> True"
| "good g (Stmt _) \<longleftrightarrow> True"

definition covered :: "ast_program \<Rightarrow> init_graph \<Rightarrow> node list \<Rightarrow> bool" where
  "covered a g ns \<longleftrightarrow> (\<forall>n \<in> set ns. \<forall>m. (n, m) \<in> (part_edges a)\<^sup>* \<longrightarrow> good g m)"

text \<open>
  The initializers that were finished are exactly the globals of state 2 that have one, each once, and each after
  everything it uses.
\<close>

definition ordered :: "ast_program \<Rightarrow> init_graph \<Rightarrow> bool" where
  "ordered a g \<longleftrightarrow> distinct (ig_order g) \<and>
     (\<forall>h. h \<in> set (ig_order g) \<longleftrightarrow> has_init a h \<and> ig_state g ! h = 2) \<and>
     (\<forall>k < length (ig_order g). \<forall>h. uses a (ig_order g ! k) h \<longrightarrow> has_init a h \<longrightarrow> h \<in> set (take k (ig_order g)))"

text \<open>Reasons to refuse a program: a reference to no global, or a cycle through initializers.\<close>

definition init_cycle :: "ast_program \<Rightarrow> bool" where
  "init_cycle a \<longleftrightarrow> (\<exists>h. (Global h, Global h) \<in> (part_edges a \<union> call_edges a \<union> init_edges a)\<^sup>+)"

definition faulty :: "ast_program \<Rightarrow> bool" where
  "faulty a \<longleftrightarrow> (\<exists>e \<in> set (a_expressions a). ae_kind e = DYN_EXPR_GLOBAL \<and> ref_id e \<ge> length (a_globals a)) \<or> init_cycle a"

definition extends :: "ast_program \<Rightarrow> init_graph \<Rightarrow> init_graph \<Rightarrow> bool" where
  "extends a g g' \<longleftrightarrow> fits a g' \<and>
     (\<forall>h < length (a_globals a). ig_state g' ! h = 1 \<longleftrightarrow> ig_state g ! h = 1) \<and>
     (\<forall>h < length (a_globals a). ig_state g ! h = 2 \<longrightarrow> ig_state g' ! h = 2) \<and>
     (\<forall>f < length (a_functions a). ig_functions g ! f \<longrightarrow> ig_functions g' ! f) \<and>
     (ordered a g \<longrightarrow> ordered a g')"

definition visited :: "ast_program \<Rightarrow> node list \<Rightarrow> bool \<Rightarrow> init_graph \<Rightarrow> init_graph \<Rightarrow> bool" where
  "visited a ns r g g' \<longleftrightarrow> extends a g g' \<and>
     (r \<longrightarrow> covered a g' ns \<and> (\<forall>f < length (a_functions a). ig_functions g' ! f \<longrightarrow> \<not> ig_functions g ! f \<longrightarrow> covered a g' (body_nodes a f))) \<and>
     (\<not> r \<longrightarrow> (\<forall>h < length (a_globals a). ig_state g ! h = 1 \<longrightarrow> (\<forall>n \<in> set ns. (Global h, n) \<in> (part_edges a \<union> call_edges a \<union> init_edges a)\<^sup>+)) \<longrightarrow>
       ig_stopped g' \<or> faulty a)"

definition spec_v :: "ast_program \<Rightarrow> node list \<Rightarrow> visit \<Rightarrow> bool" where
  "spec_v a ns m \<longleftrightarrow> (\<forall>g. fits a g \<longrightarrow> visited a ns (fst (m g)) g (snd (m g)))"

lemma spec_vD: "spec_v a ns m \<Longrightarrow> fits a g \<Longrightarrow> m g = (r, g') \<Longrightarrow> visited a ns r g g'"
  unfolding spec_v_def by (metis fst_conv snd_conv)

lemma good_mono: "extends a g g' \<Longrightarrow> fits a g \<Longrightarrow> good g n \<Longrightarrow> good g' n"
  by (cases n) (auto simp: extends_def fits_def)

lemma covered_mono: "extends a g g' \<Longrightarrow> fits a g \<Longrightarrow> covered a g ns \<Longrightarrow> covered a g' ns"
  using good_mono by (auto simp: covered_def)

lemma extends_refl: "fits a g \<Longrightarrow> extends a g g"
  by (simp add: extends_def)

lemma extends_trans: "extends a g1 g2 \<Longrightarrow> extends a g2 g3 \<Longrightarrow> extends a g1 g3"
  unfolding extends_def by auto

lemma visited_trans:
  assumes "visited a ns True g1 g2" and "visited a ms r g2 g3" and "fits a g1"
  shows "visited a (ns @ ms) r g1 g3"
proof -
  have e: "extends a g1 g2" "extends a g2 g3" and f: "fits a g2" using assms by (simp_all add: visited_def extends_def)
  have "covered a g3 ns" using assms(1) covered_mono [OF e(2) f] by (simp add: visited_def)
  moreover have "covered a g3 (body_nodes a k)" if "r" "k < length (a_functions a)" "ig_functions g3 ! k" "\<not> ig_functions g1 ! k" for k
    using assms(1,2) that covered_mono [OF e(2) f] by (cases "ig_functions g2 ! k") (auto simp: visited_def)
  moreover have "ig_state g2 ! h = 1 \<longleftrightarrow> ig_state g1 ! h = 1" if "h < length (a_globals a)" for h
    using e(1) that by (simp add: extends_def)
  ultimately show ?thesis using assms(2) extends_trans [OF e]
    by (auto simp: visited_def covered_def)
qed

lemma visited_fail: "visited a ns False g g' \<Longrightarrow> visited a (ns @ ms) False g g'"
  by (auto simp: visited_def)

lemma spec_ok: "spec_v a [] (\<lambda>g. (True, g))"
  by (simp add: spec_v_def visited_def extends_refl covered_def)

lemma spec_and:
  assumes "spec_v a ns m" and "spec_v a ms k"
  shows "spec_v a (ns @ ms) (and_v m k)"
  unfolding spec_v_def
proof (intro allI impI)
  fix g assume g: "fits a g"
  obtain r g' where m: "m g = (r, g')" by (cases "m g")
  have v: "visited a ns r g g'" using assms(1) g m by (auto simp: spec_v_def)
  then have "fits a g'" by (simp add: visited_def extends_def)
  then have "visited a ms (fst (k g')) g' (snd (k g'))" using assms(2) by (simp add: spec_v_def)
  then show "visited a (ns @ ms) (fst (and_v m k g)) g (snd (and_v m k g))"
    using visited_trans [OF _ _ g] visited_fail v m by (cases r) (auto simp: and_v_def)
qed

lemma spec_all:
  assumes "\<And>x. x \<in> set xs \<Longrightarrow> spec_v a (ns x) (f x)"
  shows "spec_v a (concat (map ns xs)) (all_v f xs)"
  using assms
proof (induction xs)
  case Nil
  then show ?case by (simp add: spec_v_def visited_def extends_refl covered_def)
next
  case (Cons x xs)
  have "all_v f (x # xs) = and_v (f x) (all_v f xs)" by (rule ext) (simp add: and_v_def)
  then show ?case using spec_and [OF Cons.prems Cons.IH] Cons.prems by simp
qed

subsection \<open>Every visit keeps the contract\<close>

abbreviation all_edges :: "ast_program \<Rightarrow> (node \<times> node) set" where
  "all_edges a \<equiv> part_edges a \<union> call_edges a \<union> init_edges a"

lemma visited_node:
  assumes "visited a (parts a n) r g g'" and "good g' n"
  shows "visited a [n] r g g'"
proof -
  have "covered a g' [n]" if "covered a g' (parts a n)"
    using that assms(2) by (auto simp: covered_def part_edges_def elim: converse_rtranclE)
  moreover have "(Global h, m) \<in> (all_edges a)\<^sup>+" if "(Global h, n) \<in> (all_edges a)\<^sup>+" "m \<in> set (parts a n)" for h m
    using that by (intro trancl_into_trancl [OF that(1)]) (simp add: part_edges_def)
  ultimately show ?thesis using assms(1) by (auto simp: visited_def)
qed

lemma enter_keeps:
  "enter_graph work depth g = (r, g1) \<Longrightarrow> ig_state g1 = ig_state g \<and> ig_functions g1 = ig_functions g \<and> ig_order g1 = ig_order g \<and> (\<not> r \<longrightarrow> ig_stopped g1)"
  by (auto simp: enter_graph_def Let_def split: if_splits)

lemma visited_from:
  assumes "ig_state g1 = ig_state g" "ig_functions g1 = ig_functions g" "ig_order g1 = ig_order g" and "visited a ns r g1 g'"
  shows "visited a ns r g g'"
proof -
  have "ordered a g1 = ordered a g" using assms(1-3) by (simp add: ordered_def)
  then show ?thesis using assms by (simp add: visited_def extends_def)
qed

text \<open>A visit that begins with \<open>enter_graph\<close>.\<close>

lemma spec_enter:
  assumes "\<And>g. m g = (let (entered, g) = enter_graph work depth g in if \<not> entered then (False, g) else k g)"
    and "depth < 512 \<Longrightarrow> spec_v a ns k"
  shows "spec_v a ns m"
  unfolding spec_v_def
proof (intro allI impI)
  fix g assume g: "fits a g"
  obtain r g1 where e: "enter_graph work depth g = (r, g1)" by (cases "enter_graph work depth g")
  note keep = enter_keeps [OF e]
  have f1: "fits a g1" using g keep by (simp add: fits_def)
  show "visited a ns (fst (m g)) g (snd (m g))"
  proof (cases r)
    case True
    then have "depth < 512" using e by (auto simp: enter_graph_def Let_def split: if_splits)
    then have "visited a ns (fst (k g1)) g1 (snd (k g1))" using assms(2) f1 by (simp add: spec_v_def)
    then show ?thesis using True e keep by (auto simp: assms(1) intro: visited_from)
  next
    case False
    have "visited a ns False g1 g1" using keep False f1 by (simp add: visited_def extends_refl)
    then show ?thesis using False e keep by (auto simp: assms(1) intro: visited_from)
  qed
qed

lemma spec_function:
  assumes "\<And>start count. spec_v a (block_nodes a start count) (visit_block a work depth start count)"
  shows "spec_v a (if f < length (a_functions a) then [Func f] else []) (visit_function a work depth f)"
  unfolding spec_v_def
proof (intro allI impI)
  fix g assume g: "fits a g"
  let ?b = "visit_block a work depth (afn_body_start (a_functions a ! f)) (afn_body_count (a_functions a ! f))"
  let ?g1 = "g\<lparr>ig_functions := (ig_functions g)[f := True]\<rparr>"
  show "visited a (if f < length (a_functions a) then [Func f] else []) (fst (visit_function a work depth f g)) g (snd (visit_function a work depth f g))"
  proof (cases "f \<ge> length (a_functions a) \<or> ig_functions g ! f")
    case True
    have "visited a (parts a (Func f)) True g g" using g by (simp add: visited_def extends_refl covered_def)
    then show ?thesis using True g visited_node [of a "Func f" True g g]
      by (auto simp: visit_function.simps fits_def)
  next
    case False
    then have f: "f < length (a_functions a)" "\<not> ig_functions g ! f" by simp_all
    have g1: "fits a ?g1" "extends a g ?g1" using g f by (auto simp: fits_def extends_def nth_list_update ordered_def)
    obtain r g' where b: "?b ?g1 = (r, g')" by (cases "?b ?g1")
    have v: "visited a (body_nodes a f) r ?g1 g'" unfolding body_nodes_def by (rule spec_vD [OF assms g1(1) b])
    have e: "extends a g g'" using extends_trans [OF g1(2)] v by (simp add: visited_def)
    have marked: "ig_functions g' ! f" using v f(1) g by (auto simp: visited_def extends_def fits_def)
    have new: "covered a g' (body_nodes a k)" if "r" "k < length (a_functions a)" "ig_functions g' ! k" "\<not> ig_functions g ! k" for k
      using v that g by (cases "k = f") (auto simp: visited_def nth_list_update fits_def)
    have "covered a g' [Func f]" using marked e f(1)
      by (auto simp: covered_def part_edges_def extends_def fits_def elim: converse_rtranclE)
    moreover have "(Global h, m) \<in> (all_edges a)\<^sup>+" if "(Global h, Func f) \<in> (all_edges a)\<^sup>+" "m \<in> set (body_nodes a f)" for h m
      using that(2) by (intro trancl_into_trancl [OF that(1)]) (auto simp: call_edges_def)
    ultimately have "visited a [Func f] r g g'" using v e new by (auto simp: visited_def)
    then show ?thesis using False b by (simp add: visit_function.simps)
  qed
qed

lemma spec_stmt:
  assumes "\<And>i. spec_v a [Expr i] (visit_expr a work depth i)"
    and "\<And>start count. spec_v a (block_nodes a start count) (visit_block a work depth start count)"
  shows "spec_v a [Stmt s] (visit_stmt a work depth s)"
proof -
  have "spec_v a (parts a (Stmt s)) (visit_stmt a work depth s)"
    unfolding visit_stmt.simps [abs_def] Let_def parts.simps stmt_nodes_def by (intro spec_and spec_all assms)
  then show ?thesis using visited_node [of a "Stmt s"] by (simp add: spec_v_def)
qed

text \<open>Once the initializer is finished, with no function marked before, everything it uses is finished.\<close>

lemma uses_finished:
  assumes "covered a g [n]" and "\<And>f. f < length (a_functions a) \<Longrightarrow> ig_functions g ! f \<Longrightarrow> covered a g (body_nodes a f)"
    and "fits a g" and "(n, m) \<in> (part_edges a \<union> call_edges a)\<^sup>*"
  shows "good g m"
proof -
  from assms(4) have "covered a g [m]"
  proof (induction rule: rtrancl_induct)
    case base
    show ?case by (rule assms(1))
  next
    case (step x y)
    from step(2) show ?case
    proof
      assume "(x, y) \<in> part_edges a"
      then show ?case using step.IH converse_rtrancl_into_rtrancl [of x y "part_edges a"] by (auto simp: covered_def)
    next
      assume "(x, y) \<in> call_edges a"
      then obtain f where f: "x = Func f" "y \<in> set (body_nodes a f)" by (auto simp: call_edges_def)
      have "good g (Func f)" using step.IH f(1) by (auto simp: covered_def)
      then have "covered a g (body_nodes a f)" using assms(2,3) by (auto simp: fits_def)
      then show ?case using f(2) by (auto simp: covered_def)
    qed
  qed
  then show ?thesis by (auto simp: covered_def)
qed

lemma ordered_snoc:
  fixes fs :: "bool list"
  assumes "ordered a g" and "fits a g" and "h < length (a_globals a)" and "ig_state g ! h = 1"
    and "\<And>k. uses a h k \<Longrightarrow> has_init a k \<Longrightarrow> ig_state g ! k = 2"
  defines "g' \<equiv> g\<lparr>ig_functions := fs, ig_state := (ig_state g)[h := 2]\<rparr>"
  shows "ordered a (if has_init a h then g'\<lparr>ig_order := ig_order g @ [h]\<rparr> else g')"
proof -
  have h: "h < length (ig_state g)" "h \<notin> set (ig_order g)" using assms(1-4) by (auto simp: fits_def ordered_def)
  have st: "(ig_state g)[h := 2] ! k = (if k = h then 2 else ig_state g ! k)" for k using h(1) by (simp add: nth_list_update)
  show ?thesis
  proof (cases "has_init a h")
    case True
    have "x \<in> set (take k (ig_order g @ [h]))" if "k < length (ig_order g @ [h])" "uses a ((ig_order g @ [h]) ! k) x" "has_init a x" for k x
    proof (cases "k = length (ig_order g)")
      case True
      then have "ig_state g ! x = 2" using assms(5) that by simp
      then show ?thesis using True assms(1) that(3) by (simp add: ordered_def)
    next
      case False
      then show ?thesis using that assms(1) by (simp add: ordered_def nth_append)
    qed
    then show ?thesis using True h(2) assms(1) st by (auto simp: ordered_def g'_def)
  next
    case False
    then show ?thesis using assms(1) st by (auto simp: ordered_def g'_def)
  qed
qed

lemma spec_global:
  assumes "spec_v a [init_node a h] (visit_expr a work depth (ag_initializer (a_globals a ! h)))"
    and "h < length (a_globals a) \<or> faulty a"
  shows "spec_v a [Global h] (visit_global a work depth h)"
  unfolding spec_v_def
proof (intro allI impI)
  fix g assume g: "fits a g"
  let ?g1 = "g\<lparr>ig_state := (ig_state g)[h := 1], ig_functions := replicate (length (a_functions a)) False\<rparr>"
  consider (outside) "\<not> h < length (a_globals a)" | (finished) "h < length (a_globals a)" "ig_state g ! h = 2"
    | (pending) "h < length (a_globals a)" "ig_state g ! h = 1"
    | (fresh) "h < length (a_globals a)" "ig_state g ! h \<noteq> 2" "ig_state g ! h \<noteq> 1" by blast
  then show "visited a [Global h] (fst (visit_global a work depth h g)) g (snd (visit_global a work depth h g))"
  proof cases
    case outside
    then show ?thesis using assms(2) g by (simp add: visit_global.simps visited_def extends_refl)
  next
    case finished
    have "visited a (parts a (Global h)) True g g" using g by (simp add: visited_def extends_refl covered_def)
    then show ?thesis using finished g visited_node [of a "Global h" True g g] by (simp add: visit_global.simps fits_def)
  next
    case pending
    have "extends a g (cycle_error g)" using g by (simp add: extends_def cycle_error_def fits_def ordered_def)
    then show ?thesis using pending by (auto simp: visit_global.simps visited_def faulty_def init_cycle_def)
  next
    case fresh
    obtain r g2 where x: "visit_expr a work depth (ag_initializer (a_globals a ! h)) ?g1 = (r, g2)"
      by (cases "visit_expr a work depth (ag_initializer (a_globals a ! h)) ?g1")
    have hl: "h < length (ig_state g)" using fresh(1) g by (simp add: fits_def)
    have f1: "fits a ?g1" using g by (simp add: fits_def)
    have v: "visited a [init_node a h] r ?g1 g2" by (rule spec_vD [OF assms(1) f1 x])
    have e: "extends a ?g1 g2" and f2: "fits a g2" using v by (simp_all add: visited_def extends_def)
    have st2: "ig_state g2 ! h = 1" using e fresh(1) hl by (auto simp: extends_def)
    have o1: "ordered a ?g1" if "ordered a g" using that fresh hl by (auto simp: ordered_def nth_list_update)
    have o2: "ordered a g2" if "ordered a g" using o1 [OF that] e by (simp add: extends_def)
    have keep: "(ig_state g2 ! k = 1 \<longleftrightarrow> ig_state g ! k = 1) \<and> (ig_state g ! k = 2 \<longrightarrow> ig_state g2 ! k = 2)"
      if "k < length (a_globals a)" "k \<noteq> h" for k using e that hl by (auto simp: extends_def nth_list_update)
    show ?thesis
    proof (cases r)
      case False
      let ?g' = "g2\<lparr>ig_functions := ig_functions g, ig_state := (ig_state g2)[h := 0]\<rparr>"
      have "extends a g ?g'"
        using g f2 keep fresh o2 st2 by (auto simp: extends_def fits_def nth_list_update ordered_def)
      moreover have "ig_stopped g2 \<or> faulty a"
        if chain: "\<And>k. k < length (a_globals a) \<Longrightarrow> ig_state g ! k = 1 \<Longrightarrow> (Global k, Global h) \<in> (all_edges a)\<^sup>+"
      proof -
        have edge: "(Global h, init_node a h) \<in> all_edges a" using fresh(1) by (auto simp: init_edges_def)
        have "(Global k, init_node a h) \<in> (all_edges a)\<^sup>+" if "k < length (a_globals a)" "ig_state ?g1 ! k = 1" for k
          using trancl_into_trancl [OF chain edge] r_into_trancl [OF edge] that hl by (cases "k = h") auto
        then show ?thesis using v False by (auto simp: visited_def)
      qed
      ultimately show ?thesis using False fresh x by (simp add: visit_global.simps Let_def visited_def)
    next
      case True
      let ?g3 = "g2\<lparr>ig_functions := ig_functions g, ig_state := (ig_state g2)[h := 2]\<rparr>"
      let ?g' = "if has_init a h then ?g3\<lparr>ig_order := ig_order g2 @ [h]\<rparr> else ?g3"
      have used: "ig_state g2 ! k = 2" if "uses a h k" for k
      proof -
        have "good g2 (Global k)"
          using v True f1 that by (intro uses_finished [OF _ _ f2]) (auto simp: visited_def uses_def)
        then show ?thesis by simp
      qed
      have "ordered a ?g'" if "ordered a g" by (rule ordered_snoc [OF o2 [OF that] f2 fresh(1) st2 used])
      then have "extends a g ?g'"
        using g f2 keep fresh by (auto simp: extends_def fits_def nth_list_update)
      moreover have "covered a ?g' [Global h]" using f2 fresh(1)
        by (auto simp: covered_def part_edges_def fits_def elim: converse_rtranclE)
      ultimately have "visited a [Global h] True g ?g'" by (auto simp: visited_def)
      then show ?thesis using True fresh x by (auto simp: visit_global.simps Let_def has_init_def split: if_splits)
    qed
  qed
qed

lemma spec_expr_body:
  assumes "\<And>i. spec_v a [Expr i] (visit_expr a work depth i)"
    and "\<And>start count. spec_v a (block_nodes a start count) (visit_block a work depth start count)"
    and "e \<in> set (a_expressions a)"
  shows "spec_v a (expr_nodes a e)
    (and_v (\<lambda>g. if ae_kind e = DYN_EXPR_GLOBAL then visit_global a work depth (ref_id e) g else (True, g))
    (and_v (\<lambda>g. if ae_kind e = DYN_EXPR_CALL then visit_function a work depth (ref_id e) g else (True, g))
    (and_v (visit_expr a work depth (ae_left e)) (and_v (visit_expr a work depth (ae_right e))
       (all_v (\<lambda>k. visit_expr a work depth (item_expr a e k)) [0..<unat (ae_item_count e)])))))"
  unfolding expr_nodes_def
proof (intro spec_and spec_all assms(1))
  have "spec_v a [Global (ref_id e)] (visit_global a work depth (ref_id e))" if "ae_kind e = DYN_EXPR_GLOBAL"
    using that assms(1,3) by (intro spec_global) (auto simp: init_node_def faulty_def)
  then show "spec_v a (if ae_kind e = DYN_EXPR_GLOBAL then [Global (ref_id e)] else [])
      (\<lambda>g. if ae_kind e = DYN_EXPR_GLOBAL then visit_global a work depth (ref_id e) g else (True, g))"
    by (simp add: spec_ok)
  show "spec_v a (if ae_kind e = DYN_EXPR_CALL \<and> ref_id e < length (a_functions a) then [Func (ref_id e)] else [])
      (\<lambda>g. if ae_kind e = DYN_EXPR_CALL then visit_function a work depth (ref_id e) g else (True, g))"
    using spec_function [OF assms(2), of "ref_id e"] by (cases "ae_kind e = DYN_EXPR_CALL") (simp_all add: spec_ok)
qed

lemma spec_node: "spec_v a (parts a n) m \<Longrightarrow> n = Expr i \<or> n = Stmt s \<Longrightarrow> spec_v a [n] m"
  unfolding spec_v_def by (metis good.simps(3,4) visited_node)

lemma spec_expr_step:
  assumes "\<And>j. depth < 512 \<Longrightarrow> spec_v a [Expr j] (visit_expr a work (Suc depth) j)"
    and "\<And>start count. depth < 512 \<Longrightarrow> spec_v a (block_nodes a start count) (visit_block a work (Suc depth) start count)"
  shows "spec_v a [Expr i] (visit_expr a work depth i)"
proof (rule spec_node)
  show "spec_v a (parts a (Expr i)) (visit_expr a work depth i)"
  proof (cases "i = DYN_NO_EXPR")
    case True
    then show ?thesis using spec_ok by (simp add: visit_expr.simps [abs_def])
  next
    case False
    let ?e = "a_expressions a ! unat i"
    let ?k = "\<lambda>g. if unat i \<ge> length (a_expressions a) then (True, g) else
      and_v (\<lambda>g. if ae_kind ?e = DYN_EXPR_GLOBAL then visit_global a work (Suc depth) (ref_id ?e) g else (True, g))
      (and_v (\<lambda>g. if ae_kind ?e = DYN_EXPR_CALL then visit_function a work (Suc depth) (ref_id ?e) g else (True, g))
      (and_v (visit_expr a work (Suc depth) (ae_left ?e)) (and_v (visit_expr a work (Suc depth) (ae_right ?e))
         (all_v (\<lambda>k. visit_expr a work (Suc depth) (item_expr a ?e k)) [0..<unat (ae_item_count ?e)])))) g"
    show ?thesis
    proof (rule spec_enter)
      show "visit_expr a work depth i g = (let (entered, g) = enter_graph work depth g in if \<not> entered then (False, g) else ?k g)" for g
        using False unfolding visit_expr.simps [of a work depth i g] Let_def by simp
      show "spec_v a (parts a (Expr i)) ?k" if "depth < 512"
        using spec_expr_body [OF assms(1) [OF that] assms(2) [OF that], of ?e] spec_ok False by (cases "unat i < length (a_expressions a)") simp_all
    qed
  qed
qed simp

lemma spec_block_step:
  assumes "\<And>j. depth < 512 \<Longrightarrow> spec_v a [Expr j] (visit_expr a work (Suc depth) j)"
    and "\<And>start count. depth < 512 \<Longrightarrow> spec_v a (block_nodes a start count) (visit_block a work (Suc depth) start count)"
  shows "spec_v a (block_nodes a start count) (visit_block a work depth start count)"
proof (cases "count = 0")
  case True
  then show ?thesis using spec_ok by (simp add: block_nodes_def visit_block.simps [abs_def])
next
  case False
  show ?thesis
  proof (rule spec_enter)
    show "visit_block a work depth start count g = (let (entered, g) = enter_graph work depth g in if \<not> entered then (False, g)
      else all_v (\<lambda>k. visit_stmt a work (Suc depth) (child_stmt a start k)) [0..<unat count] g)" for g
      using False by (simp add: visit_block.simps)
    assume d: "depth < 512"
    have "spec_v a (concat (map (\<lambda>k. [Stmt (child_stmt a start k)]) [0..<unat count]))
        (all_v (\<lambda>k. visit_stmt a work (Suc depth) (child_stmt a start k)) [0..<unat count])"
      by (intro spec_all spec_stmt assms d)
    then show "spec_v a (block_nodes a start count) (all_v (\<lambda>k. visit_stmt a work (Suc depth) (child_stmt a start k)) [0..<unat count])"
      by (simp add: block_nodes_def)
  qed
qed

lemma specs:
  "spec_v a [Expr i] (visit_expr a work depth i) \<and>
   spec_v a (block_nodes a start count) (visit_block a work depth start count)"
proof (induction "512 - depth" arbitrary: depth i start count rule: less_induct)
  case less
  have "spec_v a [Expr j] (visit_expr a work (Suc depth) j)" "spec_v a (block_nodes a st c) (visit_block a work (Suc depth) st c)"
    if "depth < 512" for j st c using less [of "Suc depth"] that by simp_all
  then show ?case using spec_expr_step spec_block_step by blast
qed

lemma global_spec: "h < length (a_globals a) \<Longrightarrow> spec_v a [Global h] (visit_global a work depth h)"
  using specs by (intro spec_global) (simp_all add: init_node_def)

text \<open>The marks of functions outside of an initializer do not matter.\<close>

lemma visit_global_functions:
  "visit_global a work depth h (g\<lparr>ig_functions := fs\<rparr>) =
   (fst (visit_global a work depth h g), (snd (visit_global a work depth h g))\<lparr>ig_functions := fs\<rparr>)"
  by (simp add: visit_global.simps Let_def cycle_error_def split: prod.split)

lemma visit_globals_functions:
  "visit_globals a work hs (g\<lparr>ig_functions := fs\<rparr>) =
   (fst (visit_globals a work hs g), (snd (visit_globals a work hs g))\<lparr>ig_functions := fs\<rparr>)"
  by (induction hs arbitrary: g) (simp_all add: visit_global_functions Let_def split: prod.split)

lemma visit_globals_spec:
  assumes "fits a g" and "\<forall>h < length (a_globals a). ig_state g ! h \<noteq> 1" and "\<forall>h \<in> set hs. h < length (a_globals a)"
    and "visit_globals a work hs g = (r, g')"
  shows "extends a g g' \<and> (r \<longrightarrow> (\<forall>h \<in> set hs. ig_state g' ! h = 2)) \<and> (\<not> r \<longrightarrow> ig_stopped g' \<or> faulty a)"
  using assms
proof (induction hs arbitrary: g r g')
  case Nil
  then show ?case by (simp add: extends_refl)
next
  case (Cons h hs)
  obtain r1 g1 where v1: "visit_global a work 0 h g = (r1, g1)" by (cases "visit_global a work 0 h g")
  obtain r2 g2 where v2: "visit_globals a work hs g1 = (r2, g2)" by (cases "visit_globals a work hs g1")
  have h: "h < length (a_globals a)" using Cons.prems(3) by simp
  have v: "visited a [Global h] r1 g g1" by (rule spec_vD [OF global_spec [OF h] Cons.prems(1) v1])
  then have e: "extends a g g1" by (simp add: visited_def)
  have f1: "fits a g1" and p1: "\<forall>h < length (a_globals a). ig_state g1 ! h \<noteq> 1" using e Cons.prems(2) by (simp_all add: extends_def)
  have IH: "extends a g1 g2 \<and> (r2 \<longrightarrow> (\<forall>h \<in> set hs. ig_state g2 ! h = 2)) \<and> (\<not> r2 \<longrightarrow> ig_stopped g2 \<or> faulty a)"
    by (rule Cons.IH [OF f1 p1 _ v2]) (use Cons.prems(3) in simp)
  have fail: "ig_stopped g1 \<or> faulty a" if "\<not> r1" using v that Cons.prems(2) by (auto simp: visited_def)
  have fin: "ig_state g2 ! h = 2" if r1
  proof -
    have "good g1 (Global h)" using v that by (auto simp: visited_def covered_def)
    then show ?thesis using IH h by (simp add: extends_def)
  qed
  consider "r1" "r = r2" "g' = g2" | "\<not> r1" "ig_stopped g1" "r = False" "g' = g1" | "\<not> r1" "\<not> ig_stopped g1" "r = False" "g' = g2"
    using Cons.prems(4) v1 v2 by (auto simp: Let_def split: if_splits)
  then show ?case
  proof cases
    case 1
    then show ?thesis using IH fin extends_trans [OF e] by auto
  next
    case 2
    then show ?thesis using e by simp
  next
    case 3
    then show ?thesis using IH fail extends_trans [OF e] by auto
  qed
qed

lemma order_initializers_spec:
  assumes "order_initializers a work = (res, g)"
  shows "(\<forall>ord. res = Some ord \<longrightarrow> (\<exists>g'. ordered a g' \<and> ord = ig_order g' \<and> (\<forall>h < length (a_globals a). ig_state g' ! h = 2))) \<and>
    (res = None \<longrightarrow> ig_stopped g \<or> faulty a)"
proof -
  let ?n = "length (a_globals a)" and ?fs = "replicate (length (a_functions a)) False"
  let ?g0 = "\<lparr>ig_state = replicate ?n 0, ig_functions = ?fs, ig_order = [], ig_errors = 0, ig_stopped = False, ig_steps = 0\<rparr>"
  obtain r g1 where v: "visit_globals a work [0..<?n] ?g0 = (r, g1)" by (cases "visit_globals a work [0..<?n] ?g0")
  have "fits a ?g0" "\<forall>h < ?n. ig_state ?g0 ! h \<noteq> 1" "ordered a ?g0" by (auto simp: fits_def ordered_def has_init_def)
  then have s: "ordered a g1" "r \<longrightarrow> (\<forall>h < ?n. ig_state g1 ! h = 2)" "\<not> r \<longrightarrow> ig_stopped g1 \<or> faulty a"
    using visit_globals_spec [OF _ _ _ v] by (simp_all add: extends_def)
  have "res = (if r then Some (ig_order g1) else None)" "g = g1\<lparr>ig_functions := []\<rparr>"
    using assms visit_globals_functions [where hs = "[0..<?n]" and g = ?g0 and fs = "[]" and a = a and work = work] v by (auto simp: order_initializers_def Let_def)
  then show ?thesis using s by auto
qed

subsection \<open>Orders and cycles\<close>

definition used_by :: "ast_program \<Rightarrow> (nat \<times> nat) set" where
  "used_by a = {(x, y). x < length (a_globals a) \<and> y < length (a_globals a) \<and> uses a x y}"

lemma full_path:
  assumes "(Global h, m) \<in> (all_edges a)\<^sup>+"
  shows "h < length (a_globals a) \<and> (\<exists>x < length (a_globals a). (h, x) \<in> (used_by a)\<^sup>* \<and> (init_node a x, m) \<in> (part_edges a \<union> call_edges a)\<^sup>*)"
  using assms
proof (induction rule: trancl_induct)
  case (base y)
  then show ?case by (auto simp: part_edges_def call_edges_def init_edges_def)
next
  case (step y z)
  then obtain x where x: "(h, x) \<in> (used_by a)\<^sup>*" "(init_node a x, y) \<in> (part_edges a \<union> call_edges a)\<^sup>*" "x < length (a_globals a)" by blast
  from step(2) consider "(y, z) \<in> part_edges a \<union> call_edges a" | k where "y = Global k" "z = init_node a k" "k < length (a_globals a)"
    by (auto simp: init_edges_def)
  then show ?case
  proof cases
    case 1
    then show ?thesis using x rtrancl_into_rtrancl [OF x(2)] step.IH by blast
  next
    case 2
    then have "(h, k) \<in> (used_by a)\<^sup>*" using x by (intro rtrancl_into_rtrancl [OF x(1)]) (simp add: uses_def used_by_def)
    then show ?thesis using 2 step.IH by blast
  qed
qed

lemma uses_has_init: "uses a h k \<Longrightarrow> h < length (a_globals a) \<Longrightarrow> has_init a h"
  unfolding uses_def has_init_def
  by (erule converse_rtranclE) (auto simp: init_node_def part_edges_def call_edges_def)

definition position :: "nat list \<Rightarrow> nat \<Rightarrow> nat" where
  "position xs x = length (takeWhile (\<lambda>y. y \<noteq> x) xs)"

lemma position_nth: "x \<in> set xs \<Longrightarrow> position xs x < length xs \<and> xs ! position xs x = x"
  unfolding position_def using nth_length_takeWhile [of "\<lambda>y. y \<noteq> x" xs]
  by (metis (mono_tags) length_takeWhile_le nat_less_le takeWhile_eq_all_conv takeWhile_eq_take take_all_iff nle_le)

lemma position_take: "x \<in> set (take k xs) \<Longrightarrow> position xs x < k"
  unfolding position_def
  by (metis (mono_tags) not_less order.trans set_take_subset_set_take set_takeWhileD subsetD takeWhile_eq_take take_all_iff nle_le)

lemma ordered_acyclic:
  assumes "ordered a g" and "\<And>h. h < length (a_globals a) \<Longrightarrow> ig_state g ! h = 2"
  shows "\<not> init_cycle a"
proof
  assume "init_cycle a"
  then obtain h x where h: "h < length (a_globals a)" and x: "x < length (a_globals a)" "(h, x) \<in> (used_by a)\<^sup>*" "uses a x h"
    using full_path by (fastforce simp: init_cycle_def uses_def)
  let ?p = "position (ig_order g)"
  have step: "?p z < ?p y" if "(y, z) \<in> used_by a" "has_init a z" for y z
  proof -
    have "has_init a y" using that by (auto simp: used_by_def intro: uses_has_init)
    then have "y \<in> set (ig_order g)" using assms by (simp add: ordered_def has_init_def)
    then have "z \<in> set (take (?p y) (ig_order g))" using assms(1) that position_nth [of y "ig_order g"]
      by (auto simp: ordered_def used_by_def)
    then show ?thesis by (rule position_take)
  qed
  have down: "has_init a z \<longrightarrow> ?p z < ?p h" if "(h, z) \<in> (used_by a)\<^sup>+" for z
    using that
  proof (induction rule: trancl_induct)
    case (step y z)
    then have "has_init a y" by (auto simp: used_by_def intro: uses_has_init)
    then show ?case using step \<open>\<And>y z. \<lbrakk>(y, z) \<in> used_by a; has_init a z\<rbrakk> \<Longrightarrow> ?p z < ?p y\<close> by fastforce
  qed (use step in blast)
  have cyc: "(h, h) \<in> (used_by a)\<^sup>+" using x h by (intro rtrancl_into_trancl1 [OF x(2)]) (simp add: used_by_def)
  then obtain y where "(h, y) \<in> used_by a" by (meson tranclD)
  then have "has_init a h" by (auto simp: used_by_def intro: uses_has_init)
  then show False using down [OF cyc] by simp
qed

text \<open>C23. The computed initialization order is a schedule: every global with an initializer occurs exactly once, and
  after every global that its initializer reads, directly or in a function it calls. So a program whose order is
  accepted has no cyclic initializers.\<close>

theorem initializers_scheduled:
  assumes "order_initializers a work = (Some ord, g)"
  shows "distinct ord \<and> set ord = {h. has_init a h} \<and>
    (\<forall>k < length ord. \<forall>h. uses a (ord ! k) h \<longrightarrow> has_init a h \<longrightarrow> h \<in> set (take k ord)) \<and> \<not> init_cycle a"
proof -
  obtain g' where g': "ordered a g'" "ord = ig_order g'" "\<forall>h < length (a_globals a). ig_state g' ! h = 2"
    using order_initializers_spec [OF assms] by blast
  moreover have "set ord = {h. has_init a h}" using g' by (auto simp: ordered_def has_init_def)
  ultimately show ?thesis using ordered_acyclic [OF g'(1)] by (auto simp: ordered_def)
qed

text \<open>C24. A program is refused only for a reason: when no order is found although neither the depth limit nor the work
  budget stopped the walk, the initializers form a cycle, or an expression names a global that does not exist.\<close>

theorem refused_for_cycle:
  assumes "order_initializers a work = (None, g)" and "\<not> ig_stopped g"
  shows "init_cycle a \<or> (\<exists>e \<in> set (a_expressions a). ae_kind e = DYN_EXPR_GLOBAL \<and> ref_id e \<ge> length (a_globals a))"
  using order_initializers_spec [OF assms(1)] assms(2) by (auto simp: faulty_def)

subsection \<open>Samples\<close>

text \<open>
  The initializer of global 0 calls a function that returns global 1, whose initializer is a literal; global 2 has none.
\<close>

definition sample_node :: "expr_kind \<Rightarrow> u64 \<Rightarrow> ast_expr" where
  "sample_node k n = \<lparr>ae_kind = k, ae_type = DYN_TYPE_I32, ae_span = \<lparr>start_byte = 0, end_byte = 0\<rparr>,
     ae_op = DYN_OP_NONE, ae_left = DYN_NO_EXPR, ae_right = DYN_NO_EXPR, ae_integer = n, ae_floating = 0, ae_boolean = False,
     ae_item_start = 0, ae_item_count = 0, ae_wrap = False\<rparr>"

definition sample_global :: "expr_id \<Rightarrow> ast_global" where
  "sample_global i = \<lparr>ag_name = \<lparr>start_byte = 0, end_byte = 0\<rparr>, ag_link_name = \<lparr>start_byte = 0, end_byte = 0\<rparr>,
     ag_type = DYN_TYPE_I32, ag_initializer = i, ag_is_const = False, ag_foreign = False, ag_is_public = False, ag_module_owner = 0\<rparr>"

definition sample_fn :: ast_fn where
  "sample_fn = \<lparr>afn_span = \<lparr>start_byte = 0, end_byte = 0\<rparr>, afn_name = \<lparr>start_byte = 0, end_byte = 0\<rparr>,
     afn_link_name = \<lparr>start_byte = 0, end_byte = 0\<rparr>, afn_variadic_name = \<lparr>start_byte = 0, end_byte = 0\<rparr>,
     afn_return_type = DYN_TYPE_I32, afn_param_start = 0, afn_param_count = 0, afn_body_start = 0, afn_body_count = 1,
     afn_local_start = 0, afn_local_count = 0, afn_is_main = False, afn_foreign = False, afn_variadic = False,
     afn_is_public = False, afn_interface_only = False, afn_is_generic = False, afn_is_instance = False,
     afn_body_pending = False, afn_generic = 0, afn_instance = 0, afn_module_owner = 0, afn_variadic_type = 0,
     afn_variadic_local_id = 0\<rparr>"

definition sample_return :: "expr_id \<Rightarrow> ast_stmt" where
  "sample_return i = \<lparr>ast_kind = DYN_STMT_RETURN, ast_span = \<lparr>start_byte = 0, end_byte = 0\<rparr>,
     ast_name = \<lparr>start_byte = 0, end_byte = 0\<rparr>, ast_label = \<lparr>start_byte = 0, end_byte = 0\<rparr>,
     ast_control_label = \<lparr>start_byte = 0, end_byte = 0\<rparr>, ast_declared_type = 0,
     ast_expression = i, ast_target = DYN_NO_EXPR, ast_assignment_op = DYN_OP_NONE,
     ast_local_id = 0, ast_body_start = 0, ast_body_count = 0, ast_else_start = 0, ast_else_count = 0,
     ast_loop_depth = 0, ast_loop_id = 0, ast_target_loop_id = 0, ast_case_arm_start = 0,
     ast_case_arm_count = 0, ast_defer_block = False, ast_for_pointer = False, ast_for_const = False,
     ast_is_const = False, ast_for_range = False, ast_for_inclusive = False, ast_for_reverse = False\<rparr>"

definition sample_globals :: ast_program where
  "sample_globals = empty_ast\<lparr>
     a_expressions := [sample_node DYN_EXPR_CALL 0, sample_node DYN_EXPR_GLOBAL 1, sample_node DYN_EXPR_INT 7],
     a_globals := [sample_global 0, sample_global 2, sample_global DYN_NO_EXPR],
     a_functions := [sample_fn], a_statements := [sample_return 1], a_children := [0]\<rparr>"

text \<open>The same with a function that returns global 0.\<close>

definition sample_cycle :: ast_program where
  "sample_cycle = sample_globals\<lparr>
     a_expressions := [sample_node DYN_EXPR_CALL 0, sample_node DYN_EXPR_GLOBAL 0, sample_node DYN_EXPR_INT 7]\<rparr>"

theorem initializers_scheduled_witness:
  "\<exists>g. order_initializers sample_globals (\<lambda>_. True) = (Some [1, 0], g) \<and>
     set [1, 0] = {h. has_init sample_globals h} \<and> \<not> init_cycle sample_globals"
proof -
  have "fst (order_initializers sample_globals (\<lambda>_. True)) = Some [1, 0]" by code_simp
  then obtain g where g: "order_initializers sample_globals (\<lambda>_. True) = (Some [1, 0], g)" by (metis prod.collapse)
  then show ?thesis using initializers_scheduled [OF g] by blast
qed

theorem refused_for_cycle_witness: "fst (order_initializers sample_cycle (\<lambda>_. True)) = None \<and> init_cycle sample_cycle"
proof -
  have r: "fst (order_initializers sample_cycle (\<lambda>_. True)) = None" "\<not> ig_stopped (snd (order_initializers sample_cycle (\<lambda>_. True)))"
    by code_simp+
  then have "order_initializers sample_cycle (\<lambda>_. True) = (None, snd (order_initializers sample_cycle (\<lambda>_. True)))"
    by (metis prod.collapse)
  from refused_for_cycle [OF this r(2)]
  have "init_cycle sample_cycle" by (simp add: sample_cycle_def sample_globals_def sample_node_def ref_id_def)
  then show ?thesis using r(1) by simp
qed

end
