(* ===== verification/Lsp_Json.thy ===== *)
theory Lsp_Json
  imports Dyn_Prelude
begin

text \<open>
  The JSON reader of the language server (\<open>src/src/lsp_json.h\<close>). A \<open>const char *\<close> into a message is the list of the
  bytes from there up to the terminating NUL, which is not in the list: \<open>peek\<close> is \<open>*p\<close>, \<open>tl\<close> is \<open>p + 1\<close>, and a null
  result is \<open>None\<close>. The code steps over a byte only after it compared it with something other than NUL, or returns
  right after. The loop over the entries of a container takes the length of its input as a bound on the number of
  rounds, which \<open>json_items_enough\<close> shows to be no restriction.
\<close>

definition peek :: "bytes \<Rightarrow> u8" where
  "peek p = (case p of [] \<Rightarrow> 0 | c # _ \<Rightarrow> c)"

definition is_space :: "u8 \<Rightarrow> bool" where
  "is_space c \<longleftrightarrow> c = 0x20 \<or> c = 0x09 \<or> c = 0x0D \<or> c = 0x0A"

definition lsp_json_space :: "bytes \<Rightarrow> bytes" where
  "lsp_json_space p = dropWhile is_space p"

definition is_digit :: "u8 \<Rightarrow> bool" where
  "is_digit c \<longleftrightarrow> 0x30 \<le> c \<and> c \<le> 0x39"

definition is_xdigit :: "u8 \<Rightarrow> bool" where
  "is_xdigit c \<longleftrightarrow> is_digit c \<or> 0x41 \<le> c \<and> c \<le> 0x46 \<or> 0x61 \<le> c \<and> c \<le> 0x66"

text \<open>The length of a UTF-8 sequence by its first byte, 0 for a byte that begins none.\<close>

definition utf8_width :: "u8 \<Rightarrow> nat" where
  "utf8_width lead =
     (if 0xC2 \<le> lead \<and> lead \<le> 0xDF then 2 else if 0xE0 \<le> lead \<and> lead \<le> 0xEF then 3
      else if 0xF0 \<le> lead \<and> lead \<le> 0xF4 then 4 else 0)"

definition utf8_second_bad :: "u8 \<Rightarrow> u8 \<Rightarrow> bool" where
  "utf8_second_bad lead second \<longleftrightarrow>
     lead = 0xE0 \<and> second < 0xA0 \<or> lead = 0xED \<and> second \<ge> 0xA0 \<or> lead = 0xF0 \<and> second < 0x90 \<or> lead = 0xF4 \<and> second \<ge> 0x90"

definition is_escape :: "u8 \<Rightarrow> bool" where
  "is_escape c \<longleftrightarrow> c \<in> {0x22, 0x5C, 0x2F, 0x62, 0x66, 0x6E, 0x72, 0x74}"

text \<open>The loop over a string, from behind the opening quote.\<close>

unbundle bit_operations_syntax

function json_string :: "bytes \<Rightarrow> bytes option" where
  "json_string p =
     (if peek p = 0 then None
      else if peek p = 0x22 then Some (tl p)
      else if peek p < 32 then None
      else if peek p \<ge> 0x80 then
        let width = utf8_width (peek p) in
        if width = 0 then None
        else if \<not> list_all (\<lambda>i. i < length p \<and> (p ! i) AND 0xC0 = 0x80) [1..<width] then None
        else if utf8_second_bad (peek p) (p ! 1) then None
        else json_string (drop width p)
      else if peek p = 0x5C then
        let q = tl p in
        if peek q = 0 then None
        else if peek q = 0x75 then
          (if list_all (\<lambda>i. i < length q \<and> is_xdigit (q ! i)) [1..<5] then json_string (drop 5 q) else None)
        else if \<not> is_escape (peek q) then None
        else json_string (tl q)
      else json_string (tl p))"
  by pat_completeness auto
termination
proof (relation "measure length", goal_cases)
  case 1
  show ?case by simp
next
  case (2 p width)
  then show ?case by (cases p) (auto simp: peek_def)
next
  case (3 p q)
  then show ?case by (cases p) (auto simp: peek_def)
next
  case (4 p q)
  then show ?case by (cases p) (auto simp: peek_def)
next
  case (5 p)
  then show ?case by (cases p) (auto simp: peek_def)
qed

declare json_string.simps [simp del]

definition json_digits :: "bytes \<Rightarrow> bytes option" where
  "json_digits p = (if is_digit (peek p) then Some (dropWhile is_digit p) else None)"

definition json_number :: "bytes \<Rightarrow> bytes option" where
  "json_number p =
     (let p = (if peek p = 0x2D then tl p else p) in
      Option.bind (if peek p = 0x30 then Some (tl p) else if \<not> (0x31 \<le> peek p \<and> peek p \<le> 0x39) then None
                   else Some (dropWhile is_digit p)) (\<lambda>p.
      Option.bind (if peek p = 0x2E then json_digits (tl p) else Some p) (\<lambda>p.
      if peek p = 0x65 \<or> peek p = 0x45 then
        let p = tl p in json_digits (if peek p = 0x2B \<or> peek p = 0x2D then tl p else p)
      else Some p)))"

text \<open>The entries of a container; \<open>sub\<close> is \<open>lsp_json_end\<close> one level deeper.\<close>

definition json_entry :: "(bytes \<Rightarrow> bytes option) \<Rightarrow> bool \<Rightarrow> bytes \<Rightarrow> bytes option" where
  "json_entry sub object p =
     Option.bind
       (if object then
          if peek p \<noteq> 0x22 then None
          else Option.bind (sub p) (\<lambda>p. let p = lsp_json_space p in if peek p \<noteq> 0x3A then None else Some (tl p))
        else Some p) sub"

fun json_items :: "(bytes \<Rightarrow> bytes option) \<Rightarrow> bool \<Rightarrow> nat \<Rightarrow> bytes \<Rightarrow> bytes option" where
  "json_items sub object 0 p = None"
| "json_items sub object (Suc rounds) p =
     Option.bind (json_entry sub object p) (\<lambda>p.
       let p = lsp_json_space p in
       if peek p = (if object then 0x7D else 0x5D) then Some (tl p)
       else if peek p \<noteq> 0x2C then None
       else json_items sub object rounds (lsp_json_space (tl p)))"

definition json_container :: "(bytes \<Rightarrow> bytes option) \<Rightarrow> bytes \<Rightarrow> bytes option" where
  "json_container sub p =
     (let object = (peek p = 0x7B); p = lsp_json_space (tl p) in
      if peek p = (if object then 0x7D else 0x5D) then Some (tl p) else json_items sub object (length p) p)"

lemma json_container_cong [fundef_cong]:
  assumes "p = p'" and "\<And>q. sub q = sub' q"
  shows "json_container sub p = json_container sub' p'"
proof -
  have "sub = sub'" by (rule ext) (rule assms(2))
  then show ?thesis using assms(1) by simp
qed

definition starts_with :: "bytes \<Rightarrow> bytes \<Rightarrow> bool" where
  "starts_with p w \<longleftrightarrow> take (length w) p = w"

function lsp_json_end :: "bytes \<Rightarrow> nat \<Rightarrow> bytes option" where
  "lsp_json_end p depth =
     (let p = lsp_json_space p in
      if depth > 128 then None
      else if peek p = 0x22 then json_string (tl p)
      else if peek p = 0x7B \<or> peek p = 0x5B then json_container (\<lambda>q. lsp_json_end q (depth + 1)) p
      else if starts_with p (cstr ''true'') then Some (drop 4 p)
      else if starts_with p (cstr ''false'') then Some (drop 5 p)
      else if starts_with p (cstr ''null'') then Some (drop 4 p)
      else json_number p)"
  by pat_completeness auto
termination
  by (relation "measure (\<lambda>(p, depth). 129 - depth)") auto

declare lsp_json_end.simps [simp del]

definition lsp_json_valid :: "bytes \<Rightarrow> bool" where
  "lsp_json_valid p = (case lsp_json_end p 0 of None \<Rightarrow> False | Some q \<Rightarrow> peek (lsp_json_space q) = 0)"

subsection \<open>The grammar of RFC 8259\<close>

text \<open>Scalar values outside of ASCII and their encoding.\<close>

definition utf8_encode :: "nat \<Rightarrow> bytes" where
  "utf8_encode cp =
     (if cp < 0x800 then [of_nat (0xC0 + cp div 64), of_nat (0x80 + cp mod 64)]
      else if cp < 0x10000 then [of_nat (0xE0 + cp div 4096), of_nat (0x80 + cp div 64 mod 64), of_nat (0x80 + cp mod 64)]
      else [of_nat (0xF0 + cp div 262144), of_nat (0x80 + cp div 4096 mod 64), of_nat (0x80 + cp div 64 mod 64), of_nat (0x80 + cp mod 64)])"

definition scalar :: "nat \<Rightarrow> bool" where
  "scalar cp \<longleftrightarrow> 0x80 \<le> cp \<and> cp < 0xD800 \<or> 0xE000 \<le> cp \<and> cp \<le> 0x10FFFF"

inductive jchar :: "bytes \<Rightarrow> bool" where
  plain: "32 \<le> c \<Longrightarrow> c < 0x80 \<Longrightarrow> c \<noteq> 0x22 \<Longrightarrow> c \<noteq> 0x5C \<Longrightarrow> jchar [c]"
| encoded: "scalar cp \<Longrightarrow> jchar (utf8_encode cp)"
| escape: "is_escape c \<Longrightarrow> jchar [0x5C, c]"
| unicode: "is_xdigit x1 \<Longrightarrow> is_xdigit x2 \<Longrightarrow> is_xdigit x3 \<Longrightarrow> is_xdigit x4 \<Longrightarrow> jchar [0x5C, 0x75, x1, x2, x3, x4]"

definition jstring :: "bytes \<Rightarrow> bool" where
  "jstring s \<longleftrightarrow> (\<exists>cs. list_all jchar cs \<and> s = 0x22 # concat cs @ [0x22])"

definition jdigits :: "bytes \<Rightarrow> bool" where
  "jdigits ds \<longleftrightarrow> ds \<noteq> [] \<and> list_all is_digit ds"

definition jnumber :: "bytes \<Rightarrow> bool" where
  "jnumber s \<longleftrightarrow> (\<exists>sign whole frac expo. s = sign @ whole @ frac @ expo \<and> sign \<in> {[], [0x2D]} \<and>
     (whole = [0x30] \<or> jdigits whole \<and> hd whole \<noteq> 0x30) \<and>
     (frac = [] \<or> (\<exists>ds. jdigits ds \<and> frac = 0x2E # ds)) \<and>
     (expo = [] \<or> (\<exists>e sg ds. e \<in> {0x65, 0x45} \<and> sg \<in> {[], [0x2B], [0x2D]} \<and> jdigits ds \<and> expo = e # sg @ ds)))"

abbreviation spaces :: "bytes \<Rightarrow> bool" where
  "spaces w \<equiv> list_all is_space w"

definition opener :: "bool \<Rightarrow> u8" where
  "opener object = (if object then 0x7B else 0x5B)"

definition closer :: "bool \<Rightarrow> u8" where
  "closer object = (if object then 0x7D else 0x5D)"

text \<open>\<open>jvalue d s\<close>: \<open>s\<close> is a value with containers nested at most \<open>d\<close> deep around other values.\<close>

inductive jvalue :: "nat \<Rightarrow> bytes \<Rightarrow> bool"
  and jentry :: "bool \<Rightarrow> nat \<Rightarrow> bytes \<Rightarrow> bool"
  and jitems :: "bool \<Rightarrow> nat \<Rightarrow> bytes \<Rightarrow> bool"
where
  literal: "s \<in> {cstr ''true'', cstr ''false'', cstr ''null''} \<Longrightarrow> jvalue d s"
| number: "jnumber s \<Longrightarrow> jvalue d s"
| str: "jstring s \<Longrightarrow> jvalue d s"
| empty: "spaces w \<Longrightarrow> jvalue d (opener object # w @ [closer object])"
| full: "spaces w \<Longrightarrow> jitems object d s \<Longrightarrow> jvalue (Suc d) (opener object # w @ s @ [closer object])"
| element: "jvalue d v \<Longrightarrow> spaces w \<Longrightarrow> jentry False d (v @ w)"
| member: "jstring k \<Longrightarrow> spaces w1 \<Longrightarrow> spaces w2 \<Longrightarrow> jvalue d v \<Longrightarrow> spaces w3 \<Longrightarrow>
    jentry True d (k @ w1 @ 0x3A # w2 @ v @ w3)"
| last: "jentry object d s \<Longrightarrow> jitems object d s"
| more: "jentry object d s \<Longrightarrow> spaces w \<Longrightarrow> jitems object d t \<Longrightarrow> jitems object d (s @ 0x2C # w @ t)"

subsection \<open>Characters\<close>

lemma continuation: "(c :: u8) AND 0xC0 = 0x80 \<longleftrightarrow> 0x80 \<le> unat c \<and> unat c < 0xC0"
proof -
  have "list_all (\<lambda>n. ((of_nat n :: u8) AND 0xC0 = 0x80) = (0x80 \<le> n \<and> n < 0xC0)) [0..<256]" by code_simp
  moreover have "unat c < 256" using unsigned_less [of c, where 'a = nat] by simp
  ultimately have "((of_nat (unat c) :: u8) AND 0xC0 = 0x80) = (0x80 \<le> unat c \<and> unat c < 0xC0)" by (simp only: list_all_iff) (rule bspec, assumption, simp)
  then show ?thesis by simp
qed

lemma byte_of_nat: "n < 256 \<Longrightarrow> unat (of_nat n :: u8) = n"
  by (simp add: unat_of_nat)

lemma byte_bounds: "unat (b :: u8) < 256"
  using unsigned_less [of b, where 'a = nat] by simp

text \<open>The test of the code accepts exactly the encodings of scalar values.\<close>

definition utf8_accepts :: "bytes \<Rightarrow> bool" where
  "utf8_accepts p \<longleftrightarrow> peek p \<ge> 0x80 \<and> utf8_width (peek p) \<noteq> 0 \<and>
     list_all (\<lambda>i. i < length p \<and> (p ! i) AND 0xC0 = 0x80) [1..<utf8_width (peek p)] \<and> \<not> utf8_second_bad (peek p) (p ! 1)"

definition cont :: "u8 \<Rightarrow> bool" where
  "cont b \<longleftrightarrow> 0x80 \<le> unat b \<and> unat b < 0xC0"

lemma utf8_accepts_bytes:
  "utf8_accepts (b # q) \<longleftrightarrow>
     0xC2 \<le> unat b \<and> unat b \<le> 0xDF \<and> (\<exists>c r. q = c # r \<and> cont c) \<or>
     0xE0 \<le> unat b \<and> unat b \<le> 0xEF \<and> (\<exists>c d r. q = c # d # r \<and> cont c \<and> cont d \<and>
        (unat b = 0xE0 \<longrightarrow> 0xA0 \<le> unat c) \<and> (unat b = 0xED \<longrightarrow> unat c < 0xA0)) \<or>
     0xF0 \<le> unat b \<and> unat b \<le> 0xF4 \<and> (\<exists>c d e r. q = c # d # e # r \<and> cont c \<and> cont d \<and> cont e \<and>
        (unat b = 0xF0 \<longrightarrow> 0x90 \<le> unat c) \<and> (unat b = 0xF4 \<longrightarrow> unat c < 0x90))"
proof -
  have w: "utf8_width b = (if 0xC2 \<le> unat b \<and> unat b \<le> 0xDF then 2 else if 0xE0 \<le> unat b \<and> unat b \<le> 0xEF then 3
      else if 0xF0 \<le> unat b \<and> unat b \<le> 0xF4 then 4 else 0)" by (simp add: utf8_width_def word_le_nat_alt)
  have bad: "utf8_second_bad b c \<longleftrightarrow> unat b = 0xE0 \<and> unat c < 0xA0 \<or> unat b = 0xED \<and> unat c \<ge> 0xA0 \<or>
      unat b = 0xF0 \<and> unat c < 0x90 \<or> unat b = 0xF4 \<and> unat c \<ge> 0x90" for c
    by (simp add: utf8_second_bad_def word_le_nat_alt word_less_nat_alt word_unat_eq_iff)
  have high: "0x80 \<le> b \<longleftrightarrow> 0x80 \<le> unat b" by (simp add: word_le_nat_alt)
  consider "0xC2 \<le> unat b" "unat b \<le> 0xDF" | "0xE0 \<le> unat b" "unat b \<le> 0xEF" | "0xF0 \<le> unat b" "unat b \<le> 0xF4"
    | "unat b < 0xC2 \<or> 0xDF < unat b \<and> unat b < 0xE0 \<or> 0xEF < unat b \<and> unat b < 0xF0 \<or> 0xF4 < unat b" by linarith
  then show ?thesis
  proof cases
    case 1
    then show ?thesis by (cases q) (auto simp: utf8_accepts_def peek_def w bad high continuation cont_def upt_rec)
  next
    case 2
    then show ?thesis by (cases q rule: list.exhaust; cases "tl q")
      (auto simp: utf8_accepts_def peek_def w bad high continuation cont_def upt_rec)
  next
    case 3
    then show ?thesis by (cases q rule: list.exhaust; cases "tl q"; cases "tl (tl q)")
      (auto simp: utf8_accepts_def peek_def w bad high continuation cont_def upt_rec)
  next
    case 4
    then show ?thesis by (auto simp: utf8_accepts_def peek_def w)
  qed
qed

lemma sextets:
  "cp = 64 * (cp div 64) + cp mod 64" "cp div 64 = 64 * (cp div 4096) + cp div 64 mod 64"
  "cp div 4096 = 64 * (cp div 262144) + cp div 4096 mod 64" "cp mod 64 < 64" "cp div 64 mod 64 < 64" "cp div 4096 mod 64 < (64 :: nat)"
  using div_mult2_eq [of cp 64 64] div_mult2_eq [of cp 4096 64] by simp_all

lemma width_bytes: "utf8_width b = (if 0xC2 \<le> unat b \<and> unat b \<le> 0xDF then 2 else if 0xE0 \<le> unat b \<and> unat b \<le> 0xEF then 3
    else if 0xF0 \<le> unat b \<and> unat b \<le> 0xF4 then 4 else 0)"
  by (simp add: utf8_width_def word_le_nat_alt)

lemma utf8_accepts_encode:
  assumes "scalar cp"
  shows "utf8_accepts (utf8_encode cp @ r) \<and> utf8_width (peek (utf8_encode cp @ r)) = length (utf8_encode cp)"
proof -
  note sx = sextets [of cp]
  consider (two) "0x80 \<le> cp" "cp < 0x800" | (three) "0x800 \<le> cp" "cp < 0x10000" "cp < 0xD800 \<or> 0xE000 \<le> cp"
    | (four) "0x10000 \<le> cp" "cp \<le> 0x10FFFF"
    using assms unfolding scalar_def by linarith
  then show ?thesis
  proof cases
    case two
    define b c :: u8 where bytes: "b = of_nat (0xC0 + cp div 64)" "c = of_nat (0x80 + cp mod 64)"
    have "unat b = 0xC0 + cp div 64" unfolding bytes by (rule byte_of_nat) (use two in linarith)
    moreover have "unat c = 0x80 + cp mod 64" unfolding bytes by (rule byte_of_nat) (use sx in linarith)
    moreover have "utf8_encode cp = [b, c]" using two by (simp only: utf8_encode_def bytes if_True)
    moreover have "2 \<le> cp div 64" "cp div 64 < 32" using two by linarith+
    ultimately show ?thesis using sx by (simp add: utf8_accepts_bytes cont_def peek_def width_bytes)
  next
    case three
    define b c d :: u8 where bytes: "b = of_nat (0xE0 + cp div 4096)" "c = of_nat (0x80 + cp div 64 mod 64)" "d = of_nat (0x80 + cp mod 64)"
    have u: "unat b = 0xE0 + cp div 4096" unfolding bytes by (rule byte_of_nat) (use three in linarith)
    moreover have v: "unat c = 0x80 + cp div 64 mod 64" unfolding bytes by (rule byte_of_nat) (use sx in linarith)
    moreover have "unat d = 0x80 + cp mod 64" unfolding bytes by (rule byte_of_nat) (use sx in linarith)
    moreover have "utf8_encode cp = [b, c, d]" using three by (simp only: utf8_encode_def bytes if_True if_False not_less [symmetric])
    moreover have "cp div 4096 < 16" using three by linarith
    moreover have "unat b = 0xE0 \<Longrightarrow> 0xA0 \<le> unat c" "unat b = 0xED \<Longrightarrow> unat c < 0xA0" using u v sx three by linarith+
    ultimately show ?thesis using sx(4-6) by (auto simp: utf8_accepts_bytes cont_def peek_def width_bytes)
  next
    case four
    define b c d e :: u8 where bytes: "b = of_nat (0xF0 + cp div 262144)" "c = of_nat (0x80 + cp div 4096 mod 64)"
      "d = of_nat (0x80 + cp div 64 mod 64)" "e = of_nat (0x80 + cp mod 64)"
    have u: "unat b = 0xF0 + cp div 262144" unfolding bytes by (rule byte_of_nat) (use four in linarith)
    moreover have v: "unat c = 0x80 + cp div 4096 mod 64" unfolding bytes by (rule byte_of_nat) (use sx in linarith)
    moreover have "unat d = 0x80 + cp div 64 mod 64" unfolding bytes by (rule byte_of_nat) (use sx in linarith)
    moreover have "unat e = 0x80 + cp mod 64" unfolding bytes by (rule byte_of_nat) (use sx in linarith)
    moreover have "utf8_encode cp = [b, c, d, e]" using four by (simp del: of_nat_add add: utf8_encode_def bytes)
    moreover have "cp div 262144 < 5" using four by linarith
    moreover have "unat b = 0xF0 \<Longrightarrow> 0x90 \<le> unat c" "unat b = 0xF4 \<Longrightarrow> unat c < 0x90" using u v sx four by linarith+
    ultimately show ?thesis using sx(4-6) by (auto simp: utf8_accepts_bytes cont_def peek_def width_bytes)
  qed
qed

lemma cont_offset: "cont b \<Longrightarrow> \<exists>y < 64. unat b = 0x80 + y"
  using le_Suc_ex [of "0x80" "unat b"] by (auto simp: cont_def)

lemma sextet_split: "z < 64 \<Longrightarrow> (q * 64 + z) div 64 = q" "z < 64 \<Longrightarrow> (q * 64 + z) mod 64 = (z :: nat)"
  by simp_all

lemma utf8_encode_sextets:
  assumes "y < 64" "z < 64" "u < 64"
  shows "2 \<le> x \<Longrightarrow> x < 32 \<Longrightarrow> utf8_encode (x * 64 + z) = [of_nat (0xC0 + x), of_nat (0x80 + z)]"
    "x < 16 \<Longrightarrow> 0x800 \<le> x * 4096 + y * 64 + z \<Longrightarrow>
      utf8_encode (x * 4096 + y * 64 + z) = [of_nat (0xE0 + x), of_nat (0x80 + y), of_nat (0x80 + z)]"
    "0x10000 \<le> x * 262144 + u * 4096 + y * 64 + z \<Longrightarrow>
      utf8_encode (x * 262144 + u * 4096 + y * 64 + z) = [of_nat (0xF0 + x), of_nat (0x80 + u), of_nat (0x80 + y), of_nat (0x80 + z)]"
proof -
  have "(x * 64 + z) div 64 = x" "(x * 64 + z) mod 64 = z" using assms by simp_all
  moreover assume "2 \<le> x" "x < 32"
  moreover from this have "x * 64 + z < 0x800" using assms by linarith
  ultimately show "utf8_encode (x * 64 + z) = [of_nat (0xC0 + x), of_nat (0x80 + z)]" by (simp only: utf8_encode_def if_True)
next
  let ?cp = "x * 4096 + y * 64 + z"
  have eq: "?cp = (x * 64 + y) * 64 + z" by simp
  have "?cp div 64 = x * 64 + y" "?cp mod 64 = z" unfolding eq by (rule sextet_split, rule assms)+
  moreover from this have "?cp div 4096 = x" "?cp div 64 mod 64 = y" using div_mult2_eq [of ?cp 64 64] sextet_split assms by simp_all
  moreover assume "x < 16" "0x800 \<le> ?cp"
  moreover from this have "?cp < 0x10000" "\<not> ?cp < 0x800" using assms by linarith+
  ultimately show "utf8_encode ?cp = [of_nat (0xE0 + x), of_nat (0x80 + y), of_nat (0x80 + z)]"
    by (simp only: utf8_encode_def if_True if_False)
next
  let ?cp = "x * 262144 + u * 4096 + y * 64 + z"
  have eq: "?cp = ((x * 64 + u) * 64 + y) * 64 + z" by simp
  have d1: "?cp div 64 = (x * 64 + u) * 64 + y" "?cp mod 64 = z" unfolding eq by (rule sextet_split, rule assms)+
  have "?cp div 4096 = ?cp div 64 div 64" using div_mult2_eq [of ?cp 64 64] by simp
  then have d2: "?cp div 4096 = x * 64 + u" "?cp div 64 mod 64 = y" by (simp_all only: d1(1) sextet_split [OF assms(1)])
  have "?cp div 262144 = ?cp div 4096 div 64" using div_mult2_eq [of ?cp 4096 64] by simp
  then have "?cp div 262144 = x" "?cp div 4096 mod 64 = u" by (simp_all only: d2(1) sextet_split [OF assms(3)])
  moreover note d1(2) d2(2)
  moreover assume "0x10000 \<le> ?cp"
  moreover from this have "\<not> ?cp < 0x10000" "\<not> ?cp < 0x800" by linarith+
  ultimately show "utf8_encode ?cp = [of_nat (0xF0 + x), of_nat (0x80 + u), of_nat (0x80 + y), of_nat (0x80 + z)]"
    by (simp only: utf8_encode_def if_False)
qed

lemma utf8_accepts_scalar:
  assumes "utf8_accepts p"
  shows "\<exists>cp r. scalar cp \<and> p = utf8_encode cp @ r \<and> utf8_width (peek p) = length (utf8_encode cp)"
proof -
  obtain b q where p: "p = b # q" using assms by (cases p) (auto simp: utf8_accepts_def peek_def word_le_nat_alt)
  have byte: "of_nat (unat v) = v" for v :: u8 by simp
  from assms [unfolded p utf8_accepts_bytes]
  consider (two) c r where "0xC2 \<le> unat b" "unat b \<le> 0xDF" "q = c # r" "cont c"
    | (three) c d r where "0xE0 \<le> unat b" "unat b \<le> 0xEF" "q = c # d # r" "cont c" "cont d" "unat b = 0xE0 \<longrightarrow> 0xA0 \<le> unat c" "unat b = 0xED \<longrightarrow> unat c < 0xA0"
    | (four) c d e r where "0xF0 \<le> unat b" "unat b \<le> 0xF4" "q = c # d # e # r" "cont c" "cont d" "cont e"
        "unat b = 0xF0 \<longrightarrow> 0x90 \<le> unat c" "unat b = 0xF4 \<longrightarrow> unat c < 0x90" by blast
  then show ?thesis
  proof cases
    case two
    obtain x where x: "unat b = 0xC0 + x" using le_Suc_ex [of "0xC0" "unat b"] two(1) by auto
    obtain z where z: "unat c = 0x80 + z" "z < 64" using cont_offset [OF two(4)] by blast
    have "utf8_encode (x * 64 + z) = [of_nat (unat b), of_nat (unat c)]"
      unfolding x z(1) using two x by (intro utf8_encode_sextets [of 0 z 0] z) simp_all
    moreover have "scalar (x * 64 + z)" using two x z by (simp add: scalar_def)
    ultimately show ?thesis using two p by (auto simp: width_bytes peek_def byte intro!: exI [of _ "x * 64 + z"])
  next
    case three
    obtain x where x: "unat b = 0xE0 + x" using le_Suc_ex [of "0xE0" "unat b"] three(1) by auto
    obtain y where y: "unat c = 0x80 + y" "y < 64" using cont_offset [OF three(4)] by blast
    obtain z where z: "unat d = 0x80 + z" "z < 64" using cont_offset [OF three(5)] by blast
    let ?cp = "x * 4096 + y * 64 + z"
    have xb: "x < 16" "x = 0 \<longrightarrow> 32 \<le> y" "x = 13 \<longrightarrow> y < 32" using three x y by auto
    have big: "0x800 \<le> ?cp" using xb by (cases "x = 0") auto
    have "utf8_encode ?cp = [of_nat (unat b), of_nat (unat c), of_nat (unat d)]"
      unfolding x y(1) z(1) by (rule utf8_encode_sextets [of y z 0]) (use y z xb big in simp_all)
    moreover have "scalar ?cp"
    proof -
      consider "x < 13" | "x = 13" | "14 \<le> x" by linarith
      then show ?thesis using xb y(2) z(2) big unfolding scalar_def by cases linarith+
    qed
    ultimately show ?thesis using three p by (auto simp: width_bytes peek_def byte intro!: exI [of _ ?cp])
  next
    case four
    obtain x where x: "unat b = 0xF0 + x" using le_Suc_ex [of "0xF0" "unat b"] four(1) by auto
    obtain u where u: "unat c = 0x80 + u" "u < 64" using cont_offset [OF four(4)] by blast
    obtain y where y: "unat d = 0x80 + y" "y < 64" using cont_offset [OF four(5)] by blast
    obtain z where z: "unat e = 0x80 + z" "z < 64" using cont_offset [OF four(6)] by blast
    let ?cp = "x * 262144 + u * 4096 + y * 64 + z"
    have xb: "x < 5" "x = 0 \<longrightarrow> 16 \<le> u" "x = 4 \<longrightarrow> u < 16" using four x u by auto
    have big: "0x10000 \<le> ?cp" using xb by (cases "x = 0") auto
    have "utf8_encode ?cp = [of_nat (unat b), of_nat (unat c), of_nat (unat d), of_nat (unat e)]"
      unfolding x u(1) y(1) z(1) by (rule utf8_encode_sextets [of y z u]) (use u y z big in simp_all)
    moreover have "scalar ?cp"
      using xb u(2) y(2) z(2) big unfolding scalar_def by (cases "x = 4") (simp, linarith+)
    ultimately show ?thesis using four p by (auto simp: width_bytes peek_def byte intro!: exI [of _ ?cp])
  qed
qed

subsection \<open>Strings\<close>

lemma string_step_utf8:
  assumes "utf8_accepts p"
  shows "json_string p = json_string (drop (utf8_width (peek p)) p)"
proof -
  have "0x80 \<le> peek p" using assms by (simp add: utf8_accepts_def)
  then have "peek p \<noteq> 0" "peek p \<noteq> 0x22" "\<not> peek p < 32" by (auto simp: word_le_nat_alt word_less_nat_alt)
  then show ?thesis using assms by (simp add: json_string.simps [of p] utf8_accepts_def Let_def)
qed

lemma xdigit_bounds: "is_escape c \<Longrightarrow> c \<noteq> 0 \<and> c \<noteq> 0x75"
  by (auto simp: is_escape_def)

lemma json_string_char:
  assumes "jchar c"
  shows "json_string (c @ r) = json_string r"
  using assms
proof cases
  case (plain b)
  then have "b \<noteq> 0" "\<not> 0x80 \<le> b" "\<not> b < 32" by (auto simp: word_less_nat_alt word_le_nat_alt)
  then show ?thesis using plain by (simp add: json_string.simps [of "b # r"] peek_def)
next
  case (encoded cp)
  then show ?thesis using string_step_utf8 utf8_accepts_encode [OF encoded(2), of r] by simp
next
  case (escape b)
  then show ?thesis using xdigit_bounds [OF escape(2)]
    by (simp add: json_string.simps [of "0x5C # b # r"] peek_def Let_def)
next
  case (unicode x1 x2 x3 x4)
  then show ?thesis
    by (simp add: json_string.simps [of "0x5C # 0x75 # x1 # x2 # x3 # x4 # r"] peek_def Let_def upt_rec)
qed

lemma json_string_complete: "list_all jchar cs \<Longrightarrow> json_string (concat cs @ 0x22 # r) = Some r"
  by (induction cs) (simp_all add: json_string_char json_string.simps [of "0x22 # r"] peek_def)

lemma five_elements: "4 < length l \<Longrightarrow> \<exists>a b c d e q. l = a # b # c # d # e # q"
  by (cases l; cases "tl l"; cases "tl (tl l)"; cases "tl (tl (tl l))"; cases "tl (tl (tl (tl l)))") auto

lemma json_string_sound: "json_string p = Some r \<Longrightarrow> \<exists>cs. list_all jchar cs \<and> p = concat cs @ 0x22 # r"
proof (induction p rule: json_string.induct)
  case (1 p)
  have step: "\<exists>cs. list_all jchar cs \<and> p = concat cs @ 0x22 # r" if "jchar c" "p = c @ q" "\<exists>cs. list_all jchar cs \<and> q = concat cs @ 0x22 # r" for c q
    using that by (metis append.assoc concat.simps(2) list.pred_inject(2))
  have cons: "p = peek p # tl p" if "peek p \<noteq> 0" using that by (cases p) (simp_all add: peek_def)
  consider (quote) "peek p = 0x22" | (multi) "peek p \<ge> 0x80" "utf8_accepts p" "json_string (drop (utf8_width (peek p)) p) = Some r"
    | (uni) "peek p = 0x5C" "peek (tl p) = 0x75" "list_all (\<lambda>i. i < length (tl p) \<and> is_xdigit (tl p ! i)) [1..<5]" "json_string (drop 5 (tl p)) = Some r"
    | (esc) "peek p = 0x5C" "peek (tl p) \<noteq> 0" "peek (tl p) \<noteq> 0x75" "is_escape (peek (tl p))" "json_string (tl (tl p)) = Some r"
    | (plain) "peek p \<noteq> 0" "peek p \<noteq> 0x22" "\<not> peek p < 32" "\<not> peek p \<ge> 0x80" "peek p \<noteq> 0x5C" "json_string (tl p) = Some r"
    using 1(5) unfolding json_string.simps [of p] Let_def utf8_accepts_def by (auto split: if_splits)
  then show ?case
  proof cases
    case quote
    then show ?thesis using 1(5) cons by (auto simp: json_string.simps [of p] intro!: exI [of _ "[]"])
  next
    case multi
    obtain cp q where cp: "scalar cp" "p = utf8_encode cp @ q" "utf8_width (peek p) = length (utf8_encode cp)"
      using utf8_accepts_scalar [OF multi(2)] by blast
    have nz: "peek p \<noteq> 0" "peek p \<noteq> 0x22" "\<not> peek p < 32" using multi(1) by (auto simp: word_le_nat_alt word_less_nat_alt)
    have "\<exists>cs. list_all jchar cs \<and> drop (utf8_width (peek p)) p = concat cs @ 0x22 # r"
      by (rule 1(1) [OF nz multi(1) refl]) (use multi in \<open>auto simp: utf8_accepts_def\<close>)
    then show ?thesis using step [OF jchar.encoded [OF cp(1)] cp(2)] cp(2,3) by simp
  next
    case uni
    have nz: "peek p \<noteq> 0" "peek p \<noteq> 0x22" "\<not> peek p < 32" "\<not> peek p \<ge> 0x80" using uni(1) by simp_all
    obtain x1 x2 x3 x4 q where q: "tl p = 0x75 # x1 # x2 # x3 # x4 # q" "is_xdigit x1" "is_xdigit x2" "is_xdigit x3" "is_xdigit x4"
    proof -
      have "4 < length (tl p)" using uni(3) by (simp add: upt_rec)
      then obtain a x1 x2 x3 x4 q where "tl p = a # x1 # x2 # x3 # x4 # q" using five_elements by blast
      then show thesis using that [of x1 x2 x3 x4 q] uni(2,3) by (simp add: upt_rec peek_def)
    qed
    have "\<exists>cs. list_all jchar cs \<and> drop 5 (tl p) = concat cs @ 0x22 # r"
      by (rule 1(2) [OF nz uni(1) refl]) (use uni in auto)
    then show ?thesis using step [OF jchar.unicode [OF q(2-5)], of q] cons [OF nz(1)] uni(1) q(1) by simp
  next
    case esc
    have nz: "peek p \<noteq> 0" "peek p \<noteq> 0x22" "\<not> peek p < 32" "\<not> peek p \<ge> 0x80" using esc(1) by simp_all
    have "\<exists>cs. list_all jchar cs \<and> tl (tl p) = concat cs @ 0x22 # r"
      by (rule 1(3) [OF nz esc(1) refl]) (use esc in auto)
    moreover have "tl p = peek (tl p) # tl (tl p)" using esc(2) by (cases "tl p") (simp_all add: peek_def)
    ultimately show ?thesis using step [OF jchar.escape [OF esc(4)], of "tl (tl p)"] cons [OF nz(1)] esc(1) by simp
  next
    case plain
    have "\<exists>cs. list_all jchar cs \<and> tl p = concat cs @ 0x22 # r"
      by (rule 1(4) [OF plain])
    then show ?thesis using step [OF jchar.plain, of "peek p" "tl p"] cons plain by simp
  qed
qed

subsection \<open>Numbers\<close>

text \<open>What may follow a value so that a number does not go on.\<close>

definition follow :: "bytes \<Rightarrow> bool" where
  "follow r \<longleftrightarrow> \<not> is_digit (peek r) \<and> peek r \<noteq> 0x2E \<and> peek r \<noteq> 0x65 \<and> peek r \<noteq> 0x45"

lemma digits_end: "list_all is_digit ds \<Longrightarrow> \<not> is_digit (peek r) \<Longrightarrow> dropWhile is_digit (ds @ r) = r"
  by (induction ds) (auto simp: peek_def dropWhile_eq_self_iff split: list.splits)

lemma digits_split: "\<exists>ds. list_all is_digit ds \<and> p = ds @ dropWhile is_digit p \<and> (is_digit (peek p) \<longrightarrow> jdigits ds \<and> hd ds = peek p)"
proof (intro exI conjI impI)
  show "list_all is_digit (takeWhile is_digit p)" by (induction p) simp_all
  show "p = takeWhile is_digit p @ dropWhile is_digit p" by simp
  assume d: "is_digit (peek p)"
  then show "jdigits (takeWhile is_digit p)"
    by (cases p) (auto simp: peek_def jdigits_def is_digit_def list_all_iff word_le_nat_alt dest: set_takeWhileD)
  show "hd (takeWhile is_digit p) = peek p" using d by (cases p) (simp_all add: peek_def is_digit_def word_le_nat_alt)
qed

lemma peek_digits: "jdigits ds \<Longrightarrow> peek (ds @ r) = hd ds \<and> is_digit (hd ds)"
  by (cases ds) (simp_all add: jdigits_def peek_def)

lemma json_digits_sound: "json_digits p = Some r \<Longrightarrow> \<exists>ds. jdigits ds \<and> p = ds @ r"
  using digits_split [of p] by (auto simp: json_digits_def split: if_splits)

lemma json_digits_complete: "jdigits ds \<Longrightarrow> \<not> is_digit (peek r) \<Longrightarrow> json_digits (ds @ r) = Some r"
  using peek_digits [of ds r] digits_end [of ds r] by (simp add: json_digits_def jdigits_def)

lemma peek_cons: "peek p \<noteq> 0 \<Longrightarrow> p = peek p # tl p"
  by (cases p) (simp_all add: peek_def)

lemma nonzero_digit: "is_digit c \<Longrightarrow> c \<noteq> 0"
  by (auto simp: is_digit_def word_le_nat_alt)

lemma whole_sound:
  assumes "(if peek p = 0x30 then Some (tl p) else if \<not> (0x31 \<le> peek p \<and> peek p \<le> 0x39) then None else Some (dropWhile is_digit p)) = Some q"
  shows "\<exists>w. (w = [0x30] \<or> jdigits w \<and> hd w \<noteq> 0x30) \<and> p = w @ q"
proof (cases "peek p = 0x30")
  case True
  then show ?thesis using assms peek_cons [of p] by auto
next
  case False
  then have "is_digit (peek p)" "q = dropWhile is_digit p"
    using assms by (auto simp: is_digit_def word_le_nat_alt split: if_splits)
  then show ?thesis using digits_split [of p] False by metis
qed

lemma frac_sound:
  assumes "(if peek p = 0x2E then json_digits (tl p) else Some p) = Some q"
  shows "\<exists>f. (f = [] \<or> (\<exists>ds. jdigits ds \<and> f = 0x2E # ds)) \<and> p = f @ q"
proof (cases "peek p = 0x2E")
  case True
  then obtain ds where "jdigits ds" "tl p = ds @ q" using assms json_digits_sound by auto
  moreover have "p = 0x2E # tl p" using True peek_cons [of p] by simp
  ultimately show ?thesis by (metis append_Cons)
qed (use assms in auto)

lemma expo_sound:
  assumes "(if peek p = 0x65 \<or> peek p = 0x45 then
        let p = tl p in json_digits (if peek p = 0x2B \<or> peek p = 0x2D then tl p else p)
      else Some p) = Some q"
  shows "\<exists>x. (x = [] \<or> (\<exists>e sg ds. e \<in> {0x65, 0x45} \<and> sg \<in> {[], [0x2B], [0x2D]} \<and> jdigits ds \<and> x = e # sg @ ds)) \<and> p = x @ q"
proof (cases "peek p = 0x65 \<or> peek p = 0x45")
  case True
  let ?s = "tl p"
  obtain ds where ds: "jdigits ds" "(if peek ?s = 0x2B \<or> peek ?s = 0x2D then tl ?s else ?s) = ds @ q"
    using assms True json_digits_sound by (auto simp: Let_def)
  have "p = peek p # ?s" using True by (intro peek_cons) auto
  moreover have "\<exists>sg \<in> {[], [0x2B], [0x2D]}. ?s = sg @ ds @ q"
    using ds(2) peek_cons [of ?s] by (auto split: if_splits)
  ultimately show ?thesis using True ds(1) by (metis append_Cons append_assoc insertCI)
qed (use assms in auto)

lemma json_number_sound: "json_number p = Some r \<Longrightarrow> \<exists>s. jnumber s \<and> p = s @ r"
proof -
  assume "json_number p = Some r"
  then obtain q1 q2 where q: "(let p = if peek p = 0x2D then tl p else p in if peek p = 0x30 then Some (tl p)
        else if \<not> (0x31 \<le> peek p \<and> peek p \<le> 0x39) then None else Some (dropWhile is_digit p)) = Some q1"
      "(if peek q1 = 0x2E then json_digits (tl q1) else Some q1) = Some q2"
      "(if peek q2 = 0x65 \<or> peek q2 = 0x45 then
        let p = tl q2 in json_digits (if peek p = 0x2B \<or> peek p = 0x2D then tl p else p) else Some q2) = Some r"
    unfolding json_number_def Let_def bind_eq_Some_conv by blast
  let ?q = "if peek p = 0x2D then tl p else p"
  obtain w where w: "w = [0x30] \<or> jdigits w \<and> hd w \<noteq> 0x30" "?q = w @ q1" using whole_sound [of ?q q1] q(1) by (auto simp: Let_def)
  obtain f where f: "f = [] \<or> (\<exists>ds. jdigits ds \<and> f = 0x2E # ds)" "q1 = f @ q2" using frac_sound [OF q(2)] by blast
  obtain x where x: "x = [] \<or> (\<exists>e sg ds. e \<in> {0x65, 0x45} \<and> sg \<in> {[], [0x2B], [0x2D]} \<and> jdigits ds \<and> x = e # sg @ ds)" "q2 = x @ r"
    using expo_sound [OF q(3)] by blast
  obtain sg where sg: "sg \<in> {[], [0x2D]}" "p = sg @ w @ f @ x @ r"
    using w(2) f(2) x(2) peek_cons [of p] by (cases "peek p = 0x2D") auto
  have "jnumber (sg @ w @ f @ x)" unfolding jnumber_def using sg(1) w(1) f(1) x(1) by blast
  then show ?thesis using sg(2) by (intro exI [of _ "sg @ w @ f @ x"]) simp
qed

lemma expo_complete:
  assumes "x = [] \<or> (\<exists>e sg ds. e \<in> {0x65, 0x45} \<and> sg \<in> {[], [0x2B], [0x2D]} \<and> jdigits ds \<and> x = e # sg @ ds)" and "follow r"
  shows "(if peek (x @ r) = 0x65 \<or> peek (x @ r) = 0x45 then
        let p = tl (x @ r) in json_digits (if peek p = 0x2B \<or> peek p = 0x2D then tl p else p) else Some (x @ r)) = Some r"
    and "\<not> is_digit (peek (x @ r))" and "peek (x @ r) \<noteq> 0x2E"
proof -
  have "\<not> is_digit 0x65" "\<not> is_digit 0x45" "\<not> is_digit 0x2B" "\<not> is_digit 0x2D" by (simp_all add: is_digit_def)
  note nd = this
  show "\<not> is_digit (peek (x @ r))" "peek (x @ r) \<noteq> 0x2E" using assms nd by (auto simp: follow_def peek_def)
  show "(if peek (x @ r) = 0x65 \<or> peek (x @ r) = 0x45 then
        let p = tl (x @ r) in json_digits (if peek p = 0x2B \<or> peek p = 0x2D then tl p else p) else Some (x @ r)) = Some r"
  proof (cases "x = []")
    case True
    then show ?thesis using assms(2) by (simp add: follow_def)
  next
    case False
    then obtain e sg ds where x: "e \<in> {0x65, 0x45}" "sg \<in> {[], [0x2B], [0x2D]}" "jdigits ds" "x = e # sg @ ds" using assms(1) by blast
    have "json_digits (ds @ r) = Some r" using json_digits_complete [OF x(3)] assms(2) by (simp add: follow_def)
    moreover have "peek (ds @ r) \<noteq> 0x2B" "peek (ds @ r) \<noteq> 0x2D" using peek_digits [OF x(3), of r] nd by auto
    moreover have "peek (e # t) = e" for e t by (simp add: peek_def)
    ultimately show ?thesis using x by (auto simp: Let_def)
  qed
qed

lemma frac_complete:
  assumes "f = [] \<or> (\<exists>ds. jdigits ds \<and> f = 0x2E # ds)" and "\<not> is_digit (peek q)" and "peek q \<noteq> 0x2E"
  shows "(if peek (f @ q) = 0x2E then json_digits (tl (f @ q)) else Some (f @ q)) = Some q" and "\<not> is_digit (peek (f @ q))"
  using assms json_digits_complete by (auto simp: peek_def is_digit_def)

lemma whole_complete:
  assumes "w = [0x30] \<or> jdigits w \<and> hd w \<noteq> 0x30" and "\<not> is_digit (peek q)"
  shows "(if peek (w @ q) = 0x30 then Some (tl (w @ q)) else if \<not> (0x31 \<le> peek (w @ q) \<and> peek (w @ q) \<le> 0x39) then None
      else Some (dropWhile is_digit (w @ q))) = Some q" and "peek (w @ q) \<noteq> 0x2D" and "is_digit (peek (w @ q))"
proof -
  show d: "is_digit (peek (w @ q))" using assms(1) peek_digits [of w q] by (auto simp: peek_def is_digit_def)
  then show "peek (w @ q) \<noteq> 0x2D" by (auto simp: is_digit_def)
  have "0x31 \<le> c" if "is_digit c" "c \<noteq> 0x30" for c
  proof -
    have "unat c \<noteq> 0x30" using that(2) by (auto simp: word_unat_eq_iff)
    then show ?thesis using that(1) by (simp add: is_digit_def word_le_nat_alt)
  qed
  moreover have "dropWhile is_digit (w @ q) = q" if "jdigits w" using digits_end [of w q] that assms(2) by (simp add: jdigits_def)
  ultimately show "(if peek (w @ q) = 0x30 then Some (tl (w @ q)) else if \<not> (0x31 \<le> peek (w @ q) \<and> peek (w @ q) \<le> 0x39) then None
      else Some (dropWhile is_digit (w @ q))) = Some q"
    using assms(1) d peek_digits [of w q] by (auto simp: peek_def is_digit_def)
qed

lemma json_number_complete:
  assumes "jnumber s" and "follow r"
  shows "json_number (s @ r) = Some r" and "is_digit (peek (s @ r)) \<or> peek (s @ r) = 0x2D"
proof -
  obtain sg w f x where s: "s = sg @ w @ f @ x" "sg \<in> {[], [0x2D]}" "w = [0x30] \<or> jdigits w \<and> hd w \<noteq> 0x30"
    "f = [] \<or> (\<exists>ds. jdigits ds \<and> f = 0x2E # ds)"
    "x = [] \<or> (\<exists>e sg ds. e \<in> {0x65, 0x45} \<and> sg \<in> {[], [0x2B], [0x2D]} \<and> jdigits ds \<and> x = e # sg @ ds)"
    using assms(1) unfolding jnumber_def by blast
  note x = expo_complete [OF s(5) assms(2)]
  note f = frac_complete [OF s(4) x(2,3)]
  note w = whole_complete [OF s(3) f(2)]
  have sign: "(if peek (s @ r) = 0x2D then tl (s @ r) else s @ r) = w @ f @ x @ r"
    using s(1,2) w(2) by (auto simp: peek_def)
  show "json_number (s @ r) = Some r"
    unfolding json_number_def sign using w(1) f(1) x(1) by (simp add: Let_def)
  show "is_digit (peek (s @ r)) \<or> peek (s @ r) = 0x2D" using s(1,2) w(3) by (auto simp: peek_def)
qed

subsection \<open>Values\<close>

lemma space_trim: "spaces w \<Longrightarrow> \<not> is_space (peek p) \<Longrightarrow> lsp_json_space (w @ p) = p"
  by (induction w) (auto simp: lsp_json_space_def peek_def dropWhile_eq_self_iff split: list.splits)

lemma space_done: "\<not> is_space (peek (lsp_json_space p))"
  by (induction p) (auto simp: lsp_json_space_def peek_def is_space_def)

lemma space_split: "\<exists>w. spaces w \<and> p = w @ lsp_json_space p"
  by (rule exI [of _ "takeWhile is_space p"]) (auto simp: lsp_json_space_def list_all_iff dest: set_takeWhileD)

lemma json_entry_sound:
  assumes sub: "\<And>p r. sub p = Some r \<Longrightarrow> \<exists>w v. spaces w \<and> jvalue d v \<and> p = w @ v @ r"
    and key: "\<And>p r. sub p = Some r \<Longrightarrow> peek p = 0x22 \<Longrightarrow> \<exists>k. jstring k \<and> p = k @ r"
    and "json_entry sub object p = Some q"
  shows "\<exists>w s. spaces w \<and> (\<forall>w'. spaces w' \<longrightarrow> jentry object d (s @ w')) \<and> p = w @ s @ q"
proof (cases object)
  case False
  then have "sub p = Some q" using assms(3) by (simp add: json_entry_def)
  then obtain w v where "spaces w" "jvalue d v" "p = w @ v @ q" using sub by blast
  moreover from this have "jentry object d (v @ w')" if "spaces w'" for w'
    using False jvalue_jentry_jitems.element [OF _ that] by simp
  ultimately show ?thesis by blast
next
  case True
  then obtain p1 where p1: "peek p = 0x22" "sub p = Some p1" "peek (lsp_json_space p1) = 0x3A" "sub (tl (lsp_json_space p1)) = Some q"
    using assms(3) by (auto simp: json_entry_def Let_def bind_eq_Some_conv split: if_splits)
  obtain k where k: "jstring k" "p = k @ p1" using key [OF p1(2,1)] by blast
  obtain w1 where w1: "spaces w1" "p1 = w1 @ lsp_json_space p1" using space_split by blast
  obtain w2 v where v: "spaces w2" "jvalue d v" "tl (lsp_json_space p1) = w2 @ v @ q" using sub [OF p1(4)] by blast
  have "lsp_json_space p1 = 0x3A # w2 @ v @ q" using peek_cons [of "lsp_json_space p1"] p1(3) v(3) by simp
  then have "p = k @ w1 @ 0x3A # w2 @ v @ q" using k(2) w1(2) by simp
  moreover have "jentry True d ((k @ w1 @ 0x3A # w2 @ v) @ w')" if "spaces w'" for w'
    using jvalue_jentry_jitems.member [OF k(1) w1(1) v(1,2) that] by simp
  ultimately show ?thesis using True by (intro exI [of _ "[]"] exI [of _ "k @ w1 @ 0x3A # w2 @ v"]) simp
qed

lemma json_items_sound:
  assumes sub: "\<And>p r. sub p = Some r \<Longrightarrow> \<exists>w v. spaces w \<and> jvalue d v \<and> p = w @ v @ r"
    and key: "\<And>p r. sub p = Some r \<Longrightarrow> peek p = 0x22 \<Longrightarrow> \<exists>k. jstring k \<and> p = k @ r"
    and "json_items sub object n p = Some r"
  shows "\<exists>w s. spaces w \<and> jitems object d s \<and> p = w @ s @ closer object # r"
  using assms(3)
proof (induction n arbitrary: p)
  case (Suc n)
  obtain q where q: "json_entry sub object p = Some q"
    "(if peek (lsp_json_space q) = closer object then Some (tl (lsp_json_space q)) else if peek (lsp_json_space q) \<noteq> 0x2C then None
      else json_items sub object n (lsp_json_space (tl (lsp_json_space q)))) = Some r"
    using Suc.prems by (auto simp: bind_eq_Some_conv Let_def closer_def)
  obtain w s where w: "spaces w" "\<And>w'. spaces w' \<Longrightarrow> jentry object d (s @ w')" "p = w @ s @ q"
    using json_entry_sound [OF sub key q(1)] by blast
  obtain w1 where w1: "spaces w1" "q = w1 @ lsp_json_space q" using space_split by blast
  show ?case
  proof (cases "peek (lsp_json_space q) = closer object")
    case True
    then have "lsp_json_space q = closer object # r" using q(2) peek_cons [of "lsp_json_space q"] by (simp add: closer_def split: if_splits)
    then have "p = w @ (s @ w1) @ closer object # r" using w(3) w1(2) by simp
    then show ?thesis using w(1) jvalue_jentry_jitems.last [OF w(2) [OF w1(1)]] by blast
  next
    case False
    let ?t = "tl (lsp_json_space q)"
    have c: "peek (lsp_json_space q) = 0x2C" and i: "json_items sub object n (lsp_json_space ?t) = Some r"
      using q(2) False by (simp_all split: if_splits)
    obtain w2 where w2: "spaces w2" "?t = w2 @ lsp_json_space ?t" using space_split by blast
    obtain w3 u where u: "spaces w3" "jitems object d u" "lsp_json_space ?t = w3 @ u @ closer object # r" using Suc.IH [OF i] by blast
    have "jitems object d ((s @ w1) @ 0x2C # (w2 @ w3) @ u)"
      by (rule jvalue_jentry_jitems.more [OF w(2) [OF w1(1)] _ u(2)]) (use w2 u in simp)
    moreover have "lsp_json_space q = 0x2C # ?t" using c peek_cons [of "lsp_json_space q"] by simp
    then have "p = w @ ((s @ w1) @ 0x2C # (w2 @ w3) @ u) @ closer object # r"
      using w(3) w1(2) w2(2) u(3) by (metis append.assoc append_Cons)
    ultimately show ?thesis using w(1) by blast
  qed
qed simp

lemma json_items_none: "(\<And>q. sub q = None) \<Longrightarrow> json_items sub object n p = None"
  by (cases n) (simp_all add: json_entry_def)

lemma starts_drop: "starts_with p w \<Longrightarrow> p = w @ drop (length w) p"
  unfolding starts_with_def by (metis append_take_drop_id)

text \<open>The branches of \<open>lsp_json_end\<close>, for trimmed input.\<close>

lemma lsp_json_end_branches:
  assumes "depth \<le> 128" and "\<not> is_space (peek p)" and "spaces w"
  shows "peek p = 0x22 \<Longrightarrow> lsp_json_end (w @ p) depth = json_string (tl p)"
    "peek p = 0x7B \<or> peek p = 0x5B \<Longrightarrow> lsp_json_end (w @ p) depth = json_container (\<lambda>q. lsp_json_end q (depth + 1)) p"
    "peek p \<notin> {0x22, 0x7B, 0x5B} \<Longrightarrow> lsp_json_end (w @ p) depth =
      (if starts_with p (cstr ''true'') then Some (drop 4 p)
       else if starts_with p (cstr ''false'') then Some (drop 5 p)
       else if starts_with p (cstr ''null'') then Some (drop 4 p) else json_number p)"
  using assms space_trim [OF assms(3,2)] unfolding lsp_json_end.simps [of "w @ p" depth] Let_def by (auto simp del: cstr_simps)

lemma lsp_json_end_depth: "lsp_json_end p depth = Some r \<Longrightarrow> depth \<le> 128"
  by (rule ccontr) (simp add: lsp_json_end.simps)

lemma json_string_value:
  assumes "json_string (tl p) = Some r" and "peek p = 0x22"
  shows "\<exists>k. jstring k \<and> p = k @ r"
proof -
  obtain cs where "list_all jchar cs" "tl p = concat cs @ 0x22 # r" using json_string_sound [OF assms(1)] by blast
  then show ?thesis using peek_cons [of p] assms(2) by (intro exI [of _ "0x22 # concat cs @ [0x22]"]) (auto simp: jstring_def)
qed

lemma lsp_json_end_key:
  assumes "lsp_json_end p depth = Some r" and "peek p = 0x22"
  shows "\<exists>k. jstring k \<and> p = k @ r"
proof (rule json_string_value [OF _ assms(2)])
  show "json_string (tl p) = Some r"
    using lsp_json_end_branches(1) [OF lsp_json_end_depth [OF assms(1)], of p "[]"] assms by (simp add: is_space_def)
qed

lemma json_container_sound:
  assumes sub: "\<And>p r. sub p = Some r \<Longrightarrow> \<exists>w v. spaces w \<and> jvalue d v \<and> p = w @ v @ r"
    and key: "\<And>p r. sub p = Some r \<Longrightarrow> peek p = 0x22 \<Longrightarrow> \<exists>k. jstring k \<and> p = k @ r"
    and "peek p = 0x7B \<or> peek p = 0x5B" and "json_container sub p = Some r"
  shows "\<exists>v. jvalue (Suc d) v \<and> p = v @ r" and "(\<And>q. sub q = None) \<Longrightarrow> \<exists>v. jvalue n v \<and> p = v @ r"
proof -
  define object where "object \<longleftrightarrow> peek p = 0x7B"
  obtain t where t: "tl p = t" by blast
  let ?q = "lsp_json_space t"
  have "p = peek p # t" using assms(3) t peek_cons [of p] by auto
  moreover have "peek p = opener object" using assms(3) by (auto simp: opener_def object_def)
  ultimately have p: "p = opener object # t" by simp
  obtain w1 where w1: "spaces w1" "t = w1 @ ?q" using space_split by blast
  have r: "(if peek ?q = closer object then Some (tl ?q) else json_items sub object (length ?q) ?q) = Some r"
    using assms(4) by (simp only: json_container_def Let_def closer_def object_def t)
  have em: "\<exists>v. jvalue m v \<and> p = v @ r" if "peek ?q = closer object" for m
  proof -
    have "?q \<noteq> []" using that by (auto simp: peek_def closer_def split: if_splits)
    then have "?q = closer object # r" using that r by (cases ?q) (simp_all add: peek_def)
    then have "p = (opener object # w1 @ [closer object]) @ r" using w1(2) unfolding p by simp
    then show ?thesis using jvalue_jentry_jitems.empty [OF w1(1)] by blast
  qed
  show "\<exists>v. jvalue (Suc d) v \<and> p = v @ r"
  proof (cases "peek ?q = closer object")
    case False
    then have i: "json_items sub object (length ?q) ?q = Some r" using r by simp
    obtain w2 u where u: "spaces w2" "jitems object d u" "?q = w2 @ u @ closer object # r"
      using json_items_sound [OF sub key i] by blast
    have "jvalue (Suc d) (opener object # (w1 @ w2) @ u @ [closer object])"
      by (rule jvalue_jentry_jitems.full [OF _ u(2)]) (use w1(1) u(1) in simp)
    moreover have "p = (opener object # (w1 @ w2) @ u @ [closer object]) @ r" using w1(2) u(3) unfolding p by simp
    ultimately show ?thesis by blast
  qed (rule em)
  show "\<exists>v. jvalue n v \<and> p = v @ r" if none: "\<And>q. sub q = None"
  proof (rule em, rule ccontr)
    assume "peek ?q \<noteq> closer object"
    then show False using r json_items_none [where sub = sub and object = object and n = "length ?q" and p = ?q] none by simp
  qed
qed

lemma literal_end:
  "starts_with p (cstr ''true'') \<Longrightarrow> \<exists>v. jvalue d v \<and> p = v @ drop 4 p"
  "starts_with p (cstr ''false'') \<Longrightarrow> \<exists>v. jvalue d v \<and> p = v @ drop 5 p"
  "starts_with p (cstr ''null'') \<Longrightarrow> \<exists>v. jvalue d v \<and> p = v @ drop 4 p"
proof -
  have "\<exists>v. jvalue d v \<and> p = v @ drop n p" if "starts_with p t" "t \<in> {cstr ''true'', cstr ''false'', cstr ''null''}" "length t = n" for t n
    using starts_drop [OF that(1)] jvalue_jentry_jitems.literal [OF that(2)] that(3) by blast
  note l = this
  show "starts_with p (cstr ''true'') \<Longrightarrow> \<exists>v. jvalue d v \<and> p = v @ drop 4 p" by (erule l) simp_all
  show "starts_with p (cstr ''false'') \<Longrightarrow> \<exists>v. jvalue d v \<and> p = v @ drop 5 p" by (erule l) simp_all
  show "starts_with p (cstr ''null'') \<Longrightarrow> \<exists>v. jvalue d v \<and> p = v @ drop 4 p" by (erule l) simp_all
qed

lemma lsp_json_end_sound:
  "lsp_json_end p depth = Some r \<Longrightarrow> \<exists>w v. spaces w \<and> jvalue (128 - depth) v \<and> p = w @ v @ r"
proof (induction "129 - depth" arbitrary: p depth r rule: less_induct)
  case less
  obtain w where w: "spaces w" "p = w @ lsp_json_space p" using space_split by blast
  define q where "q = lsp_json_space p"
  have d: "depth \<le> 128" by (rule lsp_json_end_depth [OF less.prems])
  have ns: "\<not> is_space (peek q)" unfolding q_def by (rule space_done)
  note br = lsp_json_end_branches [OF d ns w(1), folded q_def, unfolded w(2) [folded q_def, symmetric]]
  consider (quote) "peek q = 0x22" | (brace) "peek q = 0x7B \<or> peek q = 0x5B" | (other) "peek q \<notin> {0x22, 0x7B, 0x5B}" by blast
  then have "\<exists>v. jvalue (128 - depth) v \<and> q = v @ r"
  proof cases
    case quote
    then show ?thesis using br(1) less.prems json_string_value jvalue_jentry_jitems.str by metis
  next
    case brace
    then have c: "json_container (\<lambda>q. lsp_json_end q (depth + 1)) q = Some r" using br(2) less.prems by simp
    have sub: "\<exists>w v. spaces w \<and> jvalue (128 - (depth + 1)) v \<and> q = w @ v @ r'" if "lsp_json_end q (depth + 1) = Some r'" for q r'
      by (rule less.hyps [OF _ that]) (use d in simp)
    note cs = json_container_sound [OF sub lsp_json_end_key brace c]
    show ?thesis
    proof (cases "depth < 128")
      case True
      then have "128 - depth = Suc (128 - (depth + 1))" by simp
      then show ?thesis using cs(1) by simp
    next
      case False
      have none: "lsp_json_end q (depth + 1) = None" for q
        using lsp_json_end_depth [of q "depth + 1"] False by (cases "lsp_json_end q (depth + 1)") auto
      show ?thesis by (rule cs(2)) (assumption | rule none)+
    qed
  next
    case other
    then have "starts_with q (cstr ''true'') \<and> r = drop 4 q \<or> starts_with q (cstr ''false'') \<and> r = drop 5 q \<or>
        starts_with q (cstr ''null'') \<and> r = drop 4 q \<or> json_number q = Some r"
      using br(3) less.prems by (metis option.inject)
    then show ?thesis using literal_end json_number_sound jvalue_jentry_jitems.number by metis
  qed
  then show ?case using w unfolding q_def by metis
qed

text \<open>The first byte of a value says which branch reads it.\<close>

definition starter :: "u8 \<Rightarrow> bool" where
  "starter c \<longleftrightarrow> \<not> is_space c \<and> c \<noteq> 0x7D \<and> c \<noteq> 0x5D \<and> c \<noteq> 0"

lemma starts:
  "jvalue d v \<Longrightarrow> starter (peek (v @ r))" "jentry object d s \<Longrightarrow> starter (peek (s @ r))" "jitems object d s \<Longrightarrow> starter (peek (s @ r))"
proof (induction arbitrary: r and r and r rule: jvalue_jentry_jitems.inducts)
  case (number s d)
  have "s \<noteq> []" using number by (auto simp: jnumber_def jdigits_def)
  then have "peek (s @ r) = peek (s @ [])" by (cases s) (simp_all add: peek_def)
  then have "is_digit (peek (s @ r)) \<or> peek (s @ r) = 0x2D"
    using json_number_complete(2) [OF number, of "[]"] by (simp add: follow_def peek_def is_digit_def)
  then show ?case by (auto simp: starter_def is_space_def is_digit_def)
qed (auto simp: starter_def is_space_def peek_def jstring_def opener_def)

lemma spaces_follow: "spaces w \<Longrightarrow> follow r \<Longrightarrow> follow (w @ r)"
  by (cases w) (auto simp: follow_def peek_def is_space_def is_digit_def)

lemma string_end:
  assumes "jstring s" and "depth \<le> 128" and "spaces w"
  shows "lsp_json_end (w @ s @ r) depth = Some r"
proof -
  obtain cs where cs: "list_all jchar cs" "s = 0x22 # concat cs @ [0x22]" using assms(1) by (auto simp: jstring_def)
  then show ?thesis
    using lsp_json_end_branches(1) [OF assms(2) _ assms(3), of "s @ r"] json_string_complete [OF cs(1), of r]
    by (simp add: peek_def is_space_def)
qed

lemma number_end:
  assumes "jnumber s" and "depth \<le> 128" and "spaces w" and "follow r"
  shows "lsp_json_end (w @ s @ r) depth = Some r"
proof -
  note n = json_number_complete [OF assms(1,4)]
  have c: "\<not> is_space (peek (s @ r))" "peek (s @ r) \<notin> {0x22, 0x7B, 0x5B}"
    using n(2) by (auto simp: is_space_def is_digit_def)
  have "\<not> starts_with (s @ r) (x # t)" if "x = 0x74 \<or> x = 0x66 \<or> x = 0x6E" for x t
    using n(2) that by (cases "s @ r") (auto simp: starts_with_def peek_def is_digit_def)
  then show ?thesis using lsp_json_end_branches(3) [OF assms(2) c(1) assms(3) c(2)] n(1) by simp
qed

lemma literal_complete:
  assumes "s \<in> {cstr ''true'', cstr ''false'', cstr ''null''}" and "depth \<le> 128" and "spaces w"
  shows "lsp_json_end (w @ s @ r) depth = Some r"
proof -
  have "\<not> is_space (peek (s @ r))" "peek (s @ r) \<notin> {0x22, 0x7B, 0x5B}" using assms(1) by (auto simp: peek_def is_space_def)
  note b = lsp_json_end_branches(3) [OF assms(2) this(1) assms(3) this(2)]
  consider "s = cstr ''true''" | "s = cstr ''false''" | "s = cstr ''null''" using assms(1) by blast
  then show ?thesis by cases (use b in \<open>simp_all add: starts_with_def\<close>)
qed

lemma container_end:
  assumes "depth \<le> 128" and "spaces w" and "spaces w'" and "starter (peek s) \<or> peek s = closer object"
  shows "lsp_json_end (w @ opener object # w' @ s) depth = (if peek s = closer object then Some (tl s)
    else json_items (\<lambda>q. lsp_json_end q (depth + 1)) object (length s) s)"
proof -
  have "lsp_json_space (w' @ s) = s" using assms(3,4) by (intro space_trim) (auto simp: starter_def is_space_def closer_def split: if_splits)
  moreover have "lsp_json_end (w @ opener object # w' @ s) depth = json_container (\<lambda>q. lsp_json_end q (depth + 1)) (opener object # w' @ s)"
    by (rule lsp_json_end_branches(2) [OF assms(1) _ assms(2)]) (simp_all add: peek_def opener_def is_space_def)
  ultimately show ?thesis by (cases object) (simp_all add: json_container_def Let_def closer_def opener_def peek_def)
qed

lemma lsp_json_end_complete:
  "jvalue d v \<Longrightarrow> depth + d \<le> 128 \<Longrightarrow> follow r \<Longrightarrow> spaces w \<Longrightarrow> lsp_json_end (w @ v @ r) depth = Some r"
  "jentry object d s \<Longrightarrow> depth + d \<le> 128 \<Longrightarrow> follow r \<Longrightarrow> \<not> is_space (peek r) \<Longrightarrow>
     \<exists>q. json_entry (\<lambda>q. lsp_json_end q depth) object (s @ r) = Some q \<and> lsp_json_space q = r"
  "jitems object d s \<Longrightarrow> depth + d \<le> 128 \<Longrightarrow> length s \<le> n \<Longrightarrow>
     json_items (\<lambda>q. lsp_json_end q depth) object n (s @ closer object # r) = Some r"
proof (induction arbitrary: depth r w and depth r and depth r n rule: jvalue_jentry_jitems.inducts)
  case (literal s d)
  then show ?case using literal_complete by simp
next
  case (number s d)
  then show ?case using number_end by simp
next
  case (str s d)
  then show ?case using string_end by simp
next
  case (empty w' d object)
  then show ?case using container_end [of depth w w' "closer object # r" object] by (simp add: peek_def)
next
  case (full w' object d s)
  let ?s = "s @ closer object # r"
  have st: "starter (peek ?s)" by (rule starts(3) [OF full.hyps(2)])
  then have "peek ?s \<noteq> closer object" by (auto simp: starter_def closer_def)
  moreover have "json_items (\<lambda>q. lsp_json_end q (depth + 1)) object (length ?s) ?s = Some r"
    by (rule full.IH) (use full.prems in simp_all)
  ultimately show ?case using container_end [of depth w w' ?s object] full st by simp
next
  case (element d v w')
  have "lsp_json_end ([] @ v @ w' @ r) depth = Some (w' @ r)"
    by (rule element.IH) (use element spaces_follow in simp_all)
  then show ?case using space_trim [OF element.hyps(2) element.prems(3)] by (simp add: json_entry_def)
next
  case (member k w1 w2 d v w3)
  let ?q = "w1 @ 0x3A # w2 @ v @ w3 @ r"
  have k: "lsp_json_end (k @ ?q) depth = Some ?q" using string_end [OF member.hyps(1), of depth "[]"] member.prems(1) by simp
  have c: "lsp_json_space ?q = 0x3A # w2 @ v @ w3 @ r" using member.hyps(2) by (intro space_trim) (simp_all add: peek_def is_space_def)
  have v: "lsp_json_end (w2 @ v @ w3 @ r) depth = Some (w3 @ r)"
    by (rule member.IH) (use member spaces_follow in simp_all)
  have "peek (k @ ?q) = 0x22" using member.hyps(1) by (auto simp: jstring_def peek_def)
  then show ?case using k c v space_trim [OF member.hyps(5) member.prems(3)]
    by (simp add: json_entry_def Let_def peek_def)
next
  case (last object d s)
  have st: "starter (peek (s @ closer object # r))" by (rule starts(2) [OF last.hyps])
  have "\<not> is_space (closer object)" "follow (closer object # r)" by (simp_all add: closer_def is_space_def follow_def peek_def is_digit_def)
  then obtain q where q: "json_entry (\<lambda>q. lsp_json_end q depth) object (s @ closer object # r) = Some q" "lsp_json_space q = closer object # r"
    using last.IH [of depth "closer object # r"] last.prems by (auto simp: peek_def)
  have "s \<noteq> []" using starts(2) [OF last.hyps, of "[]"] by (auto simp: starter_def peek_def)
  then obtain m where "n = Suc m" using last.prems(2) by (cases n) auto
  then show ?case using q by (simp add: Let_def closer_def peek_def)
next
  case (more object d s w' t)
  let ?r = "0x2C # w' @ t @ closer object # r"
  have "\<not> is_space 0x2C" "follow ?r" by (simp_all add: is_space_def follow_def peek_def is_digit_def)
  then obtain q where q: "json_entry (\<lambda>q. lsp_json_end q depth) object (s @ ?r) = Some q" "lsp_json_space q = ?r"
    using more.IH(1) [of depth ?r] more.prems by (auto simp: peek_def)
  obtain m where m: "n = Suc m" "length t \<le> m" using more.prems(2) by (cases n) auto
  have tr: "lsp_json_space (w' @ t @ closer object # r) = t @ closer object # r"
    using starts(3) [OF more.hyps(3)] more.hyps(2) by (intro space_trim) (simp_all add: starter_def)
  have "json_items (\<lambda>q. lsp_json_end q depth) object m (t @ closer object # r) = Some r"
    by (rule more.IH(2)) (use more.prems m in simp_all)
  then show ?case using q m(1) tr by (simp add: Let_def peek_def)
qed

text \<open>A value is at least one byte, so every call of \<open>lsp_json_end\<close> that returns has moved forward.\<close>

lemma value_nonempty: "jvalue d v \<Longrightarrow> v \<noteq> []"
  using starts(1) [of d v "[]"] by (auto simp: starter_def peek_def)

lemma lsp_json_end_shrinks: "lsp_json_end p depth = Some r \<Longrightarrow> length r < length p"
  using lsp_json_end_sound [of p depth r] value_nonempty by auto

lemma space_shrinks: "length (lsp_json_space p) \<le> length p"
  unfolding lsp_json_space_def by (rule length_dropWhile_le)

lemma tl_space_shrinks: "peek (lsp_json_space p) \<noteq> 0 \<Longrightarrow> length (tl (lsp_json_space p)) < length p"
  using space_shrinks [of p] by (cases "lsp_json_space p") (auto simp: peek_def)

lemma json_entry_shrinks:
  assumes "\<And>q r. sub q = Some r \<Longrightarrow> length r < length q" and "json_entry sub object p = Some r"
  shows "length r < length p"
proof (cases object)
  case True
  then obtain q where q: "sub p = Some q" "peek (lsp_json_space q) = 0x3A" "sub (tl (lsp_json_space q)) = Some r"
    using assms(2) by (auto simp: json_entry_def Let_def bind_eq_Some_conv split: if_splits)
  then show ?thesis using assms(1) [OF q(1)] assms(1) [OF q(3)] tl_space_shrinks [of q] by simp
qed (use assms in \<open>simp add: json_entry_def\<close>)

lemma json_items_enough:
  assumes sub: "\<And>q r. sub q = Some r \<Longrightarrow> length r < length q"
  shows "length p \<le> n \<Longrightarrow> length p \<le> m \<Longrightarrow> json_items sub object n p = json_items sub object m p"
proof (induction n arbitrary: p m)
  case 0
  have none: "json_entry sub object [] = None"
    using json_entry_shrinks [OF sub, where p = "[]"] by (cases "json_entry sub object []") fastforce+
  then show ?case using 0 by (cases m) simp_all
next
  case (Suc n)
  show ?case
  proof (cases "json_entry sub object p")
    case None
    then show ?thesis by (cases m) simp_all
  next
    case (Some q)
    have q: "length q < length p" by (rule json_entry_shrinks [OF sub Some])
    then obtain m' where m: "m = Suc m'" using Suc.prems by (cases m) auto
    have "length (lsp_json_space (tl (lsp_json_space q))) \<le> length p - 1"
      using space_shrinks [of q] space_shrinks [of "tl (lsp_json_space q)"] q by simp
    then have "json_items sub object n (lsp_json_space (tl (lsp_json_space q))) = json_items sub object m' (lsp_json_space (tl (lsp_json_space q)))"
      using Suc.prems m by (intro Suc.IH) simp_all
    then show ?thesis unfolding m by (simp only: json_items.simps Some Option.bind.simps Let_def)
  qed
qed

text \<open>C39: the validator accepts a message exactly when it is a JSON text as RFC 8259 defines it, in UTF-8 and with
  values nested at most 128 deep: literals, numbers, strings with all their escapes, arrays and objects, with blanks only
  where the grammar has them. The message is the bytes before its terminating NUL.\<close>

theorem json_valid_exact:
  assumes "0 \<notin> set p"
  shows "lsp_json_valid p \<longleftrightarrow> (\<exists>w1 v w2. spaces w1 \<and> jvalue 128 v \<and> spaces w2 \<and> p = w1 @ v @ w2)"
proof
  assume "lsp_json_valid p"
  then obtain q where q: "lsp_json_end p 0 = Some q" "peek (lsp_json_space q) = 0" by (auto simp: lsp_json_valid_def split: option.splits)
  obtain w1 v where v: "spaces w1" "jvalue 128 v" "p = w1 @ v @ q" using lsp_json_end_sound [OF q(1)] by auto
  obtain w2 where w2: "spaces w2" "q = w2 @ lsp_json_space q" using space_split by blast
  have "0 \<notin> set (lsp_json_space q)" using assms v(3) w2(2) by (metis UnCI set_append)
  then have "lsp_json_space q = []" using q(2) by (cases "lsp_json_space q") (auto simp: peek_def)
  then have "q = w2" using w2(2) by simp
  then show "\<exists>w1 v w2. spaces w1 \<and> jvalue 128 v \<and> spaces w2 \<and> p = w1 @ v @ w2" using v w2(1) by blast
next
  assume "\<exists>w1 v w2. spaces w1 \<and> jvalue 128 v \<and> spaces w2 \<and> p = w1 @ v @ w2"
  then obtain w1 v w2 where v: "spaces w1" "jvalue 128 v" "spaces w2" "p = w1 @ v @ w2" by blast
  have "follow w2" using spaces_follow [OF v(3), of "[]"] by (simp add: follow_def peek_def is_digit_def)
  then have "lsp_json_end p 0 = Some w2" using lsp_json_end_complete(1) [OF v(2), of 0 w2 w1] v by simp
  moreover have "lsp_json_space w2 = []" using space_trim [OF v(3), of "[]"] by (simp add: peek_def is_space_def)
  ultimately show "lsp_json_valid p" by (simp add: lsp_json_valid_def peek_def)
qed

definition sample_message :: bytes where
  "sample_message = cstr ''{ '' @ [0x22] @ cstr ''id'' @ [0x22] @ cstr '' : [-1.5e+3, true, null, '' @ [0x22, 0x61]
     @ [0x5C, 0x6E, 0xE2, 0x82, 0xAC, 0x5C, 0x75, 0x30, 0x30, 0x65, 0x39, 0x22] @ cstr ''], '' @ [0x22, 0x78, 0x22] @ cstr '':{}} ''"

theorem json_valid_exact_witness:
  "\<exists>w1 v w2. spaces w1 \<and> jvalue 128 v \<and> spaces w2 \<and> sample_message = w1 @ v @ w2"
proof -
  have "0 \<notin> set sample_message" by code_simp
  moreover have "lsp_json_valid sample_message" by code_simp
  ultimately show ?thesis using json_valid_exact [of sample_message] by blast
qed

end
