(* ===== verification/Lsp_Find.thy ===== *)
theory Lsp_Find
  imports Lsp_Json
begin

text \<open>
  Looking up fields in a JSON message (\<open>src/src/lsp_json.h\<close>: \<open>lsp_json_key_equal\<close>, \<open>lsp_json_member\<close>,
  \<open>lsp_json_find\<close>, \<open>lsp_json_size\<close>). Pointers are byte lists as in \<open>Lsp_Json\<close>. The key argument of the C functions is a
  literal with its quotes, such as \<open>"\"id\""\<close>. The functions are specified on \<open>jdoc\<close>, a document with all its blanks.
\<close>

definition json_hex_digit :: "u8 \<Rightarrow> u32" where
  "json_hex_digit c = (if c \<le> 0x39 then ucast c - 0x30 else if c \<le> 0x46 then ucast c - 0x41 + 10 else ucast c - 0x61 + 10)"

definition hex_quad :: "bytes \<Rightarrow> u32" where
  "hex_quad p = foldl (\<lambda>v i. v * 16 + json_hex_digit (peek (drop i p))) 0 [0..<4]"

text \<open>One character of the name: its value and the rest. \<open>stop\<close> is the number of bytes from \<open>end - 1\<close> on.\<close>

definition key_char :: "bytes \<Rightarrow> u32 \<times> bytes" where
  "key_char start =
     (let v = ucast (peek start); start = tl start in
      if v = 0x5C then
        let v = ucast (peek start); start = tl start in
        if v = 0x75 then (hex_quad start, drop 4 start) else (v, start)
      else (v, start))"

lemma key_char_shrinks: "start \<noteq> [] \<Longrightarrow> length (snd (key_char start)) < length start"
  by (cases start) (auto simp: key_char_def Let_def)

function key_loop :: "nat \<Rightarrow> bytes \<Rightarrow> bytes \<Rightarrow> bool" where
  "key_loop stop start key =
     (if stop < length start \<and> peek key \<noteq> 0x22 then
        let (v, start) = key_char start in if v \<noteq> ucast (peek key) then False else key_loop stop start (tl key)
      else length start = stop \<and> peek key = 0x22)"
  by pat_completeness auto
termination
proof (relation "measure (\<lambda>(stop, start, key). length start)", goal_cases)
  case (2 stop start key x v start')
  have "snd (key_char start) = start'" using 2(2,3) by (metis snd_conv)
  then show ?case using key_char_shrinks [of start] 2(1) by (cases start) auto
qed simp

declare key_loop.simps [simp del]

definition lsp_json_key_equal :: "bytes \<Rightarrow> bytes \<Rightarrow> bytes \<Rightarrow> bool" where
  "lsp_json_key_equal start e key = key_loop (length e + 1) (tl start) (tl key)"

function member_loop :: "bytes \<Rightarrow> bytes \<Rightarrow> bytes option" where
  "member_loop p key =
     (if peek p \<noteq> 0x22 then None
      else case lsp_json_end p 0 of None \<Rightarrow> None | Some e \<Rightarrow>
        let matches = lsp_json_key_equal p e key; p = lsp_json_space e in
        if peek p \<noteq> 0x3A then None
        else
          let p = lsp_json_space (tl p) in
          if matches then Some p
          else case lsp_json_end p 0 of None \<Rightarrow> None | Some p \<Rightarrow>
            let p = lsp_json_space p in
            if peek p \<noteq> 0x2C then None else member_loop (lsp_json_space (tl p)) key)"
  by pat_completeness auto
termination
proof (relation "measure (\<lambda>(p, key). length p)", goal_cases)
  case (2 p key e matches p1 p2 p3 p4)
  then show ?case
    using lsp_json_end_shrinks [of p 0 e] space_shrinks [of e] lsp_json_end_shrinks [of p2 0 p3] space_shrinks [of p3]
      space_shrinks [of "tl p1"] space_shrinks [of "tl p4"] by simp
qed simp

declare member_loop.simps [simp del]

definition lsp_json_member :: "bytes \<Rightarrow> bytes \<Rightarrow> bytes option" where
  "lsp_json_member p key =
     (let p = lsp_json_space p in if peek p \<noteq> 0x7B then None else member_loop (lsp_json_space (tl p)) key)"

text \<open>The step of the loop of \<open>lsp_json_find\<close> over the name of a member, to behind the colon.\<close>

definition find_value :: "bool \<Rightarrow> bytes \<Rightarrow> bytes option" where
  "find_value object p =
     (if object then
        case lsp_json_end p 0 of None \<Rightarrow> None | Some e \<Rightarrow>
          let p = lsp_json_space e in if peek p \<noteq> 0x3A then None else Some (tl p)
      else Some p)"

lemma find_value_shrinks: "find_value object p = Some q \<Longrightarrow> length q \<le> length p"
proof (cases object)
  case True
  moreover assume "find_value object p = Some q"
  ultimately obtain e where e: "lsp_json_end p 0 = Some e" "q = tl (lsp_json_space e)"
    by (auto simp: find_value_def Let_def split: option.splits if_splits)
  then show ?thesis using lsp_json_end_shrinks [OF e(1)] space_shrinks [of e] by simp
qed (simp add: find_value_def)

function (sequential) lsp_json_find :: "bytes \<Rightarrow> bytes \<Rightarrow> bytes option"
  and find_loop :: "bool \<Rightarrow> bytes \<Rightarrow> bytes \<Rightarrow> bytes option" where
  "lsp_json_find p key =
     (let p = lsp_json_space p in
      case lsp_json_member p key of Some direct \<Rightarrow> Some direct | None \<Rightarrow>
        let object = (peek p = 0x7B) in
        if \<not> object \<and> peek p \<noteq> 0x5B then None else find_loop object (lsp_json_space (tl p)) key)"
| "find_loop object p key =
     (if peek p = 0 \<or> peek p = 0x7D \<or> peek p = 0x5D then None
      else case find_value object p of None \<Rightarrow> None | Some p \<Rightarrow>
        case lsp_json_find p key of Some found \<Rightarrow> Some found | None \<Rightarrow>
          case lsp_json_end p 0 of None \<Rightarrow> None | Some p \<Rightarrow>
            let p = lsp_json_space p in
            if peek p \<noteq> 0x2C then None else find_loop object (lsp_json_space (tl p)) key)"
  by pat_completeness auto
termination
proof (relation "measure (\<lambda>x. case x of Inl (p, key) \<Rightarrow> 2 * length p | Inr (object, p, key) \<Rightarrow> 2 * length p + 1)", goal_cases)
  case (2 p key q object)
  then have "length (tl q) < length p" using tl_space_shrinks [of p] by (cases "peek q = 0") auto
  then show ?case using space_shrinks [of "tl q"] by simp
next
  case (3 object p key q)
  then show ?case using find_value_shrinks [of object p q] by simp
next
  case (4 object p key q r s)
  then show ?case
    using find_value_shrinks [of object p q] lsp_json_end_shrinks [of q 0 r] space_shrinks [of r] space_shrinks [of "tl s"] by simp
qed simp

declare lsp_json_find.simps [simp del] find_loop.simps [simp del]

text \<open>\<open>lsp_json_size\<close>: \<open>strtoull\<close> in base 10 reports \<open>ERANGE\<close> when the digits do not fit 64 bits.\<close>

definition lsp_json_size :: "bytes option \<Rightarrow> u64 option" where
  "lsp_json_size p =
     (case p of None \<Rightarrow> None | Some p \<Rightarrow>
        if \<not> is_digit (peek p) then None
        else
          let number = foldl (\<lambda>n c. n * 10 + (unat c - 0x30)) 0 (takeWhile is_digit p); e = dropWhile is_digit p in
          if number \<ge> 2 ^ 64 \<or> peek e \<noteq> 0 \<and> peek e \<notin> {0x20, 0x2C, 0x7D, 0x0D, 0x0A, 0x09, 0x5D} then None
          else Some (of_nat number))"

subsection \<open>Names\<close>

text \<open>What a character of a JSON string means: a code point, or the code unit of a \<open>\u\<close> escape.\<close>

definition xdigit_value :: "u8 \<Rightarrow> nat" where
  "xdigit_value c = (if c \<le> 0x39 then unat c - 0x30 else if c \<le> 0x46 then unat c - 0x37 else unat c - 0x57)"

definition escape_value :: "u8 \<Rightarrow> nat" where
  "escape_value c = (if c = 0x62 then 8 else if c = 0x66 then 12 else if c = 0x6E then 10 else if c = 0x72 then 13
     else if c = 0x74 then 9 else unat c)"

definition char_value :: "bytes \<Rightarrow> nat" where
  "char_value c =
     (case c of
        [a] \<Rightarrow> unat a
      | [a, b] \<Rightarrow> if a = 0x5C then escape_value b else (unat a - 0xC0) * 64 + (unat b - 0x80)
      | [a, b, c] \<Rightarrow> (unat a - 0xE0) * 4096 + (unat b - 0x80) * 64 + (unat c - 0x80)
      | [a, b, c, d] \<Rightarrow> (unat a - 0xF0) * 262144 + (unat b - 0x80) * 4096 + (unat c - 0x80) * 64 + (unat d - 0x80)
      | [a, b, x1, x2, x3, x4] \<Rightarrow> ((xdigit_value x1 * 16 + xdigit_value x2) * 16 + xdigit_value x3) * 16 + xdigit_value x4
      | _ \<Rightarrow> 0)"

definition control_escape :: "bytes \<Rightarrow> bool" where
  "control_escape c \<longleftrightarrow> c \<in> {[0x5C, 0x62], [0x5C, 0x66], [0x5C, 0x6E], [0x5C, 0x72], [0x5C, 0x74]}"

definition key_ok :: "bytes \<Rightarrow> bool" where
  "key_ok k \<longleftrightarrow> list_all (\<lambda>x. x < 0x80 \<and> x \<noteq> 0x22) k"

lemma unat_of_nat_u8: "n < 256 \<Longrightarrow> unat (of_nat n :: u8) = n"
  by (simp add: unat_of_nat)

lemma u8_eq_u32 [simp]: "(ucast (c :: u8) :: u32) = 0x5C \<longleftrightarrow> c = 0x5C" "(ucast (c :: u8) :: u32) = 0x75 \<longleftrightarrow> c = 0x75"
proof -
  have "ucast c = (ucast d :: u32) \<longleftrightarrow> c = d" for d :: u8 by (metis unat_ucast_widen(1) word_unat_eq_iff)
  note e = this
  show "(ucast c :: u32) = 0x5C \<longleftrightarrow> c = 0x5C" using e [of "0x5C"] by simp
  show "(ucast c :: u32) = 0x75 \<longleftrightarrow> c = 0x75" using e [of "0x75"] by simp
qed

lemma unat_u8_less: "unat (c :: u8) < 256"
  using unsigned_less [of c, where 'a = nat] by simp

lemma digits64:
  "n div 4096 * 4096 + n div 64 mod 64 * 64 + n mod 64 = (n :: nat)"
  "n div 262144 * 262144 + n div 4096 mod 64 * 4096 + n div 64 mod 64 * 64 + n mod 64 = n"
proof -
  have d: "n div 4096 = n div 64 div 64" "n div 262144 = n div 64 div 64 div 64" by (simp_all add: div_mult2_eq [symmetric])
  show "n div 4096 * 4096 + n div 64 mod 64 * 64 + n mod 64 = n"
    using div_mult_mod_eq [of n 64] div_mult_mod_eq [of "n div 64" 64] unfolding d by linarith
  show "n div 262144 * 262144 + n div 4096 mod 64 * 4096 + n div 64 mod 64 * 64 + n mod 64 = n"
    using div_mult_mod_eq [of n 64] div_mult_mod_eq [of "n div 64" 64] div_mult_mod_eq [of "n div 64 div 64" 64] unfolding d by linarith
qed

lemma scalar_cases:
  assumes "scalar cp"
  obtains (two) "0x80 \<le> cp" "cp < 0x800" | (three) "0x800 \<le> cp" "cp < 0x10000" | (four) "0x10000 \<le> cp" "cp < 0x110000"
  using assms unfolding scalar_def by linarith

lemma char_value_encode: "scalar cp \<Longrightarrow> char_value (utf8_encode cp) = cp \<and> (\<exists>f t. utf8_encode cp = f # t \<and> 0x80 \<le> unat f)"
proof (erule scalar_cases)
  assume c: "0x80 \<le> cp" "cp < 0x800"
  then have f: "unat (of_nat (0xC0 + cp div 64) :: u8) = 0xC0 + cp div 64" by (intro unat_of_nat_u8) simp
  have n: "of_nat (0xC0 + cp div 64) \<noteq> (0x5C :: u8)"
  proof
    assume e: "of_nat (0xC0 + cp div 64) = (0x5C :: u8)"
    show False using f unfolding e by simp
  qed
  show ?thesis using c f n by (simp add: utf8_encode_def char_value_def unat_of_nat_u8 del: of_nat_add)
next
  assume c: "0x800 \<le> cp" "cp < 0x10000"
  then show ?thesis by (simp add: utf8_encode_def char_value_def unat_of_nat_u8 digits64 del: of_nat_add)
next
  assume c: "0x10000 \<le> cp" "cp < 0x110000"
  then show ?thesis by (simp add: utf8_encode_def char_value_def unat_of_nat_u8 digits64 del: of_nat_add)
qed

lemma hex_digit_value: "is_xdigit c \<Longrightarrow> json_hex_digit c = of_nat (xdigit_value c)"
  and xdigit_value_bound: "is_xdigit c \<Longrightarrow> xdigit_value c < 16"
proof -
  have all: "list_all (\<lambda>n. is_xdigit (of_nat n) \<longrightarrow> json_hex_digit (of_nat n) = of_nat (xdigit_value (of_nat n)) \<and> xdigit_value (of_nat n) < 16) [0..<256]"
    by code_simp
  have "unat c < 256" by (rule unat_u8_less)
  then have "is_xdigit c \<longrightarrow> json_hex_digit c = of_nat (xdigit_value c) \<and> xdigit_value c < 16"
    using all by (auto simp: list_all_iff dest: bspec [where x = "unat c"])
  then show "is_xdigit c \<Longrightarrow> json_hex_digit c = of_nat (xdigit_value c)" "is_xdigit c \<Longrightarrow> xdigit_value c < 16" by blast+
qed

lemma hex_quad_value:
  assumes "is_xdigit x1" "is_xdigit x2" "is_xdigit x3" "is_xdigit x4"
  shows "hex_quad (x1 # x2 # x3 # x4 # r) = of_nat (char_value [0x5C, 0x75, x1, x2, x3, x4])"
    and "char_value [0x5C, 0x75, x1, x2, x3, x4] < 65536"
  using assms hex_digit_value xdigit_value_bound [OF assms(1)] xdigit_value_bound [OF assms(2)] xdigit_value_bound [OF assms(3)] xdigit_value_bound [OF assms(4)]
  by (simp_all add: hex_quad_def upt_rec peek_def char_value_def)

lemma key_char_cases:
  assumes "jchar c" and "\<not> control_escape c"
  shows "c \<noteq> [] \<and> (key_char (c @ r) = (of_nat (char_value c), r) \<and> char_value c < 65536 \<or>
    0x80 \<le> char_value c \<and> 0x80 \<le> unat (fst (key_char (c @ r))))"
  using assms
proof (induction rule: jchar.induct)
  case (plain c)
  then show ?case using unat_u8_less [of c] by (simp add: key_char_def peek_def char_value_def)
next
  case (encoded cp)
  then obtain f t where f: "char_value (utf8_encode cp) = cp" "utf8_encode cp = f # t" "0x80 \<le> unat f" using char_value_encode by blast
  then have "f \<noteq> 0x5C" by auto
  then show ?case using f encoded(1) by (auto simp: key_char_def peek_def scalar_def)
next
  case (escape c)
  then have "escape_value c = unat c" "c \<noteq> 0x75" by (auto simp: escape_value_def control_escape_def is_escape_def)
  then show ?case using unat_u8_less [of c] by (simp add: key_char_def peek_def char_value_def)
next
  case (unicode x1 x2 x3 x4)
  then show ?case using hex_quad_value [of x1 x2 x3 x4] by (simp add: key_char_def peek_def)
qed

lemma key_loop_exact:
  assumes "key_ok k" and "list_all jchar cs" and "\<not> list_ex control_escape cs"
  shows "key_loop (length r + 1) (concat cs @ 0x22 # r) (k @ [0x22]) \<longleftrightarrow> map char_value cs = map unat k"
  using assms
proof (induction cs arbitrary: k)
  case Nil
  then show ?case by (subst key_loop.simps) (cases k; auto simp: peek_def key_ok_def)
next
  case (Cons c cs)
  let ?r = "concat cs @ 0x22 # r"
  have c: "c \<noteq> []" "key_char (c @ ?r) = (of_nat (char_value c), ?r) \<and> char_value c < 65536 \<or>
      0x80 \<le> char_value c \<and> 0x80 \<le> unat (fst (key_char (c @ ?r)))"
    using key_char_cases [of c ?r] Cons.prems by auto
  show ?case
  proof (cases k)
    case Nil
    then show ?thesis using c(1) by (subst key_loop.simps) (cases c; simp add: peek_def)
  next
    case (Cons x k')
    then have x: "unat x < 0x80" "x \<noteq> 0x22" "key_ok k'" using Cons.prems(1) by (auto simp: key_ok_def word_less_nat_alt)
    have step: "key_loop (length r + 1) (c @ ?r) (k @ [0x22]) \<longleftrightarrow>
        fst (key_char (c @ ?r)) = ucast x \<and> key_loop (length r + 1) (snd (key_char (c @ ?r))) (k' @ [0x22])"
      using c(1) x(2) Cons by (subst key_loop.simps) (cases "key_char (c @ ?r)"; cases c; simp add: peek_def)
    from c(2) show ?thesis
    proof (elim disjE conjE)
      assume e: "key_char (c @ ?r) = (of_nat (char_value c), ?r)" "char_value c < 65536"
      have u: "unat (of_nat (char_value c) :: u32) = char_value c" using e(2) by (simp add: unat_of_nat)
      have "of_nat (char_value c) = (ucast x :: u32) \<longleftrightarrow> char_value c = unat x"
        using u by (metis unat_ucast_widen(1) word_unat_eq_iff)
      then show ?thesis using step e(1) Cons Cons.IH [OF x(3)] Cons.prems(2,3) by simp
    next
      assume e: "0x80 \<le> char_value c" "0x80 \<le> unat (fst (key_char (c @ ?r)))"
      then have "fst (key_char (c @ ?r)) \<noteq> ucast x" using x(1) by auto
      then show ?thesis using step e(1) Cons x(1) by simp
    qed
  qed
qed

lemma key_equal_exact:
  assumes "key_ok k" and "list_all jchar cs" and "\<not> list_ex control_escape cs"
  shows "lsp_json_key_equal (0x22 # concat cs @ 0x22 # r) r (0x22 # k @ [0x22]) \<longleftrightarrow> map char_value cs = map unat k"
  using key_loop_exact [OF assms] by (simp add: lsp_json_key_equal_def)

subsection \<open>Documents\<close>

text \<open>A document with its blanks: \<open>Node object w es\<close> is a container with the entries \<open>es\<close>, \<open>Entry w0 name w1 w2 v w3 es\<close>
  an entry of value \<open>v\<close> and, in an object, of name \<open>name\<close>.\<close>

datatype jdoc = Scalar bytes | Node bool bytes jentries
  and jentries = NoEntry | Entry bytes "bytes list" bytes bytes jdoc bytes jentries

primrec doc_text :: "jdoc \<Rightarrow> bytes" and entries_text :: "bool \<Rightarrow> jentries \<Rightarrow> bytes" where
  "doc_text (Scalar s) = s"
| "doc_text (Node object w es) = opener object # w @ entries_text object es @ [closer object]"
| "entries_text object NoEntry = []"
| "entries_text object (Entry w0 name w1 w2 v w3 es) =
     w0 @ (if object then 0x22 # concat name @ 0x22 # w1 @ 0x3A # w2 else []) @ doc_text v @ w3
     @ (if es = NoEntry then [] else 0x2C # entries_text object es)"

primrec doc_ok :: "jdoc \<Rightarrow> nat \<Rightarrow> bool" and entries_ok :: "jentries \<Rightarrow> nat \<Rightarrow> bool" where
  "doc_ok (Scalar s) d \<longleftrightarrow> s \<in> {cstr ''true'', cstr ''false'', cstr ''null''} \<or> jnumber s \<or> jstring s"
| "doc_ok (Node object w es) d \<longleftrightarrow> spaces w \<and> (es = NoEntry \<or> 0 < d \<and> entries_ok es (d - 1))"
| "entries_ok NoEntry d \<longleftrightarrow> True"
| "entries_ok (Entry w0 name w1 w2 v w3 es) d \<longleftrightarrow>
     spaces w0 \<and> list_all jchar name \<and> spaces w1 \<and> spaces w2 \<and> doc_ok v d \<and> spaces w3 \<and> entries_ok es d"

text \<open>No name has an escape for a control character.\<close>

primrec plain_doc :: "jdoc \<Rightarrow> bool" and plain_entries :: "jentries \<Rightarrow> bool" where
  "plain_doc (Scalar s) \<longleftrightarrow> True"
| "plain_doc (Node object w es) \<longleftrightarrow> plain_entries es"
| "plain_entries NoEntry \<longleftrightarrow> True"
| "plain_entries (Entry w0 name w1 w2 v w3 es) \<longleftrightarrow> \<not> list_ex control_escape name \<and> plain_doc v \<and> plain_entries es"

text \<open>The first member with a name, and the field with that name: a member of the document itself, or else the first
  field in the order of its entries.\<close>

primrec member_named :: "bytes \<Rightarrow> jentries \<Rightarrow> jdoc option" where
  "member_named k NoEntry = None"
| "member_named k (Entry w0 name w1 w2 v w3 es) = (if map char_value name = map unat k then Some v else member_named k es)"

primrec field_named :: "bytes \<Rightarrow> jdoc \<Rightarrow> jdoc option" and field_in :: "bytes \<Rightarrow> jentries \<Rightarrow> jdoc option" where
  "field_named k (Scalar s) = None"
| "field_named k (Node object w es) =
     (case (if object then member_named k es else None) of Some v \<Rightarrow> Some v | None \<Rightarrow> field_in k es)"
| "field_in k NoEntry = None"
| "field_in k (Entry w0 name w1 w2 v w3 es) = (case field_named k v of Some u \<Rightarrow> Some u | None \<Rightarrow> field_in k es)"

lemma doc_value:
  "doc_ok v d \<Longrightarrow> jvalue d (doc_text v)"
  "entries_ok es d \<Longrightarrow> es \<noteq> NoEntry \<Longrightarrow> \<exists>w s. spaces w \<and> jitems object d s \<and> entries_text object es = w @ s"
proof (induction v and es arbitrary: d and d object)
  case (Scalar s)
  then show ?case using jvalue_jentry_jitems.literal jvalue_jentry_jitems.number jvalue_jentry_jitems.str by auto
next
  case (Node object w es)
  show ?case
  proof (cases "es = NoEntry")
    case True
    then show ?thesis using Node.prems jvalue_jentry_jitems.empty by simp
  next
    case False
    then obtain w' s where w: "spaces w'" "jitems object (d - 1) s" "entries_text object es = w' @ s"
      using Node.IH [of "d - 1" object] Node.prems by auto
    have "jvalue (Suc (d - 1)) (opener object # (w @ w') @ s @ [closer object])"
      by (rule jvalue_jentry_jitems.full [OF _ w(2)]) (use w(1) Node.prems in simp)
    then show ?thesis using w(3) Node.prems False by simp
  qed
next
  case (Entry w0 name w1 w2 v w3 es)
  note ok = Entry.prems(1) [simplified]
  let ?k = "0x22 # concat name @ [0x22]"
  have v: "jvalue d (doc_text v)" using Entry.IH(1) ok by simp
  have k: "jstring ?k" using ok by (auto simp: jstring_def)
  define s where "s = (if object then ?k @ w1 @ 0x3A # w2 else []) @ doc_text v @ w3"
  have s: "jentry object d s"
    using jvalue_jentry_jitems.element [OF v, of w3] jvalue_jentry_jitems.member [OF k _ _ v, of w1 w2 w3] ok by (simp add: s_def)
  have t: "entries_text object (Entry w0 name w1 w2 v w3 es) = w0 @ s @ (if es = NoEntry then [] else 0x2C # entries_text object es)"
    by (simp add: s_def)
  show ?case
  proof (cases "es = NoEntry")
    case True
    then show ?thesis using t jvalue_jentry_jitems.last [OF s] ok by auto
  next
    case False
    then obtain w u where w: "spaces w" "jitems object d u" "entries_text object es = w @ u" using Entry.IH(2) ok by blast
    then show ?thesis using t False jvalue_jentry_jitems.more [OF s w(1,2)] ok by auto
  qed
qed simp

text \<open>Every value of the grammar is a document, so nothing is lost by talking about documents.\<close>

lemma value_doc:
  "jvalue d s \<Longrightarrow> \<exists>v. doc_ok v d \<and> doc_text v = s"
  "jentry object d s \<Longrightarrow> \<exists>name w1 w2 v w3. list_all jchar name \<and> spaces w1 \<and> spaces w2 \<and> doc_ok v d \<and> spaces w3 \<and>
     s = (if object then 0x22 # concat name @ 0x22 # w1 @ 0x3A # w2 else []) @ doc_text v @ w3"
  "jitems object d s \<Longrightarrow> spaces w \<Longrightarrow> \<exists>es. es \<noteq> NoEntry \<and> entries_ok es d \<and> entries_text object es = w @ s"
proof (induction arbitrary: and and w rule: jvalue_jentry_jitems.inducts)
  case (literal s d)
  then show ?case by (intro exI [of _ "Scalar s"]) simp
next
  case (number s d)
  then show ?case by (intro exI [of _ "Scalar s"]) simp
next
  case (str s d)
  then show ?case by (intro exI [of _ "Scalar s"]) simp
next
  case (empty w d object)
  then show ?case by (intro exI [of _ "Node object w NoEntry"]) simp
next
  case (full w object d s)
  obtain es where "es \<noteq> NoEntry" "entries_ok es d" "entries_text object es = s" using full.IH [of "[]"] by auto
  then show ?case using full.hyps(1) by (intro exI [of _ "Node object w es"]) simp
next
  case (element d v w)
  then obtain u where "doc_ok u d" "doc_text u = v" by blast
  then show ?case using element.hyps(2) by (intro exI [of _ "[]"] exI [of _ u] exI [of _ w]) simp
next
  case (member k w1 w2 d v w3)
  then obtain u where u: "doc_ok u d" "doc_text u = v" by blast
  obtain name where "list_all jchar name" "k = 0x22 # concat name @ [0x22]" using member.hyps(1) by (auto simp: jstring_def)
  then show ?case using u member.hyps
    by (intro exI [of _ name] exI [of _ w1] exI [of _ w2] exI [of _ u] exI [of _ w3]) simp
next
  case (last object d s)
  then obtain name w1 w2 v w3 where "list_all jchar name \<and> spaces w1 \<and> spaces w2 \<and> doc_ok v d \<and> spaces w3"
    "s = (if object then 0x22 # concat name @ 0x22 # w1 @ 0x3A # w2 else []) @ doc_text v @ w3" by blast
  then show ?case using last.prems by (intro exI [of _ "Entry w name w1 w2 v w3 NoEntry"]) simp
next
  case (more object d s w' t)
  then obtain name w1 w2 v w3 where e: "list_all jchar name \<and> spaces w1 \<and> spaces w2 \<and> doc_ok v d \<and> spaces w3"
    "s = (if object then 0x22 # concat name @ 0x22 # w1 @ 0x3A # w2 else []) @ doc_text v @ w3" by blast
  obtain es where "es \<noteq> NoEntry" "entries_ok es d" "entries_text object es = w' @ t" using more.IH(2) [of w'] more.hyps(2) by blast
  then show ?case using e more.prems by (intro exI [of _ "Entry w name w1 w2 v w3 es"]) simp
qed

lemma doc_end: "doc_ok v d \<Longrightarrow> d \<le> 128 \<Longrightarrow> follow r \<Longrightarrow> spaces w \<Longrightarrow> lsp_json_end (w @ doc_text v @ r) 0 = Some r"
  by (rule lsp_json_end_complete(1) [OF doc_value(1)]) simp_all

text \<open>What stands behind a value in a container: blanks, then a comma or the closing bracket.\<close>

definition entries_rest :: "bool \<Rightarrow> jentries \<Rightarrow> bytes \<Rightarrow> bytes" where
  "entries_rest object es r = (if es = NoEntry then [] else 0x2C # entries_text object es) @ closer object # r"

lemma rest_follow: "spaces w \<Longrightarrow> follow (w @ entries_rest object es r)" "\<not> is_space (peek (entries_rest object es r))"
  by (intro spaces_follow, assumption) (auto simp: entries_rest_def follow_def peek_def closer_def is_digit_def is_space_def)

lemma rest_space: "spaces w \<Longrightarrow> lsp_json_space (w @ entries_rest object es r) = entries_rest object es r"
  by (rule space_trim [OF _ rest_follow(2)])

lemma rest_peek:
  "peek (entries_rest object es r) = 0x2C \<longleftrightarrow> es \<noteq> NoEntry"
  "es \<noteq> NoEntry \<Longrightarrow> tl (entries_rest object es r) = entries_text object es @ closer object # r"
  by (auto simp: entries_rest_def peek_def closer_def)

lemma value_space:
  assumes "doc_ok v d" and "spaces w"
  shows "lsp_json_space (w @ doc_text v @ r) = doc_text v @ r" and "peek (doc_text v @ r) \<noteq> 0"
    and "peek (doc_text v @ r) \<noteq> 0x7D" and "peek (doc_text v @ r) \<noteq> 0x5D"
  using starts(1) [OF doc_value(1) [OF assms(1)], of r] assms(2) by (auto intro: space_trim simp: starter_def)

text \<open>The loop of \<open>lsp_json_member\<close> over the entries of an object.\<close>

lemma member_loop_exact:
  assumes "key_ok k"
  shows "entries_ok es d \<Longrightarrow> plain_entries es \<Longrightarrow> d \<le> 128 \<Longrightarrow>
    (case member_named k es of
       None \<Rightarrow> member_loop (lsp_json_space (entries_text True es @ 0x7D # r)) (0x22 # k @ [0x22]) = None
     | Some v \<Rightarrow> \<exists>q. member_loop (lsp_json_space (entries_text True es @ 0x7D # r)) (0x22 # k @ [0x22]) = Some (doc_text v @ q))"
proof (induction es arbitrary: rule: jentries.induct [where ?P1.0 = "\<lambda>_. True"])
  case NoEntry
  then show ?case by (subst member_loop.simps) (simp add: lsp_json_space_def is_space_def peek_def)
next
  case (Entry w0 name w1 w2 v w3 es)
  note ok = Entry.prems(1) [simplified]
  let ?key = "0x22 # k @ [0x22]" and ?rest = "w3 @ entries_rest True es r"
  define e where "e = w1 @ 0x3A # w2 @ doc_text v @ ?rest"
  let ?name = "0x22 # concat name @ 0x22 # e"
  have p: "lsp_json_space (entries_text True (Entry w0 name w1 w2 v w3 es) @ 0x7D # r) = ?name"
  proof -
    have "entries_text True (Entry w0 name w1 w2 v w3 es) @ 0x7D # r = w0 @ ?name" by (simp add: e_def entries_rest_def closer_def)
    then show ?thesis using ok space_trim [of w0 ?name] by (simp add: peek_def is_space_def)
  qed
  have n: "lsp_json_end ?name 0 = Some e"
  proof -
    have "jstring (0x22 # concat name @ [0x22])" using ok by (auto simp: jstring_def)
    then show ?thesis using string_end [of "0x22 # concat name @ [0x22]" 0 "[]" e] by simp
  qed
  have c: "lsp_json_space e = 0x3A # w2 @ doc_text v @ ?rest" unfolding e_def using ok by (intro space_trim) (simp_all add: peek_def is_space_def)
  have v: "lsp_json_space (w2 @ doc_text v @ ?rest) = doc_text v @ ?rest" by (rule value_space [of v d]) (use ok in simp_all)
  have ve: "lsp_json_end (doc_text v @ ?rest) 0 = Some ?rest"
    using doc_end [of v d ?rest "[]"] ok Entry.prems(3) rest_follow(1) by simp
  have s: "lsp_json_space ?rest = entries_rest True es r" by (rule rest_space) (use ok in simp)
  have m: "lsp_json_key_equal ?name e ?key \<longleftrightarrow> map char_value name = map unat k"
    by (rule key_equal_exact [OF assms]) (use ok Entry.prems(2) in simp_all)
  have step: "member_loop ?name ?key = (if map char_value name = map unat k then Some (doc_text v @ ?rest)
      else if es = NoEntry then None else member_loop (lsp_json_space (entries_text True es @ 0x7D # r)) ?key)"
    by (subst member_loop.simps) (simp add: peek_def [of "_ # _"] n m c v ve s rest_peek closer_def)
  show ?case unfolding p step using Entry.IH ok Entry.prems by (auto split: option.splits)
qed simp_all

lemma space_skip: "spaces w \<Longrightarrow> lsp_json_space (w @ p) = lsp_json_space p"
  by (simp add: lsp_json_space_def list_all_iff dropWhile_append2)

lemma scalar_peek:
  assumes "doc_ok (Scalar s) d" and "follow r"
  shows "peek (s @ r) \<noteq> 0x7B" "peek (s @ r) \<noteq> 0x5B"
  using assms json_number_complete(2) [of s r] by (auto simp: peek_def jstring_def is_digit_def)

text \<open>One round of the loop of \<open>lsp_json_find\<close>.\<close>

lemma find_loop_entry:
  fixes object :: bool and r :: bytes
  assumes "entries_ok (Entry w0 name w1 w2 v w3 es) d" and "d \<le> 128"
  defines "q \<equiv> (if object then w2 else []) @ doc_text v @ w3 @ entries_rest object es r"
  shows "find_loop object (lsp_json_space (entries_text object (Entry w0 name w1 w2 v w3 es) @ closer object # r)) key =
    (case lsp_json_find q key of Some found \<Rightarrow> Some found
     | None \<Rightarrow> if es = NoEntry then None else find_loop object (lsp_json_space (entries_text object es @ closer object # r)) key)"
proof -
  note ok = assms(1) [simplified]
  let ?rest = "w3 @ entries_rest object es r" and ?k = "0x22 # concat name @ [0x22]"
  define p where "p = (if object then ?k @ w1 @ [0x3A] else []) @ q"
  have sp: "spaces (if object then w2 else [])" using ok by simp
  have "lsp_json_space (entries_text object (Entry w0 name w1 w2 v w3 es) @ closer object # r) = lsp_json_space p"
  proof -
    have "entries_text object (Entry w0 name w1 w2 v w3 es) @ closer object # r = w0 @ p" by (simp add: p_def q_def entries_rest_def)
    then show ?thesis using space_skip [of w0 p] ok by simp
  qed
  also have "lsp_json_space p = p"
    using value_space(1) [of v d "[]" ?rest] ok space_trim [of "[]" p] by (cases object) (simp_all add: p_def q_def peek_def is_space_def)
  finally have 1: "lsp_json_space (entries_text object (Entry w0 name w1 w2 v w3 es) @ closer object # r) = p" .
  have 2: "peek p \<noteq> 0" "peek p \<noteq> 0x7D" "peek p \<noteq> 0x5D"
    using value_space(2-4) [of v d "[]" ?rest] ok by (cases object; simp add: p_def q_def peek_def)+
  have 3: "find_value object p = Some q"
  proof (cases object)
    case True
    have "jstring ?k" using ok by (auto simp: jstring_def)
    then have "lsp_json_end p 0 = Some (w1 @ 0x3A # q)" using True string_end [of ?k 0 "[]" "w1 @ 0x3A # q"] by (simp add: p_def)
    moreover have "lsp_json_space (w1 @ 0x3A # q) = 0x3A # q" using ok by (intro space_trim) (simp_all add: peek_def is_space_def)
    ultimately show ?thesis using True by (simp add: find_value_def peek_def)
  qed (simp add: find_value_def p_def)
  have 4: "lsp_json_end q 0 = Some ?rest"
    unfolding q_def using ok assms(2) rest_follow(1) by (intro doc_end [OF _ _ _ sp]) simp_all
  have 5: "lsp_json_space ?rest = entries_rest object es r" by (rule rest_space) (use ok in simp)
  show ?thesis unfolding 1 by (subst find_loop.simps) (simp only: 2 3 4 5 Let_def rest_peek(1) option.case simp_thms if_False not_not, simp add: rest_peek(2) split: option.split)
qed

lemma lsp_json_find_exact:
  assumes key: "key_ok k"
  shows "doc_ok v d \<Longrightarrow> plain_doc v \<Longrightarrow> d \<le> 128 \<Longrightarrow> follow r \<Longrightarrow> spaces w \<Longrightarrow>
      (case field_named k v of
         None \<Rightarrow> lsp_json_find (w @ doc_text v @ r) (0x22 # k @ [0x22]) = None
       | Some u \<Rightarrow> \<exists>q. lsp_json_find (w @ doc_text v @ r) (0x22 # k @ [0x22]) = Some (doc_text u @ q))"
    and "entries_ok es d \<Longrightarrow> plain_entries es \<Longrightarrow> d \<le> 128 \<Longrightarrow>
      (case field_in k es of
         None \<Rightarrow> find_loop object (lsp_json_space (entries_text object es @ closer object # r)) (0x22 # k @ [0x22]) = None
       | Some u \<Rightarrow> \<exists>q. find_loop object (lsp_json_space (entries_text object es @ closer object # r)) (0x22 # k @ [0x22]) = Some (doc_text u @ q))"
proof (induction v and es arbitrary: d r w and d r object)
  case (Scalar s)
  have "lsp_json_space (w @ s @ r) = s @ r" using value_space(1) [OF Scalar.prems(1,5)] by simp
  moreover have "lsp_json_space (s @ r) = s @ r" using value_space(1) [OF Scalar.prems(1), of "[]" r] by simp
  ultimately show ?case using scalar_peek [OF Scalar.prems(1,4)]
    by (subst lsp_json_find.simps) (simp add: Let_def lsp_json_member_def)
next
  case (Node object w' es)
  let ?key = "0x22 # k @ [0x22]" and ?t = "entries_text object es @ closer object # r" and ?p = "doc_text (Node object w' es) @ r"
  have p: "?p = opener object # w' @ ?t" by simp
  have sp: "lsp_json_space (w @ ?p) = ?p" "lsp_json_space ?p = ?p"
    using value_space(1) [OF Node.prems(1,5)] value_space(1) [OF Node.prems(1), of "[]"] by simp_all
  have tl: "lsp_json_space (tl ?p) = lsp_json_space ?t" unfolding p using space_skip [of w'] Node.prems(1) by simp
  have pk: "peek ?p = opener object" by (simp add: peek_def)
  have op: "(opener object = 0x7B) = object" "(opener object = 0x5B) = (\<not> object)" by (simp_all add: opener_def)
  have ok: "entries_ok es (d - 1)" "plain_entries es" "d - 1 \<le> 128" using Node.prems by auto
  have m: "lsp_json_member ?p ?key = (if object then member_loop (lsp_json_space ?t) ?key else None)"
    unfolding lsp_json_member_def sp Let_def tl pk by (simp add: opener_def)
  have "lsp_json_find (w @ ?p) ?key = (case lsp_json_member ?p ?key of Some u \<Rightarrow> Some u | None \<Rightarrow> find_loop object (lsp_json_space ?t) ?key)"
    by (subst lsp_json_find.simps) (simp only: sp Let_def tl pk op not_not simp_thms if_False cong: option.case_cong)
  note f = this [unfolded m]
  show ?case unfolding f
    using member_loop_exact [OF key ok, of r] Node.IH [OF ok, of object r] by (auto simp: closer_def split: option.splits if_splits)
next
  case NoEntry
  then show ?case by (subst find_loop.simps) (simp add: lsp_json_space_def is_space_def peek_def closer_def)
next
  case (Entry w0 name w1 w2 v w3 es)
  let ?w = "if object then w2 else []"
  have f: "follow (w3 @ entries_rest object es r)" "spaces ?w" using rest_follow(1) Entry.prems(1) by simp_all
  define F where "F = lsp_json_find (?w @ doc_text v @ w3 @ entries_rest object es r) (0x22 # k @ [0x22])"
  define L where "L = find_loop object (lsp_json_space (entries_text object es @ closer object # r)) (0x22 # k @ [0x22])"
  have F: "case field_named k v of None \<Rightarrow> F = None | Some u \<Rightarrow> \<exists>q. F = Some (doc_text u @ q)"
    unfolding F_def using Entry.prems by (intro Entry.IH(1) [OF _ _ Entry.prems(3) f]) simp_all
  have L: "case field_in k es of None \<Rightarrow> L = None | Some u \<Rightarrow> \<exists>q. L = Some (doc_text u @ q)"
    unfolding L_def using Entry.prems by (intro Entry.IH(2) [OF _ _ Entry.prems(3)]) simp_all
  show ?case unfolding find_loop_entry [OF Entry.prems(1,3)] F_def [symmetric] L_def [symmetric]
  proof (cases "es = NoEntry")
    case True
    then show "case field_in k (Entry w0 name w1 w2 v w3 es) of
        None \<Rightarrow> (case F of None \<Rightarrow> if es = NoEntry then None else L | Some found \<Rightarrow> Some found) = None
      | Some u \<Rightarrow> \<exists>q. (case F of None \<Rightarrow> if es = NoEntry then None else L | Some found \<Rightarrow> Some found) = Some (doc_text u @ q)"
      using F by (auto split: option.splits)
  next
    case False
    then show "case field_in k (Entry w0 name w1 w2 v w3 es) of
        None \<Rightarrow> (case F of None \<Rightarrow> if es = NoEntry then None else L | Some found \<Rightarrow> Some found) = None
      | Some u \<Rightarrow> \<exists>q. (case F of None \<Rightarrow> if es = NoEntry then None else L | Some found \<Rightarrow> Some found) = Some (doc_text u @ q)"
      using F L by (auto split: option.splits)
  qed
qed

text \<open>C40: \<open>lsp_json_find\<close> answers like a search through the document. For every valid document with any blanks, in
  which no name escapes a control character, and every ASCII key, the result points at the value of the first member
  with that name, or of the first one inside an entry in document order when the document has no such member itself, and
  is null exactly when no object of the document has such a member.\<close>

theorem find_refines:
  assumes "key_ok k" and "doc_ok v 128" and "plain_doc v" and "spaces w" and "spaces w'"
  shows "case field_named k v of
      None \<Rightarrow> lsp_json_find (w @ doc_text v @ w') (0x22 # k @ [0x22]) = None
    | Some u \<Rightarrow> \<exists>q. lsp_json_find (w @ doc_text v @ w') (0x22 # k @ [0x22]) = Some (doc_text u @ q)"
proof (rule lsp_json_find_exact(1) [OF assms(1-3) _ _ assms(4)])
  show "follow w'" using spaces_follow [OF assms(5), of "[]"] by (simp add: follow_def peek_def is_digit_def)
qed simp

text \<open>The document \<open>{"a":[{"id":7}, 1] ,"b" :2}\<close>.\<close>

definition sample_doc :: jdoc where
  "sample_doc = Node True [] (Entry [] [[0x61]] [] [] (Node False [] (Entry [] [] [] [] (Node True [] (Entry [] [[0x69], [0x5C, 0x75, 0x30, 0x30, 0x36, 0x34]] [] [] (Scalar [0x37]) [] NoEntry)) [] (Entry [0x20] [] [] [] (Scalar [0x31]) [] NoEntry))) [0x20]
     (Entry [] [[0x62]] [0x20] [] (Scalar [0x32]) [] NoEntry))"

theorem find_refines_witness:
  "\<exists>q. lsp_json_find (doc_text sample_doc @ [0x0A]) (cstr [CHR 0x22] @ cstr ''id'' @ cstr [CHR 0x22]) = Some (0x37 # q)"
proof -
  have n: "jnumber [c]" if "is_digit c" for c
    unfolding jnumber_def by (rule exI [of _ "[]"], rule exI [of _ "[c]"]) (use that in \<open>simp add: jdigits_def\<close>)
  have c: "jchar [0x61]" "jchar [0x62]" "jchar [0x69]" "jchar [0x5C, 0x75, 0x30, 0x30, 0x36, 0x34]"
    by (intro jchar.plain jchar.unicode; simp add: is_xdigit_def is_digit_def)+
  have ok: "doc_ok sample_doc 128"
    by (simp add: sample_doc_def c n is_space_def is_digit_def)
  moreover have "plain_doc sample_doc" "key_ok (cstr ''id'')" by code_simp+
  moreover have "field_named (cstr ''id'') sample_doc = Some (Scalar [0x37])"
    by (simp add: sample_doc_def char_value_def xdigit_value_def)
  ultimately show ?thesis using find_refines [of "cstr ''id''" sample_doc "[]" "[0x0A]"] by (simp add: is_space_def)
qed

text \<open>An escaped control character is compared as the letter of the escape: a member named with a line feed answers to
  the key \<open>n\<close>.\<close>

lemma control_escape_mistaken:
  "lsp_json_member (cstr ''{'' @ [0x22, 0x5C, 0x6E, 0x22] @ cstr '':1}'') [0x22, 0x6E, 0x22] = Some (cstr ''1}'')"
  by code_simp

text \<open>\<open>lsp_json_size\<close> reads a number that fits and is followed by the end of a value, and nothing else.\<close>

lemma size_exact:
  assumes "jdigits ds" and "\<not> is_digit (peek r)"
  shows "lsp_json_size (Some (ds @ r)) =
    (let n = foldl (\<lambda>n c. n * 10 + (unat c - 0x30)) 0 ds in
     if n < 2 ^ 64 \<and> (peek r = 0 \<or> is_space (peek r) \<or> peek r \<in> {0x2C, 0x7D, 0x5D}) then Some (of_nat n) else None)"
proof -
  have all: "\<forall>x\<in>set ds. is_digit x" "ds \<noteq> []" using assms(1) by (auto simp: jdigits_def list_all_iff)
  have r: "takeWhile is_digit r = []" "dropWhile is_digit r = r" using assms(2) by (cases r; simp add: peek_def)+
  have d: "takeWhile is_digit (ds @ r) = ds" "dropWhile is_digit (ds @ r) = r" "is_digit (peek (ds @ r))"
    using all(1) r all by (simp_all add: takeWhile_append2 dropWhile_append2) (cases ds; simp add: peek_def)
  show ?thesis unfolding lsp_json_size_def option.case d(1,2) Let_def by (auto simp: is_space_def d(3))
qed

end
